(* ===== verification/Prelude.thy ===== *)
theory Prelude
  imports Main "HOL-Library.AList" "HOL-Library.Sublist"
begin

text \<open>
  What the components share.

  \<^item> JavaScript strings: a string is its list of UTF-16 code units (\<open>jstr\<close>), each a \<open>nat\<close>
    below \<open>65536\<close> (\<open>wf_str\<close>), so \<open>s.length\<close> is \<open>length s\<close> and \<open>s.charCodeAt(i)\<close> is
    \<open>s ! i\<close>. \<open>js\<close> writes an ASCII literal. \<open>slice\<close>, \<open>index_of\<close>, \<open>split_on\<close> and
    \<open>join_with\<close> are the string methods the sources call, at the arguments they call them with
    (never a negative index).
  \<^item> JavaScript \<open>Map\<close>s iterate in insertion order, and setting a present key keeps its place:
    that is \<open>AList.update\<close> on an association list with distinct keys; \<open>map_of\<close> reads it.
  \<^item> \<open>jmap_simps\<close> collects the facts about insertion-ordered maps, \<open>str_simps\<close> those about strings.
\<close>

named_theorems jmap_simps "insertion-ordered maps"
named_theorems str_simps "JavaScript string operations"

section \<open>Strings\<close>

type_synonym jstr = "nat list"

definition js :: "string \<Rightarrow> jstr" where
  "js s = map of_char s"

lemma js_Nil [simp]: "js [] = []"
  by (simp add: js_def)

lemma js_Cons [simp]: "js (c # cs) = of_char c # js cs"
  by (simp add: js_def)

definition wf_str :: "jstr \<Rightarrow> bool" where
  "wf_str s \<longleftrightarrow> list_all (\<lambda>c. c < 65536) s"

lemma wf_str_Nil [simp]: "wf_str []"
  by (simp add: wf_str_def)

lemma wf_str_Cons [simp]: "wf_str (c # s) \<longleftrightarrow> c < 65536 \<and> wf_str s"
  by (simp add: wf_str_def)

text \<open>\<open>s.slice(a, b)\<close> for \<open>0 \<le> a\<close> and \<open>b \<le> length s\<close>: empty when \<open>b \<le> a\<close>.\<close>

definition slice :: "'a list \<Rightarrow> nat \<Rightarrow> nat \<Rightarrow> 'a list" where
  "slice s a b = take (b - a) (drop a s)"

lemma slice_self [simp]: "slice s a a = []"
  by (simp add: slice_def)

lemma slice_to_end [simp]: "slice s a (length s) = drop a s"
  by (simp add: slice_def)

lemma length_slice [simp]: "length (slice s a b) = min (b - a) (length s - a)"
  by (simp add: slice_def min.commute)

lemma slice_snoc:
  "a \<le> b \<Longrightarrow> b < length s \<Longrightarrow> slice s a (Suc b) = slice s a b @ [s ! b]"
  by (simp add: slice_def Suc_diff_le take_Suc_conv_app_nth)

lemma slice_append_drop:
  "a \<le> b \<Longrightarrow> slice s a b @ drop b s = drop a s"
  by (simp add: slice_def) (metis append_take_drop_id drop_drop le_add_diff_inverse2)

text \<open>\<open>s.indexOf(pat, from)\<close>, \<open>None\<close> for \<open>-1\<close>: the first occurrence at or after \<open>from\<close>.\<close>

primrec find_sub :: "jstr \<Rightarrow> jstr \<Rightarrow> nat option" where
  "find_sub pat [] = (if pat = [] then Some 0 else None)"
| "find_sub pat (c # cs) =
     (if prefix pat (c # cs) then Some 0 else map_option Suc (find_sub pat cs))"

definition index_of :: "jstr \<Rightarrow> jstr \<Rightarrow> nat \<Rightarrow> nat option" where
  "index_of s pat from =
     (let f = min from (length s) in map_option (\<lambda>i. f + i) (find_sub pat (drop f s)))"

lemma find_sub_Some:
  "find_sub pat s = Some i \<Longrightarrow> i + length pat \<le> length s \<and> prefix pat (drop i s)"
proof (induction s arbitrary: i)
  case (Cons c cs)
  then show ?case
    by (auto split: if_splits dest: prefix_length_le)
qed (auto split: if_splits)

lemma find_sub_first:
  "find_sub pat s = Some i \<Longrightarrow> j < i \<Longrightarrow> \<not> prefix pat (drop j s)"
proof (induction s arbitrary: i j)
  case (Cons c cs)
  then show ?case
    by (cases j) (auto split: if_splits)
qed (auto split: if_splits)

lemma find_sub_None:
  "find_sub pat s = None \<Longrightarrow> \<not> prefix pat (drop j s)"
proof (induction s arbitrary: j)
  case (Cons c cs)
  then show ?case
    by (cases j) (auto split: if_splits)
qed (auto split: if_splits)

text \<open>\<open>s.split(sep)\<close> for a one-character separator; \<open>parts.join(sep)\<close>.\<close>

fun split_on :: "nat \<Rightarrow> jstr \<Rightarrow> jstr list" where
  "split_on sep [] = [[]]"
| "split_on sep (c # cs) =
     (if c = sep then [] # split_on sep cs
      else (case split_on sep cs of [] \<Rightarrow> [[c]] | p # ps \<Rightarrow> (c # p) # ps))"

fun join_with :: "jstr \<Rightarrow> jstr list \<Rightarrow> jstr" where
  "join_with sep [] = []"
| "join_with sep [p] = p"
| "join_with sep (p # q # ps) = p @ sep @ join_with sep (q # ps)"

lemma split_on_not_Nil [simp]: "split_on sep s \<noteq> []"
  by (induction s) (auto split: list.splits)

lemma join_with_Cons_char [simp]:
  "join_with sep ((c # p) # ps) = c # join_with sep (p # ps)"
  by (cases ps) simp_all

lemma join_with_Nil_Cons [simp]:
  "ps \<noteq> [] \<Longrightarrow> join_with sep ([] # ps) = sep @ join_with sep ps"
  by (cases ps) simp_all

lemma join_split: "join_with [sep] (split_on sep s) = s"
proof (induction s)
  case (Cons c cs)
  obtain p ps where "split_on sep cs = p # ps"
    by (cases "split_on sep cs") simp_all
  with Cons show ?case
    by simp
qed simp

lemma split_on_no_sep: "p \<in> set (split_on sep s) \<Longrightarrow> sep \<notin> set p"
  by (induction s arbitrary: p) (auto split: list.splits if_splits)

lemma split_on_append [simp]:
  "sep \<notin> set p \<Longrightarrow> split_on sep (p @ sep # q) = p # split_on sep q"
  by (induction p) auto

lemma split_on_free [simp]: "sep \<notin> set p \<Longrightarrow> split_on sep p = [p]"
  by (induction p) auto

lemma split_join:
  "ps \<noteq> [] \<Longrightarrow> \<forall>p \<in> set ps. sep \<notin> set p \<Longrightarrow> split_on sep (join_with [sep] ps) = ps"
  by (induction "[sep]" ps rule: join_with.induct) simp_all

lemma set_join_with: "set (join_with sep ps) \<subseteq> set sep \<union> \<Union> (set ` set ps)"
  by (induction sep ps rule: join_with.induct) auto

text \<open>What \<open>\s\<close> matches, and \<open>s.trim()\<close>.\<close>

definition is_space :: "nat \<Rightarrow> bool" where
  "is_space c \<longleftrightarrow>
     9 \<le> c \<and> c \<le> 13 \<or> c = 32 \<or> c = 160 \<or> c = 5760 \<or> 8192 \<le> c \<and> c \<le> 8202 \<or> c = 8232 \<or> c = 8233 \<or> c = 8239
     \<or> c = 8287 \<or> c = 12288 \<or> c = 65279"

definition trim :: "jstr \<Rightarrow> jstr" where
  "trim s = rev (dropWhile is_space (rev (dropWhile is_space s)))"

lemma trim_id: "s \<noteq> [] \<Longrightarrow> \<not> is_space (hd s) \<Longrightarrow> \<not> is_space (last s) \<Longrightarrow> trim s = s"
proof -
  assume a: "s \<noteq> []" "\<not> is_space (hd s)" "\<not> is_space (last s)"
  have "dropWhile is_space s = s" using a(1,2) by (cases s) auto
  moreover have "dropWhile is_space (rev s) = rev s" using a(1,3) by (cases "rev s") (auto simp: hd_rev [symmetric])
  ultimately show ?thesis by (simp add: trim_def)
qed

section \<open>Insertion-ordered maps\<close>

type_synonym ('k, 'v) jmap = "('k \<times> 'v) list"

abbreviation jm_wf :: "('k, 'v) jmap \<Rightarrow> bool" where
  "jm_wf m \<equiv> distinct (map fst m)"

lemma jm_get_set [jmap_simps]:
  "map_of (AList.update k v m) = (map_of m)(k \<mapsto> v)"
  by (rule update_conv')

lemma jm_get_delete [jmap_simps]:
  "map_of (AList.delete k m) = (map_of m)(k := None)"
  by (rule delete_conv')

lemma jm_wf_set [simp, intro]: "jm_wf m \<Longrightarrow> jm_wf (AList.update k v m)"
  by (rule distinct_update)

lemma jm_wf_delete [simp, intro]: "jm_wf m \<Longrightarrow> jm_wf (AList.delete k m)"
  by (rule distinct_delete)

lemma map_of_filter_wf:
  "jm_wf m \<Longrightarrow> map_of (filter P m) k = (case map_of m k of None \<Rightarrow> None | Some v \<Rightarrow> if P (k, v) then Some v else None)"
proof (induction m)
  case (Cons x m)
  then have "fst x \<notin> dom (map_of m)" by (simp add: dom_map_of_conv_image_fst)
  with Cons show ?case by (cases x) (auto split: option.splits)
qed simp

lemma AList_update_new: "k \<notin> fst ` set xs \<Longrightarrow> AList.update k v xs = xs @ [(k, v)]"
  by (induction xs) auto

lemma AList_update_same: "map_of xs k = Some v \<Longrightarrow> AList.update k v xs = xs"
  by (induction xs) (auto split: if_splits)

lemma jm_filter_delete:
  "jm_wf m \<Longrightarrow> map_of m k = Some v \<Longrightarrow>
   length (filter P m) = length (filter P (AList.delete k m)) + (if P (k, v) then 1 else 0)"
proof (induction m)
  case (Cons x m)
  obtain k' v' where x: "x = (k', v')" by (cases x)
  show ?case
  proof (cases "k' = k")
    case True
    then have "k \<notin> dom (map_of m)" using Cons.prems(1) by (auto simp: x dom_map_of_conv_image_fst)
    then have "AList.delete k m = m" by (simp add: dom_map_of_conv_image_fst)
    with True Cons.prems(2) show ?thesis by (simp add: x)
  qed (use Cons in \<open>simp add: x\<close>)
qed simp

lemma jm_filter_update:
  "map_of m k = Some v \<Longrightarrow> P (k, v) = P (k, v') \<Longrightarrow>
   length (filter P (AList.update k v' m)) = length (filter P m)"
  by (induction m) (auto split: if_splits)

lemma jm_length_delete:
  "jm_wf m \<Longrightarrow> map_of m k = Some v \<Longrightarrow> length m = Suc (length (AList.delete k m))"
  using jm_filter_delete [of m k v "\<lambda>_. True"] by simp

lemma jm_length_update: "map_of m k = Some v \<Longrightarrow> length (AList.update k v' m) = length m"
  using jm_filter_update [of m k v "\<lambda>_. True" v'] by simp

lemma jm_Some_iff: "jm_wf m \<Longrightarrow> map_of m k = Some v \<longleftrightarrow> (k, v) \<in> set m"
  by (rule map_of_eq_Some_iff)

lemma jm_in_update:
  assumes "jm_wf m"
  shows "(k', v') \<in> set (AList.update k v m) \<longleftrightarrow> (if k' = k then v' = v else (k', v') \<in> set m)"
  unfolding jm_Some_iff [OF jm_wf_set [OF assms], symmetric] jm_Some_iff [OF assms, symmetric] jm_get_set
  by auto

lemma jm_in_delete:
  "(k', v') \<in> set (AList.delete k m) \<longleftrightarrow> k' \<noteq> k \<and> (k', v') \<in> set m"
  by (auto simp: AList.delete_eq)

end
