(* ===== verification/PathCodec.thy ===== *)
theory PathCodec
  imports Prelude
begin

text \<open>
  \<open>packages/core/src/router/path-codec.ts\<close>: one URL path segment, encoded and decoded, and the
  two ECMAScript functions it calls, \<open>encodeURIComponent\<close> and \<open>decodeURIComponent\<close>, over
  UTF-16 code units. A lone surrogate is the \<open>URIError\<close> of the language and the \<open>RangeError\<close>
  of the module.
\<close>

section \<open>encodeURIComponent and decodeURIComponent\<close>

definition HEX :: jstr where
  "HEX = js ''0123456789ABCDEF''"

definition hex_digit :: "nat \<Rightarrow> nat" where
  "hex_digit n = HEX ! n"

definition pct :: "nat \<Rightarrow> jstr" where
  "pct b = [37, hex_digit (b div 16), hex_digit (b mod 16)]"

definition hex_val :: "nat \<Rightarrow> nat option" where
  "hex_val c =
     (if 48 \<le> c \<and> c \<le> 57 then Some (c - 48)
      else if 65 \<le> c \<and> c \<le> 70 then Some (c - 55)
      else if 97 \<le> c \<and> c \<le> 102 then Some (c - 87) else None)"

definition is_high :: "nat \<Rightarrow> bool" where
  "is_high c \<longleftrightarrow> 55296 \<le> c \<and> c \<le> 56319"

definition is_low :: "nat \<Rightarrow> bool" where
  "is_low c \<longleftrightarrow> 56320 \<le> c \<and> c \<le> 57343"

definition utf8 :: "nat \<Rightarrow> nat list" where
  "utf8 cp =
     (if cp < 128 then [cp]
      else if cp < 2048 then [192 + cp div 64, 128 + cp mod 64]
      else if cp < 65536 then [224 + cp div 4096, 128 + (cp div 64) mod 64, 128 + cp mod 64]
      else [240 + cp div 262144, 128 + (cp div 4096) mod 64, 128 + (cp div 64) mod 64,
            128 + cp mod 64])"

definition utf16 :: "nat \<Rightarrow> jstr" where
  "utf16 cp =
     (if cp < 65536 then [cp]
      else [55296 + (cp - 65536) div 1024, 56320 + (cp - 65536) mod 1024])"

definition pct_utf8 :: "nat \<Rightarrow> jstr" where
  "pct_utf8 cp = concat (map pct (utf8 cp))"

text \<open>
  The ECMAScript \<open>Encode\<close> operation, for any set of code units left as written: \<open>None\<close> is
  its \<open>URIError\<close>, raised for a surrogate that is not half of a pair.
\<close>

fun pct_encode :: "(nat \<Rightarrow> bool) \<Rightarrow> jstr \<Rightarrow> jstr option" where
  "pct_encode raw [] = Some []"
| "pct_encode raw (c # cs) =
     (if raw c then map_option ((#) c) (pct_encode raw cs)
      else if is_low c then None
      else if is_high c then
        (case cs of
           [] \<Rightarrow> None
         | d # ds \<Rightarrow>
             if is_low d then
               map_option ((@) (pct_utf8 ((c - 55296) * 1024 + (d - 56320) + 65536))) (pct_encode raw ds)
             else None)
      else map_option ((@) (pct_utf8 c)) (pct_encode raw cs))"

definition uri_unescaped :: "nat \<Rightarrow> bool" where
  "uri_unescaped c \<longleftrightarrow>
     65 \<le> c \<and> c \<le> 90 \<or> 97 \<le> c \<and> c \<le> 122 \<or> 48 \<le> c \<and> c \<le> 57
     \<or> c \<in> set (js ''-_.!~*'' @ [39, 40, 41])"

definition encode_uri_component :: "jstr \<Rightarrow> jstr option" where
  "encode_uri_component = pct_encode uri_unescaped"

definition take_escape :: "jstr \<Rightarrow> (nat \<times> jstr) option" where
  "take_escape s =
     (case s of
        p # h # l # rest \<Rightarrow>
          if p = 37 then
            (case (hex_val h, hex_val l) of
               (Some a, Some b) \<Rightarrow> Some (16 * a + b, rest)
             | _ \<Rightarrow> None)
          else None
      | _ \<Rightarrow> None)"

text \<open>A continuation byte \<open>10xxxxxx\<close> of a UTF-8 sequence, as an escape: its six bits.\<close>

definition take_cont :: "jstr \<Rightarrow> (nat \<times> jstr) option" where
  "take_cont s =
     (case take_escape s of
        Some (b, rest) \<Rightarrow> if 128 \<le> b \<and> b < 192 then Some (b - 128, rest) else None
      | None \<Rightarrow> None)"

fun take_conts :: "nat \<Rightarrow> nat \<Rightarrow> jstr \<Rightarrow> (nat \<times> jstr) option" where
  "take_conts 0 acc s = Some (acc, s)"
| "take_conts (Suc n) acc s =
     (case take_cont s of
        Some (b, rest) \<Rightarrow> take_conts n (acc * 64 + b) rest
      | None \<Rightarrow> None)"

text \<open>
  One escaped code point: the lead byte gives the number of continuation bytes; an overlong form,
  a surrogate and a str past \<open>0x10FFFF\<close> are not UTF-8.
\<close>

definition decode_char :: "jstr \<Rightarrow> (nat \<times> jstr) option" where
  "decode_char s =
     (case take_escape s of
        None \<Rightarrow> None
      | Some (b, rest) \<Rightarrow>
          if b < 128 then Some (b, rest)
          else if 192 \<le> b \<and> b < 224 then
            (case take_conts 1 (b - 192) rest of
               Some (cp, r) \<Rightarrow> if 128 \<le> cp then Some (cp, r) else None | None \<Rightarrow> None)
          else if 224 \<le> b \<and> b < 240 then
            (case take_conts 2 (b - 224) rest of
               Some (cp, r) \<Rightarrow>
                 if 2048 \<le> cp \<and> \<not> (55296 \<le> cp \<and> cp \<le> 57343) then Some (cp, r) else None
             | None \<Rightarrow> None)
          else if 240 \<le> b \<and> b < 248 then
            (case take_conts 3 (b - 240) rest of
               Some (cp, r) \<Rightarrow> if 65536 \<le> cp \<and> cp \<le> 1114111 then Some (cp, r) else None
             | None \<Rightarrow> None)
          else None)"

lemma take_escape_shorter:
  "take_escape s = Some (b, r) \<Longrightarrow> length r < length s"
  by (auto simp: take_escape_def split: list.splits if_splits option.splits)

lemma take_conts_shorter: "take_conts n a s = Some (b, r) \<Longrightarrow> length r \<le> length s"
  by (induction n a s rule: take_conts.induct)
     (fastforce simp: take_cont_def dest: take_escape_shorter split: option.splits if_splits)+

lemma decode_char_shorter:
  "decode_char s = Some (b, r) \<Longrightarrow> length r < length s"
  by (auto simp: decode_char_def simp del: take_conts.simps dest!: take_escape_shorter take_conts_shorter
      split: option.splits if_splits)

text \<open>\<open>decodeURIComponent\<close>; \<open>None\<close> is its \<open>URIError\<close>.\<close>

function decode_uri_component :: "jstr \<Rightarrow> jstr option" where
  "decode_uri_component [] = Some []"
| "decode_uri_component (c # cs) =
     (if c = 37 then
        (case decode_char (c # cs) of
           Some (cp, rest) \<Rightarrow> map_option ((@) (utf16 cp)) (decode_uri_component rest)
         | None \<Rightarrow> None)
      else map_option ((#) c) (decode_uri_component cs))"
  by pat_completeness auto
termination
  by (relation "measure length") (auto dest: decode_char_shorter)

section \<open>The module\<close>

datatype codec_error = DotSegment | LoneSurrogate

definition UNRESERVED :: jstr where
  "UNRESERVED = js ''ABCDEFGHIJKLMNOPQRSTUVWXYZabcdefghijklmnopqrstuvwxyz0123456789-._~''"

text \<open>\<open>rawTable\<close>: the table is the list of its 128 entries.\<close>

definition raw_table :: "jstr \<Rightarrow> bool list" where
  "raw_table chars = fold (\<lambda>c t. t[c := True]) chars (replicate 128 False)"

definition CANONICAL :: "bool list" where
  "CANONICAL = raw_table (UNRESERVED @ js ''!$&'' @ [39] @ js ''()*+,:=@'')"

definition BROWSER :: "bool list" where
  "BROWSER = raw_table (UNRESERVED @ js ''!$&'' @ [39] @ js ''()*+,:=@;[]|'')"

definition encode_non_ascii :: "jstr \<Rightarrow> codec_error + jstr" where
  "encode_non_ascii run =
     (case encode_uri_component run of None \<Rightarrow> Inl LoneSurrogate | Some e \<Rightarrow> Inr e)"

text \<open>The inner \<open>while\<close>: the end of the run of non-ASCII code units.\<close>

function run_end :: "jstr \<Rightarrow> nat \<Rightarrow> nat" where
  "run_end str e =
     (if e < length str \<and> 128 \<le> str ! e then run_end str (Suc e) else e)"
  by pat_completeness auto
termination
  by (relation "measure (\<lambda>(str, e). length str - e)") auto

declare run_end.simps [simp del]

lemma run_end_ge: "e \<le> run_end str e"
proof (induction str e rule: run_end.induct)
  case (1 str e)
  then show ?case
    by (cases "e < length str \<and> 128 \<le> str ! e") (auto simp: run_end.simps [of str e])
qed

lemma run_end_progress [termination_simp]:
  "i < length str \<Longrightarrow> length str - run_end str (Suc i) < length str - i"
  using run_end_ge [of "Suc i" str] by linarith

text \<open>The outer loop, with the pending slice \<open>[start, i)\<close> that is copied as written.\<close>

function encode_loop :: "bool list \<Rightarrow> jstr \<Rightarrow> nat \<Rightarrow> nat \<Rightarrow> jstr \<Rightarrow> codec_error + jstr" where
  "encode_loop raw str i start out =
     (if i < length str then
        (let code = str ! i in
         if code < 128 \<and> raw ! code then encode_loop raw str (Suc i) start out
         else
           (let out1 = out @ slice str start i in
            if code < 128 then
              encode_loop raw str (Suc i) (Suc i)
                (out1 @ [37, HEX ! (code div 16), HEX ! (code mod 16)])
            else
              (let e = run_end str (Suc i) in
               case encode_non_ascii (slice str i e) of
                 Inl err \<Rightarrow> Inl err
               | Inr enc \<Rightarrow> encode_loop raw str e e (out1 @ enc))))
      else Inr (if start = 0 then str else out @ drop start str))"
  by pat_completeness auto
termination
  by (relation "measure (\<lambda>(raw, str, i, start, out). length str - i)")
     (auto simp: run_end_progress)

declare encode_loop.simps [simp del]

definition encode_with :: "bool list \<Rightarrow> jstr \<Rightarrow> codec_error + jstr" where
  "encode_with raw str =
     (if str = js ''.'' \<or> str = js ''..'' then Inl DotSegment
      else encode_loop raw str 0 0 [])"

definition encodePathSegment :: "jstr \<Rightarrow> codec_error + jstr" where
  "encodePathSegment str = encode_with CANONICAL str"

definition browserPathSegment :: "jstr \<Rightarrow> codec_error + jstr" where
  "browserPathSegment str = encode_with BROWSER str"

definition decodePathSegment :: "jstr \<Rightarrow> jstr option" where
  "decodePathSegment raw = decode_uri_component raw"

section \<open>Escapes are read back\<close>

lemma HEX_nth:
  "n < 16 \<Longrightarrow> hex_val (HEX ! n) = Some n"
proof -
  have "\<forall>n \<in> set [0..<16]. hex_val (HEX ! n) = Some n"
    by (simp add: HEX_def hex_val_def upt_rec)
  then show "n < 16 \<Longrightarrow> hex_val (HEX ! n) = Some n" by simp
qed

lemma take_escape_pct: "b < 256 \<Longrightarrow> take_escape (pct b @ rest) = Some (b, rest)"
  by (simp add: take_escape_def pct_def hex_digit_def HEX_nth less_mult_imp_div_less)

lemma take_cont_pct: "b < 64 \<Longrightarrow> take_cont (pct (128 + b) @ rest) = Some (b, rest)"
  by (simp add: take_cont_def take_escape_pct)

lemma take_conts_pct [simp]:
  "b < 64 \<Longrightarrow> take_conts (Suc n) a (pct (128 + b) @ rest) = take_conts n (a * 64 + b) rest"
  by (simp add: take_cont_pct)

lemma div_mod_64: "n div (64 * k) * 64 + n div k mod 64 = n div (k::nat)"
  by (metis div_mult2_eq div_mult_mod_eq mult.commute)

lemma decode_char_utf8:
  assumes "cp \<le> 1114111" and "\<not> (55296 \<le> cp \<and> cp \<le> 57343)"
  shows "decode_char (pct_utf8 cp @ rest) = Some (cp, rest)"
proof -
  consider "cp < 128" | "128 \<le> cp" "cp < 2048" | "2048 \<le> cp" "cp < 65536" | "65536 \<le> cp"
    by linarith
  then show ?thesis
  proof cases
    case 1
    then show ?thesis
      by (simp add: pct_utf8_def utf8_def decode_char_def take_escape_pct)
  next
    case 2
    have "take_conts 1 (cp div 64) (pct (128 + cp mod 64) @ rest) = Some (cp, rest)"
      by (simp add: take_cont_pct)
    moreover have "cp div 64 < 32"
      using 2 by (simp add: less_mult_imp_div_less)
    ultimately show ?thesis
      using 2 by (simp add: pct_utf8_def utf8_def decode_char_def take_escape_pct del: take_conts.simps One_nat_def)
  next
    case 3
    have "take_conts 2 (cp div 4096) (pct (128 + cp div 64 mod 64) @ pct (128 + cp mod 64) @ rest)
        = Some (cp, rest)"
      using div_mod_64 [of cp 64] by (simp add: numeral_2_eq_2 take_cont_pct)
    moreover have "cp div 4096 < 16"
      using 3 by (simp add: less_mult_imp_div_less)
    ultimately show ?thesis
      using 3 assms by (simp add: pct_utf8_def utf8_def decode_char_def take_escape_pct del: take_conts.simps)
  next
    case 4
    have "take_conts 3 (cp div 262144) (pct (128 + cp div 4096 mod 64) @ pct (128 + cp div 64 mod 64)
        @ pct (128 + cp mod 64) @ rest) = Some (cp, rest)"
      using div_mod_64 [of cp 64] div_mod_64 [of cp 4096]
      by (simp add: numeral_3_eq_3 take_cont_pct)
    moreover have "cp div 262144 < 5"
      using assms(1) by (simp add: less_mult_imp_div_less)
    ultimately show ?thesis
      using 4 assms by (simp add: pct_utf8_def utf8_def decode_char_def take_escape_pct del: take_conts.simps)
  qed
qed

lemma pct_utf8_Cons: "\<exists>cs. pct_utf8 cp = 37 # cs"
  by (simp add: pct_utf8_def utf8_def pct_def)

lemma decode_pct_utf8:
  assumes "cp \<le> 1114111" and "\<not> (55296 \<le> cp \<and> cp \<le> 57343)"
  shows "decode_uri_component (pct_utf8 cp @ rest)
    = map_option ((@) (utf16 cp)) (decode_uri_component rest)"
proof -
  obtain cs where cs: "pct_utf8 cp = 37 # cs"
    using pct_utf8_Cons by blast
  then show ?thesis
    using decode_char_utf8 [OF assms, of rest] by simp
qed

lemma utf16_pair:
  assumes "is_high c" and "is_low d"
  shows "utf16 ((c - 55296) * 1024 + (d - 56320) + 65536) = [c, d]"
proof -
  obtain x y where "c = 55296 + x" "d = 56320 + y" "y < 1024"
    using assms le_Suc_ex by (fastforce simp: is_high_def is_low_def)
  then show ?thesis
    by (simp add: utf16_def)
qed

theorem pct_encode_decode:
  "pct_encode raw s = Some e \<Longrightarrow> wf_str s \<Longrightarrow> \<not> raw 37 \<Longrightarrow> decode_uri_component e = Some s"
proof (induction raw s arbitrary: e rule: pct_encode.induct)
  case (1 raw)
  then show ?case by simp
next
  case (2 raw c cs)
  consider "raw c" | "\<not> raw c" "is_high c" | "\<not> raw c" "\<not> is_high c" "\<not> is_low c"
    using 2 by (auto split: if_splits)
  then show ?case
  proof cases
    case 1
    with 2 show ?thesis by auto
  next
    case a: 2
    then have nl: "\<not> is_low c"
      by (auto simp: is_high_def is_low_def)
    with a "2.prems" obtain d ds e' where d: "cs = d # ds" "is_low d"
      and e': "pct_encode raw ds = Some e'"
      and e: "e = pct_utf8 ((c - 55296) * 1024 + (d - 56320) + 65536) @ e'"
      by (auto split: list.splits if_splits)
    let ?cp = "(c - 55296) * 1024 + (d - 56320) + 65536"
    have "c - 55296 \<le> 1023" "d - 56320 \<le> 1023"
      using a d by (auto simp: is_high_def is_low_def)
    then have "?cp \<le> 1114111" by linarith
    moreover have "decode_uri_component e' = Some ds"
      using "2.IH"(2) a nl d e' "2.prems" by simp
    ultimately show ?thesis
      using e d a by (simp add: decode_pct_utf8 utf16_pair)
  next
    case 3
    then obtain e' where e': "pct_encode raw cs = Some e'" and e: "e = pct_utf8 c @ e'"
      using "2.prems" by auto
    have "decode_uri_component e' = Some cs"
      using "2.IH"(3) 3 e' "2.prems" by simp
    moreover have "c \<le> 1114111" "\<not> (55296 \<le> c \<and> c \<le> 57343)"
      using 3 "2.prems" by (auto simp: is_high_def is_low_def)
    ultimately show ?thesis
      using e "2.prems" by (simp add: decode_pct_utf8 utf16_def)
  qed
qed

section \<open>The loop computes the encoding\<close>

lemma length_fold_update: "length (fold (\<lambda>c t. t[c := True]) cs t) = length t"
  by (induction cs arbitrary: t) simp_all

lemma nth_fold_update:
  "c < length t \<Longrightarrow> fold (\<lambda>c t. t[c := True]) cs t ! c \<longleftrightarrow> c \<in> set cs \<or> t ! c"
proof (induction cs arbitrary: t)
  case (Cons a cs)
  then show ?case by (cases "a = c") auto
qed simp

lemma raw_table_nth: "c < 128 \<Longrightarrow> raw_table chars ! c \<longleftrightarrow> c \<in> set chars"
  by (simp add: raw_table_def nth_fold_update)

definition raw_of :: "bool list \<Rightarrow> nat \<Rightarrow> bool" where
  "raw_of t c \<longleftrightarrow> c < 128 \<and> t ! c"

lemma raw_of_table: "raw_of (raw_table chars) c \<longleftrightarrow> c < 128 \<and> c \<in> set chars"
  by (auto simp: raw_of_def raw_table_nth)

lemma percent_not_raw: "\<not> raw_of CANONICAL 37" "\<not> raw_of BROWSER 37"
  by (simp_all add: CANONICAL_def BROWSER_def raw_of_table UNRESERVED_def)

lemma append_section:
  "(@) (a @ b) = (\<lambda>x. a @ b @ x)" "(@) (c # a) = (\<lambda>x. c # a @ x)" "(@) [] = (\<lambda>x. x)"
  by (simp_all add: fun_eq_iff)

lemma pct_encode_append:
  "rest = [] \<or> \<not> is_low (hd rest) \<Longrightarrow>
   pct_encode raw (xs @ rest) =
     (case pct_encode raw xs of None \<Rightarrow> None
      | Some a \<Rightarrow> map_option ((@) a) (pct_encode raw rest))"
proof (induction raw xs rule: pct_encode.induct)
  case (2 raw c cs)
  consider "raw c" | "\<not> raw c" "is_low c" | "\<not> raw c" "\<not> is_low c" "is_high c" "cs = []"
    | d ds where "\<not> raw c" "\<not> is_low c" "is_high c" "cs = d # ds" "is_low d"
    | d ds where "\<not> raw c" "\<not> is_low c" "is_high c" "cs = d # ds" "\<not> is_low d"
    | "\<not> raw c" "\<not> is_low c" "\<not> is_high c"
    by (cases cs) blast+
  then show ?case
  proof cases
    case 3
    with "2.prems" show ?thesis by (cases rest) simp_all
  next
    case (4 d ds)
    then show ?thesis
      using "2.IH"(2) [OF _ _ _ 4(4) 4(5)] "2.prems"
      by (simp add: option.map_comp comp_def append_section split: option.splits)
  qed (use 2 in \<open>simp_all add: option.map_comp comp_def append_section split: option.splits\<close>)
qed (simp add: append_section option.map_ident)

lemma pct_encode_cong_run:
  "\<forall>c \<in> set xs. \<not> raw c \<and> \<not> raw' c \<Longrightarrow> pct_encode raw xs = pct_encode raw' xs"
  by (induction raw xs rule: pct_encode.induct) (auto split: list.splits)

lemma run_end_le: "e \<le> length str \<Longrightarrow> run_end str e \<le> length str"
  by (induction str e rule: run_end.induct) (subst run_end.simps, simp)

lemma run_end_run:
  "e \<le> k \<Longrightarrow> k < run_end str e \<Longrightarrow> 128 \<le> str ! k"
proof (induction str e rule: run_end.induct)
  case (1 str e)
  show ?case
  proof (cases "e < length str \<and> 128 \<le> str ! e")
    case True
    with 1 show ?thesis
      by (cases "k = e") (auto simp: run_end.simps [of str e])
  next
    case False
    with "1.prems" show ?thesis
      by (auto simp: run_end.simps [of str e])
  qed
qed

lemma run_end_stop:
  "run_end str e < length str \<Longrightarrow> str ! run_end str e < 128"
proof (induction str e rule: run_end.induct)
  case (1 str e)
  show ?case
  proof (cases "e < length str \<and> 128 \<le> str ! e")
    case True
    with 1 show ?thesis
      by (auto simp: run_end.simps [of str e])
  next
    case False
    with "1.prems" show ?thesis
      by (auto simp: run_end.simps [of str e])
  qed
qed

lemma uri_unescaped_ascii: "uri_unescaped c \<Longrightarrow> c < 128"
  by (auto simp: uri_unescaped_def)

lemma encode_non_ascii_run:
  assumes "\<forall>c \<in> set xs. 128 \<le> c"
  shows "encode_non_ascii xs =
    (case pct_encode (raw_of t) xs of None \<Rightarrow> Inl LoneSurrogate | Some e \<Rightarrow> Inr e)"
proof -
  have "pct_encode uri_unescaped xs = pct_encode (raw_of t) xs"
    using assms by (intro pct_encode_cong_run) (auto simp: raw_of_def dest!: uri_unescaped_ascii)
  then show ?thesis
    by (simp add: encode_non_ascii_def encode_uri_component_def)
qed

lemma slice_run:
  assumes "i < length str" and "128 \<le> str ! i"
  shows "\<forall>c \<in> set (slice str i (run_end str (Suc i))). 128 \<le> c"
proof
  fix c
  assume "c \<in> set (slice str i (run_end str (Suc i)))"
  then obtain k where k: "k < length (slice str i (run_end str (Suc i)))"
      "c = slice str i (run_end str (Suc i)) ! k"
    by (metis in_set_conv_nth)
  then have "c = str ! (i + k)" "i + k < run_end str (Suc i)"
    by (auto simp: slice_def)
  then show "128 \<le> c"
    using assms run_end_run [of "Suc i" "i + k" str] by (cases k) auto
qed

definition lift_codec :: "jstr option \<Rightarrow> codec_error + jstr" where
  "lift_codec r = (case r of None \<Rightarrow> Inl LoneSurrogate | Some e \<Rightarrow> Inr e)"

lemma slice_snoc_rest: "i < length s \<Longrightarrow> start \<le> i \<Longrightarrow>
  slice s start (Suc i) = slice s start i @ [s ! i]"
  by (rule slice_snoc)

text \<open>
  The invariant of the loop: what is still to be written is the pending slice and the encoding of
  what follows \<open>i\<close>; nothing has been written while \<open>start\<close> is 0.
\<close>

lemma encode_loop_eq:
  assumes "start \<le> i" and "i \<le> length str" and "start = 0 \<longrightarrow> out = []"
  shows "encode_loop t str i start out =
    lift_codec (map_option ((@) (out @ slice str start i)) (pct_encode (raw_of t) (drop i str)))"
  using assms
proof (induction t str i start out rule: encode_loop.induct)
  case (1 t str i start out)
  show ?case
  proof (cases "i < length str")
    case False
    with 1 have i: "i = length str" by simp
    with "1.prems" show ?thesis
      by (cases "start = 0") (simp_all add: encode_loop.simps [of t str "length str"] lift_codec_def)
  next
    case True
    let ?c = "str ! i"
    have d: "drop i str = ?c # drop (Suc i) str"
      using True by (simp add: Cons_nth_drop_Suc)
    consider "?c < 128" "t ! ?c" | "?c < 128" "\<not> t ! ?c" | "128 \<le> ?c" by linarith
    then show ?thesis
    proof cases
      case 1
      with True "1.IH"(1) [OF True refl] "1.prems" d show ?thesis
        by (simp add: encode_loop.simps [of t str i] raw_of_def slice_snoc_rest
            option.map_comp comp_def append_section)
    next
      case 2
      have ns: "\<not> is_low ?c" "\<not> is_high ?c"
        using 2 by (auto simp: is_low_def is_high_def)
      from 2 True "1.IH"(2) [OF True refl _ refl] "1.prems" d ns show ?thesis
        by (simp add: encode_loop.simps [of t str i] raw_of_def option.map_comp comp_def
            append_section pct_utf8_def utf8_def pct_def hex_digit_def Let_def)
    next
      case 3
      let ?e = "run_end str (Suc i)"
      have e: "Suc i \<le> ?e" "?e \<le> length str"
        using run_end_ge run_end_le True by auto
      have run: "slice str i ?e @ drop ?e str = drop i str"
        using e by (intro slice_append_drop) simp
      have stop: "drop ?e str = [] \<or> \<not> is_low (hd (drop ?e str))"
        using run_end_stop [of str "Suc i"] e
        by (cases "?e < length str") (auto simp: hd_drop_conv_nth is_low_def)
      note enc = encode_non_ascii_run [OF slice_run [OF True 3], of t]
      show ?thesis
      proof (cases "pct_encode (raw_of t) (slice str i ?e)")
        case None
        then show ?thesis
          using 3 True enc pct_encode_append [OF stop, of "raw_of t" "slice str i ?e"] run
          by (simp add: encode_loop.simps [of t str i] lift_codec_def)
      next
        case (Some a)
        have IH: "encode_loop t str ?e ?e ((out @ slice str start i) @ a) =
          lift_codec (map_option ((@) (((out @ slice str start i) @ a) @ slice str ?e ?e))
            (pct_encode (raw_of t) (drop ?e str)))"
          using 3 True enc Some e by (intro "1.IH"(3) [OF True refl _ refl]) auto
        from Some show ?thesis
          using 3 True enc IH pct_encode_append [OF stop, of "raw_of t" "slice str i ?e"] run
          by (simp add: encode_loop.simps [of t str i] option.map_comp comp_def append_section)
      qed
    qed
  qed
qed

lemma encode_with_eq:
  "encode_with t s =
     (if s = js ''.'' \<or> s = js ''..'' then Inl DotSegment
      else lift_codec (pct_encode (raw_of t) s))"
  by (simp add: encode_with_def encode_loop_eq append_section option.map_ident)

section \<open>What a segment can carry\<close>

text \<open>Every surrogate is half of a pair.\<close>

fun paired :: "jstr \<Rightarrow> bool" where
  "paired [] \<longleftrightarrow> True"
| "paired (c # cs) \<longleftrightarrow>
     (if is_low c then False
      else if is_high c then (case cs of [] \<Rightarrow> False | d # ds \<Rightarrow> is_low d \<and> paired ds)
      else paired cs)"

lemma pct_encode_paired:
  "(\<And>c. raw c \<Longrightarrow> c < 128) \<Longrightarrow> pct_encode raw s \<noteq> None \<longleftrightarrow> paired s"
proof (induction raw s rule: pct_encode.induct)
  case (2 raw c cs)
  have "raw c \<Longrightarrow> \<not> is_low c \<and> \<not> is_high c"
    using "2.prems" [of c] by (auto simp: is_low_def is_high_def)
  with 2 show ?case
    by (cases cs) auto
qed simp

text \<open>The characters an encoded segment is made of.\<close>

definition safe_char :: "(nat \<Rightarrow> bool) \<Rightarrow> nat \<Rightarrow> bool" where
  "safe_char raw c \<longleftrightarrow> raw c \<or> c = 37 \<or> c \<in> set HEX"

lemma HEX_in: "n < 16 \<Longrightarrow> HEX ! n \<in> set HEX"
  by (rule nth_mem) (simp add: HEX_def)

lemma pct_safe: "b < 256 \<Longrightarrow> x \<in> set (pct b) \<Longrightarrow> x = 37 \<or> x \<in> set HEX"
  by (auto simp: pct_def hex_digit_def HEX_in less_mult_imp_div_less)

lemma utf8_bytes: "cp \<le> 1114111 \<Longrightarrow> b \<in> set (utf8 cp) \<Longrightarrow> b < 256"
  by (auto simp: utf8_def split: if_splits)

lemma pct_utf8_safe: "cp \<le> 1114111 \<Longrightarrow> x \<in> set (pct_utf8 cp) \<Longrightarrow> x = 37 \<or> x \<in> set HEX"
  unfolding pct_utf8_def set_concat set_map by (blast dest: utf8_bytes pct_safe)

lemma pct_encode_safe:
  "pct_encode raw s = Some e \<Longrightarrow> wf_str s \<Longrightarrow> x \<in> set e \<Longrightarrow> safe_char raw x"
proof (induction raw s arbitrary: e rule: pct_encode.induct)
  case (2 raw c cs)
  have pair: "(c - 55296) * 1024 + (d - 56320) + 65536 \<le> 1114111" if "is_high c" "is_low d" for d
  proof -
    have "c - 55296 \<le> 1023" "d - 56320 \<le> 1023"
      using that by (auto simp: is_high_def is_low_def)
    then show ?thesis by linarith
  qed
  have c: "c \<le> 1114111" using "2.prems" by simp
  from 2 show ?case
    by (auto simp: safe_char_def dest: pct_utf8_safe [OF pair] pct_utf8_safe [OF c]
        split: if_splits list.splits)
qed simp

lemma encode_with_Inr:
  "encode_with t s = Inr e \<longleftrightarrow> s \<noteq> js ''.'' \<and> s \<noteq> js ''..'' \<and> pct_encode (raw_of t) s = Some e"
  by (auto simp: encode_with_eq lift_codec_def split: option.splits)

text \<open>
  A printable ASCII character that is none of \<open>/ ? # ;\<close>, the backslash and the brackets: it ends or
  splits nothing in a URL path.
\<close>

definition segment_char :: "nat \<Rightarrow> bool" where
  "segment_char x \<longleftrightarrow> 32 < x \<and> x < 127 \<and> x \<notin> {47, 63, 35, 59, 92, 91, 93, 124}"

lemma safe_segment_char:
  assumes "safe_char (raw_of CANONICAL) x"
  shows "segment_char x"
proof -
  let ?all = "(UNRESERVED @ js ''!$&'' @ [39] @ js ''()*+,:=@'') @ HEX @ [37]"
  have "list_all segment_char ?all"
    by (simp add: UNRESERVED_def HEX_def segment_char_def)
  moreover have "x \<in> set ?all"
    using assms by (auto simp: safe_char_def CANONICAL_def raw_of_table simp del: js_Cons)
  ultimately show ?thesis
    by (simp only: list_all_iff)
qed

section \<open>Properties\<close>

text \<open>
  C8: decoding is the inverse of encoding: a segment that \<open>encodePathSegment\<close> or
  \<open>browserPathSegment\<close> spells is decoded to the value it was made from, for every value of
  16-bit code units; so distinct values never share a URL.
\<close>

theorem path_segment_roundtrip:
  assumes "wf_str s" and "encodePathSegment s = Inr e \<or> browserPathSegment s = Inr e"
  shows "decodePathSegment e = Some s"
proof -
  have "pct_encode (raw_of CANONICAL) s = Some e \<or> pct_encode (raw_of BROWSER) s = Some e"
    using assms(2) by (auto simp: encodePathSegment_def browserPathSegment_def encode_with_Inr)
  then show ?thesis
    using assms(1) percent_not_raw by (auto simp: decodePathSegment_def intro: pct_encode_decode)
qed

definition cafe :: jstr where
  "cafe = js ''caf'' @ [233] @ js ''/%'' @ [55357, 56832]"

theorem path_segment_roundtrip_witness:
  "wf_str cafe \<and> encodePathSegment cafe = Inr (js ''caf%C3%A9%2F%25%F0%9F%98%80'')
    \<and> decodePathSegment (js ''caf%C3%A9%2F%25%F0%9F%98%80'') = Some cafe"
proof -
  have w: "wf_str cafe" by (simp add: cafe_def)
  have e: "encodePathSegment cafe = Inr (js ''caf%C3%A9%2F%25%F0%9F%98%80'')"
    by (simp add: encodePathSegment_def encode_with_Inr cafe_def CANONICAL_def raw_of_table
        UNRESERVED_def is_low_def is_high_def pct_utf8_def utf8_def pct_def hex_digit_def HEX_def)
  show ?thesis using w e path_segment_roundtrip [OF w disjI1 [OF e]] by simp
qed

text \<open>
  \<open>encodePathSegment\<close> fails for exactly the values no segment can carry: \<open>.\<close>, \<open>..\<close> and
  a string with a surrogate that is not half of a pair.
\<close>

theorem path_segment_errors:
  "(encodePathSegment s = Inl DotSegment \<longleftrightarrow> s = js ''.'' \<or> s = js ''..'')
   \<and> (encodePathSegment s = Inl LoneSurrogate \<longleftrightarrow> \<not> paired s)"
proof -
  have "raw_of CANONICAL c \<Longrightarrow> c < 128" for c by (simp add: raw_of_def)
  then have p: "pct_encode (raw_of CANONICAL) s \<noteq> None \<longleftrightarrow> paired s"
    by (rule pct_encode_paired)
  have "encodePathSegment s = Inl DotSegment \<longleftrightarrow> s = js ''.'' \<or> s = js ''..''"
    by (auto simp: encodePathSegment_def encode_with_eq lift_codec_def split: option.splits)
  moreover have "encodePathSegment s = Inl LoneSurrogate \<longleftrightarrow> \<not> paired s"
    using p by (auto simp: encodePathSegment_def encode_with_eq lift_codec_def is_low_def is_high_def
        split: option.splits)
  ultimately show ?thesis ..
qed

text \<open>
  An encoded segment never holds a character that ends or splits a path segment, a query or a
  path parameter, and is never a dot segment.
\<close>

theorem path_segment_safe:
  assumes "wf_str s" and "encodePathSegment s = Inr e"
  shows "list_all segment_char e \<and> e \<noteq> js ''.'' \<and> e \<noteq> js ''..''"
proof -
  have e: "pct_encode (raw_of CANONICAL) s = Some e" and s: "s \<noteq> js ''.''" "s \<noteq> js ''..''"
    using assms(2) by (simp_all add: encodePathSegment_def encode_with_Inr)
  have "list_all segment_char e"
    using pct_encode_safe [OF e assms(1)] by (auto simp: list_all_iff dest: safe_segment_char)
  moreover have "decode_uri_component e = Some s"
    using pct_encode_decode [OF e assms(1)] percent_not_raw by simp
  ultimately show ?thesis
    using s by auto
qed

theorem path_segment_safe_witness:
  "wf_str (js ''a b'') \<and> encodePathSegment (js ''a b'') = Inr (js ''a%20b'') \<and>
   list_all segment_char (js ''a%20b'')"
proof -
  have w: "wf_str (js ''a b'')" by simp
  have e: "encodePathSegment (js ''a b'') = Inr (js ''a%20b'')"
    by (simp add: encodePathSegment_def encode_with_Inr CANONICAL_def raw_of_table
        UNRESERVED_def is_low_def is_high_def pct_utf8_def utf8_def pct_def hex_digit_def HEX_def)
  show ?thesis using w e path_segment_safe [OF w e] by simp
qed

end
