(* ===== verification/ParamConstraint.thy ===== *)
theory ParamConstraint
  imports PathCodec "HOL-Library.Extended_Nat" "HOL-Library.List_Lexorder"
begin

text \<open>
  The constraint grammar of \<open>packages/core/src/router/pattern.ts\<close>. The text after a parameter's name
  is parsed here by hand from the language of the source's regular expression \<open>CONSTRAINT\<close>. The
  bounds of a constraint are exact (the source's doubles are, below \<open>2 ^ 53\<close>); \<open>Infinity\<close> is \<open>\<infinity>\<close>.
\<close>

record param_constraint =
  source :: jstr
  one_of :: "jstr list option"
  mask :: jstr
  min_len :: nat
  max_len :: enat
  csize :: nat
  key :: jstr

section \<open>Constraints\<close>

definition word_start :: "nat \<Rightarrow> bool" where
  "word_start c \<longleftrightarrow> 65 \<le> c \<and> c \<le> 90 \<or> 97 \<le> c \<and> c \<le> 122 \<or> c = 95"

definition is_digit :: "nat \<Rightarrow> bool" where
  "is_digit c \<longleftrightarrow> 48 \<le> c \<and> c \<le> 57"

definition word_char :: "nat \<Rightarrow> bool" where
  "word_char c \<longleftrightarrow> word_start c \<or> is_digit c"

text \<open>\<open>[\w.~!$&'()+,;=@-]\<close> and \<open>[\w.~-]\<close>.\<close>

definition class_char :: "nat \<Rightarrow> bool" where
  "class_char c \<longleftrightarrow> word_char c \<or> c \<in> set (js ''.~!$&()+,;=@-'' @ [39])"

definition value_char :: "nat \<Rightarrow> bool" where
  "value_char c \<longleftrightarrow> word_char c \<or> c \<in> set (js ''.~-'')"

text \<open>The longest run of \<open>(?:[...]|\\[dw])\<close>, and what follows it.\<close>

fun class_members :: "jstr \<Rightarrow> jstr \<times> jstr" where
  "class_members [] = ([], [])"
| "class_members (c # cs) =
     (if class_char c then (let (m, r) = class_members cs in (c # m, r))
      else if c = 92 then
        (case cs of
           d # ds \<Rightarrow>
             if d = 100 \<or> d = 119 then (let (m, r) = class_members ds in (c # d # m, r))
             else ([], c # cs)
         | [] \<Rightarrow> ([], c # cs))
      else ([], c # cs))"

text \<open>Group 1: \<open>[...]\<close> or a bare \<open>\d\<close>, \<open>\w\<close>; the members it holds, and what follows.\<close>

definition parse_class :: "jstr \<Rightarrow> (jstr \<times> jstr) option" where
  "parse_class s =
     (case s of
        c # cs \<Rightarrow>
          if c = 91 then
            (let (m, r) = class_members cs in
             case r of
               d # ds \<Rightarrow> if m \<noteq> [] \<and> d = 93 then Some (m, ds) else None
             | [] \<Rightarrow> None)
          else if c = 92 then
            (case cs of
               d # ds \<Rightarrow> if d = 100 \<or> d = 119 then Some ([c, d], ds) else None
             | [] \<Rightarrow> None)
          else None
      | [] \<Rightarrow> None)"

definition number_of :: "jstr \<Rightarrow> nat" where
  "number_of ds = fold (\<lambda>d n. 10 * n + (d - 48)) ds 0"

text \<open>
  Groups 2 to 4: \<open>+\<close>, \<open>{n}\<close>, \<open>{n,}\<close>, \<open>{n,m}\<close>, as the bounds they give; \<open>Some None\<close> when there
  is no count. \<open>None\<close> means that the text is not a count although it starts like one.
\<close>

definition parse_count :: "jstr \<Rightarrow> ((nat \<times> enat) option \<times> jstr) option" where
  "parse_count s =
     (case s of
        c # cs \<Rightarrow>
          if c = 43 then Some (Some (1, \<infinity>), cs)
          else if c = 123 then
            (let ds = takeWhile is_digit cs; r = dropWhile is_digit cs in
             if ds = [] then None
             else
               (case r of
                  e # es \<Rightarrow>
                    if e = 125 then Some (Some (number_of ds, enat (number_of ds)), es)
                    else if e = 44 then
                      (let ms = takeWhile is_digit es in
                       case dropWhile is_digit es of
                         f # fs \<Rightarrow>
                           if f = 125 then
                             Some (Some (number_of ds, if ms = [] then \<infinity> else enat (number_of ms)), fs)
                           else None
                       | [] \<Rightarrow> None)
                    else None
                | [] \<Rightarrow> None))
          else Some (None, s)
      | [] \<Rightarrow> Some (None, s))"

text \<open>Group 5: two or more values separated by \<open>|\<close>.\<close>

definition parse_values :: "jstr \<Rightarrow> (jstr list \<times> jstr) option" where
  "parse_values s =
     (let run = takeWhile (\<lambda>c. value_char c \<or> c = 124) s;
          vs = split_on 124 run in
      if 2 \<le> length vs \<and> list_all (\<lambda>v. v \<noteq> []) vs then Some (vs, drop (length run) s) else None)"

definition fill_range :: "nat \<Rightarrow> nat \<Rightarrow> bool list \<Rightarrow> bool list" where
  "fill_range from to t = map (\<lambda>i. t ! i \<or> from \<le> i \<and> i \<le> to) [0..<length t]"

text \<open>The loop over the members of a class; \<open>None\<close> where the source returns \<open>undefined\<close>.\<close>

fun class_table :: "jstr \<Rightarrow> bool list \<Rightarrow> bool list option" where
  "class_table [] t = Some t"
| "class_table [c] t =
     (if c = 92 then Some (fill_range 48 57 t) else Some (fill_range c c t))"
| "class_table [c, d] t =
     (if c = 92 then
        Some (fill_range 48 57
          (if d = 119 then fill_range 97 122 (fill_range 95 95 (fill_range 65 90 t)) else t))
      else class_table [d] (fill_range c c t))"
| "class_table (c # d # e # es) t =
     (if c = 92 then
        class_table (e # es) (fill_range 48 57
          (if d = 119 then fill_range 97 122 (fill_range 95 95 (fill_range 65 90 t)) else t))
      else if d = 45 then
        (if e = 92 \<or> e < c \<or> c < 37 \<and> 37 < e then None
         else class_table es (fill_range c e t))
      else class_table (d # e # es) (fill_range c c t))"

definition mask_of :: "bool list \<Rightarrow> jstr" where
  "mask_of t = map (\<lambda>b. if b then 49 else 48) t"

function dec :: "nat \<Rightarrow> jstr" where
  "dec n = (if n < 10 then [48 + n] else dec (n div 10) @ [48 + n mod 10])"
  by pat_completeness auto
termination
  by (relation "measure id") auto

declare dec.simps [simp del]

definition dec_enat :: "enat \<Rightarrow> jstr" where
  "dec_enat m = (case m of enat n \<Rightarrow> dec n | \<infinity> \<Rightarrow> js ''Infinity'')"

definition mk_list_constraint :: "jstr \<Rightarrow> jstr list \<Rightarrow> param_constraint" where
  "mk_list_constraint src vs =
     \<lparr> source = src, one_of = Some vs, mask = mask_of (replicate 128 False), min_len = 1, max_len = 1,
       csize = length vs, key = join_with [124] (sort vs) \<rparr>"

definition mk_class_constraint :: "jstr \<Rightarrow> bool list \<Rightarrow> nat \<Rightarrow> enat \<Rightarrow> param_constraint" where
  "mk_class_constraint src t mn mx =
     \<lparr> source = src, one_of = None, mask = mask_of t, min_len = mn, max_len = mx,
       csize = length (filter id t),
       key = mask_of t @ [44] @ dec mn @ [44] @ dec_enat mx \<rparr>"

text \<open>
  \<open>paramConstraint(text)\<close>: the constraint \<open>text\<close> starts with. The source is the text between
  the outer braces, whose length is what the match consumed.
\<close>

definition paramConstraint :: "jstr \<Rightarrow> param_constraint option" where
  "paramConstraint text =
     (case text of
        [] \<Rightarrow> None
      | c # cs \<Rightarrow>
          if c \<noteq> 123 then None
          else
            (case parse_class cs of
               Some (members, r1) \<Rightarrow>
                 (case parse_count r1 of
                    Some (count, r2) \<Rightarrow>
                      (case r2 of
                         e # _ \<Rightarrow>
                           if e \<noteq> 125 then None
                           else
                             (case class_table members (replicate 128 False) of
                                None \<Rightarrow> None
                              | Some t \<Rightarrow>
                                  (let (mn, mx) = (case count of None \<Rightarrow> (1, 1) | Some b \<Rightarrow> b) in
                                   if count \<noteq> None \<and> (mn < 1 \<or> mx < enat mn) then None
                                   else Some (mk_class_constraint
                                     (take (length cs - length r2) cs) t mn mx)))
                       | [] \<Rightarrow> None)
                  | None \<Rightarrow> None)
             | None \<Rightarrow>
                 (case parse_values cs of
                    Some (vs, r) \<Rightarrow>
                      (case r of
                         e # _ \<Rightarrow>
                           if e = 125 then
                             Some (mk_list_constraint (take (length cs - length r) cs) vs)
                           else None
                       | [] \<Rightarrow> None)
                  | None \<Rightarrow> None)))"

definition satisfies :: "param_constraint option \<Rightarrow> jstr \<Rightarrow> bool" where
  "satisfies constraint v =
     (case constraint of
        None \<Rightarrow> True
      | Some k \<Rightarrow>
          (case one_of k of
             Some vs \<Rightarrow> v \<in> set vs
           | None \<Rightarrow>
               min_len k \<le> length v \<and> enat (length v) \<le> max_len k
               \<and> list_all (\<lambda>c. c < length (mask k) \<and> mask k ! c = 49) v))"

section \<open>What a constraint accepts\<close>

definition plain :: "nat \<Rightarrow> bool" where
  "plain c \<longleftrightarrow> c < 128 \<and> c \<noteq> 37"

lemma percent_no_class_char [simp]: "\<not> class_char 37"
  by (simp add: class_char_def word_char_def word_start_def is_digit_def)

lemma class_members_plain: "37 \<notin> set (fst (class_members s))"
proof (induction s rule: class_members.induct)
  case (2 c cs)
  then show ?case
    by (cases cs) (auto simp: Let_def case_prod_beta)
qed simp

declare class_members.simps [simp del]

lemma parse_class_plain: "parse_class s = Some (m, r) \<Longrightarrow> 37 \<notin> set m"
  by (cases s) (auto simp: parse_class_def class_members_plain case_prod_beta Let_def
      split: list.splits if_splits)

lemma fill_range_length [simp]: "length (fill_range a b t) = length t"
  by (simp add: fill_range_def)

lemma fill_range_nth: "i < length t \<Longrightarrow> fill_range a b t ! i \<longleftrightarrow> t ! i \<or> a \<le> i \<and> i \<le> b"
  by (simp add: fill_range_def)

lemma class_table_plain:
  "class_table m t = Some t' \<Longrightarrow> 37 \<notin> set m \<Longrightarrow> 37 < length t \<Longrightarrow> \<not> t ! 37 \<Longrightarrow>
   length t' = length t \<and> \<not> t' ! 37"
  by (induction m t rule: class_table.induct) (auto simp: fill_range_nth split: if_splits)

lemma value_char_plain: "value_char c \<Longrightarrow> plain c"
  by (auto simp: value_char_def word_char_def word_start_def is_digit_def plain_def)

lemma not_value_char [simp]: "\<not> value_char 44" "\<not> value_char 47" "\<not> value_char 124"
  by (simp_all add: value_char_def word_char_def word_start_def is_digit_def)

lemma parse_values_chars:
  "parse_values s = Some (vs, r) \<Longrightarrow> v \<in> set vs \<Longrightarrow> c \<in> set v \<Longrightarrow> value_char c"
proof -
  assume p: "parse_values s = Some (vs, r)" and v: "v \<in> set vs" and c: "c \<in> set v"
  have sub: "set v \<subseteq> set xs" if "v \<in> set (split_on k xs)" for v k xs
    using that by (induction xs arbitrary: v) (fastforce split: if_splits list.splits)+
  from p v have v': "v \<in> set (split_on 124 (takeWhile (\<lambda>c. value_char c \<or> c = 124) s))"
    by (auto simp: parse_values_def Let_def split: if_splits)
  with sub c have "c \<in> set (takeWhile (\<lambda>c. value_char c \<or> c = 124) s)"
    by blast
  then have "value_char c \<or> c = 124"
    by (rule set_takeWhileD [THEN conjunct2])
  moreover have "c \<noteq> 124" using split_on_no_sep [OF v'] c by auto
  ultimately show ?thesis by simp
qed

lemma decode_plain: "list_all plain v \<Longrightarrow> decode_uri_component v = Some v"
  by (induction v) (auto simp: plain_def)

definition constraint_ok :: "param_constraint \<Rightarrow> bool" where
  "constraint_ok k \<longleftrightarrow>
     (case one_of k of
        Some vs \<Rightarrow>
          2 \<le> length vs \<and> list_all (\<lambda>v. v \<noteq> [] \<and> list_all value_char v) vs
          \<and> csize k = length vs \<and> key k = join_with [124] (sort vs) \<and> min_len k = 1 \<and> max_len k = 1
      | None \<Rightarrow>
          length (mask k) = 128 \<and> set (mask k) \<subseteq> {48, 49} \<and> mask k ! 37 \<noteq> 49
          \<and> 1 \<le> min_len k \<and> enat (min_len k) \<le> max_len k
          \<and> csize k = length (filter (\<lambda>c. c = 49) (mask k))
          \<and> key k = join_with [44] [mask k, dec (min_len k), dec_enat (max_len k)])"

lemma paramConstraint_ok:
  assumes "paramConstraint text = Some k"
  shows "constraint_ok k"
proof -
  obtain cs where t: "text = 123 # cs"
    using assms by (auto simp: paramConstraint_def split: list.splits if_splits)
  show ?thesis
  proof (cases "parse_class cs")
    case None
    with assms t obtain vs r src where pv: "parse_values cs = Some (vs, r)"
        and k: "k = mk_list_constraint src vs"
      by (auto simp: paramConstraint_def split: option.splits list.splits if_splits)
    from pv have "2 \<le> length vs \<and> list_all (\<lambda>v. v \<noteq> []) vs"
      by (auto simp: parse_values_def Let_def split: if_splits)
    moreover have "list_all (\<lambda>v. list_all value_char v) vs"
      by (auto simp: list_all_iff dest: parse_values_chars [OF pv])
    ultimately show ?thesis
      by (auto simp: k constraint_ok_def mk_list_constraint_def list_all_iff)
  next
    case (Some mr)
    obtain m r1 where mr: "mr = (m, r1)" by (cases mr)
    have "37 \<notin> set m" using Some mr parse_class_plain by blast
    moreover obtain tb mn mx src where ct: "class_table m (replicate 128 False) = Some tb"
        and k: "k = mk_class_constraint src tb mn mx" and b: "1 \<le> mn \<and> enat mn \<le> mx"
      using assms t Some mr
      by (auto simp: paramConstraint_def Let_def one_enat_def split: option.splits list.splits if_splits prod.splits)
    ultimately have tb: "length tb = 128 \<and> \<not> tb ! 37"
      using class_table_plain [OF ct] by simp
    have "length (filter id tb) = length (filter (\<lambda>c. c = 49) (mask_of tb))"
      by (simp add: mask_of_def filter_map comp_def if_distrib [of "\<lambda>c. c = 49"] id_def cong: if_cong)
    then show ?thesis
      using b tb by (auto simp: k constraint_ok_def mk_class_constraint_def mask_of_def)
  qed
qed

section \<open>What a key says\<close>

lemma number_of_snoc: "number_of (ds @ [d]) = 10 * number_of ds + (d - 48)"
  by (simp add: number_of_def)

lemma number_of_dec: "number_of (dec n) = n"
proof (induction n rule: dec.induct)
  case (1 n)
  then show ?case
    by (subst dec.simps) (simp add: number_of_snoc, simp add: number_of_def)
qed

lemma dec_digits: "d \<in> set (dec n) \<Longrightarrow> is_digit d"
proof (induction n rule: dec.induct)
  case (1 n)
  have "n mod 10 < 10" by simp
  with 1 show ?case
    by (subst (asm) (2) dec.simps) (auto simp: is_digit_def split: if_splits)
qed

lemma dec_inj: "dec m = dec n \<longleftrightarrow> m = n"
  using number_of_dec by metis

lemma dec_not_Infinity: "dec n \<noteq> js ''Infinity''"
  using dec_digits [of 73 n] by (auto simp: is_digit_def)

lemma dec_enat_inj: "dec_enat a = dec_enat b \<longleftrightarrow> a = b"
  using dec_not_Infinity dec_not_Infinity [symmetric]
  by (auto simp: dec_enat_def dec_inj simp del: js_Cons split: enat.splits)

lemma class_key_parts:
  assumes "constraint_ok k" and "one_of k = None"
  shows "split_on 44 (key k) = [mask k, dec (min_len k), dec_enat (max_len k)]"
proof -
  have "44 \<notin> set (dec n)" for n
    using dec_digits [of 44 n] by (auto simp: is_digit_def)
  moreover from this have "44 \<notin> set (dec_enat m)" for m
    by (auto simp: dec_enat_def split: enat.splits)
  moreover have "44 \<notin> set (mask k)" "key k = join_with [44] [mask k, dec (min_len k), dec_enat (max_len k)]"
    using assms by (auto simp: constraint_ok_def)
  ultimately show ?thesis
    by (simp only:) (subst split_join, auto)
qed

lemma list_key_parts:
  assumes "constraint_ok k" and "one_of k = Some vs"
  shows "split_on 124 (key k) = sort vs"
proof -
  have "vs \<noteq> []" "\<forall>v \<in> set vs. 124 \<notin> set v"
    using assms not_value_char(3) by (auto simp: constraint_ok_def list_all_iff simp del: not_value_char)
  moreover have "sort vs \<noteq> []"
    using \<open>vs \<noteq> []\<close> by (metis set_empty set_sort)
  ultimately show ?thesis
    using assms by (simp add: constraint_ok_def split_join)
qed

lemma key_chars:
  assumes "constraint_ok k" and "c \<in> set (key k)"
  shows "value_char c \<or> c = 124 \<or> c = 44"
proof (cases "one_of k")
  case None
  have "value_char d" if "d \<in> set (dec_enat m)" for m d
    using that dec_digits [of d]
    by (auto simp: dec_enat_def value_char_def word_char_def word_start_def split: enat.splits)
  with None assms dec_digits [of c "min_len k"] show ?thesis
    by (auto simp: constraint_ok_def value_char_def word_char_def is_digit_def)
next
  case (Some vs)
  with assms have "c \<in> {124} \<union> \<Union> (set ` set (sort vs))"
    using set_join_with [of "[124]" "sort vs"] by (auto simp: constraint_ok_def)
  with Some assms show ?thesis
    by (auto simp: constraint_ok_def list_all_iff)
qed

lemma list_key_no_comma:
  assumes "constraint_ok k" and "one_of k = Some vs"
  shows "44 \<notin> set (key k)"
proof
  assume "44 \<in> set (key k)"
  with assms have "44 \<in> {124} \<union> \<Union> (set ` set (sort vs))"
    using set_join_with [of "[124]" "sort vs"] by (auto simp: constraint_ok_def)
  with assms not_value_char(1) show False
    by (auto simp: constraint_ok_def list_all_iff simp del: not_value_char)
qed

text \<open>Two constraints with one key accept the same values.\<close>

definition same_kind :: "param_constraint \<Rightarrow> param_constraint \<Rightarrow> bool" where
  "same_kind j k \<longleftrightarrow>
     (case (one_of j, one_of k) of
        (Some vs, Some ws) \<Rightarrow> set vs = set ws
      | (None, None) \<Rightarrow> mask j = mask k
      | _ \<Rightarrow> False)
     \<and> min_len j = min_len k \<and> max_len j = max_len k \<and> csize j = csize k"

lemma same_key:
  assumes j: "constraint_ok j" and k: "constraint_ok k" and eq: "key j = key k"
  shows "same_kind j k"
proof (cases "one_of j")
  case jn: None
  note pj = class_key_parts [OF j jn]
  then have "44 \<in> set (key j)"
    using split_on_free [of 44 "key j"] by auto
  with eq have "one_of k = None"
    using list_key_no_comma [OF k] by (cases "one_of k") auto
  with class_key_parts [OF k this] pj eq jn j k show ?thesis
    by (auto simp: same_kind_def constraint_ok_def dec_inj dec_enat_inj)
next
  case js: (Some vs)
  from list_key_no_comma [OF j js] eq have "one_of k \<noteq> None"
    using class_key_parts [OF k] split_on_free [of 44 "key k"] by fastforce
  then obtain ws where ks: "one_of k = Some ws" by auto
  have "sort vs = sort ws"
    using list_key_parts [OF j js] list_key_parts [OF k ks] eq by simp
  then have "set vs = set ws" "length vs = length ws"
    by (metis set_sort, metis length_sort)
  with js ks j k show ?thesis
    by (simp add: same_kind_def constraint_ok_def)
qed

lemma same_kind_satisfies: "same_kind j k \<Longrightarrow> satisfies (Some j) v = satisfies (Some k) v"
  by (auto simp: same_kind_def satisfies_def split: option.splits)

text \<open>
  A value that passes a constraint holds no percent sign and only ASCII, so the handler, which
  sees it decoded, gets exactly the text that was tested; and no constraint accepts the empty value.
\<close>

theorem constraint_value_is_verbatim:
  assumes "paramConstraint text = Some k" and "satisfies (Some k) v"
  shows "v \<noteq> [] \<and> list_all plain v \<and> decodePathSegment v = Some v"
proof -
  note ok = paramConstraint_ok [OF assms(1)]
  have "v \<noteq> [] \<and> list_all plain v"
  proof (cases "one_of k")
    case None
    with ok assms(2) show ?thesis
      by (auto simp: constraint_ok_def satisfies_def plain_def list_all_iff)
  next
    case (Some vs)
    with ok assms(2) show ?thesis
      by (auto simp: constraint_ok_def satisfies_def list_all_iff value_char_plain)
  qed
  then show ?thesis
    by (simp add: decodePathSegment_def decode_plain)
qed

definition date_constraint :: param_constraint where
  "date_constraint = mk_class_constraint (js ''[0-9]{4}'') (fill_range 48 57 (replicate 128 False)) 4 4"

theorem constraint_value_is_verbatim_witness:
  "paramConstraint (js ''{[0-9]{4}}.x'') = Some date_constraint
   \<and> satisfies (Some date_constraint) (js ''2026'')
   \<and> decodePathSegment (js ''2026'') = Some (js ''2026'')"
proof -
  have p: "paramConstraint (js ''{[0-9]{4}}.x'') = Some date_constraint"
    by (simp add: paramConstraint_def parse_class_def class_members.simps parse_count_def class_char_def word_char_def
        word_start_def is_digit_def number_of_def date_constraint_def Let_def numeral_eq_enat)
  have s: "satisfies (Some date_constraint) (js ''2026'')"
    by (simp add: satisfies_def date_constraint_def mk_class_constraint_def mask_of_def fill_range_nth
        numeral_eq_enat)
  show ?thesis using p s constraint_value_is_verbatim [OF p s] by simp
qed

end
