(* ===== verification/MixedSegment.thy ===== *)
theory MixedSegment
  imports ParamConstraint
begin

text \<open>
  Segments that are part literal and part parameter, of \<open>packages/core/src/router/pattern.ts\<close>: how one
  is split into parts, laid out as a shape, and matched against a request's segment.
\<close>

datatype mixed_part = Lit jstr | Param jstr "param_constraint option"

section \<open>Splitting a mixed segment\<close>

definition reserved_param_names :: "jstr list" where
  "reserved_param_names = [js ''__proto__'', js ''constructor'', js ''prototype'']"

definition validParamName :: "jstr \<Rightarrow> bool" where
  "validParamName name \<longleftrightarrow>
     (case name of [] \<Rightarrow> False | c # cs \<Rightarrow> word_start c \<and> list_all word_char cs)
     \<and> name \<notin> set reserved_param_names"

text \<open>\<open>/^[A-Za-z_][A-Za-z0-9_]*/.exec(rest)\<close>\<close>

definition name_run :: "jstr \<Rightarrow> jstr option" where
  "name_run rest =
     (case rest of
        [] \<Rightarrow> None
      | c # cs \<Rightarrow> if word_start c then Some (c # takeWhile word_char cs) else None)"

definition constraint_len :: "param_constraint option \<Rightarrow> nat" where
  "constraint_len k = (case k of None \<Rightarrow> 0 | Some c \<Rightarrow> length (source c) + 2)"

definition flush :: "jstr \<Rightarrow> mixed_part list \<Rightarrow> mixed_part list" where
  "flush literal parts = (if literal = [] then parts else parts @ [Lit literal])"

text \<open>The loop of \<open>splitMixed\<close>: position, parts so far, open literal, whether a parameter was seen.\<close>

function split_loop ::
    "jstr \<Rightarrow> nat \<Rightarrow> mixed_part list \<Rightarrow> jstr \<Rightarrow> bool \<Rightarrow> mixed_part list option" where
  "split_loop v i parts literal saw =
     (if i < length v then
        (if v ! i \<noteq> 58 then split_loop v (Suc i) parts (literal @ [v ! i]) saw
         else
           (case name_run (drop (Suc i) v) of
              None \<Rightarrow> split_loop v (Suc i) parts (literal @ [58]) saw
            | Some name \<Rightarrow>
                (let param_end = i + 1 + length name in
                 if \<not> (i = 0 \<or> \<not> word_char (v ! (i - 1))) \<and> param_end = length v then
                   split_loop v (Suc (i + length name)) parts (literal @ [58] @ name) saw
                 else
                   (let constraint = paramConstraint (drop param_end v) in
                    split_loop v (param_end + constraint_len constraint)
                      (flush literal parts @ [Param name constraint]) [] True))))
      else if \<not> saw then None else Some (flush literal parts))"
  by pat_completeness auto
termination
  by (relation "measure (\<lambda>(v, i, parts, literal, saw). length v - i)") auto

declare split_loop.simps [simp del]

definition splitMixed :: "jstr \<Rightarrow> mixed_part list option" where
  "splitMixed v = split_loop v 0 [] [] False"

section \<open>Shapes\<close>

fun mixed_shape_loop :: "jstr list \<Rightarrow> mixed_part list \<Rightarrow> jstr list" where
  "mixed_shape_loop shape [] = shape"
| "mixed_shape_loop shape (Lit v # ps) = mixed_shape_loop (shape[length shape - 1 := v]) ps"
| "mixed_shape_loop shape (Param _ _ # ps) = mixed_shape_loop (shape @ [[]]) ps"

definition mixedSegmentShape :: "mixed_part list \<Rightarrow> jstr list" where
  "mixedSegmentShape parts = mixed_shape_loop [[]] parts"

definition constrainedParts :: "mixed_part list \<Rightarrow> mixed_part list option" where
  "constrainedParts parts =
     (if list_ex (\<lambda>p. case p of Param _ (Some _) \<Rightarrow> True | _ \<Rightarrow> False) parts then Some parts else None)"

text \<open>The separators between the two ends, each at its first occurrence after one character.\<close>

fun place_separators ::
    "jstr list \<Rightarrow> jstr \<Rightarrow> nat \<Rightarrow> nat \<Rightarrow> jstr list \<Rightarrow> (nat \<times> jstr list) option" where
  "place_separators [] seg pos e out = Some (pos, out)"
| "place_separators (sep # seps) seg pos e out =
     (case index_of seg sep (pos + 1) of
        None \<Rightarrow> None
      | Some found \<Rightarrow>
          (let next = found + length sep in
           if e \<le> next then None
           else place_separators seps seg next e (out @ [slice seg pos found])))"

text \<open>The values tested against the parts that are parameters, from index \<open>v\<close> of \<open>out\<close> on.\<close>

fun check_parts :: "mixed_part list \<Rightarrow> jstr list \<Rightarrow> nat \<Rightarrow> bool" where
  "check_parts [] out v \<longleftrightarrow> True"
| "check_parts (Lit _ # ps) out v \<longleftrightarrow> check_parts ps out v"
| "check_parts (Param _ c # ps) out v \<longleftrightarrow> satisfies c (out ! v) \<and> check_parts ps out (Suc v)"

text \<open>
  \<open>matchMixedSegment(shape, segment, out, checked)\<close>: whether it matched, and \<open>out\<close> afterwards.
  A miss truncates \<open>out\<close> to the length it had.
\<close>

definition matchMixedSegment ::
    "jstr list \<Rightarrow> jstr \<Rightarrow> jstr list \<Rightarrow> mixed_part list option \<Rightarrow> bool \<times> jstr list" where
  "matchMixedSegment shape seg out checked =
     (let last = length shape - 1; head = shape ! 0; tail = shape ! last;
          pos = length head in
      if length seg \<le> pos + length tail then (False, out)
      else
        (let e = length seg - length tail in
         if pos \<noteq> 0 \<and> \<not> prefix head seg then (False, out)
         else if e \<noteq> length seg \<and> \<not> suffix tail seg then (False, out)
         else
           (let base = length out in
            case place_separators (slice shape 1 last) seg pos e out of
              None \<Rightarrow> (False, take base out)
            | Some (pos', out') \<Rightarrow>
                (let out'' = out' @ [slice seg pos' e] in
                 case checked of
                   None \<Rightarrow> (True, out'')
                 | Some ps \<Rightarrow>
                     if check_parts ps out'' base then (True, out'') else (False, take base out'')))))"

section \<open>What a shape accepts\<close>

text \<open>\<open>splits seps t vs\<close>: the text between the two end literals is the values with the separators
  between them, no value empty.\<close>

fun splits :: "jstr list \<Rightarrow> jstr \<Rightarrow> jstr list \<Rightarrow> bool" where
  "splits [] t vs \<longleftrightarrow> vs = [t] \<and> t \<noteq> []"
| "splits (s # ss) t vs \<longleftrightarrow>
     (case vs of
        [] \<Rightarrow> False
      | v # vs' \<Rightarrow> v \<noteq> [] \<and> prefix (v @ s) t \<and> splits ss (drop (length v + length s) t) vs')"

definition shape_accepts :: "jstr list \<Rightarrow> jstr \<Rightarrow> jstr list \<Rightarrow> bool" where
  "shape_accepts shape seg vs \<longleftrightarrow>
     (\<exists>t. seg = shape ! 0 @ t @ shape ! (length shape - 1)
        \<and> splits (slice shape 1 (length shape - 1)) t vs)"

lemma splits_nonempty: "splits seps t vs \<Longrightarrow> t \<noteq> []"
  by (cases seps) (auto split: list.splits)

lemma splits_extend:
  "splits seps r vs \<Longrightarrow> \<exists>vs'. splits seps (x @ r) vs'"
proof (cases seps)
  case Nil
  assume "splits seps r vs"
  with Nil show ?thesis by auto
next
  case (Cons s ss)
  assume a: "splits seps r vs"
  with Cons obtain v vs' where v: "vs = v # vs'" "v \<noteq> []" "prefix (v @ s) r"
      "splits ss (drop (length v + length s) r) vs'"
    by (auto split: list.splits)
  then have "splits seps (x @ r) ((x @ v) # vs')"
    using Cons by (auto simp: prefix_def)
  then show ?thesis by blast
qed

lemma prefix_drop_find:
  "prefix pat (drop i t) \<Longrightarrow> \<exists>j \<le> i. find_sub pat t = Some j"
proof (cases "find_sub pat t")
  case None
  assume "prefix pat (drop i t)"
  with find_sub_None [OF None] show ?thesis by blast
next
  case (Some j)
  assume "prefix pat (drop i t)"
  with find_sub_first [OF Some, of i] Some show ?thesis
    by (meson not_le_imp_less)
qed

lemma index_of_found:
  assumes "prefix pat (drop i t)" and "from \<le> i" "i \<le> length t"
  shows "\<exists>j. index_of t pat from = Some j \<and> from \<le> j \<and> j \<le> i"
proof -
  have "prefix pat (drop (i - from) (drop from t))"
    using assms by simp
  then obtain j where "j \<le> i - from" "find_sub pat (drop from t) = Some j"
    using prefix_drop_find by blast
  then show ?thesis
    using assms by (auto simp: index_of_def min_def)
qed

lemma index_of_SomeD:
  assumes "index_of t pat from = Some j" and "from \<le> length t"
  shows "from \<le> j \<and> j + length pat \<le> length t \<and> prefix pat (drop j t)"
    and "from \<le> k \<Longrightarrow> k < j \<Longrightarrow> \<not> prefix pat (drop k t)"
proof -
  obtain i where i: "find_sub pat (drop from t) = Some i" "j = from + i"
    using assms by (auto simp: index_of_def min_def)
  show "from \<le> j \<and> j + length pat \<le> length t \<and> prefix pat (drop j t)"
    using find_sub_Some [OF i(1)] i(2) assms(2) by (auto simp: add.commute)
  show "from \<le> k \<Longrightarrow> k < j \<Longrightarrow> \<not> prefix pat (drop k t)"
    using find_sub_first [OF i(1), of "k - from"] i(2) by simp
qed

lemma drop_slice: "drop k (slice s a b) = slice s (a + k) b"
  by (simp add: slice_def drop_take add.commute)

lemma prefix_slice_iff:
  "prefix p (slice s a b) \<longleftrightarrow> prefix p (drop a s) \<and> length p \<le> b - a"
proof
  assume p: "prefix p (slice s a b)"
  then have "prefix p (drop a s)"
    unfolding slice_def using prefix_order.trans take_is_prefix by blast
  with prefix_length_le [OF p] show "prefix p (drop a s) \<and> length p \<le> b - a"
    by simp
next
  assume p: "prefix p (drop a s) \<and> length p \<le> b - a"
  then have "prefix p (drop a s)" "length p \<le> length (take (b - a) (drop a s))"
    using prefix_length_le [of p "drop a s"] by auto
  then show "prefix p (slice s a b)"
    unfolding slice_def using prefix_length_prefix take_is_prefix by blast
qed

lemma slice_split:
  assumes "a \<le> m" and "m \<le> b"
  shows "slice s a b = slice s a m @ slice s m b"
proof -
  have "b - a = (m - a) + (b - m)" using assms by simp
  then have "slice s a b = take (m - a) (drop a s) @ take (b - m) (drop (m - a) (drop a s))"
    by (simp add: slice_def take_add)
  then show ?thesis
    using assms by (simp add: slice_def)
qed

section \<open>Placing the separators\<close>

lemma place_sound:
  "place_separators seps seg pos e out = Some (pos', out') \<Longrightarrow> pos < e \<Longrightarrow> e \<le> length seg \<Longrightarrow>
   \<exists>vs. out' = out @ vs \<and> pos' < e \<and> splits seps (slice seg pos e) (vs @ [slice seg pos' e])"
proof (induction seps seg pos e out arbitrary: pos' out' rule: place_separators.induct)
  case (1 seg pos e out)
  then have "slice seg pos e \<noteq> []" by (simp add: slice_def)
  with 1 show ?case by auto
next
  case (2 sep seps seg pos e out)
  obtain found where f: "index_of seg sep (pos + 1) = Some found"
    and lt: "found + length sep < e"
    and rest: "place_separators seps seg (found + length sep) e (out @ [slice seg pos found])
        = Some (pos', out')"
    using "2.prems"(1) by (auto simp: Let_def split: option.splits if_splits)
  from f "2.prems" have fp: "pos + 1 \<le> found" "prefix sep (drop found seg)"
    using index_of_SomeD(1) [OF f] by auto
  obtain vs where vs: "out' = (out @ [slice seg pos found]) @ vs" "pos' < e"
      "splits seps (slice seg (found + length sep) e) (vs @ [slice seg pos' e])"
    using "2.IH" [OF f refl _ rest lt "2.prems"(3)] lt by auto
  let ?v = "slice seg pos found"
  have len: "length ?v = found - pos" using fp lt "2.prems" by simp
  have "slice seg pos e = ?v @ slice seg found e"
    using fp lt by (intro slice_split) auto
  moreover have "prefix sep (slice seg found e)"
    using fp lt by (simp add: prefix_slice_iff)
  ultimately have "prefix (?v @ sep) (slice seg pos e)" by simp
  moreover have "drop (length ?v + length sep) (slice seg pos e) = slice seg (found + length sep) e"
    using fp len by (simp add: drop_slice)
  moreover have "?v \<noteq> []"
    using len fp by (metis One_nat_def Suc_eq_plus1 Suc_le_lessD length_0_conv less_numeral_extra(3) zero_less_diff)
  ultimately show ?case
    using vs by auto
qed

text \<open>
  Completeness: if the text between the ends can be split at all, the first occurrences split it,
  and the values they give are the shortest possible, in order.
\<close>

lemma place_complete:
  "splits seps (slice seg pos e) vs \<Longrightarrow> e \<le> length seg \<Longrightarrow>
   place_separators seps seg pos e out \<noteq> None"
proof (induction seps seg pos e out arbitrary: vs rule: place_separators.induct)
  case (2 sep seps seg pos e out)
  obtain v vs' where v: "v \<noteq> []" "prefix (v @ sep) (slice seg pos e)"
      "splits seps (drop (length v + length sep) (slice seg pos e)) vs'"
    using "2.prems"(1) by (auto split: list.splits)
  have r: "splits seps (slice seg (pos + length v + length sep) e) vs'"
    using v(3) by (simp add: drop_slice add.assoc)
  then have lt: "pos + length v + length sep < e"
    using splits_nonempty [OF r] by (auto simp: slice_def)
  have "prefix sep (drop (length v) (slice seg pos e))"
    using v(2) by (auto simp: prefix_def)
  then have "prefix sep (drop (pos + length v) seg)"
    by (simp add: drop_slice prefix_slice_iff)
  moreover have "pos + 1 \<le> pos + length v"
    using v(1) by (cases v) auto
  ultimately obtain found where f: "index_of seg sep (pos + 1) = Some found" "found \<le> pos + length v"
    using index_of_found [of sep "pos + length v" seg "pos + 1"] lt "2.prems" by auto
  have "slice seg (found + length sep) e
      = slice seg (found + length sep) (pos + length v + length sep) @ slice seg (pos + length v + length sep) e"
    using f lt by (intro slice_split) auto
  then obtain ws where "splits seps (slice seg (found + length sep) e) ws"
    using splits_extend [OF r] by metis
  from "2.IH" [OF f(1) refl _ this "2.prems"(2)] f lt show ?case
    by auto
qed simp

lemma splits_length: "splits seps t vs \<Longrightarrow> length vs = Suc (length seps)"
  by (induction seps t vs rule: splits.induct) (auto split: list.splits)

lemma place_minimal:
  "splits seps (slice seg pos e) ws \<Longrightarrow> e \<le> length seg \<Longrightarrow>
   place_separators seps seg pos e out = Some (pos', out @ vs) \<Longrightarrow>
   map length (vs @ [slice seg pos' e]) \<le> map length ws"
proof (induction seps seg pos e out arbitrary: ws vs pos' rule: place_separators.induct)
  case (1 seg pos e out)
  then show ?case by auto
next
  case (2 sep seps seg pos e out)
  obtain w ws' where w: "ws = w # ws'" "w \<noteq> []" "prefix (w @ sep) (slice seg pos e)"
      "splits seps (drop (length w + length sep) (slice seg pos e)) ws'"
    using "2.prems"(1) by (auto split: list.splits)
  have r: "splits seps (slice seg (pos + length w + length sep) e) ws'"
    using w(4) by (simp add: drop_slice add.assoc)
  then have lt: "pos + length w + length sep < e"
    using splits_nonempty [OF r] by (auto simp: slice_def)
  have "prefix sep (drop (length w) (slice seg pos e))"
    using w(3) by (auto simp: prefix_def)
  then have "prefix sep (drop (pos + length w) seg)"
    by (simp add: drop_slice prefix_slice_iff)
  moreover have "pos + 1 \<le> pos + length w"
    using w(2) by (cases w) auto
  ultimately obtain found where f: "index_of seg sep (pos + 1) = Some found"
      "pos + 1 \<le> found" "found \<le> pos + length w"
    using index_of_found [of sep "pos + length w" seg "pos + 1"] lt "2.prems" by auto
  have p: "place_separators seps seg (found + length sep) e (out @ [slice seg pos found])
      = Some (pos', out @ vs)" and "\<not> e \<le> found + length sep"
    using "2.prems"(3) f(1) by (auto simp: Let_def split: if_splits)
  then have fe: "found + length sep < e" by simp
  obtain us where us: "vs = slice seg pos found # us"
    using place_sound [OF p fe "2.prems"(2)] by auto
  have lv: "length (slice seg pos found) = found - pos"
    using fe "2.prems"(2) by simp
  show ?case
  proof (cases "found = pos + length w")
    case False
    then show ?thesis
      using us w lv f by auto
  next
    case True
    have "map length (us @ [slice seg pos' e]) \<le> map length ws'"
      using "2.IH" [OF f(1) refl _ _ "2.prems"(2), of ws' pos' us] p fe r us True by auto
    then show ?thesis
      using us w lv True by simp
  qed
qed

section \<open>Matching\<close>

definition ends_fit :: "jstr list \<Rightarrow> jstr \<Rightarrow> bool" where
  "ends_fit shape seg \<longleftrightarrow>
     length (shape ! 0) + length (shape ! (length shape - 1)) < length seg
     \<and> prefix (shape ! 0) seg \<and> suffix (shape ! (length shape - 1)) seg"

definition middle :: "jstr list \<Rightarrow> jstr \<Rightarrow> jstr" where
  "middle shape seg =
     slice seg (length (shape ! 0)) (length seg - length (shape ! (length shape - 1)))"

lemma accepts_middle:
  "shape_accepts shape seg vs \<longleftrightarrow>
     ends_fit shape seg \<and> splits (slice shape 1 (length shape - 1)) (middle shape seg) vs"
proof
  assume "shape_accepts shape seg vs"
  then obtain t where t: "seg = shape ! 0 @ t @ shape ! (length shape - 1)"
      "splits (slice shape 1 (length shape - 1)) t vs"
    by (auto simp: shape_accepts_def)
  then have "middle shape seg = t" and "t \<noteq> []"
    by (auto simp: middle_def slice_def dest: splits_nonempty)
  with t show "ends_fit shape seg \<and> splits (slice shape 1 (length shape - 1)) (middle shape seg) vs"
    by (auto simp: ends_fit_def suffix_def)
next
  assume a: "ends_fit shape seg \<and> splits (slice shape 1 (length shape - 1)) (middle shape seg) vs"
  let ?h = "shape ! 0" and ?t = "shape ! (length shape - 1)"
  have "prefix ?h seg" "suffix ?t seg"
    using a by (simp_all add: ends_fit_def)
  then have tk: "take (length ?h) seg = ?h"
    unfolding prefix_def by (metis append_eq_conv_conj)
  from \<open>suffix ?t seg\<close> have t: "drop (length seg - length ?t) seg = ?t"
    by (auto simp: suffix_def simp del: append_assoc)
  from tk have h: "slice seg 0 (length ?h) = ?h" by (simp add: slice_def)
  have le: "length ?h \<le> length seg - length ?t"
    using a by (auto simp: ends_fit_def)
  have "seg = slice seg 0 (length seg - length ?t) @ drop (length seg - length ?t) seg"
    by (simp add: slice_def)
  also have "slice seg 0 (length seg - length ?t) = ?h @ middle shape seg"
    using slice_split [OF _ le, of 0 seg] h by (simp add: middle_def)
  finally have "seg = ?h @ middle shape seg @ ?t" using t by simp
  with a show "shape_accepts shape seg vs"
    unfolding shape_accepts_def by blast
qed

lemma matchMixed_unfold:
  "matchMixedSegment shape seg out checked =
     (if \<not> ends_fit shape seg then (False, out)
      else
        (let e = length seg - length (shape ! (length shape - 1)) in
         case place_separators (slice shape 1 (length shape - 1)) seg (length (shape ! 0)) e out of
           None \<Rightarrow> (False, out)
         | Some (pos, out') \<Rightarrow>
             (case checked of
                None \<Rightarrow> (True, out' @ [slice seg pos e])
              | Some ps \<Rightarrow>
                  if check_parts ps (out' @ [slice seg pos e]) (length out)
                  then (True, out' @ [slice seg pos e]) else (False, take (length out) (out' @ [slice seg pos e])))))"
proof -
  let ?h = "shape ! 0" and ?t = "shape ! (length shape - 1)"
  have "length seg - length ?t \<noteq> length seg \<longleftrightarrow> ?t \<noteq> []" if "length ?h + length ?t < length seg"
    using that by (cases ?t) auto
  then show ?thesis
    unfolding matchMixedSegment_def Let_def ends_fit_def
    by (auto split: option.split prod.split)
qed

lemma matchMixed_True:
  assumes "matchMixedSegment shape seg out checked = (True, out')"
  obtains vs where "out' = out @ vs" and "shape_accepts shape seg vs"
    and "\<And>ws. shape_accepts shape seg ws \<Longrightarrow> map length vs \<le> map length ws"
    and "\<And>ps. checked = Some ps \<Longrightarrow> check_parts ps out' (length out)"
proof -
  let ?e = "length seg - length (shape ! (length shape - 1))"
  let ?seps = "slice shape 1 (length shape - 1)" and ?p = "length (shape ! 0)"
  have fit: "ends_fit shape seg"
    using assms by (auto simp: matchMixed_unfold split: if_splits)
  then obtain pos o1 where p: "place_separators ?seps seg ?p ?e out = Some (pos, o1)"
    and o: "out' = o1 @ [slice seg pos ?e]"
    and c: "\<And>ps. checked = Some ps \<Longrightarrow> check_parts ps out' (length out)"
    using assms by (auto simp: matchMixed_unfold Let_def split: option.splits if_splits)
  have lt: "?p < ?e" "?e \<le> length seg" using fit by (auto simp: ends_fit_def)
  obtain vs where vs: "o1 = out @ vs" "splits ?seps (slice seg ?p ?e) (vs @ [slice seg pos ?e])"
    using place_sound [OF p lt] by blast
  show thesis
  proof (rule that)
    show "out' = out @ (vs @ [slice seg pos ?e])" using o vs by simp
    show "shape_accepts shape seg (vs @ [slice seg pos ?e])"
      using vs fit by (simp add: accepts_middle middle_def)
    show "map length (vs @ [slice seg pos ?e]) \<le> map length ws" if "shape_accepts shape seg ws" for ws
      using place_minimal [of ?seps seg ?p ?e ws out pos vs] that p vs lt
      by (simp add: accepts_middle middle_def)
  qed (rule c)
qed

lemma matchMixed_False:
  assumes "matchMixedSegment shape seg out checked = (False, out')"
  shows "out' = out"
proof (rule ccontr)
  assume n: "out' \<noteq> out"
  let ?e = "length seg - length (shape ! (length shape - 1))"
  have fit: "ends_fit shape seg"
    using assms n by (auto simp: matchMixed_unfold split: if_splits)
  then obtain pos o1 where p: "place_separators (slice shape 1 (length shape - 1)) seg
        (length (shape ! 0)) ?e out = Some (pos, o1)"
    and o: "out' = take (length out) (o1 @ [slice seg pos ?e])"
    using assms n by (auto simp: matchMixed_unfold Let_def split: option.splits if_splits)
  have "length (shape ! 0) < ?e" using fit by (auto simp: ends_fit_def)
  from place_sound [OF p this] obtain vs where "o1 = out @ vs" by auto
  with o n show False by simp
qed

lemma matchMixed_complete:
  assumes "shape_accepts shape seg vs"
  shows "fst (matchMixedSegment shape seg out None)"
  using assms place_complete [of "slice shape 1 (length shape - 1)" seg _ _ vs out]
  by (auto simp: accepts_middle middle_def matchMixed_unfold Let_def split: option.split)

lemma matchMixed_checked:
  "matchMixedSegment shape seg out (Some ps) =
     (case matchMixedSegment shape seg out None of
        (True, out') \<Rightarrow> if check_parts ps out' (length out) then (True, out') else (False, out)
      | (False, out') \<Rightarrow> (False, out'))"
proof (cases "matchMixedSegment shape seg out None")
  case (Pair b out')
  then show ?thesis
    using matchMixed_False [of shape seg out "Some ps"]
    by (cases b) (auto simp: matchMixed_unfold Let_def split: option.splits if_splits)
qed

text \<open>
  C6: the one-pass scanner decides exactly what an anchored pattern with lazy captures decides: it
  matches iff the segment splits into the literals and non-empty values at all, and then captures
  the shortest values from left to right; on a miss the capture list is as it was.
\<close>

theorem mixed_match_exact:
  "matchMixedSegment shape seg out None = (b, out') \<Longrightarrow>
     (b \<longleftrightarrow> (\<exists>vs. shape_accepts shape seg vs))
     \<and> (b \<longrightarrow> (\<exists>vs. out' = out @ vs \<and> shape_accepts shape seg vs
           \<and> (\<forall>ws. shape_accepts shape seg ws \<longrightarrow> map length vs \<le> map length ws)))
     \<and> (\<not> b \<longrightarrow> out' = out)"
proof (cases b)
  case True
  assume m: "matchMixedSegment shape seg out None = (b, out')"
  with True have "matchMixedSegment shape seg out None = (True, out')" by simp
  then show ?thesis
    by (rule matchMixed_True) (use True in blast)
next
  case False
  assume m: "matchMixedSegment shape seg out None = (b, out')"
  with False matchMixed_complete [of shape seg _ out] matchMixed_False show ?thesis
    by (metis fst_conv)
qed

theorem mixed_match_exact_witness:
  "matchMixedSegment [js ''v'', js ''.'', []] (js ''v1.2.3'') [js ''x''] None
     = (True, [js ''x'', js ''1'', js ''2.3''])
   \<and> (\<exists>vs. shape_accepts [js ''v'', js ''.'', []] (js ''v1.2.3'') vs)"
proof -
  have m: "matchMixedSegment [js ''v'', js ''.'', []] (js ''v1.2.3'') [js ''x''] None
     = (True, [js ''x'', js ''1'', js ''2.3''])"
    by (simp add: matchMixedSegment_def Let_def slice_def index_of_def)
  with mixed_match_exact [OF m] show ?thesis by blast
qed

section \<open>Parts and shapes\<close>

text \<open>What \<open>splitMixed\<close> yields: non-empty literals, no two adjacent, and sound constraints.\<close>

fun starts_lit :: "mixed_part list \<Rightarrow> bool" where
  "starts_lit (Lit _ # _) \<longleftrightarrow> True"
| "starts_lit _ \<longleftrightarrow> False"

fun parts_wf :: "mixed_part list \<Rightarrow> bool" where
  "parts_wf [] \<longleftrightarrow> True"
| "parts_wf (Lit v # ps) \<longleftrightarrow> v \<noteq> [] \<and> \<not> starts_lit ps \<and> parts_wf ps"
| "parts_wf (Param _ k # ps) \<longleftrightarrow> (case k of None \<Rightarrow> True | Some c \<Rightarrow> constraint_ok c) \<and> parts_wf ps"

fun params_of :: "mixed_part list \<Rightarrow> jstr list" where
  "params_of [] = []"
| "params_of (Lit _ # ps) = params_of ps"
| "params_of (Param n _ # ps) = n # params_of ps"

lemma params_of_append [simp]: "params_of (ps @ qs) = params_of ps @ params_of qs"
  by (induction ps rule: params_of.induct) simp_all

lemma starts_lit_append [simp]: "ps \<noteq> [] \<Longrightarrow> starts_lit (ps @ qs) = starts_lit ps"
  by (cases ps rule: starts_lit.cases) auto

lemma parts_wf_append_param:
  "parts_wf (ps @ [Param n k]) \<longleftrightarrow> parts_wf ps \<and> (case k of None \<Rightarrow> True | Some c \<Rightarrow> constraint_ok c)"
proof (induction ps rule: parts_wf.induct)
  case (2 v ps)
  then show ?case by (cases ps rule: starts_lit.cases) auto
qed auto

lemma parts_wf_append_lit:
  "ps = [] \<or> (\<exists>qs n k. ps = qs @ [Param n k]) \<Longrightarrow> v \<noteq> [] \<Longrightarrow> parts_wf (ps @ [Lit v]) \<longleftrightarrow> parts_wf ps"
proof (induction ps rule: parts_wf.induct)
  case (2 w ps)
  then obtain qs n k where "Lit w # ps = qs @ [Param n k]" by auto
  then obtain qs' where "ps = qs' @ [Param n k]" by (cases qs) auto
  then have "ps \<noteq> []" and "ps = [] \<or> (\<exists>qs n k. ps = qs @ [Param n k])" by auto
  with 2 show ?case by simp
next
  case (3 n k ps)
  have "ps = [] \<or> (\<exists>qs n k. ps = qs @ [Param n k])"
    using "3.prems"(1) by (auto simp: Cons_eq_append_conv)
  with 3 show ?case by simp
qed simp

definition parts_inv :: "mixed_part list \<Rightarrow> bool \<Rightarrow> bool" where
  "parts_inv ps saw \<longleftrightarrow> parts_wf ps \<and> (if saw then \<exists>qs n k. ps = qs @ [Param n k] else ps = [])"

lemma flush_wf:
  "parts_inv ps saw \<Longrightarrow> parts_wf (flush l ps)"
  by (auto simp: parts_inv_def flush_def parts_wf_append_lit split: if_splits)

lemma split_loop_wf:
  "split_loop v i parts literal saw = Some ps \<Longrightarrow> parts_inv parts saw \<Longrightarrow>
   parts_wf ps \<and> params_of ps \<noteq> []"
proof (induction v i parts literal saw rule: split_loop.induct)
  case (1 v i parts literal saw)
  note eq = split_loop.simps [of v i parts literal saw]
  consider "length v \<le> i" | "i < length v" "v ! i \<noteq> 58"
    | "i < length v" "v ! i = 58" "name_run (drop (Suc i) v) = None"
    | name where "i < length v" "v ! i = 58" "name_run (drop (Suc i) v) = Some name"
    by (cases "name_run (drop (Suc i) v)") fastforce+
  then show ?case
  proof cases
    case 1
    then have saw: "saw" and ps: "ps = flush literal parts"
      using "1.prems"(1) by (auto simp: eq split: if_splits)
    moreover have "params_of (flush literal parts) \<noteq> []"
      using "1.prems"(2) saw by (auto simp: parts_inv_def flush_def)
    ultimately show ?thesis
      using flush_wf [OF "1.prems"(2)] by simp
  next
    case 2
    with "1.IH"(1) [OF 2] "1.prems" show ?thesis by (simp add: eq)
  next
    case 3
    with "1.IH"(2) "1.prems" show ?thesis by (simp add: eq)
  next
    case (4 name)
    show ?thesis
    proof (cases "\<not> (i = 0 \<or> \<not> word_char (v ! (i - 1))) \<and> i + 1 + length name = length v")
      case True
      with 4 "1.IH"(3) "1.prems" show ?thesis by (simp add: eq Let_def)
    next
      case False
      let ?k = "paramConstraint (drop (i + 1 + length name) v)"
      have "parts_inv (flush literal parts @ [Param name ?k]) True"
        using flush_wf [OF "1.prems"(2), of literal] paramConstraint_ok
        by (auto simp: parts_inv_def parts_wf_append_param split: option.splits)
      moreover have "split_loop v (i + 1 + length name + constraint_len ?k)
          (flush literal parts @ [Param name ?k]) [] True = Some ps"
        using "1.prems"(1) 4 False unfolding eq by (auto simp: Let_def split: if_splits)
      ultimately show ?thesis
        using "1.IH"(4) [OF 4(1) _ 4(3) refl False refl] 4(2) by simp
    qed
  qed
qed

definition slash_free :: "mixed_part list \<Rightarrow> bool" where
  "slash_free ps \<longleftrightarrow> (\<forall>w. Lit w \<in> set ps \<longrightarrow> 47 \<notin> set w)"

lemma flush_slash_free: "slash_free ps \<Longrightarrow> 47 \<notin> set l \<Longrightarrow> slash_free (flush l ps)"
  by (auto simp: slash_free_def flush_def)

lemma name_run_sub: "name_run t = Some name \<Longrightarrow> c \<in> set name \<Longrightarrow> c \<in> set t"
  by (auto simp: name_run_def split: list.splits if_splits dest: set_takeWhileD)

lemma split_loop_slash_free:
  "split_loop v i parts literal saw = Some ps \<Longrightarrow> 47 \<notin> set v \<Longrightarrow> 47 \<notin> set literal \<Longrightarrow>
   slash_free parts \<Longrightarrow> slash_free ps"
proof (induction v i parts literal saw rule: split_loop.induct)
  case (1 v i parts literal saw)
  note eq = split_loop.simps [of v i parts literal saw]
  have vi: "i < length v \<Longrightarrow> v ! i \<noteq> 47"
    using "1.prems"(2) nth_mem by metis
  consider "length v \<le> i" | "i < length v" "v ! i \<noteq> 58"
    | "i < length v" "v ! i = 58" "name_run (drop (Suc i) v) = None"
    | name where "i < length v" "v ! i = 58" "name_run (drop (Suc i) v) = Some name"
    by (cases "name_run (drop (Suc i) v)") fastforce+
  then show ?case
  proof cases
    case 1
    with "1.prems" show ?thesis by (auto simp: eq flush_slash_free split: if_splits)
  next
    case 2
    with "1.IH"(1) [OF 2] "1.prems" vi show ?thesis by (simp add: eq)
  next
    case 3
    with "1.IH"(2) "1.prems" show ?thesis by (simp add: eq)
  next
    case (4 name)
    have nm: "47 \<notin> set name"
      using name_run_sub [OF 4(3)] "1.prems"(2) by (meson in_set_dropD)
    show ?thesis
    proof (cases "\<not> (i = 0 \<or> \<not> word_char (v ! (i - 1))) \<and> i + 1 + length name = length v")
      case True
      with 4 "1.IH"(3) "1.prems" nm show ?thesis by (simp add: eq Let_def)
    next
      case False
      let ?k = "paramConstraint (drop (i + 1 + length name) v)"
      have "slash_free (flush literal parts @ [Param name ?k])"
        using flush_slash_free [OF "1.prems"(4,3)] by (auto simp: slash_free_def)
      moreover have "split_loop v (i + 1 + length name + constraint_len ?k)
          (flush literal parts @ [Param name ?k]) [] True = Some ps"
        using "1.prems"(1) 4 False unfolding eq by (auto simp: Let_def split: if_splits)
      ultimately show ?thesis
        using "1.IH"(4) [OF 4(1) _ 4(3) refl False refl] 4(2) "1.prems"(2) by simp
    qed
  qed
qed

lemma splitMixed_slash_free: "splitMixed v = Some ps \<Longrightarrow> 47 \<notin> set v \<Longrightarrow> slash_free ps"
  unfolding splitMixed_def by (erule split_loop_slash_free) (auto simp: slash_free_def)

lemma splitMixed_wf: "splitMixed v = Some ps \<Longrightarrow> parts_wf ps \<and> params_of ps \<noteq> []"
  by (auto simp: splitMixed_def parts_inv_def dest: split_loop_wf)

text \<open>
  The segment text that the parts describe for given values, and the same read off a shape: the
  literals in their slots around the values.
\<close>

fun render :: "mixed_part list \<Rightarrow> jstr list \<Rightarrow> jstr option" where
  "render [] [] = Some []"
| "render (Lit v # ps) vs = map_option ((@) v) (render ps vs)"
| "render (Param _ _ # ps) (x # vs) = map_option ((@) x) (render ps vs)"
| "render _ _ = None"

fun shape_text :: "jstr list \<Rightarrow> jstr list \<Rightarrow> jstr option" where
  "shape_text [h] [] = Some h"
| "shape_text (h # s # ss) (v # vs) = map_option (\<lambda>t. h @ v @ t) (shape_text (s # ss) vs)"
| "shape_text _ _ = None"

fun shape_rec :: "mixed_part list \<Rightarrow> jstr list" where
  "shape_rec [] = [[]]"
| "shape_rec (Lit v # ps) = v # tl (shape_rec ps)"
| "shape_rec (Param _ _ # ps) = [] # shape_rec ps"

lemma shape_rec_not_Nil [simp]: "shape_rec ps \<noteq> []"
  by (cases ps rule: shape_rec.cases) auto

lemma length_shape_rec: "length (shape_rec ps) = Suc (length (params_of ps))"
proof (induction ps rule: shape_rec.induct)
  case (2 v ps)
  then show ?case by (cases "shape_rec ps") auto
qed auto

lemma hd_shape_rec: "\<not> starts_lit ps \<Longrightarrow> hd (shape_rec ps) = []"
  by (cases ps rule: shape_rec.cases) auto

lemma shape_loop_rec:
  "parts_wf ps \<Longrightarrow> l = [] \<or> \<not> starts_lit ps \<Longrightarrow>
   mixed_shape_loop (sh @ [l]) ps = sh @ (if starts_lit ps then shape_rec ps else l # tl (shape_rec ps))"
proof (induction ps arbitrary: sh l)
  case (Cons p ps)
  show ?case
  proof (cases p)
    case (Lit v)
    then show ?thesis
      using Cons.prems Cons.IH [of v sh] by auto
  next
    case (Param n k)
    have "mixed_shape_loop ((sh @ [l]) @ [[]]) ps = (sh @ [l]) @ shape_rec ps"
      using Cons.prems Cons.IH [of "[]" "sh @ [l]"] Param hd_shape_rec [of ps]
      by (cases "shape_rec ps") auto
    then show ?thesis
      using Param by simp
  qed
qed simp

lemma mixedSegmentShape_rec: "parts_wf ps \<Longrightarrow> mixedSegmentShape ps = shape_rec ps"
  using shape_loop_rec [of ps "[]" "[]"] hd_shape_rec [of ps]
  by (cases "shape_rec ps") (auto simp: mixedSegmentShape_def)

lemma shape_text_Nil_iff [simp]: "shape_text [] vs = None"
  by (cases vs) auto

lemma shape_text_Cons_append:
  "shape_text ((a @ h) # ss) vs = map_option ((@) a) (shape_text (h # ss) vs)"
  by (cases ss; cases vs) (auto simp: option.map_comp comp_def)

lemma shape_text_no_values [simp]: "r \<noteq> [] \<Longrightarrow> shape_text (h # r) [] = None"
  by (cases r) auto

lemma render_shape: "parts_wf ps \<Longrightarrow> render ps vs = shape_text (shape_rec ps) vs"
proof (induction ps vs rule: render.induct)
  case (2 v ps vs)
  then have "hd (shape_rec ps) = []" by (simp add: hd_shape_rec)
  then obtain r where "shape_rec ps = [] # r" by (cases "shape_rec ps") auto
  with 2 show ?case
    using shape_text_Cons_append [of v "[]" r vs] by simp
next
  case (3 n k ps x vs)
  then show ?case
    by (cases "shape_rec ps") (auto simp: option.map_comp comp_def)
qed auto

lemma splits_shape_text:
  "splits seps t vs \<longleftrightarrow> shape_text ([] # seps @ [[]]) vs = Some t \<and> [] \<notin> set vs"
proof (induction seps arbitrary: t vs)
  case Nil
  then show ?case
    by (cases vs rule: list.exhaust; cases "tl vs") auto
next
  case (Cons s seps)
  show ?case
  proof (cases vs)
    case (Cons v vs')
    have "shape_text (s # seps @ [[]]) vs' = map_option ((@) s) (shape_text ([] # seps @ [[]]) vs')"
      using shape_text_Cons_append [of s "[]"] by simp
    then show ?thesis
      using Cons Cons.IH by (auto simp: prefix_def)
  qed simp
qed

lemma shape_text_tail:
  "shape_text (h # ss @ [a @ b]) vs = map_option (\<lambda>t. t @ b) (shape_text (h # ss @ [a]) vs)"
proof (induction ss arbitrary: h vs)
  case (Cons s ss)
  then show ?case by (cases vs) (auto simp: option.map_comp comp_def)
next
  case Nil
  then show ?case by (cases vs; cases "tl vs") auto
qed

lemma shape_accepts_text:
  assumes "2 \<le> length shape"
  shows "shape_accepts shape seg vs \<longleftrightarrow> shape_text shape vs = Some seg \<and> [] \<notin> set vs"
proof -
  obtain h ss b where sh: "shape = h # ss @ [b]"
    using assms by (metis Suc_le_length_iff append_butlast_last_id list.discI numeral_2_eq_2)
  then have "shape_text shape vs = map_option (\<lambda>t. h @ t @ b) (shape_text ([] # ss @ [[]]) vs)"
    using shape_text_Cons_append [of h "[]" "ss @ [b]" vs] shape_text_tail [of "[]" ss "[]" b vs]
    by (simp add: option.map_comp comp_def)
  moreover have "slice shape 1 (length shape - 1) = ss"
    using sh by (simp add: slice_def)
  ultimately show ?thesis
    using sh by (auto simp: shape_accepts_def splits_shape_text nth_append)
qed

text \<open>
  Laying parts out as a shape loses nothing: for the parts \<open>splitMixed\<close> gives, a shape accepts
  exactly the segments that are the parts written one after the other with non-empty values for the
  parameters.
\<close>

theorem mixed_shape_faithful:
  assumes "splitMixed v = Some ps"
  shows "shape_accepts (mixedSegmentShape ps) seg vs \<longleftrightarrow> render ps vs = Some seg \<and> [] \<notin> set vs"
proof -
  have wf: "parts_wf ps" "params_of ps \<noteq> []"
    using splitMixed_wf [OF assms] by auto
  have "2 \<le> length (shape_rec ps)"
    using wf by (cases "params_of ps") (auto simp: length_shape_rec)
  then show ?thesis
    using wf by (simp add: mixedSegmentShape_rec shape_accepts_text render_shape)
qed

theorem mixed_shape_faithful_witness:
  "splitMixed (js '':a.txt'') = Some [Param (js ''a'') None, Lit (js ''.txt'')]
   \<and> shape_accepts (mixedSegmentShape [Param (js ''a'') None, Lit (js ''.txt'')]) (js ''x.txt.txt'') [js ''x.txt'']"
proof -
  have s: "splitMixed (js '':a.txt'') = Some [Param (js ''a'') None, Lit (js ''.txt'')]"
    by (simp add: splitMixed_def split_loop.simps name_run_def word_start_def word_char_def
        is_digit_def paramConstraint_def constraint_len_def flush_def Let_def)
  show ?thesis using s mixed_shape_faithful [OF s] by simp
qed

end
