(* ===== verification/RoutePattern.thy ===== *)
theory RoutePattern
  imports MixedSegment
begin

text \<open>
  The route grammar of \<open>packages/core/src/router/pattern.ts\<close>: optional parameters are expanded, and a
  pattern is compiled into segments and parameter names. Unicode normalisation
  (\<open>String.prototype.normalize\<close>) is the argument \<open>nfc\<close>. \<open>route_config_error\<close> lists what registration may throw: the
  codes of \<open>RouteConfigError\<close>, and \<open>URI_ERROR\<close> for the plain \<open>URIError\<close> that encoding a lone surrogate throws.
\<close>

datatype route_config_error =
    INVALID_PATH | INVALID_PARAM_NAME | DUPLICATE_PARAM | WILDCARD_NOT_LAST | URI_ERROR
  | INVALID_METHOD | PARAM_NAME_CONFLICT | DUPLICATE_ROUTE

datatype segment = Static jstr | ParamSeg jstr | Wildcard jstr | Mixed "mixed_part list"

record compiled_pattern =
  pattern :: jstr
  segments :: "segment list"
  param_names :: "jstr list"

section \<open>Optional parameters\<close>

definition isOptionalParam :: "jstr \<Rightarrow> bool" where
  "isOptionalParam seg =
     (if suffix [63] seg then
        (case splitMixed (butlast seg) of Some [Param _ _] \<Rightarrow> True | _ \<Rightarrow> False)
      else False)"

fun first_optional :: "jstr list \<Rightarrow> nat \<Rightarrow> nat" where
  "first_optional segs 0 = 0"
| "first_optional segs (Suc n) =
     (if 0 < n \<and> isOptionalParam (segs ! n) then first_optional segs n else Suc n)"

fun optional_forms :: "jstr \<Rightarrow> jstr list \<Rightarrow> jstr list" where
  "optional_forms form [] = []"
| "optional_forms form (s # ss) =
     (let form' = form @ [47] @ butlast s in form' # optional_forms form' ss)"

definition expandOptionalParams :: "jstr \<Rightarrow> jstr list" where
  "expandOptionalParams pat =
     (if pat = [] \<or> last pat \<noteq> 63 then [pat]
      else
        (let segs = split_on 47 pat; first = first_optional segs (length segs);
             form = join_with [47] (take first segs) in
         (if form = [] then [47] else form) # optional_forms form (drop first segs)))"

section \<open>Compilation\<close>

text \<open>What one round of the loop adds, or throws; \<open>is_last\<close> is \<open>i = raw.length - 1\<close>.\<close>

fun add_params :: "mixed_part list \<Rightarrow> jstr list \<Rightarrow> route_config_error + jstr list" where
  "add_params [] names = Inr names"
| "add_params (Lit _ # ps) names = add_params ps names"
| "add_params (Param name _ # ps) names =
     (if \<not> validParamName name then Inl INVALID_PARAM_NAME
      else if name \<in> set names then Inl DUPLICATE_PARAM
      else add_params ps (names @ [name]))"

definition static_or_mixed :: "jstr \<Rightarrow> jstr list \<Rightarrow> route_config_error + segment \<times> jstr list" where
  "static_or_mixed v names =
     (case (if 58 \<in> set v then splitMixed v else None) of
        Some parts \<Rightarrow>
          (case add_params parts names of
             Inl err \<Rightarrow> Inl err
           | Inr names' \<Rightarrow> Inr (Mixed parts, names'))
      | None \<Rightarrow> Inr (Static v, names))"

definition compile_segment ::
    "jstr \<Rightarrow> bool \<Rightarrow> jstr list \<Rightarrow> route_config_error + segment \<times> jstr list" where
  "compile_segment v is_last names =
     (case v of
        [] \<Rightarrow> Inr (Static v, names)
      | c # name \<Rightarrow>
          if c = 58 \<and> \<not> validParamName name then
            (if splitMixed v = None then Inl INVALID_PARAM_NAME else static_or_mixed v names)
          else if c = 58 then
            (if name \<in> set names then Inl DUPLICATE_PARAM
             else Inr (ParamSeg name, names @ [name]))
          else if c = 42 then
            (if \<not> is_last then Inl WILDCARD_NOT_LAST
             else
               (let nm = (if name = [] then [42] else name) in
                if nm \<noteq> [42] \<and> \<not> validParamName nm then Inl INVALID_PARAM_NAME
                else if nm \<in> set names then Inl DUPLICATE_PARAM
                else Inr (Wildcard nm, names @ [nm])))
          else static_or_mixed v names)"

fun compile_segments ::
    "jstr list \<Rightarrow> segment list \<Rightarrow> jstr list \<Rightarrow> route_config_error + segment list \<times> jstr list" where
  "compile_segments [] segs names = Inr (segs, names)"
| "compile_segments (v # vs) segs names =
     (case compile_segment v (vs = []) names of
        Inl err \<Rightarrow> Inl err
      | Inr (sg, names') \<Rightarrow> compile_segments vs (segs @ [sg]) names')"

definition visible_ascii :: "nat \<Rightarrow> bool" where
  "visible_ascii c \<longleftrightarrow> 33 \<le> c \<and> c \<le> 126"

definition compileRoutePattern :: "(jstr \<Rightarrow> jstr) \<Rightarrow> jstr \<Rightarrow> route_config_error + compiled_pattern" where
  "compileRoutePattern nfc path =
     (if path = [] \<or> path ! 0 \<noteq> 47 then Inl INVALID_PATH
      else
        (case pct_encode visible_ascii (nfc path) of
           None \<Rightarrow> Inl URI_ERROR
         | Some pat \<Rightarrow>
             (let raw = (if pat = [47] then [] else split_on 47 (drop 1 pat)) in
              case compile_segments raw [] [] of
                Inl err \<Rightarrow> Inl err
              | Inr (segs, names) \<Rightarrow>
                  Inr \<lparr> pattern = pat, segments = segs, param_names = names \<rparr>)))"

section \<open>What compilation yields\<close>

fun seg_names :: "segment \<Rightarrow> jstr list" where
  "seg_names (Static _) = []"
| "seg_names (ParamSeg n) = [n]"
| "seg_names (Wildcard n) = [n]"
| "seg_names (Mixed ps) = params_of ps"

fun seg_wf :: "segment \<Rightarrow> bool" where
  "seg_wf (Static v) \<longleftrightarrow> 47 \<notin> set v"
| "seg_wf (ParamSeg n) \<longleftrightarrow> validParamName n"
| "seg_wf (Wildcard n) \<longleftrightarrow> n = [42] \<or> validParamName n"
| "seg_wf (Mixed ps) \<longleftrightarrow> parts_wf ps \<and> params_of ps \<noteq> [] \<and> slash_free ps"

fun is_wildcard :: "segment \<Rightarrow> bool" where
  "is_wildcard (Wildcard _) \<longleftrightarrow> True"
| "is_wildcard _ \<longleftrightarrow> False"

definition pattern_wf :: "compiled_pattern \<Rightarrow> bool" where
  "pattern_wf c \<longleftrightarrow>
     param_names c = concat (map seg_names (segments c)) \<and> distinct (param_names c)
     \<and> list_all seg_wf (segments c)
     \<and> list_all (\<lambda>sg. \<not> is_wildcard sg) (butlast (segments c))"

lemma add_params_Inr:
  "add_params ps names = Inr names' \<Longrightarrow> distinct names \<Longrightarrow>
   names' = names @ params_of ps \<and> distinct names'"
  by (induction ps names rule: add_params.induct) (auto split: if_splits)

lemma static_or_mixed_Inr:
  "static_or_mixed v names = Inr (sg, names') \<Longrightarrow> 47 \<notin> set v \<Longrightarrow> distinct names \<Longrightarrow>
   names' = names @ seg_names sg \<and> distinct names' \<and> seg_wf sg \<and> \<not> is_wildcard sg"
  by (auto simp: static_or_mixed_def split: if_splits option.splits sum.splits
      dest: add_params_Inr splitMixed_wf splitMixed_slash_free)

lemma compile_segment_Inr:
  "compile_segment v is_last names = Inr (sg, names') \<Longrightarrow> 47 \<notin> set v \<Longrightarrow> distinct names \<Longrightarrow>
   names' = names @ seg_names sg \<and> distinct names' \<and> seg_wf sg \<and> (is_wildcard sg \<longrightarrow> is_last)"
  by (cases v) (auto simp: compile_segment_def Let_def split: if_splits dest!: static_or_mixed_Inr)

lemma compile_segments_Inr:
  "compile_segments vs segs names = Inr (segs', names') \<Longrightarrow> \<forall>v \<in> set vs. 47 \<notin> set v \<Longrightarrow>
   distinct names \<Longrightarrow>
   \<exists>new. segs' = segs @ new \<and> names' = names @ concat (map seg_names new) \<and> distinct names'
     \<and> list_all seg_wf new \<and> list_all (\<lambda>sg. \<not> is_wildcard sg) (butlast new)
     \<and> length new = length vs"
proof (induction vs segs names rule: compile_segments.induct)
  case (2 v vs segs names)
  from "2.prems"(1) obtain sg n1 where c: "compile_segment v (vs = []) names = Inr (sg, n1)"
    and r: "compile_segments vs (segs @ [sg]) n1 = Inr (segs', names')"
    by (auto split: sum.splits)
  have sg: "n1 = names @ seg_names sg" "distinct n1" "seg_wf sg" "is_wildcard sg \<longrightarrow> vs = []"
    using compile_segment_Inr [OF c] "2.prems" by auto
  obtain new where new: "segs' = (segs @ [sg]) @ new" "names' = n1 @ concat (map seg_names new)"
      "distinct names'" "list_all seg_wf new" "list_all (\<lambda>sg. \<not> is_wildcard sg) (butlast new)"
      "length new = length vs"
    using "2.IH" [OF c refl r] sg "2.prems" by auto
  have "list_all (\<lambda>sg. \<not> is_wildcard sg) (butlast (sg # new))"
    using new sg by auto
  then show ?case
    using new sg by (intro exI [of _ "sg # new"]) simp
qed simp

text \<open>
  C7: a pattern that compiles is well formed: its parameter names are the segments' parameters from
  left to right, no two alike, so captures and names align; a wildcard is only ever the last segment;
  mixed segments have a parameter, no empty and no adjacent literals.
\<close>

theorem compile_wf:
  assumes "compileRoutePattern nfc path = Inr c"
  shows "pattern_wf c"
proof -
  obtain pat raw segs names where
      cs: "compile_segments raw [] [] = Inr (segs, names)"
    and raw: "raw = (if pat = [47] then [] else split_on 47 (drop 1 pat))"
    and c: "c = \<lparr> pattern = pat, segments = segs, param_names = names \<rparr>"
    using assms by (auto simp: compileRoutePattern_def Let_def split: if_splits option.splits sum.splits)
  have "\<forall>v \<in> set raw. 47 \<notin> set v"
    using raw split_on_no_sep by (auto split: if_splits)
  from compile_segments_Inr [OF cs this] show ?thesis
    by (auto simp: pattern_wf_def c)
qed

lemmas compile_eval = compileRoutePattern_def compile_segment_def static_or_mixed_def
  splitMixed_def split_loop.simps name_run_def word_start_def word_char_def is_digit_def
  paramConstraint_def constraint_len_def flush_def validParamName_def reserved_param_names_def
  visible_ascii_def

definition users_pattern :: compiled_pattern where
  "users_pattern = \<lparr> pattern = js ''/u/:id/*'', segments = [Static (js ''u''), ParamSeg (js ''id''), Wildcard (js ''*'')],
     param_names = [js ''id'', js ''*''] \<rparr>"

lemma compile_users: "compileRoutePattern id (js ''/u/:id/*'') = Inr users_pattern"
  by (simp add: compile_eval users_pattern_def Let_def)

theorem compile_wf_witness:
  "compileRoutePattern id (js ''/u/:id/*'') = Inr users_pattern \<and> pattern_wf users_pattern"
  using compile_users compile_wf [OF compile_users] by simp

end
