(* ===== verification/Specificity.thy ===== *)
theory Specificity
  imports RoutePattern "HOL-Library.Product_Lexorder" "HOL-Library.Multiset"
begin

text \<open>
  Which of two patterns is tried first, of \<open>packages/core/src/router/pattern.ts\<close>: the comparison of
  mixed segments and of whole patterns, and the sort built on it.
\<close>

section \<open>Specificity\<close>

definition literal_weight :: "mixed_part list \<Rightarrow> nat" where
  "literal_weight parts = fold (\<lambda>p n. case p of Lit v \<Rightarrow> n + length v | Param _ _ \<Rightarrow> n) parts 0"

definition str_order :: "jstr \<Rightarrow> jstr \<Rightarrow> int" where
  "str_order a b = (if a < b then -1 else if b < a then 1 else 0)"

definition rank :: "param_constraint option \<Rightarrow> int" where
  "rank k = (case k of None \<Rightarrow> 2 | Some c \<Rightarrow> if one_of c \<noteq> None then 0 else 1)"

text \<open>
  The sign of \<open>x.max - x.min - (y.max - y.min)\<close>, 0 for the \<open>NaN\<close> of two infinite ranges, which
  \<open>||\<close> passes over as it does 0.
\<close>

definition range_order :: "param_constraint \<Rightarrow> param_constraint \<Rightarrow> int" where
  "range_order x y =
     (case (max_len x, max_len y) of
        (enat a, enat b) \<Rightarrow> sgn ((int a - int (min_len x)) - (int b - int (min_len y)))
      | (enat a, \<infinity>) \<Rightarrow> -1
      | (\<infinity>, enat b) \<Rightarrow> 1
      | (\<infinity>, \<infinity>) \<Rightarrow> 0)"

definition constraint_order :: "param_constraint option \<Rightarrow> param_constraint option \<Rightarrow> int" where
  "constraint_order x y =
     (if rank x - rank y \<noteq> 0 then rank x - rank y
      else
        (case (x, y) of
           (Some a, Some b) \<Rightarrow>
             if int (csize a) - int (csize b) \<noteq> 0 then int (csize a) - int (csize b)
             else if range_order a b \<noteq> 0 then range_order a b
             else str_order (key a) (key b)
         | _ \<Rightarrow> 0))"

fun compare_parts :: "mixed_part list \<Rightarrow> mixed_part list \<Rightarrow> int" where
  "compare_parts [] [] = 0"
| "compare_parts (a # as) [] = -1"
| "compare_parts [] (b # bs) = 1"
| "compare_parts (Lit v # as) (Lit w # bs) =
     (if v \<noteq> w then (if length v = length w then str_order v w else int (length w) - int (length v))
      else compare_parts as bs)"
| "compare_parts (Lit v # as) (Param _ _ # bs) = -1"
| "compare_parts (Param _ _ # as) (Lit w # bs) = 1"
| "compare_parts (Param _ x # as) (Param _ y # bs) =
     (if constraint_order x y \<noteq> 0 then constraint_order x y else compare_parts as bs)"

definition compareMixedPartsSpecificity :: "mixed_part list \<Rightarrow> mixed_part list \<Rightarrow> int" where
  "compareMixedPartsSpecificity l r =
     (let weight_difference = int (literal_weight r) - int (literal_weight l) in
      if weight_difference \<noteq> 0 then weight_difference else compare_parts l r)"

definition SPECIFICITY :: "segment \<Rightarrow> int" where
  "SPECIFICITY sg = (case sg of Static _ \<Rightarrow> 4 | Mixed _ \<Rightarrow> 3 | ParamSeg _ \<Rightarrow> 2 | Wildcard _ \<Rightarrow> 1)"

fun compare_segments :: "segment list \<Rightarrow> segment list \<Rightarrow> int" where
  "compare_segments [] [] = 0"
| "compare_segments (a # as) [] = -1"
| "compare_segments [] (b # bs) = 1"
| "compare_segments (a # as) (b # bs) =
     (if SPECIFICITY a \<noteq> SPECIFICITY b then SPECIFICITY b - SPECIFICITY a
      else
        (case (a, b) of
           (Mixed p, Mixed q) \<Rightarrow>
             if compareMixedPartsSpecificity p q \<noteq> 0 then compareMixedPartsSpecificity p q
             else compare_segments as bs
         | _ \<Rightarrow> compare_segments as bs))"

definition compareRoutePatternSpecificity :: "compiled_pattern \<Rightarrow> compiled_pattern \<Rightarrow> int" where
  "compareRoutePatternSpecificity l r = compare_segments (segments l) (segments r)"

text \<open>\<open>Array.prototype.sort\<close> with a comparison function is stable: insertion after equals.\<close>

fun insert_by :: "('a \<Rightarrow> 'a \<Rightarrow> int) \<Rightarrow> 'a \<Rightarrow> 'a list \<Rightarrow> 'a list" where
  "insert_by cmp x [] = [x]"
| "insert_by cmp x (y # ys) = (if cmp x y < 0 then x # y # ys else y # insert_by cmp x ys)"

definition sort_by :: "('a \<Rightarrow> 'a \<Rightarrow> int) \<Rightarrow> 'a list \<Rightarrow> 'a list" where
  "sort_by cmp xs = fold (insert_by cmp) xs []"

definition sortRoutesBySpecificity :: "('t \<Rightarrow> compiled_pattern) \<Rightarrow> 't list \<Rightarrow> 't list" where
  "sortRoutesBySpecificity pat routes =
     sort_by (\<lambda>l r. compareRoutePatternSpecificity (pat l) (pat r)) routes"

section \<open>Comparison functions\<close>

text \<open>
  What \<open>Array.prototype.sort\<close> asks of a comparison function, and what it gives: the sorted list does
  not depend on the order of the input when only equal elements compare as 0.
\<close>

locale comparison =
  fixes cmp :: "'a \<Rightarrow> 'a \<Rightarrow> int"
  assumes swap: "sgn (cmp y x) = - sgn (cmp x y)"
    and trans: "cmp x y \<le> 0 \<Longrightarrow> cmp y z \<le> 0 \<Longrightarrow> cmp x z \<le> 0"
begin

lemma self: "cmp x x = 0"
  using swap [of x x] by (simp add: sgn_if split: if_splits)

lemma neg_iff: "cmp x y < 0 \<longleftrightarrow> 0 < cmp y x"
  using swap [of y x] by (simp add: sgn_if split: if_splits)

lemma zero_iff: "cmp x y = 0 \<longleftrightarrow> cmp y x = 0"
  using swap [of y x] by (simp add: sgn_if split: if_splits)

lemma not_neg: "\<not> cmp x y < 0 \<Longrightarrow> cmp y x \<le> 0"
  using neg_iff [of y x] zero_iff [of x y] by linarith

lemma set_insert_by: "set (insert_by cmp x ys) = insert x (set ys)"
  by (induction ys) auto

lemma mset_insert_by: "mset (insert_by cmp x ys) = add_mset x (mset ys)"
  by (induction ys) auto

lemma sorted_insert_by:
  "sorted_wrt (\<lambda>a b. cmp a b \<le> 0) ys \<Longrightarrow> sorted_wrt (\<lambda>a b. cmp a b \<le> 0) (insert_by cmp x ys)"
proof (induction ys)
  case (Cons y ys)
  show ?case
  proof (cases "cmp x y < 0")
    case True
    with Cons.prems trans [of x y] show ?thesis by auto
  next
    case False
    with Cons not_neg [OF False] show ?thesis
      by (auto simp: set_insert_by)
  qed
qed simp

lemma fold_insert_by:
  "sorted_wrt (\<lambda>a b. cmp a b \<le> 0) acc \<Longrightarrow>
   sorted_wrt (\<lambda>a b. cmp a b \<le> 0) (fold (insert_by cmp) xs acc)
   \<and> mset (fold (insert_by cmp) xs acc) = mset xs + mset acc"
  by (induction xs arbitrary: acc) (auto simp: sorted_insert_by mset_insert_by)

lemma sort_by_sorted: "sorted_wrt (\<lambda>a b. cmp a b \<le> 0) (sort_by cmp xs)"
  by (simp add: sort_by_def fold_insert_by)

lemma mset_sort_by [simp]: "mset (sort_by cmp xs) = mset xs"
  by (simp add: sort_by_def fold_insert_by)

lemma set_sort_by [simp]: "set (sort_by cmp xs) = set xs"
  by (metis mset_sort_by set_mset_mset)

lemma sorted_unique:
  "sorted_wrt (\<lambda>a b. cmp a b \<le> 0) xs \<Longrightarrow> sorted_wrt (\<lambda>a b. cmp a b \<le> 0) ys \<Longrightarrow>
   mset xs = mset ys \<Longrightarrow> (\<And>a b. a \<in> set xs \<Longrightarrow> b \<in> set xs \<Longrightarrow> cmp a b = 0 \<Longrightarrow> a = b) \<Longrightarrow> xs = ys"
proof (induction xs arbitrary: ys)
  case (Cons x xs)
  then obtain y ys' where ys: "ys = y # ys'" by (cases ys) auto
  have sets: "set ys = insert x (set xs)"
    using Cons.prems(3) by (metis list.simps(15) set_mset_mset)
  have "x \<in> set ys" "y \<in> insert x (set xs)"
    using sets ys by auto
  then have "cmp x y \<le> 0" "cmp y x \<le> 0"
    using Cons.prems(1,2) ys self by auto
  then have "cmp x y = 0"
    using neg_iff [of x y] by linarith
  then have "x = y"
    using Cons.prems(4) \<open>y \<in> insert x (set xs)\<close> by auto
  with Cons.prems ys Cons.IH [of ys'] show ?case by auto
qed simp

lemma sort_by_order_irrelevant:
  assumes "mset xs = mset ys" and "\<And>a b. a \<in> set xs \<Longrightarrow> b \<in> set xs \<Longrightarrow> cmp a b = 0 \<Longrightarrow> a = b"
  shows "sort_by cmp xs = sort_by cmp ys"
  using assms by (intro sorted_unique) (auto simp: sort_by_sorted)

end

text \<open>A comparison with the sign of a comparison of keys in a linear order is one.\<close>

definition order_sign :: "'k::linorder \<Rightarrow> 'k \<Rightarrow> int" where
  "order_sign a b = (if a < b then -1 else if b < a then 1 else 0)"

lemma order_sign_self [simp]: "order_sign a a = 0"
  by (simp add: order_sign_def)

lemma order_sign_0 [simp]: "order_sign a b = 0 \<longleftrightarrow> a = b"
  by (auto simp: order_sign_def)

lemma order_sign_less [simp]: "a < b \<Longrightarrow> order_sign a b = -1" "b < a \<Longrightarrow> order_sign a b = 1"
  by (auto simp: order_sign_def)

lemma order_sign_swap: "order_sign b a = - order_sign a b"
  by (auto simp: order_sign_def)

lemma order_sign_Cons:
  "order_sign (a # as) (b # bs) = (if a = b then order_sign as bs else order_sign a b)"
  by (auto simp: order_sign_def)

lemma order_sign_Pair:
  "order_sign (a, c) (b, d) = (if a = b then order_sign c d else order_sign a b)"
  by (auto simp: order_sign_def)

lemma order_sign_int: "order_sign (a::int) b = sgn (a - b)"
  by (auto simp: order_sign_def sgn_if)

lemma order_sign_nat: "order_sign (a::nat) b = sgn (int a - int b)"
  by (auto simp: order_sign_def sgn_if)

lemma sgn_order_sign_0: "sgn (x::int) = order_sign p q \<Longrightarrow> x = 0 \<longleftrightarrow> p = q"
  by (metis order_sign_0 sgn_0_0)

lemmas order_sign_simps = order_sign_Cons order_sign_Pair order_sign_int order_sign_nat

lemma comparison_by_key:
  assumes "\<And>x y. sgn (cmp x y) = order_sign (k x) (k y)"
  shows "comparison cmp"
proof
  show "sgn (cmp y x) = - sgn (cmp x y)" for x y
    unfolding assms by (rule order_sign_swap)
  have le: "cmp x y \<le> 0 \<longleftrightarrow> k x \<le> k y" for x y
    using assms [of x y] by (auto simp: order_sign_def sgn_if split: if_splits)
  show "cmp x y \<le> 0 \<Longrightarrow> cmp y z \<le> 0 \<Longrightarrow> cmp x z \<le> 0" for x y z
    unfolding le by (rule order_trans)
qed

section \<open>The keys of the comparisons\<close>

definition range_key :: "param_constraint \<Rightarrow> nat \<times> int" where
  "range_key x = (case max_len x of enat a \<Rightarrow> (0, int a - int (min_len x)) | \<infinity> \<Rightarrow> (1, 0))"

type_synonym ckey = "int \<times> int \<times> (nat \<times> int) \<times> jstr"

definition constraint_key :: "param_constraint option \<Rightarrow> ckey" where
  "constraint_key x =
     (case x of None \<Rightarrow> (2, 0, (0, 0), [])
      | Some a \<Rightarrow> (rank x, int (csize a), range_key a, key a))"

fun part_key :: "mixed_part \<Rightarrow> int \<times> int \<times> jstr \<times> ckey" where
  "part_key (Lit v) = (0, - int (length v), v, (0, 0, (0, 0), []))"
| "part_key (Param _ x) = (1, 0, [], constraint_key x)"

definition parts_end :: "int \<times> int \<times> jstr \<times> ckey" where
  "parts_end = (2, 0, [], (0, 0, (0, 0), []))"

definition parts_key :: "mixed_part list \<Rightarrow> int \<times> (int \<times> int \<times> jstr \<times> ckey) list" where
  "parts_key ps = (- int (literal_weight ps), map part_key ps @ [parts_end])"

lemma str_order_sign: "str_order a b = order_sign a b"
  by (simp add: str_order_def order_sign_def)

lemma range_order_sign: "range_order x y = order_sign (range_key x) (range_key y)"
  by (simp add: range_order_def range_key_def order_sign_simps split: enat.splits)

lemma sgn_order_sign [simp]: "sgn (order_sign a b) = order_sign a b"
  by (simp add: order_sign_def)

lemma constraint_order_sign: "sgn (constraint_order x y) = order_sign (constraint_key x) (constraint_key y)"
  by (auto simp: constraint_order_def constraint_key_def rank_def range_order_sign str_order_sign
      order_sign_simps split: option.splits)

lemma part_key_less_end: "part_key p < parts_end"
  by (cases p) (auto simp: parts_end_def)

lemma part_key_not_end [simp]: "part_key p \<noteq> parts_end" "parts_end \<noteq> part_key p"
  using part_key_less_end [of p] by auto

lemma compare_parts_sign:
  "sgn (compare_parts l r) = order_sign (map part_key l @ [parts_end]) (map part_key r @ [parts_end])"
proof (induction l r rule: compare_parts.induct)
  case (7 n x as m y bs)
  then show ?case
    using constraint_order_sign [of x y] sgn_order_sign_0 [OF constraint_order_sign, of x y]
    by (simp add: order_sign_simps)
next
  case (4 v as w bs)
  then show ?case
    by (auto simp: order_sign_simps str_order_sign)
qed (auto simp: order_sign_Cons part_key_less_end order_sign_Pair)

lemma compareMixed_sign:
  "sgn (compareMixedPartsSpecificity l r) = order_sign (parts_key l) (parts_key r)"
  using compare_parts_sign [of l r]
  by (simp add: compareMixedPartsSpecificity_def Let_def parts_key_def order_sign_simps)

fun segment_key :: "segment \<Rightarrow> int \<times> int \<times> (int \<times> int \<times> jstr \<times> ckey) list" where
  "segment_key (Mixed ps) = (-3, parts_key ps)"
| "segment_key sg = (- SPECIFICITY sg, (0, []))"

definition segments_key :: "segment list \<Rightarrow> (int \<times> int \<times> (int \<times> int \<times> jstr \<times> ckey) list) list" where
  "segments_key segs = map segment_key segs @ [(1, 0, [])]"

lemma segment_key_fst: "fst (segment_key sg) = - SPECIFICITY sg"
  by (cases sg) (auto simp: SPECIFICITY_def)

lemma segment_key_less_end: "segment_key sg < (1, 0, [])"
  by (cases sg) (auto simp: SPECIFICITY_def)

lemma segment_key_not_end [simp]: "segment_key sg \<noteq> (1, 0, [])" "(1, 0, []) \<noteq> segment_key sg"
  using segment_key_less_end [of sg] by auto

lemma segment_key_sign:
  "SPECIFICITY a \<noteq> SPECIFICITY b \<Longrightarrow>
   order_sign (segment_key a) (segment_key b) = sgn (SPECIFICITY b - SPECIFICITY a)"
  using segment_key_fst [of a] segment_key_fst [of b]
  by (cases "segment_key a"; cases "segment_key b") (simp add: order_sign_simps)

lemma segment_key_eq:
  "SPECIFICITY a = SPECIFICITY b \<Longrightarrow>
   order_sign (segment_key a) (segment_key b) =
     (case (a, b) of (Mixed p, Mixed q) \<Rightarrow> sgn (compareMixedPartsSpecificity p q) | _ \<Rightarrow> 0)"
  by (cases a; cases b) (auto simp: SPECIFICITY_def compareMixed_sign order_sign_simps)

lemma compare_segments_sign:
  "sgn (compare_segments l r) = order_sign (segments_key l) (segments_key r)"
proof (induction l r rule: compare_segments.induct)
  case (4 a as b bs)
  show ?case
  proof (cases "SPECIFICITY a = SPECIFICITY b")
    case False
    then have "segment_key a \<noteq> segment_key b"
      using segment_key_fst by (metis neg_equal_iff_equal)
    with False show ?thesis
      using segment_key_sign [OF False] by (simp add: segments_key_def order_sign_Cons)
  next
    case True
    note eq = segment_key_eq [OF True]
    show ?thesis
    proof (cases "segment_key a = segment_key b")
      case same: True
      then have "compare_segments (a # as) (b # bs) = compare_segments as bs"
        using True eq by (auto split: segment.splits simp: sgn_0_0)
      moreover have "sgn (compare_segments as bs) = order_sign (segments_key as) (segments_key bs)"
        using 4 True same eq by (cases a; cases b) (auto simp: SPECIFICITY_def sgn_0_0)
      ultimately show ?thesis
        using same by (simp add: segments_key_def order_sign_Cons)
    next
      case False
      with eq obtain p q where "a = Mixed p" "b = Mixed q"
        by (auto split: segment.splits)
      with False eq True show ?thesis
        by (auto simp: segments_key_def order_sign_Cons sgn_0_0)
    qed
  qed
qed (auto simp: segments_key_def order_sign_Cons segment_key_less_end)

interpretation mixed_cmp: comparison compareMixedPartsSpecificity
  by (rule comparison_by_key) (rule compareMixed_sign)

interpretation segs_cmp: comparison compare_segments
  by (rule comparison_by_key) (rule compare_segments_sign)

interpretation route_cmp: comparison compareRoutePatternSpecificity
  by (rule comparison_by_key [where k = "\<lambda>c. segments_key (segments c)"])
     (simp add: compareRoutePatternSpecificity_def compare_segments_sign)

interpretation routes_cmp: comparison "\<lambda>l r. compareRoutePatternSpecificity (pat l) (pat r)" for pat :: "'t \<Rightarrow> compiled_pattern"
  by (rule comparison_by_key [where k = "\<lambda>t. segments_key (segments (pat t))"])
     (simp add: compareRoutePatternSpecificity_def compare_segments_sign)

text \<open>
  The comparison of patterns is a consistent one (antisymmetric in sign, transitive), and sorting
  with it yields the same routes, most specific first, in an order that does not depend on the order
  they came in unless two of them tie.
\<close>

theorem sort_routes_deterministic:
  assumes "mset xs = mset ys"
    and "\<And>a b. a \<in> set xs \<Longrightarrow> b \<in> set xs \<Longrightarrow> compareRoutePatternSpecificity (pat a) (pat b) = 0 \<Longrightarrow> a = b"
  shows "sortRoutesBySpecificity pat xs = sortRoutesBySpecificity pat ys
    \<and> mset (sortRoutesBySpecificity pat xs) = mset xs
    \<and> sorted_wrt (\<lambda>a b. compareRoutePatternSpecificity (pat a) (pat b) \<le> 0) (sortRoutesBySpecificity pat xs)
    \<and> sgn (compareRoutePatternSpecificity p q) = - sgn (compareRoutePatternSpecificity q p)
    \<and> (compareRoutePatternSpecificity p q \<le> 0 \<and> compareRoutePatternSpecificity q s \<le> 0 \<longrightarrow>
         compareRoutePatternSpecificity p s \<le> 0)"
proof (intro conjI impI)
  show "sortRoutesBySpecificity pat xs = sortRoutesBySpecificity pat ys"
    unfolding sortRoutesBySpecificity_def by (rule routes_cmp.sort_by_order_irrelevant [OF assms])
  show "mset (sortRoutesBySpecificity pat xs) = mset xs"
    unfolding sortRoutesBySpecificity_def by (rule routes_cmp.mset_sort_by)
  show "sorted_wrt (\<lambda>a b. compareRoutePatternSpecificity (pat a) (pat b) \<le> 0) (sortRoutesBySpecificity pat xs)"
    unfolding sortRoutesBySpecificity_def by (rule routes_cmp.sort_by_sorted)
  show "sgn (compareRoutePatternSpecificity p q) = - sgn (compareRoutePatternSpecificity q p)"
    by (rule route_cmp.swap)
  show "compareRoutePatternSpecificity p q \<le> 0 \<and> compareRoutePatternSpecificity q s \<le> 0 \<Longrightarrow>
      compareRoutePatternSpecificity p s \<le> 0"
    using route_cmp.trans by blast
qed

theorem sort_routes_deterministic_witness:
  "sortRoutesBySpecificity (\<lambda>c. c) [users_pattern, users_pattern\<lparr> segments := [Static [117]] \<rparr>]
     = [users_pattern, users_pattern\<lparr> segments := [Static [117]] \<rparr>]
   \<and> sortRoutesBySpecificity (\<lambda>c. c) [users_pattern\<lparr> segments := [Static [117]] \<rparr>, users_pattern]
     = [users_pattern, users_pattern\<lparr> segments := [Static [117]] \<rparr>]"
proof -
  let ?a = "users_pattern" and ?b = "users_pattern\<lparr> segments := [Static [117]] \<rparr>"
  have tie: "a = b" if "a \<in> set [?a, ?b]" "b \<in> set [?a, ?b]" "compareRoutePatternSpecificity a b = 0" for a b
    using that by (auto simp: compareRoutePatternSpecificity_def users_pattern_def SPECIFICITY_def)
  have "sortRoutesBySpecificity (\<lambda>c. c) [?a, ?b] = sortRoutesBySpecificity (\<lambda>c. c) [?b, ?a]"
  proof (rule sort_routes_deterministic [THEN conjunct1])
    show "mset [?a, ?b] = mset [?b, ?a]" by simp
  qed (rule tie)
  moreover have "sortRoutesBySpecificity (\<lambda>c. c) [?a, ?b] = [?a, ?b]"
    by (simp add: sortRoutesBySpecificity_def sort_by_def compareRoutePatternSpecificity_def users_pattern_def SPECIFICITY_def)
  ultimately show ?thesis by simp
qed

section \<open>Constraints contained in one another\<close>

definition class_allows :: "param_constraint \<Rightarrow> nat \<Rightarrow> bool" where
  "class_allows k c \<longleftrightarrow> c < length (mask k) \<and> mask k ! c = 49"

definition contained :: "param_constraint \<Rightarrow> param_constraint \<Rightarrow> bool" where
  "contained j k \<longleftrightarrow> (\<forall>v. satisfies (Some j) v \<longrightarrow> satisfies (Some k) v)"

lemma satisfies_class:
  "one_of k = None \<Longrightarrow> satisfies (Some k) v \<longleftrightarrow>
     min_len k \<le> length v \<and> enat (length v) \<le> max_len k \<and> list_all (class_allows k) v"
  by (simp add: satisfies_def class_allows_def [abs_def])

lemma satisfies_replicate:
  "one_of k = None \<Longrightarrow> 0 < n \<Longrightarrow> satisfies (Some k) (replicate n c) \<longleftrightarrow>
     min_len k \<le> n \<and> enat n \<le> max_len k \<and> class_allows k c"
  by (auto simp: satisfies_class list_all_iff)

lemma class_size: "one_of k = None \<Longrightarrow> constraint_ok k \<Longrightarrow> csize k = card {c. class_allows k c}"
proof -
  assume k: "one_of k = None" "constraint_ok k"
  then have "csize k = length (filter (\<lambda>c. c = 49) (mask k))" by (simp add: constraint_ok_def)
  also have "\<dots> = card {c. class_allows k c}"
    by (simp add: length_filter_conv_card class_allows_def)
  finally show ?thesis .
qed

lemma finite_class: "finite {c. class_allows k c}"
  by (rule finite_subset [of _ "{..<length (mask k)}"]) (auto simp: class_allows_def)

lemma same_class_mask:
  assumes "constraint_ok j" "constraint_ok k" "one_of j = None" "one_of k = None"
    and "{c. class_allows j c} = {c. class_allows k c}"
  shows "mask j = mask k"
proof (rule nth_equalityI)
  show "length (mask j) = length (mask k)" using assms by (simp add: constraint_ok_def)
  fix i assume i: "i < length (mask j)"
  have lk: "i < length (mask k)" using i assms by (simp add: constraint_ok_def)
  have "mask j ! i \<in> {48, 49}" "mask k ! i \<in> {48, 49}"
    using assms nth_mem [OF i] nth_mem [OF lk] by (auto simp: constraint_ok_def)
  moreover have "mask j ! i = 49 \<longleftrightarrow> mask k ! i = 49"
    using assms(5) i lk by (auto simp: class_allows_def set_eq_iff)
  ultimately show "mask j ! i = mask k ! i" by auto
qed

text \<open>
  Of two character classes with counts, the one whose values all pass the other is tried first,
  so the narrower route is reachable: whenever the two accept different characters, or the wider
  one's count is bounded.
\<close>

theorem contained_class_first:
  assumes "constraint_ok j" and "constraint_ok k" and "one_of j = None" and "one_of k = None"
    and "{c. class_allows j c} \<noteq> {}" and "contained j k" and "\<not> contained k j"
    and "{c. class_allows j c} \<noteq> {c. class_allows k c} \<or> max_len k \<noteq> \<infinity>"
  shows "constraint_order (Some j) (Some k) < 0"
proof -
  obtain c0 where c0: "class_allows j c0" using assms(5) by auto
  have min: "0 < min_len j" "enat (min_len j) \<le> max_len j" "0 < min_len k" "enat (min_len k) \<le> max_len k"
    using assms(1-4) by (auto simp: constraint_ok_def)
  have allow: "class_allows k c" if "class_allows j c" for c
    using assms(6) that min satisfies_replicate [OF assms(3), of "min_len j" c]
      satisfies_replicate [OF assms(4), of "min_len j" c] by (simp add: contained_def)
  have len: "min_len k \<le> n \<and> enat n \<le> max_len k" if "min_len j \<le> n" "enat n \<le> max_len j" for n
    using assms(6) c0 that min satisfies_replicate [OF assms(3), of n c0]
      satisfies_replicate [OF assms(4), of n c0] by (simp add: contained_def)
  show ?thesis
  proof (cases "{c. class_allows j c} = {c. class_allows k c}")
    case False
    with allow have "{c. class_allows j c} \<subset> {c. class_allows k c}" by auto
    then have "csize j < csize k"
      using psubset_card_mono [OF finite_class] class_size assms by simp
    then show ?thesis using assms(3,4) by (simp add: constraint_order_def rank_def)
  next
    case True
    then obtain m where m: "max_len k = enat m" using assms(8) by (cases "max_len k") auto
    have cs: "csize j = csize k" using True class_size assms by simp
    have jm: "max_len j \<noteq> \<infinity>"
    proof
      assume "max_len j = \<infinity>"
      with len [of "max (min_len j) (Suc m)"] m show False by simp
    qed
    then obtain l where l: "max_len j = enat l" by (cases "max_len j") auto
    have lm: "l \<le> m" using len [of l] l m min by simp
    have mn: "min_len k \<le> min_len j" using len [of "min_len j"] min by simp
    have "\<not> (l = m \<and> min_len j = min_len k)"
    proof
      assume e: "l = m \<and> min_len j = min_len k"
      have "contained k j"
        unfolding contained_def satisfies_class [OF assms(3)] satisfies_class [OF assms(4)]
        using e l m True by (auto simp: list_all_iff)
      with assms(7) show False by simp
    qed
    then have "int l - int (min_len j) < int m - int (min_len k)" using lm mn by linarith
    then show ?thesis
      using assms(3,4) cs l m by (simp add: constraint_order_def rank_def range_order_def)
  qed
qed

definition digits_constraint :: "nat \<Rightarrow> enat \<Rightarrow> param_constraint" where
  "digits_constraint a b = mk_class_constraint (js ''d'') (fill_range 48 57 (replicate 128 False)) a b"

theorem contained_class_first_witness:
  "contained (digits_constraint 2 4) (digits_constraint 1 9)
   \<and> constraint_order (Some (digits_constraint 2 4)) (Some (digits_constraint 1 9)) < 0"
proof -
  let ?j = "digits_constraint 2 4" and ?k = "digits_constraint 1 9"
  have ok: "constraint_ok ?j" "constraint_ok ?k" by code_simp+
  have n: "one_of ?j = None" "one_of ?k = None"
    by (simp_all add: digits_constraint_def mk_class_constraint_def)
  have c: "class_allows ?j 48" by code_simp
  have e: "class_allows ?k = class_allows ?j"
    by (simp add: fun_eq_iff class_allows_def digits_constraint_def mk_class_constraint_def)
  have b: "min_len ?j = 2" "max_len ?j = 4" "min_len ?k = 1" "max_len ?k = 9"
    by (simp_all add: digits_constraint_def mk_class_constraint_def)
  have jk: "contained ?j ?k"
    unfolding contained_def satisfies_class [OF n(1)] satisfies_class [OF n(2)] e b
    by (auto simp: numeral_eq_enat)
  have "satisfies (Some ?k) [48]" "\<not> satisfies (Some ?j) [48]" by code_simp+
  then have kj: "\<not> contained ?k ?j" unfolding contained_def by blast
  have f: "{c. class_allows ?j c} \<noteq> {}" using c by blast
  have m: "{c. class_allows ?j c} \<noteq> {c. class_allows ?k c} \<or> max_len ?k \<noteq> \<infinity>"
    unfolding b by simp
  show ?thesis using contained_class_first [OF ok n f jk kj m] jk by simp
qed

text \<open>
  With the count left open on both sides the rule fails: \<open>\d{2,}\<close> accepts strictly less than
  \<open>\d+\<close>, and is ordered after it, so a segment under it is tried only when the other's subtree fails.
\<close>

theorem open_count_shadowed:
  "\<exists>j k. paramConstraint (js ''{'' @ [92] @ js ''d{2,}}'') = Some j \<and> paramConstraint (js ''{'' @ [92] @ js ''d+}'') = Some k
     \<and> contained j k \<and> \<not> contained k j \<and> 0 < constraint_order (Some j) (Some k)"
proof -
  have "paramConstraint (js ''{'' @ [92] @ js ''d{2,}}'') \<noteq> None" "paramConstraint (js ''{'' @ [92] @ js ''d+}'') \<noteq> None"
    by code_simp+
  then obtain j k where j: "paramConstraint (js ''{'' @ [92] @ js ''d{2,}}'') = Some j"
    and k: "paramConstraint (js ''{'' @ [92] @ js ''d+}'') = Some k" by auto
  have f: "one_of (the (paramConstraint (js ''{'' @ [92] @ js ''d{2,}}''))) = None
     \<and> one_of (the (paramConstraint (js ''{'' @ [92] @ js ''d+}''))) = None
     \<and> mask (the (paramConstraint (js ''{'' @ [92] @ js ''d{2,}}''))) = mask (the (paramConstraint (js ''{'' @ [92] @ js ''d+}'')))
     \<and> min_len (the (paramConstraint (js ''{'' @ [92] @ js ''d{2,}}''))) = 2
     \<and> min_len (the (paramConstraint (js ''{'' @ [92] @ js ''d+}''))) = 1
     \<and> max_len (the (paramConstraint (js ''{'' @ [92] @ js ''d{2,}}''))) = \<infinity>
     \<and> max_len (the (paramConstraint (js ''{'' @ [92] @ js ''d+}''))) = \<infinity>
     \<and> satisfies (paramConstraint (js ''{'' @ [92] @ js ''d+}'')) (js ''7'')
     \<and> 0 < constraint_order (paramConstraint (js ''{'' @ [92] @ js ''d{2,}}'')) (paramConstraint (js ''{'' @ [92] @ js ''d+}''))"
    by code_simp
  then have p: "one_of j = None" "one_of k = None" "mask j = mask k" "min_len j = 2" "min_len k = 1"
      "max_len j = \<infinity>" "max_len k = \<infinity>" "satisfies (Some k) (js ''7'')" "0 < constraint_order (Some j) (Some k)"
    unfolding j k by simp_all
  have "contained j k"
    unfolding contained_def satisfies_class [OF p(1)] satisfies_class [OF p(2)] class_allows_def p by simp
  moreover have "\<not> contained k j"
    unfolding contained_def using p(8) p(4) by (auto simp: satisfies_class [OF p(1)] intro!: exI [of _ "js ''7''"])
  ultimately show ?thesis using j k p(9) by blast
qed

end
