(* ===== verification/RouterTrie.thy ===== *)
theory RouterTrie
  imports Specificity
begin

text \<open>
  The segment trie of \<open>packages/core/src/router/router.ts\<close>: its nodes, the depth-first match with
  backtracking, and how a route is put in.

  \<^item> A node is a \<open>node\<close>; its \<open>Map\<close> of static children keeps insertion order. The list of mixed
    children is empty where the source leaves it \<open>undefined\<close>.
  \<^item> Terminals are objects the trie shares with two caches, so a node holds the terminal's index in a
    store (theory \<open>Router\<close>).
\<close>

section \<open>Nodes\<close>

record mixed_entry =
  mshape :: "jstr list"
  mparts :: "mixed_part list"
  mchecked :: "mixed_part list option"
  mkey :: jstr

datatype node = Node
  (static_children: "(jstr \<times> node) list")
  (param_child: "node option")
  (mixed_children: "(mixed_entry \<times> node) list")
  (wildcard_child: "node option")
  (terminal: "nat option")

definition createNode :: node where
  "createNode = Node [] None [] None None"

definition or_new :: "node option \<Rightarrow> node" where
  "or_new c = (case c of None \<Rightarrow> createNode | Some n \<Rightarrow> n)"

section \<open>Matching\<close>

definition last_seg :: "jstr \<Rightarrow> nat \<Rightarrow> bool" where
  "last_seg path start \<longleftrightarrow> index_of path [47] start = None"

definition seg_end :: "jstr \<Rightarrow> nat \<Rightarrow> nat" where
  "seg_end path start = (case index_of path [47] start of None \<Rightarrow> length path | Some slash \<Rightarrow> slash)"

lemma seg_end_bounds:
  "\<not> last_seg path start \<Longrightarrow> start \<le> seg_end path start \<and> seg_end path start < length path"
proof -
  assume n: "\<not> last_seg path start"
  then obtain i where i: "index_of path [47] start = Some i"
    by (auto simp: last_seg_def)
  then have "start \<le> length path"
    by (cases "start \<le> length path") (auto simp: index_of_def min_def)
  from index_of_SomeD(1) [OF i this] i show ?thesis
    by (simp add: seg_end_def)
qed

text \<open>
  \<open>matchNode(node, path, start, len, paramValues)\<close>: the terminal, and the stack of captures
  afterwards. The loop over the mixed children is the second function; \<open>pops\<close> is a run of
  \<open>paramValues.pop()\<close>.
\<close>

definition pops :: "nat \<Rightarrow> 'a list \<Rightarrow> 'a list" where
  "pops n xs = (butlast ^^ n) xs"

function matchNode :: "node \<Rightarrow> jstr \<Rightarrow> nat \<Rightarrow> jstr list \<Rightarrow> nat option \<times> jstr list"
  and match_mixed :: "(mixed_entry \<times> node) list \<Rightarrow> jstr \<Rightarrow> nat \<Rightarrow> jstr list \<Rightarrow> nat option \<times> jstr list"
where
  "matchNode node path start out =
     (let seg = slice path start (seg_end path start) in
      case
        (case map_of (static_children node) seg of
           None \<Rightarrow> (None, out)
         | Some child \<Rightarrow>
             if last_seg path start then (terminal child, out)
             else matchNode child path (seg_end path start + 1) out) of
        (Some found, out1) \<Rightarrow> (Some found, out1)
      | (None, out1) \<Rightarrow>
          (case (if seg = [] then (None, out1) else match_mixed (mixed_children node) path start out1) of
             (Some found, out2) \<Rightarrow> (Some found, out2)
           | (None, out2) \<Rightarrow>
               (case
                  (case (param_child node, seg) of
                     (Some child, _ # _) \<Rightarrow>
                       (case
                          (if last_seg path start then (terminal child, out2 @ [seg])
                           else matchNode child path (seg_end path start + 1) (out2 @ [seg])) of
                          (Some found, out3) \<Rightarrow> (Some found, out3)
                        | (None, out3) \<Rightarrow> (None, pops 1 out3))
                   | _ \<Rightarrow> (None, out2)) of
                  (Some found, out4) \<Rightarrow> (Some found, out4)
                | (None, out4) \<Rightarrow>
                    (case wildcard_child node of
                       Some wildcard \<Rightarrow>
                         if terminal wildcard \<noteq> None
                         then (terminal wildcard, out4 @ [drop start path])
                         else (None, out4)
                     | None \<Rightarrow> (None, out4)))))"
| "match_mixed [] path start out = (None, out)"
| "match_mixed ((entry, child) # rest) path start out =
     (case matchMixedSegment (mshape entry) (slice path start (seg_end path start)) out (mchecked entry) of
        (False, out1) \<Rightarrow> match_mixed rest path start out1
      | (True, out1) \<Rightarrow>
          (case
             (if last_seg path start then (terminal child, out1)
              else matchNode child path (seg_end path start + 1) out1) of
             (Some found, out2) \<Rightarrow> (Some found, out2)
           | (None, out2) \<Rightarrow> match_mixed rest path start (pops (length (mshape entry) - 1) out2)))"
  by pat_completeness auto
termination
  by (relation "measures
        [\<lambda>x. case x of Inl (_, path, start, _) \<Rightarrow> length path - start
           | Inr (_, path, start, _) \<Rightarrow> length path - start,
         \<lambda>x. case x of Inl _ \<Rightarrow> 1 | Inr _ \<Rightarrow> 0,
         \<lambda>x. case x of Inl _ \<Rightarrow> 0 | Inr (ms, _) \<Rightarrow> length ms]")
     (auto dest: seg_end_bounds)

declare matchNode.simps [simp del] match_mixed.simps [simp del]

section \<open>Putting a route in\<close>

definition mixed_key :: "mixed_part list \<Rightarrow> jstr" where
  "mixed_key parts =
     join_with [47] (map (\<lambda>part. case part of
         Lit v \<Rightarrow> 76 # v
       | Param _ c \<Rightarrow> 80 # (case c of None \<Rightarrow> [] | Some k \<Rightarrow> key k)) parts)"

definition new_entry :: "mixed_part list \<Rightarrow> mixed_entry" where
  "new_entry parts =
     \<lparr> mshape = mixedSegmentShape parts, mparts = parts, mchecked = constrainedParts parts,
       mkey = mixed_key parts \<rparr>"

text \<open>\<open>find\<close>, \<open>push\<close> and \<open>sort\<close> on \<open>mixedChildren\<close>.\<close>

definition with_mixed_child :: "mixed_part list \<Rightarrow> (mixed_entry \<times> node) list \<Rightarrow> (mixed_entry \<times> node) list" where
  "with_mixed_child parts ms =
     (if \<exists>en \<in> set ms. mkey (fst en) = mixed_key parts then ms
      else sort_by (\<lambda>a b. compareMixedPartsSpecificity (mparts (fst a)) (mparts (fst b)))
             (ms @ [(new_entry parts, createNode)]))"

fun update_mixed :: "jstr \<Rightarrow> (node \<Rightarrow> node) \<Rightarrow> (mixed_entry \<times> node) list \<Rightarrow> (mixed_entry \<times> node) list" where
  "update_mixed k f [] = []"
| "update_mixed k f ((entry, child) # ms) =
     (if mkey entry = k then (entry, f child) # ms else (entry, child) # update_mixed k f ms)"

text \<open>
  The walk of \<open>add\<close> over the compiled segments, which creates the nodes that are missing, with \<open>f\<close>
  applied to the terminal of the node it ends at.
\<close>

fun reach :: "segment list \<Rightarrow> (nat option \<Rightarrow> nat option) \<Rightarrow> node \<Rightarrow> node" where
  "reach [] f (Node st p ms w t) = Node st p ms w (f t)"
| "reach (ParamSeg _ # segs) f (Node st p ms w t) = Node st (Some (reach segs f (or_new p))) ms w t"
| "reach (Wildcard _ # segs) f (Node st p ms w t) = Node st p ms (Some (reach segs f (or_new w))) t"
| "reach (Mixed parts # segs) f (Node st p ms w t) =
     Node st p (update_mixed (mixed_key parts) (reach segs f) (with_mixed_child parts ms)) w t"
| "reach (Static v # segs) f (Node st p ms w t) =
     Node (AList.update v (reach segs f (or_new (map_of st v))) st) p ms w t"

text \<open>The terminal of the node the walk ends at, \<open>None\<close> when a node on the way is missing.\<close>

definition mixed_child :: "jstr \<Rightarrow> (mixed_entry \<times> node) list \<Rightarrow> node option" where
  "mixed_child k ms = map_option snd (find (\<lambda>en. mkey (fst en) = k) ms)"

fun terminal_at :: "segment list \<Rightarrow> node \<Rightarrow> nat option" where
  "terminal_at [] n = terminal n"
| "terminal_at (ParamSeg _ # segs) n = Option.bind (param_child n) (terminal_at segs)"
| "terminal_at (Wildcard _ # segs) n = Option.bind (wildcard_child n) (terminal_at segs)"
| "terminal_at (Mixed parts # segs) n =
     Option.bind (mixed_child (mixed_key parts) (mixed_children n)) (terminal_at segs)"
| "terminal_at (Static v # segs) n = Option.bind (map_of (static_children n) v) (terminal_at segs)"

section \<open>Captures of a segment\<close>

definition mixed_captures :: "jstr list \<Rightarrow> mixed_part list option \<Rightarrow> jstr \<Rightarrow> jstr list option" where
  "mixed_captures shape checked seg =
     (case matchMixedSegment shape seg [] checked of (True, vs) \<Rightarrow> Some vs | (False, _) \<Rightarrow> None)"

lemma place_separators_stack:
  "place_separators seps seg pos e out =
     map_option (\<lambda>(p, vs). (p, out @ vs)) (place_separators seps seg pos e [])"
proof (induction seps arbitrary: pos out)
  case (Cons sep seps)
  show ?case
  proof (cases "index_of seg sep (pos + 1)")
    case (Some found)
    then show ?thesis
      using Cons [of "found + length sep" "out @ [slice seg pos found]"]
        Cons [of "found + length sep" "[slice seg pos found]"]
      by (auto simp: Let_def option.map_comp comp_def intro: option.map_cong)
  qed simp
qed simp

lemma check_parts_stack: "check_parts ps (out @ vs) (length out + v) = check_parts ps vs v"
  by (induction ps vs v rule: check_parts.induct) (auto simp: nth_append)

lemma matchMixed_stack:
  "matchMixedSegment shape seg out checked =
     (case mixed_captures shape checked seg of None \<Rightarrow> (False, out) | Some vs \<Rightarrow> (True, out @ vs))"
  using check_parts_stack [of _ out _ 0]
    place_separators_stack [of "slice shape 1 (length shape - 1)" seg "length (shape ! 0)"
      "length seg - length (shape ! (length shape - 1))" out]
  by (auto simp: mixed_captures_def matchMixed_unfold Let_def split: option.splits prod.splits bool.splits if_splits)

lemma mixed_captures_length:
  assumes "mixed_captures shape checked seg = Some vs" and "2 \<le> length shape"
  shows "length vs = length shape - 1 \<and> seg \<noteq> []"
proof -
  have "matchMixedSegment shape seg [] checked = (True, vs)"
    using assms by (auto simp: mixed_captures_def split: prod.splits bool.splits)
  then obtain "shape_accepts shape seg vs"
    by (rule matchMixed_True) simp
  then show ?thesis
    using assms(2) splits_length by (fastforce simp: accepts_middle ends_fit_def)
qed

lemma pops_append [simp]: "length vs = n \<Longrightarrow> pops n (out @ vs) = out"
proof (induction n arbitrary: vs)
  case (Suc n)
  then obtain ws w where "vs = ws @ [w]" by (cases vs rule: rev_cases) auto
  with Suc show ?case by (simp add: pops_def funpow_swap1 butlast_append)
qed (simp add: pops_def)

section \<open>All the ways to match\<close>

definition extend :: "segment \<Rightarrow> jstr list \<Rightarrow> segment list \<times> nat \<times> jstr list \<Rightarrow> segment list \<times> nat \<times> jstr list" where
  "extend sg vs c = (sg # fst c, fst (snd c), vs @ snd (snd c))"

definition mixed_branch ::
    "jstr \<Rightarrow> (node \<Rightarrow> (segment list \<times> nat \<times> jstr list) list) \<Rightarrow> mixed_entry \<times> node
      \<Rightarrow> (segment list \<times> nat \<times> jstr list) list" where
  "mixed_branch r f en =
     (case mixed_captures (mshape (fst en)) (mchecked (fst en)) r of
        None \<Rightarrow> [] | Some vs \<Rightarrow> map (extend (Mixed (mparts (fst en))) vs) (f (snd en)))"

primrec candidates :: "jstr list \<Rightarrow> node \<Rightarrow> (segment list \<times> nat \<times> jstr list) list" where
  "candidates [] n = (case terminal n of None \<Rightarrow> [] | Some t \<Rightarrow> [([], t, [])])"
| "candidates (r # rs) n =
     (case map_of (static_children n) r of
        None \<Rightarrow> [] | Some c \<Rightarrow> map (extend (Static r) []) (candidates rs c))
     @ concat (map (mixed_branch r (candidates rs)) (mixed_children n))
     @ (case param_child n of
          None \<Rightarrow> []
        | Some c \<Rightarrow> if r = [] then [] else map (extend (ParamSeg []) [r]) (candidates rs c))
     @ (case wildcard_child n of
          None \<Rightarrow> []
        | Some c \<Rightarrow>
            (case terminal c of None \<Rightarrow> [] | Some t \<Rightarrow> [([Wildcard []], t, [join_with [47] (r # rs)])]))"

definition first :: "(segment list \<times> nat \<times> jstr list) list \<Rightarrow> jstr list \<Rightarrow> nat option \<times> jstr list" where
  "first cs out = (case cs of [] \<Rightarrow> (None, out) | c # _ \<Rightarrow> (Some (fst (snd c)), out @ snd (snd c)))"

lemma first_Nil [simp]: "first [] out = (None, out)"
  by (simp add: first_def)

lemma first_map_extend:
  "first (map (extend sg vs) cs @ ds) out =
     (case first cs (out @ vs) of (Some t, o1) \<Rightarrow> (Some t, o1) | (None, _) \<Rightarrow> first ds out)"
  by (cases cs) (auto simp: first_def extend_def)

lemma first_seq:
  "(case first cs out of (Some t, o1) \<Rightarrow> (Some t, o1) | (None, o1) \<Rightarrow> first ds o1) = first (cs @ ds) out"
  by (cases cs) (auto simp: first_def)

lemma first_None: "first cs out = (None, o1) \<Longrightarrow> o1 = out"
  by (cases cs) (auto simp: first_def)

definition descend :: "node \<Rightarrow> jstr \<Rightarrow> nat \<Rightarrow> jstr list \<Rightarrow> nat option \<times> jstr list" where
  "descend child path start out =
     (if last_seg path start then (terminal child, out) else matchNode child path (seg_end path start + 1) out)"

definition entry_ok :: "mixed_entry \<Rightarrow> bool" where
  "entry_ok e \<longleftrightarrow> e = new_entry (mparts e) \<and> seg_wf (Mixed (mparts e))"

inductive node_ok :: "node \<Rightarrow> bool" where
  node_ok_Node: "distinct (map fst st) \<Longrightarrow> (\<forall>en \<in> set st. node_ok (snd en)) \<Longrightarrow>
   (\<forall>c. p = Some c \<longrightarrow> node_ok c) \<Longrightarrow> (\<forall>c. w = Some c \<longrightarrow> node_ok c) \<Longrightarrow>
   (\<forall>en \<in> set ms. entry_ok (fst en)) \<Longrightarrow> (\<forall>en \<in> set ms. node_ok (snd en)) \<Longrightarrow>
   distinct (map (\<lambda>en. mkey (fst en)) ms) \<Longrightarrow>
   sorted_wrt (\<lambda>a b. compareMixedPartsSpecificity (mparts (fst a)) (mparts (fst b)) \<le> 0) ms \<Longrightarrow>
   node_ok (Node st p ms w t)"

inductive_simps node_ok_simps: "node_ok (Node st p ms w t)"

lemma entry_shape: "entry_ok e \<Longrightarrow> 2 \<le> length (mshape e)"
proof -
  assume e: "entry_ok e"
  then have "mshape e = shape_rec (mparts e)" "params_of (mparts e) \<noteq> []"
    unfolding entry_ok_def new_entry_def by (metis mixed_entry.simps(1) mixedSegmentShape_rec seg_wf.simps(4))+
  then show ?thesis
    by (cases "params_of (mparts e)") (auto simp: length_shape_rec)
qed

lemma match_mixed_first:
  assumes "\<And>c o1. node_ok c \<Longrightarrow> descend c path start o1 = first (candidates rs c) o1"
    and "\<forall>en \<in> set ms. entry_ok (fst en)" and "\<forall>en \<in> set ms. node_ok (snd en)"
    and seg: "slice path start (seg_end path start) = seg"
  shows "match_mixed ms path start out = first (concat (map (mixed_branch seg (candidates rs)) ms)) out"
  using assms(2,3)
proof (induction ms)
  case Nil
  then show ?case by (simp add: match_mixed.simps)
next
  case (Cons en ms)
  obtain e c where en: "en = (e, c)" by (cases en)
  let ?rest = "concat (map (mixed_branch seg (candidates rs)) ms)"
  have IH: "match_mixed ms path start out = first ?rest out" using Cons by simp
  show ?case
  proof (cases "mixed_captures (mshape e) (mchecked e) seg")
    case None
    then have "mixed_branch seg (candidates rs) en = []" by (simp add: en mixed_branch_def)
    with None show ?thesis
      using IH by (simp add: en match_mixed.simps matchMixed_stack seg)
  next
    case (Some vs)
    have len: "length vs = length (mshape e) - 1"
      using mixed_captures_length [OF Some] entry_shape [of e] Cons.prems by (simp add: en)
    have d: "(if last_seg path start then (terminal c, out @ vs)
              else matchNode c path (seg_end path start + 1) (out @ vs)) = first (candidates rs c) (out @ vs)"
      using assms(1) [of c "out @ vs"] Cons.prems by (simp add: en descend_def)
    have b: "mixed_branch seg (candidates rs) en = map (extend (Mixed (mparts e)) vs) (candidates rs c)"
      using Some by (simp add: mixed_branch_def en)
    have "match_mixed (en # ms) path start out =
        (case first (candidates rs c) (out @ vs) of
           (Some t, o1) \<Rightarrow> (Some t, o1) | (None, _) \<Rightarrow> first ?rest out)"
      using Some len IH d
      by (auto simp: en match_mixed.simps matchMixed_stack seg split: prod.splits option.splits
          dest!: first_None)
    then show ?thesis
      by (simp add: b first_map_extend)
  qed
qed

lemma split_last:
  "last_seg path start \<Longrightarrow> start \<le> length path \<Longrightarrow>
   split_on 47 (drop start path) = [slice path start (seg_end path start)]"
proof -
  assume l: "last_seg path start" and s: "start \<le> length path"
  then have n: "find_sub [47] (drop start path) = None"
    by (auto simp: last_seg_def index_of_def min_def)
  have "47 \<notin> set (drop start path)"
  proof
    assume "47 \<in> set (drop start path)"
    then obtain j where "j < length (drop start path)" "drop start path ! j = 47"
      by (meson in_set_conv_nth)
    then have "prefix [47] (drop j (drop start path))"
      by (simp add: Cons_nth_drop_Suc [symmetric] prefix_def)
    with find_sub_None [OF n] show False by blast
  qed
  then show ?thesis
    using l by (simp add: seg_end_def last_seg_def)
qed

lemma split_more:
  "\<not> last_seg path start \<Longrightarrow>
   split_on 47 (drop start path) =
     slice path start (seg_end path start) # split_on 47 (drop (seg_end path start + 1) path)"
proof -
  assume l: "\<not> last_seg path start"
  note b = seg_end_bounds [OF l]
  obtain e where e: "index_of path [47] start = Some e" and se: "seg_end path start = e"
    using l by (auto simp: last_seg_def seg_end_def)
  have p: "prefix [47] (drop e path)"
    using index_of_SomeD(1) [OF e] b by simp
  then have pe: "path ! e = 47"
    using b se by (auto simp: prefix_def hd_drop_conv_nth [symmetric])
  have "47 \<notin> set (slice path start e)"
  proof
    assume "47 \<in> set (slice path start e)"
    then obtain j where "j < length (slice path start e)" "slice path start e ! j = 47"
      by (meson in_set_conv_nth)
    then have j: "start + j < e" "path ! (start + j) = 47"
      using b se by (auto simp: slice_def)
    then have "prefix [47] (drop (start + j) path)"
      using b se by (simp add: Cons_nth_drop_Suc [symmetric] prefix_def)
    with index_of_SomeD(2) [OF e, of "start + j"] b j show False by simp
  qed
  moreover have "drop start path = slice path start e @ 47 # drop (e + 1) path"
    using slice_append_drop [of start e path] b se pe by (simp add: Cons_nth_drop_Suc [symmetric])
  ultimately show ?thesis using se by simp
qed

lemma match_node_step:
  assumes d: "\<And>c o1. node_ok c \<Longrightarrow> descend c path start o1 = first (candidates rs c) o1"
    and ok: "node_ok n" and "start \<le> length path"
    and seg: "slice path start (seg_end path start) = seg"
    and split: "split_on 47 (drop start path) = seg # rs"
  shows "matchNode n path start out = first (candidates (seg # rs) n) out"
proof -
  obtain st p ms w t where n: "n = Node st p ms w t" by (cases n)
  have d': "(if last_seg path start then (terminal c, o1) else matchNode c path (seg_end path start + 1) o1)
      = first (candidates rs c) o1" if "node_ok c" for c o1
    using d [OF that] by (simp add: descend_def)
  have st: "node_ok c" if "map_of st seg = Some c" for c
    using ok that by (auto simp: n node_ok_simps dest: map_of_SomeD)
  have p: "node_ok c" if "p = Some c" for c
    using ok that by (auto simp: n node_ok_simps)
  have mixed: "match_mixed ms path start o1 = first (concat (map (mixed_branch seg (candidates rs)) ms)) o1" for o1
    using ok by (intro match_mixed_first d seg) (auto simp: n node_ok_simps)
  have empty: "concat (map (mixed_branch [] (candidates rs)) ms) = []"
  proof -
    have "mixed_branch [] (candidates rs) en = []" if "en \<in> set ms" for en
      using ok that entry_shape mixed_captures_length [of "mshape (fst en)" "mchecked (fst en)" "[]"]
      by (auto simp: n node_ok_simps mixed_branch_def split: option.split)
    then show ?thesis by simp
  qed
  let ?S = "case map_of st seg of None \<Rightarrow> [] | Some c \<Rightarrow> map (extend (Static seg) []) (candidates rs c)"
  let ?M = "concat (map (mixed_branch seg (candidates rs)) ms)"
  let ?P = "case p of None \<Rightarrow> [] | Some c \<Rightarrow> if seg = [] then [] else map (extend (ParamSeg []) [seg]) (candidates rs c)"
  let ?W = "case w of None \<Rightarrow> [] | Some c \<Rightarrow> (case terminal c of None \<Rightarrow> []
      | Some t \<Rightarrow> [([Wildcard []], t, [join_with [47] (seg # rs)])])"
  have S: "(case map_of st seg of None \<Rightarrow> (None, o1) | Some child \<Rightarrow>
      if last_seg path start then (terminal child, o1) else matchNode child path (seg_end path start + 1) o1)
      = first ?S o1" for o1
    using d' [OF st] first_map_extend [of _ _ _ "[]"]
    by (auto split: option.split prod.splits dest: first_None)
  have M: "(if seg = [] then (None, o1) else match_mixed ms path start o1) = first ?M o1" for o1
    using empty mixed by (cases "seg = []") (simp_all only: if_True if_False refl first_Nil)
  have P: "(case (p, seg) of
       (Some child, _ # _) \<Rightarrow>
         (case (if last_seg path start then (terminal child, o1 @ [seg])
                else matchNode child path (seg_end path start + 1) (o1 @ [seg])) of
            (Some found, out3) \<Rightarrow> (Some found, out3)
          | (None, out3) \<Rightarrow> (None, pops 1 out3))
     | _ \<Rightarrow> (None, o1)) = first ?P o1" for o1
  proof (cases "p = None \<or> seg = []")
    case True
    then show ?thesis by (auto split: option.split)
  next
    case False
    then obtain c x xs where c: "p = Some c" "seg = x # xs" by (cases seg) auto
    show ?thesis
      using first_map_extend [of "ParamSeg []" "[seg]" "candidates rs c" "[]" o1]
      by (auto simp: c d' [OF p [OF c(1)]] simp del: One_nat_def Suc_eq_plus1 add_Suc_right
          split: prod.splits option.splits dest!: first_None)
  qed
  have W: "(case w of Some wildcard \<Rightarrow>
        if terminal wildcard \<noteq> None then (terminal wildcard, o1 @ [drop start path]) else (None, o1)
      | None \<Rightarrow> (None, o1)) = first ?W o1" for o1
    using join_split [of 47 "drop start path"] split
    by (auto simp: first_def split: option.split)
  have "matchNode n path start out = first (?S @ ?M @ ?P @ ?W) out"
    unfolding n matchNode.simps [of "Node st p ms w t"] Let_def seg node.sel S M P W first_seq ..
  then show ?thesis by (simp add: n)
qed

lemma matchNode_first:
  "node_ok n \<Longrightarrow> start \<le> length path \<Longrightarrow>
   matchNode n path start out = first (candidates (split_on 47 (drop start path)) n) out"
proof (induction "length path - start" arbitrary: n start out rule: less_induct)
  case less
  let ?seg = "slice path start (seg_end path start)"
  let ?rs = "if last_seg path start then [] else split_on 47 (drop (seg_end path start + 1) path)"
  have split: "split_on 47 (drop start path) = ?seg # ?rs"
    using split_last split_more less.prems by auto
  have "descend c path start o1 = first (candidates ?rs c) o1" if "node_ok c" for c o1
  proof (cases "last_seg path start")
    case True
    then show ?thesis
      by (auto simp: descend_def first_def split: option.split)
  next
    case False
    note b = seg_end_bounds [OF this]
    with less.hyps [of "seg_end path start + 1" c o1] that
    have "matchNode c path (seg_end path start + 1) o1
        = first (candidates (split_on 47 (drop (seg_end path start + 1) path)) c) o1"
      by linarith
    with False show ?thesis
      by (simp add: descend_def)
  qed
  from match_node_step [OF this less.prems refl split] split show ?case by simp
qed

section \<open>Insertion\<close>

text \<open>What a step of the walk looks at: parameter names play no part.\<close>

datatype step = SStatic jstr | SParam | SMixed jstr | SWildcard

fun step_of :: "segment \<Rightarrow> step" where
  "step_of (Static v) = SStatic v"
| "step_of (ParamSeg _) = SParam"
| "step_of (Mixed ps) = SMixed (mixed_key ps)"
| "step_of (Wildcard _) = SWildcard"

interpretation entry_cmp: comparison
  "\<lambda>a b :: mixed_entry \<times> node. compareMixedPartsSpecificity (mparts (fst a)) (mparts (fst b))"
  by (rule comparison_by_key [where k = "\<lambda>a. parts_key (mparts (fst a))"]) (rule compareMixed_sign)

lemma node_ok_createNode [simp]: "node_ok createNode"
  by (simp add: createNode_def node_ok_simps)

lemma node_ok_or_new: "(\<And>c. p = Some c \<Longrightarrow> node_ok c) \<Longrightarrow> node_ok (or_new p)"
  by (auto simp: or_new_def split: option.split)

lemma mixed_key_eq_Mixed: "entry_ok e \<Longrightarrow> mkey e = mixed_key (mparts e)"
  by (metis entry_ok_def mixed_entry.simps(4) new_entry_def)

lemma new_entry_ok: "seg_wf (Mixed ps) \<Longrightarrow> entry_ok (new_entry ps)"
  by (simp add: entry_ok_def new_entry_def)

lemma mkey_new_entry [simp]: "mkey (new_entry ps) = mixed_key ps"
  by (simp add: new_entry_def)

definition mixeds_ok :: "(mixed_entry \<times> node) list \<Rightarrow> bool" where
  "mixeds_ok ms \<longleftrightarrow>
     (\<forall>en \<in> set ms. entry_ok (fst en)) \<and> (\<forall>en \<in> set ms. node_ok (snd en))
     \<and> distinct (map (\<lambda>en. mkey (fst en)) ms)
     \<and> sorted_wrt (\<lambda>a b. compareMixedPartsSpecificity (mparts (fst a)) (mparts (fst b)) \<le> 0) ms"

lemma node_ok_mixeds:
  "node_ok (Node st p ms w t) \<longleftrightarrow>
     distinct (map fst st) \<and> (\<forall>en \<in> set st. node_ok (snd en))
     \<and> (\<forall>c. p = Some c \<longrightarrow> node_ok c) \<and> (\<forall>c. w = Some c \<longrightarrow> node_ok c) \<and> mixeds_ok ms"
  by (auto simp: node_ok_simps mixeds_ok_def)

lemma with_mixed_child_ok:
  assumes "mixeds_ok ms" and "seg_wf (Mixed ps)"
  shows "mixeds_ok (with_mixed_child ps ms)"
proof (cases "\<exists>en \<in> set ms. mkey (fst en) = mixed_key ps")
  case True
  then show ?thesis using assms by (simp add: with_mixed_child_def)
next
  case False
  let ?new = "ms @ [(new_entry ps, createNode)]"
  let ?cmp = "\<lambda>a b :: mixed_entry \<times> node. compareMixedPartsSpecificity (mparts (fst a)) (mparts (fst b))"
  have "mset (map (\<lambda>en. mkey (fst en)) (sort_by ?cmp ?new)) = mset (map (\<lambda>en. mkey (fst en)) ?new)"
    unfolding mset_map entry_cmp.mset_sort_by ..
  then have "distinct (map (\<lambda>en. mkey (fst en)) (sort_by ?cmp ?new)) = distinct (map (\<lambda>en. mkey (fst en)) ?new)"
    using mset_eq_imp_distinct_iff by blast
  moreover have "distinct (map (\<lambda>en. mkey (fst en)) ?new)"
    using assms False by (auto simp: mixeds_ok_def)
  ultimately show ?thesis
    using assms False entry_cmp.sort_by_sorted [of ?new]
    by (auto simp: with_mixed_child_def mixeds_ok_def new_entry_ok simp del: sort_by_def)
qed

lemma update_mixed_fst: "map fst (update_mixed k f ms) = map fst ms"
  by (induction k f ms rule: update_mixed.induct) auto

lemma update_mixed_snd: "c \<in> set (update_mixed k f ms) \<Longrightarrow> snd c \<in> snd ` set ms \<or> (\<exists>c' \<in> snd ` set ms. snd c = f c')"
  by (induction k f ms rule: update_mixed.induct) (auto split: if_splits)

lemma update_mixed_ok:
  assumes "mixeds_ok ms" and "\<And>c. node_ok c \<Longrightarrow> node_ok (f c)"
  shows "mixeds_ok (update_mixed k f ms)"
proof -
  have eq: "map (\<lambda>en. g (fst en)) (update_mixed k f ms) = map (\<lambda>en. g (fst en)) ms" for g :: "mixed_entry \<Rightarrow> 'b"
    using arg_cong [OF update_mixed_fst, of "map g" k f ms] by (simp add: comp_def)
  have "list_all id (map (\<lambda>en. entry_ok (fst en)) (update_mixed k f ms))"
    unfolding eq using assms(1) by (simp add: mixeds_ok_def list.pred_map list_all_iff)
  then have "\<forall>en \<in> set (update_mixed k f ms). entry_ok (fst en)"
    by (simp add: list.pred_map list_all_iff)
  moreover have "node_ok (snd en)" if "en \<in> set (update_mixed k f ms)" for en
    using update_mixed_snd [OF that]
  proof
    assume "snd en \<in> snd ` set ms"
    then show ?thesis using assms(1) by (auto simp: mixeds_ok_def)
  next
    assume "\<exists>c' \<in> snd ` set ms. snd en = f c'"
    then obtain x where "x \<in> set ms" "snd en = f (snd x)" by auto
    then show ?thesis using assms by (auto simp: mixeds_ok_def)
  qed
  moreover have "sorted_wrt (\<lambda>a b. compareMixedPartsSpecificity a b \<le> 0)
      (map (\<lambda>en. mparts (fst en)) (update_mixed k f ms))"
    using assms(1) unfolding eq by (simp add: mixeds_ok_def sorted_wrt_map)
  moreover have "distinct (map (\<lambda>en. mkey (fst en)) (update_mixed k f ms))"
    using assms(1) unfolding eq by (simp add: mixeds_ok_def)
  ultimately show ?thesis
    by (simp add: mixeds_ok_def sorted_wrt_map)
qed

lemma reach_ok: "node_ok n \<Longrightarrow> list_all seg_wf segs \<Longrightarrow> node_ok (reach segs f n)"
proof (induction segs f n rule: reach.induct)
  case (4 parts segs f st p ms w t)
  then have "mixeds_ok (with_mixed_child parts ms)"
    using with_mixed_child_ok by (simp add: node_ok_mixeds)
  with 4 show ?case
    by (auto simp: node_ok_mixeds intro!: update_mixed_ok)
next
  case (5 v segs f st p ms w t)
  have "node_ok (or_new (map_of st v))"
    using "5.prems" by (intro node_ok_or_new) (auto simp: node_ok_mixeds dest: map_of_SomeD)
  then have "node_ok (reach segs f (or_new (map_of st v)))" (is "node_ok ?c")
    using 5 by simp
  moreover have "en \<in> set (AList.update v ?c st) \<Longrightarrow> en \<in> set st \<or> en = (v, ?c)" for en
    by (induction st) (auto split: if_splits)
  ultimately show ?case
    using "5.prems" by (fastforce simp: node_ok_mixeds intro: distinct_update)
qed (auto simp: node_ok_mixeds intro: node_ok_or_new)

section \<open>What is in a trie\<close>

lemma mixed_child_map_of: "mixed_child k ms = map_of (map (\<lambda>en. (mkey (fst en), snd en)) ms) k"
  by (induction ms) (auto simp: mixed_child_def)

lemma mixed_child_None: "mixed_child k ms = None \<longleftrightarrow> (\<forall>en \<in> set ms. mkey (fst en) \<noteq> k)"
  by (induction ms) (auto simp: mixed_child_def)

lemma segs_cases:
  obtains "segs = []" | v ss where "segs = Static v # ss" | n ss where "segs = ParamSeg n # ss"
    | n ss where "segs = Wildcard n # ss" | ps ss where "segs = Mixed ps # ss"
proof (cases segs)
  case (Cons sg ss)
  with that show thesis by (cases sg) auto
qed (use that in auto)

lemma map_of_all: "\<forall>en \<in> set st. P (snd en) \<Longrightarrow> map_of st v = Some c \<Longrightarrow> P c"
  by (auto dest!: map_of_SomeD)

lemma mixed_child_update:
  "mixed_child k (update_mixed k' f ms) = (if k = k' then map_option f (mixed_child k ms) else mixed_child k ms)"
  by (induction k' f ms rule: update_mixed.induct) (auto simp: mixed_child_def)

lemma mixed_child_with:
  assumes "mixeds_ok ms" and "seg_wf (Mixed ps)"
  shows "mixed_child k (with_mixed_child ps ms) =
    (if k = mixed_key ps then Some (or_new (mixed_child k ms)) else mixed_child k ms)"
proof (cases "\<exists>en \<in> set ms. mkey (fst en) = mixed_key ps")
  case True
  then have "mixed_child (mixed_key ps) ms \<noteq> None"
    by (simp add: mixed_child_None)
  with True show ?thesis by (auto simp: with_mixed_child_def or_new_def)
next
  case False
  let ?g = "\<lambda>en :: mixed_entry \<times> node. (mkey (fst en), snd en)"
  let ?new = "ms @ [(new_entry ps, createNode)]"
  have none: "mixed_child (mixed_key ps) ms = None"
    using False by (simp add: mixed_child_None)
  have ok: "mixeds_ok (with_mixed_child ps ms)" by (rule with_mixed_child_ok [OF assms])
  have "map_of (map ?g (with_mixed_child ps ms)) = map_of (map ?g ?new)"
  proof (subst map_of_inject_set)
    show "distinct (map fst (map ?g (with_mixed_child ps ms)))"
      using ok by (simp add: mixeds_ok_def comp_def)
    show "distinct (map fst (map ?g ?new))"
      using assms False by (auto simp: mixeds_ok_def comp_def)
    show "set (map ?g (with_mixed_child ps ms)) = set (map ?g ?new)"
      using False by (simp add: with_mixed_child_def)
  qed
  then show ?thesis
    using none unfolding mixed_child_map_of by (auto simp: map_add_def or_new_def split: option.split)
qed

lemma terminal_at_createNode [simp]: "terminal_at segs createNode = None"
  by (cases segs rule: segs_cases) (auto simp: createNode_def mixed_child_def)

lemma terminal_at_or_new [simp]: "terminal_at segs (or_new p) = Option.bind p (terminal_at segs)"
  by (simp add: or_new_def split: option.split)

lemma step_of_iff:
  "step_of sg = SStatic v \<longleftrightarrow> sg = Static v"
  "step_of sg = SParam \<longleftrightarrow> (\<exists>n. sg = ParamSeg n)"
  "step_of sg = SWildcard \<longleftrightarrow> (\<exists>n. sg = Wildcard n)"
  "step_of sg = SMixed k \<longleftrightarrow> (\<exists>ps. sg = Mixed ps \<and> mixed_key ps = k)"
  by (cases sg; auto)+

lemma node_ok_or_new_simps:
  assumes "node_ok (Node st p ms w t)"
  shows "node_ok (or_new p)" "node_ok (or_new w)" "node_ok (or_new (map_of st v))" "mixeds_ok ms"
  using assms by (auto simp: node_ok_mixeds intro!: node_ok_or_new elim: map_of_all)

lemma mixed_child_ok: "mixeds_ok ms \<Longrightarrow> mixed_child k ms = Some c \<Longrightarrow> node_ok c"
  unfolding mixed_child_map_of by (rule map_of_all [of _ node_ok]) (auto simp: mixeds_ok_def)

lemma terminal_at_reach:
  "node_ok n \<Longrightarrow> list_all seg_wf segs \<Longrightarrow>
   terminal_at segs' (reach segs f n) =
     (if map step_of segs' = map step_of segs then f (terminal_at segs' n) else terminal_at segs' n)"
proof (induction segs f n arbitrary: segs' rule: reach.induct)
  case (1 f st p ms w t)
  then show ?case by (cases segs' rule: segs_cases) auto
next
  case (2 nm segs f st p ms w t)
  have "terminal_at ss (reach segs f (or_new p)) =
     (if map step_of ss = map step_of segs then f (terminal_at ss (or_new p)) else terminal_at ss (or_new p))" for ss
    using 2 node_ok_or_new_simps by simp
  then show ?case
    by (cases segs' rule: segs_cases) auto
next
  case (3 nm segs f st p ms w t)
  have "terminal_at ss (reach segs f (or_new w)) =
     (if map step_of ss = map step_of segs then f (terminal_at ss (or_new w)) else terminal_at ss (or_new w))" for ss
    using 3 node_ok_or_new_simps by simp
  then show ?case
    by (cases segs' rule: segs_cases) auto
next
  case (4 parts segs f st p ms w t)
  have ms: "mixeds_ok ms" and wf: "seg_wf (Mixed parts)"
    using 4 node_ok_or_new_simps by auto
  let ?c = "or_new (mixed_child (mixed_key parts) ms)"
  have "node_ok ?c"
    using mixed_child_ok [OF ms] by (intro node_ok_or_new)
  then have "terminal_at ss (reach segs f ?c) =
     (if map step_of ss = map step_of segs then f (terminal_at ss ?c) else terminal_at ss ?c)" for ss
    using 4 by simp
  then show ?case
    by (cases segs' rule: segs_cases) (auto simp: mixed_child_update mixed_child_with [OF ms wf])
next
  case (5 v segs f st p ms w t)
  have "terminal_at ss (reach segs f (or_new (map_of st v))) =
     (if map step_of ss = map step_of segs then f (terminal_at ss (or_new (map_of st v)))
      else terminal_at ss (or_new (map_of st v)))" for ss
    using 5 node_ok_or_new_simps by simp
  then show ?case
    by (cases segs' rule: segs_cases) (auto simp: jmap_simps)
qed

section \<open>Segments that are the same but for names\<close>

fun same_part :: "mixed_part \<Rightarrow> mixed_part \<Rightarrow> bool" where
  "same_part (Lit v) (Lit w) \<longleftrightarrow> v = w"
| "same_part (Param _ c) (Param _ d) \<longleftrightarrow>
     (case (c, d) of (None, None) \<Rightarrow> True | (Some j, Some k) \<Rightarrow> same_kind j k \<and> key j = key k | _ \<Rightarrow> False)"
| "same_part _ _ \<longleftrightarrow> False"

definition part_str :: "mixed_part \<Rightarrow> jstr" where
  "part_str part = (case part of
         Lit v \<Rightarrow> 76 # v
       | Param _ c \<Rightarrow> 80 # (case c of None \<Rightarrow> [] | Some k \<Rightarrow> key k))"

lemma key_not_Nil: "constraint_ok k \<Longrightarrow> key k \<noteq> []"
proof
  assume k: "constraint_ok k" and n: "key k = []"
  show False
  proof (cases "one_of k")
    case None
    with class_key_parts [OF k None] n show False by simp
  next
    case (Some vs)
    with list_key_parts [OF k Some] n have "length (sort vs) = 1"
      by (metis length_Cons list.size(3) One_nat_def split_on.simps(1))
    with Some k show False by (simp add: constraint_ok_def)
  qed
qed

definition part_ok :: "mixed_part \<Rightarrow> bool" where
  "part_ok p = (case p of Lit v \<Rightarrow> 47 \<notin> set v | Param _ c \<Rightarrow> (\<forall>k. c = Some k \<longrightarrow> constraint_ok k))"

lemma parts_wf_part_ok: "parts_wf ps \<Longrightarrow> slash_free ps \<Longrightarrow> p \<in> set ps \<Longrightarrow> part_ok p"
proof (induction ps rule: parts_wf.induct)
  case (2 v ps)
  then show ?case by (auto simp: part_ok_def slash_free_def)
next
  case (3 n k ps)
  then show ?case by (auto simp: part_ok_def slash_free_def split: option.splits)
qed simp

lemma part_str_no_slash: "part_ok p \<Longrightarrow> 47 \<notin> set (part_str p)"
  using key_chars [of _ 47] by (auto simp: part_ok_def part_str_def split: mixed_part.splits option.splits)

lemma part_str_same: "part_ok p \<Longrightarrow> part_ok q \<Longrightarrow> part_str p = part_str q \<Longrightarrow> same_part p q"
  by (auto simp: part_ok_def part_str_def key_not_Nil same_key dest!: key_not_Nil
      split: mixed_part.splits option.splits)

lemma mixed_key_same:
  assumes p: "seg_wf (Mixed ps)" and q: "seg_wf (Mixed qs)" and eq: "mixed_key ps = mixed_key qs"
  shows "list_all2 same_part ps qs"
proof -
  have split: "split_on 47 (mixed_key xs) = map part_str xs" if "seg_wf (Mixed xs)" for xs
  proof -
    have "mixed_key xs = join_with [47] (map part_str xs)"
      by (simp add: mixed_key_def part_str_def [abs_def])
    moreover have "xs \<noteq> []" using that by auto
    moreover have "\<forall>s \<in> set (map part_str xs). 47 \<notin> set s"
      using that part_str_no_slash parts_wf_part_ok by auto
    ultimately show ?thesis by (simp add: split_join)
  qed
  have m: "map part_str ps = map part_str qs"
    using split [OF p] split [OF q] eq by simp
  then have "length ps = length qs" by (rule map_eq_imp_length_eq)
  moreover have "same_part (ps ! i) (qs ! i)" if "i < length ps" for i
  proof (rule part_str_same)
    show "part_ok (ps ! i)"
      using p that by (intro parts_wf_part_ok [of ps]) auto
    show "part_ok (qs ! i)"
      using q that calculation by (intro parts_wf_part_ok [of qs]) auto
    show "part_str (ps ! i) = part_str (qs ! i)"
      using m that calculation by (metis nth_map)
  qed
  ultimately show ?thesis by (simp add: list_all2_conv_all_nth)
qed

lemma same_part_cases:
  assumes "same_part p q"
  obtains v where "p = Lit v" "q = Lit v"
  | m n where "p = Param m None" "q = Param n None"
  | m n j k where "p = Param m (Some j)" "q = Param n (Some k)" "same_kind j k" "key j = key k"
  using assms by (cases p; cases q) (auto split: option.splits)

lemma same_shape_loop: "list_all2 same_part ps qs \<Longrightarrow> mixed_shape_loop sh ps = mixed_shape_loop sh qs"
  by (induction arbitrary: sh rule: list_all2_induct) (auto elim!: same_part_cases)

lemma same_check_parts: "list_all2 same_part ps qs \<Longrightarrow> check_parts ps out v = check_parts qs out v"
proof (induction arbitrary: v rule: list_all2_induct)
  case (Cons p ps q qs)
  from \<open>same_part p q\<close> show ?case
    using Cons.IH by (cases rule: same_part_cases) (auto simp: same_kind_satisfies)
qed simp

lemma same_constrained: "list_all2 same_part ps qs \<Longrightarrow> constrainedParts ps = None \<longleftrightarrow> constrainedParts qs = None"
proof -
  assume a: "list_all2 same_part ps qs"
  have "list_ex (\<lambda>p. case p of Param _ (Some _) \<Rightarrow> True | _ \<Rightarrow> False) ps
      = list_ex (\<lambda>p. case p of Param _ (Some _) \<Rightarrow> True | _ \<Rightarrow> False) qs"
    using a by (induction rule: list_all2_induct) (auto elim!: same_part_cases)
  then show ?thesis by (simp add: constrainedParts_def)
qed

lemma constrained_Some: "constrainedParts ps = Some qs \<Longrightarrow> qs = ps"
  by (auto simp: constrainedParts_def split: if_splits)

lemma same_captures:
  assumes "list_all2 same_part ps qs"
  shows "mixed_captures (mixedSegmentShape ps) (constrainedParts ps) seg
       = mixed_captures (mixedSegmentShape qs) (constrainedParts qs) seg"
proof (cases "constrainedParts ps")
  case None
  then have "constrainedParts qs = None" using same_constrained [OF assms] by simp
  then show ?thesis
    using None assms by (simp add: mixedSegmentShape_def same_shape_loop)
next
  case (Some ps')
  then obtain qs' where q: "constrainedParts qs = Some qs'"
    using same_constrained [OF assms] by auto
  have "check_parts ps' out v = check_parts qs' out v" for out v
    using Some q constrained_Some same_check_parts [OF assms] by metis
  then show ?thesis
    using Some q same_shape_loop [OF assms]
    by (simp add: mixedSegmentShape_def mixed_captures_def matchMixed_checked split: prod.split bool.split)
qed

lemma same_parts_key:
  assumes "list_all2 same_part ps qs"
  shows "parts_key ps = parts_key qs"
proof -
  have ck: "constraint_key (Some j) = constraint_key (Some k)" if "same_kind j k" "key j = key k" for j k
    using that by (auto simp: constraint_key_def rank_def same_kind_def range_key_def split: option.splits enat.splits)
  have "map part_key ps = map part_key qs"
    using assms by (induction rule: list_all2_induct) (auto elim!: same_part_cases simp: ck)
  moreover have "fold (\<lambda>p n. case p of Lit v \<Rightarrow> n + length v | Param _ _ \<Rightarrow> n) ps w
      = fold (\<lambda>p n. case p of Lit v \<Rightarrow> n + length v | Param _ _ \<Rightarrow> n) qs w" for w
    using assms by (induction arbitrary: w rule: list_all2_induct) (auto elim!: same_part_cases)
  ultimately show ?thesis
    by (simp add: parts_key_def literal_weight_def)
qed

lemma parts_key_mixed_key: "parts_key ps = parts_key qs \<Longrightarrow> mixed_key ps = mixed_key qs"
proof -
  assume "parts_key ps = parts_key qs"
  then have m: "map part_key ps = map part_key qs" by (simp add: parts_key_def)
  have "part_str p = part_str q" if "part_key p = part_key q" for p q
  proof (cases p)
    case (Lit v)
    with that show ?thesis by (cases q) (auto simp: part_str_def)
  next
    case (Param n c)
    with that obtain m d where q: "q = Param m d" by (cases q) auto
    with Param that have "constraint_key c = constraint_key d" by simp
    then show ?thesis
      by (cases c; cases d) (auto simp: Param q part_str_def constraint_key_def rank_def split: if_splits)
  qed
  moreover have "list_all2 (=) (map part_key ps) (map part_key qs)"
    unfolding list.rel_eq by (rule m)
  ultimately have "list_all2 (=) (map part_str ps) (map part_str qs)"
    unfolding list.rel_map by (metis (mono_tags, lifting) list_all2_mono)
  then have "map part_str ps = map part_str qs"
    unfolding list.rel_eq .
  then show ?thesis by (simp add: mixed_key_def part_str_def [abs_def])
qed

section \<open>Which routes match a path\<close>

text \<open>
  What one compiled pattern captures of the segments of a path: the meaning of a pattern, said
  without a trie.
\<close>

fun captures :: "segment list \<Rightarrow> jstr list \<Rightarrow> jstr list option" where
  "captures [] rs = (if rs = [] then Some [] else None)"
| "captures (Wildcard _ # segs) rs =
     (if rs = [] \<or> segs \<noteq> [] then None else Some [join_with [47] rs])"
| "captures (Static v # segs) (r # rs) = (if r = v then captures segs rs else None)"
| "captures (ParamSeg _ # segs) (r # rs) =
     (if r = [] then None else map_option ((#) r) (captures segs rs))"
| "captures (Mixed ps # segs) (r # rs) =
     (case mixed_captures (mixedSegmentShape ps) (constrainedParts ps) r of
        None \<Rightarrow> None | Some vs \<Rightarrow> map_option ((@) vs) (captures segs rs))"
| "captures _ [] = None"

definition mixed_wf :: "segment list \<Rightarrow> bool" where
  "mixed_wf segs \<longleftrightarrow> (\<forall>ps. Mixed ps \<in> set segs \<longrightarrow> seg_wf (Mixed ps))"

lemma mixed_wf_simps [simp]:
  "mixed_wf []" "mixed_wf (Static v # ss) = mixed_wf ss" "mixed_wf (ParamSeg n # ss) = mixed_wf ss"
  "mixed_wf (Wildcard n # ss) = mixed_wf ss"
  "mixed_wf (Mixed ps # ss) \<longleftrightarrow> seg_wf (Mixed ps) \<and> mixed_wf ss"
  by (auto simp: mixed_wf_def)

lemma seg_wf_mixed_wf: "list_all seg_wf segs \<Longrightarrow> mixed_wf segs"
  by (auto simp: mixed_wf_def list_all_iff)

lemma entry_ok_parts:
  assumes "entry_ok e"
  shows "mshape e = mixedSegmentShape (mparts e)" "mchecked e = constrainedParts (mparts e)"
    "mkey e = mixed_key (mparts e)" "seg_wf (Mixed (mparts e))"
  using assms unfolding entry_ok_def new_entry_def
  by (metis mixed_entry.simps(1), metis mixed_entry.simps(3), metis mixed_entry.simps(4), simp)

lemma mixed_child_at:
  "mixeds_ok ms \<Longrightarrow> en \<in> set ms \<Longrightarrow> mixed_child (mkey (fst en)) ms = Some (snd en)"
  unfolding mixed_child_map_of
  by (rule map_of_is_SomeI) (auto simp: mixeds_ok_def comp_def)

lemma mixed_child_entry:
  "mixed_child k ms = Some c \<Longrightarrow> \<exists>en \<in> set ms. mkey (fst en) = k \<and> snd en = c"
  unfolding mixed_child_map_of by (drule map_of_SomeD) auto

lemma candidates_mem:
  "x \<in> set (candidates (r # rs) n) \<longleftrightarrow>
     (\<exists>c. map_of (static_children n) r = Some c \<and> x \<in> extend (Static r) [] ` set (candidates rs c))
     \<or> (\<exists>en \<in> set (mixed_children n). \<exists>vs. mixed_captures (mshape (fst en)) (mchecked (fst en)) r = Some vs
          \<and> x \<in> extend (Mixed (mparts (fst en))) vs ` set (candidates rs (snd en)))
     \<or> (\<exists>c. param_child n = Some c \<and> r \<noteq> [] \<and> x \<in> extend (ParamSeg []) [r] ` set (candidates rs c))
     \<or> (\<exists>c t. wildcard_child n = Some c \<and> terminal c = Some t
          \<and> x = ([Wildcard []], t, [join_with [47] (r # rs)]))"
proof -
  have "x \<in> set (mixed_branch r f en) \<longleftrightarrow> (\<exists>vs. mixed_captures (mshape (fst en)) (mchecked (fst en)) r = Some vs
          \<and> x \<in> extend (Mixed (mparts (fst en))) vs ` set (f (snd en)))" for f en
    by (cases "mixed_captures (mshape (fst en)) (mchecked (fst en)) r") (simp_all add: mixed_branch_def)
  then show ?thesis
    by (cases "map_of (static_children n) r"; cases "param_child n"; cases "wildcard_child n")
       (auto split: option.split)
qed

lemma candidates_sound:
  "node_ok n \<Longrightarrow> (segs, t, caps) \<in> set (candidates rs n) \<Longrightarrow>
   terminal_at segs n = Some t \<and> captures segs rs = Some caps \<and> mixed_wf segs"
proof (induction rs arbitrary: n segs t caps)
  case Nil
  then show ?case by (auto split: option.splits)
next
  case (Cons r rs)
  obtain st p ms w tm where n: "n = Node st p ms w tm" by (cases n)
  from Cons.prems(1) have ms: "mixeds_ok ms" by (simp add: n node_ok_mixeds)
  from Cons.prems(2) consider
      (st) c x where "map_of st r = Some c" "x \<in> set (candidates rs c)" "(segs, t, caps) = extend (Static r) [] x"
    | (mx) en vs x where "en \<in> set ms" "mixed_captures (mshape (fst en)) (mchecked (fst en)) r = Some vs"
        "x \<in> set (candidates rs (snd en))" "(segs, t, caps) = extend (Mixed (mparts (fst en))) vs x"
    | (pr) c x where "p = Some c" "r \<noteq> []" "x \<in> set (candidates rs c)"
        "(segs, t, caps) = extend (ParamSeg []) [r] x"
    | (wc) c where "w = Some c" "terminal c = Some t" "segs = [Wildcard []]" "caps = [join_with [47] (r # rs)]"
    unfolding candidates_mem n node.sel by blast
  then show ?case
  proof cases
    case st
    have "node_ok c" using Cons.prems(1) st(1) by (auto simp: n node_ok_mixeds elim: map_of_all)
    with Cons.IH [of c] st show ?thesis
      by (cases x) (auto simp: n extend_def)
  next
    case mx
    have "node_ok (snd en)" "entry_ok (fst en)" using ms mx(1) by (auto simp: mixeds_ok_def)
    with Cons.IH [of "snd en"] mx mixed_child_at [OF ms mx(1)] show ?thesis
      by (cases x) (auto simp: n extend_def entry_ok_parts simp del: seg_wf.simps)
  next
    case pr
    have "node_ok c" using Cons.prems(1) pr(1) by (auto simp: n node_ok_mixeds)
    with Cons.IH [of c] pr show ?thesis
      by (cases x) (auto simp: n extend_def)
  next
    case wc
    then show ?thesis by (simp add: n)
  qed
qed

lemma step_of_Static [simp]: "step_of sg = SStatic v \<longleftrightarrow> sg = Static v"
  by (rule step_of_iff)

lemma candidates_complete:
  "node_ok n \<Longrightarrow> mixed_wf segs \<Longrightarrow> terminal_at segs n = Some t \<Longrightarrow> captures segs rs = Some caps \<Longrightarrow>
   \<exists>sgs. (sgs, t, caps) \<in> set (candidates rs n) \<and> map step_of sgs = map step_of segs
     \<and> segments_key sgs = segments_key segs"
proof (induction segs rs arbitrary: n caps rule: captures.induct)
  case (1 rs)
  then show ?case by (auto split: if_splits)
next
  case (2 nm segs rs)
  then obtain r rs' where rs: "rs = r # rs'" "segs = []" by (cases rs) (auto split: if_splits)
  obtain st p ms w tm where n: "n = Node st p ms w tm" by (cases n)
  from 2 rs obtain c where "w = Some c" "terminal c = Some t"
    by (cases w) (auto simp: n)
  with 2 rs show ?case
    by (intro exI [of _ "[Wildcard []]"]) (auto simp: n segments_key_def SPECIFICITY_def)
next
  case (3 v segs r rs)
  obtain st p ms w tm where n: "n = Node st p ms w tm" by (cases n)
  from 3 have r: "r = v" by (auto split: if_splits)
  obtain c where c: "map_of st v = Some c" "terminal_at segs c = Some t"
    using "3.prems" by (cases "map_of st v") (auto simp: n)
  have "node_ok c" using "3.prems"(1) c(1) by (auto simp: n node_ok_mixeds elim: map_of_all)
  with 3 c r obtain sgs where "(sgs, t, caps) \<in> set (candidates rs c)" "map step_of sgs = map step_of segs"
      "segments_key sgs = segments_key segs" by auto
  with c r show ?case
    by (intro exI [of _ "Static v # sgs"])
       (auto simp: n segments_key_def extend_def intro!: image_eqI [of _ _ "(sgs, t, caps)"])
next
  case (4 nm segs r rs)
  obtain st p ms w tm where n: "n = Node st p ms w tm" by (cases n)
  from 4 obtain cs where r: "r \<noteq> []" "captures segs rs = Some cs" "caps = r # cs" by (auto split: if_splits)
  obtain c where c: "p = Some c" "terminal_at segs c = Some t"
    using "4.prems" by (cases p) (auto simp: n)
  have "node_ok c" using "4.prems"(1) c(1) by (auto simp: n node_ok_mixeds)
  with 4 c r obtain sgs where "(sgs, t, cs) \<in> set (candidates rs c)" "map step_of sgs = map step_of segs"
      "segments_key sgs = segments_key segs" by auto
  with c r show ?case
    by (intro exI [of _ "ParamSeg [] # sgs"])
       (auto simp: n segments_key_def extend_def SPECIFICITY_def intro!: image_eqI [of _ _ "(sgs, t, cs)"])
next
  case (5 ps segs r rs)
  obtain st p ms w tm where n: "n = Node st p ms w tm" by (cases n)
  have ms: "mixeds_ok ms" using "5.prems"(1) by (simp add: n node_ok_mixeds)
  from 5 obtain vs cs where r: "mixed_captures (mixedSegmentShape ps) (constrainedParts ps) r = Some vs"
      "captures segs rs = Some cs" "caps = vs @ cs" by (auto split: option.splits)
  obtain c where c: "mixed_child (mixed_key ps) ms = Some c" "terminal_at segs c = Some t"
    using "5.prems" by (cases "mixed_child (mixed_key ps) ms") (auto simp: n)
  obtain en where en: "en \<in> set ms" "mkey (fst en) = mixed_key ps" "snd en = c"
    using mixed_child_entry [OF c(1)] by blast
  have ok: "entry_ok (fst en)" "node_ok c" using ms en by (auto simp: mixeds_ok_def)
  have same: "list_all2 same_part (mparts (fst en)) ps"
    using en ok "5.prems"(2) entry_ok_parts [OF ok(1)] by (intro mixed_key_same) auto
  have mc: "mixed_captures (mshape (fst en)) (mchecked (fst en)) r = Some vs"
    using r(1) same_captures [OF same] entry_ok_parts [OF ok(1)] by simp
  obtain sgs where sgs: "(sgs, t, cs) \<in> set (candidates rs c)" "map step_of sgs = map step_of segs"
      "segments_key sgs = segments_key segs"
    using "5.IH" [OF r(1) ok(2) _ c(2) r(2)] "5.prems"(2) by auto
  have "extend (Mixed (mparts (fst en))) vs (sgs, t, cs) \<in> set (mixed_branch r (candidates rs) en)"
    using mc sgs en by (auto simp: mixed_branch_def)
  then have "extend (Mixed (mparts (fst en))) vs (sgs, t, cs) \<in> set (candidates (r # rs) n)"
    using en(1) by (auto simp: n)
  then show ?case
    using sgs r en entry_ok_parts [OF ok(1)] same_parts_key [OF same]
    by (intro exI [of _ "Mixed (mparts (fst en)) # sgs"]) (auto simp: extend_def segments_key_def)
qed auto

section \<open>The order they are tried in\<close>

abbreviation no_later :: "segment list \<times> 'a \<Rightarrow> segment list \<times> 'b \<Rightarrow> bool" where
  "no_later a b \<equiv> compare_segments (fst a) (fst b) \<le> 0"

lemma compare_same_head:
  "compare_segments (sg # as) (sg # bs) = compare_segments as bs"
  using mixed_cmp.self by (cases sg) auto

lemma sorted_extend:
  "sorted_wrt no_later cs \<Longrightarrow> sorted_wrt no_later (map (extend sg vs) cs)"
  by (simp add: sorted_wrt_map extend_def compare_same_head del: compare_segments.simps)

lemma mixed_branch_head:
  "x \<in> set (mixed_branch r f en) \<Longrightarrow> \<exists>ss. fst x = Mixed (mparts (fst en)) # ss"
  by (auto simp: mixed_branch_def extend_def split: option.splits)

lemma mixeds_strict:
  assumes "mixeds_ok (en # ms)" and "en' \<in> set ms"
  shows "compareMixedPartsSpecificity (mparts (fst en)) (mparts (fst en')) < 0"
proof -
  have le: "compareMixedPartsSpecificity (mparts (fst en)) (mparts (fst en')) \<le> 0"
    and keys: "mkey (fst en) \<noteq> mkey (fst en')" and ok: "entry_ok (fst en)" "entry_ok (fst en')"
    using assms by (auto simp: mixeds_ok_def)
  moreover have "compareMixedPartsSpecificity (mparts (fst en)) (mparts (fst en')) \<noteq> 0"
  proof
    assume "compareMixedPartsSpecificity (mparts (fst en)) (mparts (fst en')) = 0"
    then have "parts_key (mparts (fst en)) = parts_key (mparts (fst en'))"
      using compareMixed_sign [of "mparts (fst en)" "mparts (fst en')"] by (metis order_sign_0 sgn_0)
    with parts_key_mixed_key keys entry_ok_parts(3) ok show False by metis
  qed
  ultimately show ?thesis by linarith
qed

lemma sorted_mixeds:
  "mixeds_ok ms \<Longrightarrow> (\<And>c. node_ok c \<Longrightarrow> sorted_wrt no_later (f c)) \<Longrightarrow>
   sorted_wrt no_later (concat (map (mixed_branch r f) ms))"
proof (induction ms)
  case (Cons en ms)
  have "mixeds_ok ms" "node_ok (snd en)" using Cons.prems by (auto simp: mixeds_ok_def)
  moreover have "sorted_wrt no_later (mixed_branch r f en)"
    using Cons.prems(2) calculation(2) sorted_extend by (auto simp: mixed_branch_def split: option.split)
  moreover have "no_later x y"
    if "x \<in> set (mixed_branch r f en)" "en' \<in> set ms" "y \<in> set (mixed_branch r f en')" for x y en'
    using mixed_branch_head [OF that(1)] mixed_branch_head [OF that(3)]
      mixeds_strict [OF Cons.prems(1) that(2)] by (auto simp: SPECIFICITY_def)
  ultimately show ?case
    using Cons by (auto simp: sorted_wrt_append)
qed simp

lemma candidates_sorted: "node_ok n \<Longrightarrow> sorted_wrt no_later (candidates rs n)"
proof (induction rs arbitrary: n)
  case Nil
  then show ?case by (simp split: option.split)
next
  case (Cons r rs)
  obtain st p ms w tm where n: "n = Node st p ms w tm" by (cases n)
  from Cons.prems have ms: "mixeds_ok ms" by (simp add: n node_ok_mixeds)
  let ?S = "case map_of st r of None \<Rightarrow> [] | Some c \<Rightarrow> map (extend (Static r) []) (candidates rs c)"
  let ?M = "concat (map (mixed_branch r (candidates rs)) ms)"
  let ?P = "case p of None \<Rightarrow> [] | Some c \<Rightarrow> if r = [] then [] else map (extend (ParamSeg []) [r]) (candidates rs c)"
  let ?W = "case w of None \<Rightarrow> [] | Some c \<Rightarrow> (case terminal c of None \<Rightarrow> []
      | Some t \<Rightarrow> [([Wildcard []], t, [join_with [47] (r # rs)])])"
  have "sorted_wrt no_later ?S"
    using Cons by (auto simp: n node_ok_mixeds sorted_extend elim: map_of_all split: option.split)
  moreover have "sorted_wrt no_later ?M"
    using ms Cons.IH by (rule sorted_mixeds)
  moreover have "sorted_wrt no_later ?P"
    using Cons by (auto simp: n node_ok_mixeds sorted_extend split: option.split)
  moreover have "sorted_wrt no_later ?W"
    by (simp split: option.split)
  moreover have S: "x \<in> set ?S \<Longrightarrow> \<exists>ss. fst x = Static r # ss" for x
    by (auto simp: extend_def split: option.splits)
  moreover have M: "x \<in> set ?M \<Longrightarrow> \<exists>q ss. fst x = Mixed q # ss" for x
    using mixed_branch_head by fastforce
  moreover have P: "x \<in> set ?P \<Longrightarrow> \<exists>ss. fst x = ParamSeg [] # ss" for x
    by (auto simp: extend_def split: option.splits if_splits)
  moreover have W: "x \<in> set ?W \<Longrightarrow> fst x = [Wildcard []]" for x
    by (auto split: option.splits)
  have "sorted_wrt no_later (?S @ ?M @ ?P @ ?W)"
    unfolding sorted_wrt_append
  proof (intro conjI ballI)
    fix x y assume "x \<in> set ?S" "y \<in> set (?M @ ?P @ ?W)"
    then show "no_later x y" using S [of x] M [of y] P [of y] W [of y] by (auto simp: SPECIFICITY_def simp del: set_concat)
  next
    fix x y assume "x \<in> set ?M" "y \<in> set (?P @ ?W)"
    then show "no_later x y" using M [of x] P [of y] W [of y] by (auto simp: SPECIFICITY_def simp del: set_concat)
  next
    fix x y assume "x \<in> set ?P" "y \<in> set ?W"
    then show "no_later x y" using P [of x] W [of y] by (auto simp: SPECIFICITY_def)
  qed fact+
  then show ?case by (simp add: n)
qed

lemma matchNode_None:
  assumes "node_ok n" and "start \<le> length path" and "matchNode n path start out = (None, out')"
    and "mixed_wf segs" and "terminal_at segs n \<noteq> None"
  shows "out' = out \<and> captures segs (split_on 47 (drop start path)) = None"
proof -
  let ?rs = "split_on 47 (drop start path)"
  from assms(1-3) have "first (candidates ?rs n) out = (None, out')"
    by (simp add: matchNode_first)
  then have e: "candidates ?rs n = []" and o: "out' = out"
    by (auto simp: first_def split: list.splits)
  obtain t where "terminal_at segs n = Some t" using assms(5) by auto
  with candidates_complete [OF assms(1,4) this, of ?rs] e o show ?thesis
    by (cases "captures segs ?rs") auto
qed

lemma matchNode_Some:
  assumes "node_ok n" and "start \<le> length path" and "matchNode n path start out = (Some t, out')"
  obtains segs caps where "mixed_wf segs" and "out' = out @ caps" and "terminal_at segs n = Some t"
    and "captures segs (split_on 47 (drop start path)) = Some caps"
    and "\<And>ss. mixed_wf ss \<Longrightarrow> terminal_at ss n \<noteq> None \<Longrightarrow>
           captures ss (split_on 47 (drop start path)) \<noteq> None \<Longrightarrow> compare_segments segs ss \<le> 0"
proof -
  let ?rs = "split_on 47 (drop start path)"
  from assms have "first (candidates ?rs n) out = (Some t, out')"
    by (simp add: matchNode_first)
  then obtain segs caps rest where c: "candidates ?rs n = (segs, t, caps) # rest" and o: "out' = out @ caps"
    by (auto simp: first_def split: list.splits)
  have "(segs, t, caps) \<in> set (candidates ?rs n)" by (simp add: c)
  note sound = candidates_sound [OF assms(1) this]
  show thesis
  proof (rule that [of segs caps])
    fix ss assume ss: "mixed_wf ss" "terminal_at ss n \<noteq> None" "captures ss ?rs \<noteq> None"
    then obtain t' caps' sgs where m: "(sgs, t', caps') \<in> set (candidates ?rs n)"
        and k: "segments_key sgs = segments_key ss"
      using candidates_complete [OF assms(1) ss(1), of _ ?rs] by blast
    have "compare_segments segs sgs \<le> 0"
      using candidates_sorted [OF assms(1), of ?rs] m segs_cmp.self unfolding c by auto
    then show "compare_segments segs ss \<le> 0"
      using compare_segments_sign [of segs sgs] compare_segments_sign [of segs ss] k
      by (simp add: sgn_if split: if_splits)
  qed (use sound o in auto)
qed

end
