(* ===== verification/Router.thy ===== *)
theory Router
  imports RouterTrie
begin

text \<open>
  The router of \<open>packages/core/src/router/router.ts\<close> around the trie: its methods, terminals and two
  caches, \<open>add\<close> and \<open>find\<close>.

  \<^item> Terminals are shared between the trie, the map of static routes and the cache of dynamic
    matches, and mutated through any of them; they live in \<open>terms\<close> and are referred to by index.
  \<^item> \<open>String.prototype.toUpperCase\<close> is the argument \<open>upper\<close>, Unicode normalisation is \<open>nfc\<close>.
  \<^item> The scratch array of captures is empty whenever no \<open>find\<close> runs, so it is a local here.
\<close>

section \<open>Methods\<close>

definition upper_letter :: "nat \<Rightarrow> bool" where
  "upper_letter c \<longleftrightarrow> 65 \<le> c \<and> c \<le> 90"

definition isRegistrableMethod :: "jstr \<Rightarrow> bool" where
  "isRegistrableMethod m \<longleftrightarrow>
     m \<notin> {js ''TRACE'', js ''TRACK'', js ''CONNECT''}
     \<and> (case m of
          [] \<Rightarrow> False
        | c # cs \<Rightarrow> upper_letter c \<and> length cs \<le> 31 \<and> list_all (\<lambda>d. upper_letter d \<or> is_digit d \<or> d = 45) cs)"

section \<open>State\<close>

type_synonym params = "(jstr, jstr) jmap"

datatype 'p router_match =
    Found 'p params
  | NotFound
  | MethodNotAllowed "jstr list"

record 'p terminal =
  handlers :: "(jstr, 'p) jmap"
  tnames :: "jstr list"
  static_matches :: "(jstr, 'p router_match) jmap option"

record dyn_state =
  cache :: "(jstr, nat \<times> jstr list) jmap"
  chars :: int
  pending :: "jstr option"

record 'p router =
  root :: node
  terms :: "'p terminal list"
  static_routes :: "(jstr, nat) jmap"
  dyn :: "dyn_state option"

definition new_router :: "'p router" where
  "new_router = \<lparr> root = createNode, terms = [], static_routes = [], dyn = None \<rparr>"

definition DYNAMIC_MATCH_CACHE_MAX :: nat where
  "DYNAMIC_MATCH_CACHE_MAX = 2048"

definition DYNAMIC_MATCH_CACHE_CHARS :: int where
  "DYNAMIC_MATCH_CACHE_CHARS = 256 * 1024"

section \<open>Registering a route\<close>

datatype route_arg = Text jstr | Compiled compiled_pattern

definition add_route ::
    "(jstr \<Rightarrow> jstr) \<Rightarrow> (jstr \<Rightarrow> jstr) \<Rightarrow> jstr \<Rightarrow> route_arg \<Rightarrow> 'p \<Rightarrow> 'p router
      \<Rightarrow> route_config_error option \<times> 'p router" where
  "add_route upper nfc meth pat payload r0 =
     (let r = r0\<lparr> dyn := None \<rparr>; up = upper meth in
      if \<not> isRegistrableMethod up then (Some INVALID_METHOD, r)
      else
        (case (case pat of Text t \<Rightarrow> compileRoutePattern nfc t | Compiled c \<Rightarrow> Inr c) of
           Inl err \<Rightarrow> (Some err, r)
         | Inr c \<Rightarrow>
             (let is_static = param_names c = [];
                  root1 = reach (segments c) (\<lambda>t. t) (root r);
                  mirror = (\<lambda>i r. if is_static then r\<lparr> static_routes := AList.update (pattern c) i (static_routes r) \<rparr> else r) in
              case terminal_at (segments c) root1 of
                Some i \<Rightarrow>
                  (let existing = terms r ! i in
                   if tnames existing \<noteq> param_names c then (Some PARAM_NAME_CONFLICT, r\<lparr> root := root1 \<rparr>)
                   else if map_of (handlers existing) up \<noteq> None then (Some DUPLICATE_ROUTE, r\<lparr> root := root1 \<rparr>)
                   else
                     (None, mirror i (r\<lparr> root := root1,
                        terms := (terms r)[i := existing\<lparr>
                          handlers := AList.update up payload (handlers existing),
                          static_matches := map_option (\<lambda>_. []) (static_matches existing) \<rparr>] \<rparr>)))
              | None \<Rightarrow>
                  (let i = length (terms r) in
                   (None, mirror i (r\<lparr> root := reach (segments c) (\<lambda>_. Some i) root1,
                      terms := terms r @ [\<lparr> handlers = [(up, payload)], tnames = param_names c,
                        static_matches = (if is_static then Some [] else None) \<rparr>] \<rparr>))))))"

section \<open>Resolving a request\<close>

fun buildParams_loop :: "jstr list \<Rightarrow> jstr list \<Rightarrow> params \<Rightarrow> params" where
  "buildParams_loop (n # ns) (v # vs) ps = buildParams_loop ns vs (AList.update n v ps)"
| "buildParams_loop _ _ ps = ps"

definition buildParams :: "jstr list \<Rightarrow> jstr list \<Rightarrow> params" where
  "buildParams names vals = buildParams_loop names vals []"

definition resolveDirect :: "'p terminal \<Rightarrow> jstr \<Rightarrow> params \<Rightarrow> 'p router_match" where
  "resolveDirect t meth ps =
     (case map_of (handlers t) meth of
        Some payload \<Rightarrow> Found payload ps
      | None \<Rightarrow>
          (case (if meth = js ''HEAD'' then map_of (handlers t) (js ''GET'') else None) of
             Some get \<Rightarrow> Found get ps
           | None \<Rightarrow>
               MethodNotAllowed (map fst (handlers t) @
                 (if map_of (handlers t) (js ''GET'') \<noteq> None \<and> map_of (handlers t) (js ''HEAD'') = None
                  then [js ''HEAD''] else []))))"

definition resolve :: "nat \<Rightarrow> jstr \<Rightarrow> params \<Rightarrow> 'p router \<Rightarrow> 'p router_match \<times> 'p router" where
  "resolve i meth ps r =
     (let t = terms r ! i in
      case (if ps = [] then static_matches t else None) of
        Some sm \<Rightarrow>
          (case map_of sm meth of
             Some direct \<Rightarrow> (direct, r)
           | None \<Rightarrow>
               (let cacheable = map_of (handlers t) meth \<noteq> None
                      \<or> meth = js ''HEAD'' \<and> map_of (handlers t) (js ''GET'') \<noteq> None;
                    res = resolveDirect t meth ps in
                if \<not> cacheable then (res, r)
                else (res, r\<lparr> terms := (terms r)[i := t\<lparr> static_matches := Some (AList.update meth res sm) \<rparr>] \<rparr>)))
      | None \<Rightarrow> (resolveDirect t meth ps, r))"

text \<open>The loop that makes room: from the oldest entry on, until the new path fits.\<close>

fun evict :: "nat \<Rightarrow> (jstr, nat \<times> jstr list) jmap \<Rightarrow> int \<Rightarrow> (jstr, nat \<times> jstr list) jmap \<times> int" where
  "evict len [] n = ([], n)"
| "evict len ((oldest, e) # rest) n =
     (if length ((oldest, e) # rest) < DYNAMIC_MATCH_CACHE_MAX \<and> n + int len \<le> DYNAMIC_MATCH_CACHE_CHARS
      then ((oldest, e) # rest, n)
      else evict len rest (n - int (length oldest)))"

definition maybeCacheDynamicMatch :: "jstr \<Rightarrow> nat \<Rightarrow> jstr list \<Rightarrow> 'p router \<Rightarrow> 'p router" where
  "maybeCacheDynamicMatch path i vals r =
     (let state = (case dyn r of None \<Rightarrow> \<lparr> cache = [], chars = 0, pending = None \<rparr> | Some d \<Rightarrow> d) in
      if pending state \<noteq> Some path then r\<lparr> dyn := Some (state\<lparr> pending := Some path \<rparr>) \<rparr>
      else
        (let (c, n) = evict (length path) (cache state) (chars state) in
         r\<lparr> dyn := Some (state\<lparr>
           cache := AList.update path (i, take (length (tnames (terms r ! i))) vals) c,
           chars := n + int (length path) \<rparr>) \<rparr>))"

definition findDynamic :: "jstr \<Rightarrow> jstr \<Rightarrow> bool \<Rightarrow> 'p router \<Rightarrow> 'p router_match \<times> 'p router" where
  "findDynamic meth path leading r =
     (case (if leading then Option.bind (dyn r) (\<lambda>d. map_of (cache d) path) else None) of
        Some (i, vals) \<Rightarrow> resolve i meth (buildParams (tnames (terms r ! i)) vals) r
      | None \<Rightarrow>
          (case matchNode (root r) path (if leading then 1 else 0) [] of
             (None, _) \<Rightarrow> (NotFound, r)
           | (Some i, vals) \<Rightarrow>
               (let r' = (if leading \<and> 0 < length (tnames (terms r ! i)) then maybeCacheDynamicMatch path i vals r else r) in
                resolve i meth (buildParams (tnames (terms r' ! i)) vals) r')))"

definition find_route :: "jstr \<Rightarrow> jstr \<Rightarrow> 'p router \<Rightarrow> 'p router_match \<times> 'p router" where
  "find_route meth path r =
     (let leading = path \<noteq> [] \<and> path ! 0 = 47 in
      case (if leading then map_of (static_routes r) path else None) of
        Some i \<Rightarrow> resolve i meth [] r
      | None \<Rightarrow> findDynamic meth path leading r)"

section \<open>Static patterns\<close>

definition nfc_keeps_slash :: "(jstr \<Rightarrow> jstr) \<Rightarrow> bool" where
  "nfc_keeps_slash nfc \<longleftrightarrow> (\<forall>s. s \<noteq> [] \<and> s ! 0 = 47 \<longrightarrow> nfc s \<noteq> [] \<and> nfc s ! 0 = 47)"

definition static_text :: "compiled_pattern \<Rightarrow> bool" where
  "static_text c \<longleftrightarrow>
     (if segments c = [] then pattern c = [47]
      else (\<exists>vs. vs \<noteq> [] \<and> segments c = map Static vs \<and> (\<forall>v \<in> set vs. 47 \<notin> set v)
             \<and> pattern c = 47 # join_with [47] vs \<and> pattern c \<noteq> [47]))"

definition compiled_ok :: "compiled_pattern \<Rightarrow> bool" where
  "compiled_ok c \<longleftrightarrow> pattern_wf c \<and> (segments c = [] \<or> param_names c = [] \<longrightarrow> static_text c)"

lemma static_or_mixed_text:
  "static_or_mixed v names = Inr (sg, names') \<Longrightarrow> seg_names sg = [] \<Longrightarrow> sg = Static v"
  by (auto simp: static_or_mixed_def split: if_splits option.splits sum.splits dest: splitMixed_wf)

lemma compile_segment_text:
  "compile_segment v is_last names = Inr (sg, names') \<Longrightarrow> seg_names sg = [] \<Longrightarrow> sg = Static v"
  by (cases v) (auto simp: compile_segment_def Let_def split: if_splits dest: static_or_mixed_text)

lemma compile_segments_text:
  "compile_segments vs segs names = Inr (segs', names') \<Longrightarrow>
   \<exists>new. segs' = segs @ new \<and> list_all2 (\<lambda>v sg. seg_names sg = [] \<longrightarrow> sg = Static v) vs new"
proof (induction vs segs names rule: compile_segments.induct)
  case (2 v vs segs names)
  from "2.prems" obtain sg n1 where c: "compile_segment v (vs = []) names = Inr (sg, n1)"
    and r: "compile_segments vs (segs @ [sg]) n1 = Inr (segs', names')"
    by (auto split: sum.splits)
  from "2.IH" [OF c refl r] obtain new where
    "segs' = (segs @ [sg]) @ new" "list_all2 (\<lambda>v sg. seg_names sg = [] \<longrightarrow> sg = Static v) vs new" by blast
  with compile_segment_text [OF c] show ?case
    by (intro exI [of _ "sg # new"]) auto
qed simp

lemma pct_encode_slash:
  "pct_encode visible_ascii s = Some p \<Longrightarrow> s \<noteq> [] \<Longrightarrow> s ! 0 = 47 \<Longrightarrow> \<exists>q. p = 47 # q"
  by (cases s) (auto simp: visible_ascii_def)

lemma compile_ok:
  assumes nfc: "nfc_keeps_slash nfc" and comp: "compileRoutePattern nfc t = Inr c"
  shows "compiled_ok c"
proof -
  have wf: "pattern_wf c" by (rule compile_wf [OF comp])
  from comp obtain pat segs names where enc: "pct_encode visible_ascii (nfc t) = Some pat" and t: "t \<noteq> []" "t ! 0 = 47"
    and cs: "compile_segments (if pat = [47] then [] else split_on 47 (drop 1 pat)) [] [] = Inr (segs, names)"
    and c: "c = \<lparr> pattern = pat, segments = segs, param_names = names \<rparr>"
    by (auto simp: compileRoutePattern_def Let_def split: if_splits option.splits sum.splits)
  obtain q where q: "pat = 47 # q"
    using pct_encode_slash [OF enc] nfc t by (auto simp: nfc_keeps_slash_def)
  from compile_segments_text [OF cs]
  have l2: "list_all2 (\<lambda>v sg. seg_names sg = [] \<longrightarrow> sg = Static v) (if q = [] then [] else split_on 47 q) segs"
    by (auto simp: q)
  have "static_text c" if "segs = [] \<or> names = []"
  proof (cases "q = []")
    case True
    with l2 show ?thesis by (simp add: static_text_def c q)
  next
    case False
    with l2 have l2': "list_all2 (\<lambda>v sg. seg_names sg = [] \<longrightarrow> sg = Static v) (split_on 47 q) segs" by simp
    then have "segs \<noteq> []" by auto
    with that wf have "\<forall>sg \<in> set segs. seg_names sg = []" by (auto simp: pattern_wf_def c)
    with l2' have "list_all2 (\<lambda>v sg. sg = Static v) (split_on 47 q) segs"
      by (auto simp: list_all2_conv_all_nth)
    then have "segs = map Static (split_on 47 q)"
      by (induction rule: list_all2_induct) auto
    moreover have "\<forall>v \<in> set (split_on 47 q). 47 \<notin> set v" using split_on_no_sep by blast
    ultimately show ?thesis
      using False \<open>segs \<noteq> []\<close> join_split [of 47 q]
      by (auto simp: static_text_def c q intro!: exI [of _ "split_on 47 q"])
  qed
  with wf show ?thesis by (auto simp: compiled_ok_def c)
qed

section \<open>What the routes registered so far promise\<close>

type_synonym 'p routes = "(jstr \<times> compiled_pattern \<times> 'p) list"

definition steps :: "compiled_pattern \<Rightarrow> step list" where
  "steps c = map step_of (segments c)"

definition handlers_for :: "'p routes \<Rightarrow> step list \<Rightarrow> (jstr, 'p) jmap" where
  "handlers_for regs st = map (\<lambda>(m, c, p). (m, p)) (filter (\<lambda>(m, c, p). steps c = st) regs)"

definition request_segments :: "jstr \<Rightarrow> jstr list" where
  "request_segments path = split_on 47 (if path \<noteq> [] \<and> path ! 0 = 47 then drop 1 path else path)"

definition more_specific :: "jstr \<times> compiled_pattern \<times> 'p \<Rightarrow> jstr \<times> compiled_pattern \<times> 'p \<Rightarrow> int" where
  "more_specific = (\<lambda>(_, a, _) (_, b, _). compareRoutePatternSpecificity a b)"

text \<open>
  The routes a path matches, best first: the root route for \<open>/\<close>, then by specificity; and the answer
  the first of them gives.
\<close>

definition matching_routes :: "'p routes \<Rightarrow> jstr \<Rightarrow> 'p routes" where
  "matching_routes regs path =
     filter (\<lambda>(_, c, _). path = [47] \<and> segments c = []) regs
     @ sort_by more_specific (filter (\<lambda>(_, c, _). captures (segments c) (request_segments path) \<noteq> None) regs)"

definition path_captures :: "compiled_pattern \<Rightarrow> jstr \<Rightarrow> jstr list" where
  "path_captures c path =
     (case captures (segments c) (request_segments path) of Some vs \<Rightarrow> vs | None \<Rightarrow> [])"

definition spec_find :: "'p routes \<Rightarrow> jstr \<Rightarrow> jstr \<Rightarrow> 'p router_match" where
  "spec_find regs meth path =
     (case matching_routes regs path of
        [] \<Rightarrow> NotFound
      | (_, c, _) # _ \<Rightarrow>
          resolveDirect \<lparr> handlers = handlers_for regs (steps c), tnames = param_names c, static_matches = None \<rparr>
            meth (buildParams (param_names c) (path_captures c path)))"

section \<open>The invariant\<close>

definition trie_inv :: "'p routes \<Rightarrow> node \<Rightarrow> 'p terminal list \<Rightarrow> bool" where
  "trie_inv regs n ts \<longleftrightarrow>
     node_ok n
     \<and> (\<forall>(m, c, p) \<in> set regs. compiled_ok c
          \<and> (\<exists>i. terminal_at (segments c) n = Some i \<and> tnames (ts ! i) = param_names c))
     \<and> (\<forall>segs i. terminal_at segs n = Some i \<longrightarrow>
          i < length ts \<and> handlers (ts ! i) = handlers_for regs (map step_of segs)
          \<and> (\<exists>(m, c, p) \<in> set regs. steps c = map step_of segs))
     \<and> (\<forall>segs segs' i. terminal_at segs n = Some i \<longrightarrow> terminal_at segs' n = Some i \<longrightarrow>
          map step_of segs = map step_of segs')"

definition static_inv :: "'p routes \<Rightarrow> node \<Rightarrow> (jstr, nat) jmap \<Rightarrow> bool" where
  "static_inv regs n st \<longleftrightarrow>
     (\<forall>path i. map_of st path = Some i \<longleftrightarrow>
        (\<exists>(m, c, p) \<in> set regs. param_names c = [] \<and> pattern c = path \<and> terminal_at (segments c) n = Some i))"

definition matches_inv :: "'p terminal list \<Rightarrow> bool" where
  "matches_inv ts \<longleftrightarrow>
     (\<forall>t \<in> set ts. \<forall>sm meth res. static_matches t = Some sm \<longrightarrow> map_of sm meth = Some res \<longrightarrow>
        res = resolveDirect t meth [])"

definition cache_sound :: "node \<Rightarrow> 'p terminal list \<Rightarrow> (jstr, nat) jmap \<Rightarrow> dyn_state \<Rightarrow> bool" where
  "cache_sound n ts st d \<longleftrightarrow>
     (\<forall>path i vals. map_of (cache d) path = Some (i, vals) \<longrightarrow>
        (\<exists>vs. matchNode n path 1 [] = (Some i, vs) \<and> vals = take (length (tnames (ts ! i))) vs))"

definition cache_bounded :: "dyn_state \<Rightarrow> bool" where
  "cache_bounded d \<longleftrightarrow>
     jm_wf (cache d) \<and> chars d = sum_list (map (int \<circ> length \<circ> fst) (cache d))
     \<and> length (cache d) \<le> DYNAMIC_MATCH_CACHE_MAX
     \<and> (chars d \<le> DYNAMIC_MATCH_CACHE_CHARS \<or> length (cache d) = 1)"

definition router_inv :: "'p routes \<Rightarrow> 'p router \<Rightarrow> bool" where
  "router_inv regs r \<longleftrightarrow>
     trie_inv regs (root r) (terms r) \<and> static_inv regs (root r) (static_routes r) \<and> matches_inv (terms r)
     \<and> (\<forall>d. dyn r = Some d \<longrightarrow> cache_bounded d \<and> cache_sound (root r) (terms r) (static_routes r) d)"

section \<open>Resolving\<close>

lemma resolveDirect_handlers: "handlers t = handlers t' \<Longrightarrow> resolveDirect t = resolveDirect t'"
  by (intro ext) (simp only: resolveDirect_def)

lemma resolve_cases:
  assumes "resolve i meth ps r = (res, r')"
  obtains (hit) sm where "ps = []" "static_matches (terms r ! i) = Some sm" "map_of sm meth = Some res" "r' = r"
  | (direct) "res = resolveDirect (terms r ! i) meth ps" "r' = r"
  | (store) sm where "ps = []" "static_matches (terms r ! i) = Some sm" "res = resolveDirect (terms r ! i) meth []"
      "r' = r\<lparr> terms := (terms r)[i := (terms r ! i)\<lparr> static_matches := Some (AList.update meth res sm) \<rparr>] \<rparr>"
proof (cases "if ps = [] then static_matches (terms r ! i) else None")
  case None
  have "resolve i meth ps r = (resolveDirect (terms r ! i) meth ps, r)"
    unfolding resolve_def Let_def None by simp
  with assms have "res = resolveDirect (terms r ! i) meth ps" "r' = r" by auto
  then show thesis by (rule direct)
next
  case (Some sm)
  note some = Some
  then have sm: "ps = []" "static_matches (terms r ! i) = Some sm" by (auto split: if_splits)
  show thesis
  proof (cases "map_of sm meth")
    case None
    let ?d = "resolveDirect (terms r ! i) meth ps"
    have "resolve i meth ps r = (?d, r) \<or> resolve i meth ps r =
        (?d, r\<lparr> terms := (terms r)[i := (terms r ! i)\<lparr> static_matches := Some (AList.update meth ?d sm) \<rparr>] \<rparr>)"
      unfolding resolve_def Let_def some option.case None by (simp only: split: if_split) blast
    with assms have "res = ?d" "r' = r \<or>
        r' = r\<lparr> terms := (terms r)[i := (terms r ! i)\<lparr> static_matches := Some (AList.update meth res sm) \<rparr>] \<rparr>"
      by auto
    then show thesis using direct store [OF sm] sm(1) by blast
  next
    case (Some d)
    have "resolve i meth ps r = (d, r)"
      unfolding resolve_def Let_def some option.case Some by simp
    with assms have "res = d" "r' = r" by auto
    with Some show thesis using hit [OF sm] by blast
  qed
qed

lemma take_params: "buildParams ns (take (length ns) vs) = buildParams ns vs"
proof -
  have "buildParams_loop ns (take (length ns) vs) ps = buildParams_loop ns vs ps" for ps
    by (induction ns vs ps rule: buildParams_loop.induct) auto
  then show ?thesis by (simp add: buildParams_def)
qed

lemma resolve_inv:
  assumes inv: "router_inv regs r" and i: "i < length (terms r)" and res: "resolve i meth ps r = (res, r')"
  shows "res = resolveDirect (terms r ! i) meth ps \<and> router_inv regs r'"
proof -
  let ?t = "terms r ! i"
  have "?t \<in> set (terms r)" using i by simp
  then have hit: "res = resolveDirect ?t m []" if "static_matches ?t = Some sm" "map_of sm m = Some res" for sm m res
    using inv that by (auto simp: router_inv_def matches_inv_def)
  from res show ?thesis
  proof (cases rule: resolve_cases)
    case (hit sm)
    with inv \<open>?t \<in> set (terms r)\<close> show ?thesis by (auto simp: router_inv_def matches_inv_def)
  next
    case direct
    with inv show ?thesis by simp
  next
    case (store sm)
    let ?d = "resolveDirect ?t meth []"
    let ?t' = "?t\<lparr> static_matches := Some (AList.update meth ?d sm) \<rparr>"
    have r': "res = ?d" "r' = r\<lparr> terms := (terms r)[i := ?t'] \<rparr>"
      using store by simp_all
    define ts where "ts = (terms r)[i := ?t']"
    have same: "handlers (ts ! j) = handlers (terms r ! j)" "tnames (ts ! j) = tnames (terms r ! j)"
        "length ts = length (terms r)" for j
      using i by (cases "j = i"; simp add: ts_def)+
    have "trie_inv regs (root r) ts = trie_inv regs (root r) (terms r)"
      unfolding trie_inv_def same ..
    moreover have "cache_sound (root r) ts (static_routes r) d" if "dyn r = Some d" for d
      using inv that by (simp add: router_inv_def cache_sound_def same)
    moreover have "matches_inv ts"
      unfolding matches_inv_def ts_def
    proof (intro ballI allI impI)
      fix t sm' m rs
      assume t: "t \<in> set ((terms r)[i := ?t'])" "static_matches t = Some sm'" "map_of sm' m = Some rs"
      have rd: "resolveDirect ?t' = resolveDirect ?t" by (rule resolveDirect_handlers) simp
      show "rs = resolveDirect t m []"
      proof (cases "t = ?t'")
        case True
        with t have "map_of (AList.update meth ?d sm) m = Some rs" by simp
        with hit [OF store(2), of m rs] show ?thesis
          unfolding True rd by (auto simp: jmap_simps split: if_splits)
      next
        case False
        with t have "t \<in> set (terms r)"
          using set_update_subset_insert by fastforce
        with t inv show ?thesis by (auto simp: router_inv_def matches_inv_def)
      qed
    qed
    ultimately have "router_inv regs (r\<lparr> terms := ts \<rparr>)"
      using inv by (simp add: router_inv_def)
    then show ?thesis
      using store(1) r' by (simp add: ts_def)
  qed
qed

section \<open>Steps decide\<close>

lemma terminal_at_steps: "map step_of ss = map step_of ss' \<Longrightarrow> terminal_at ss n = terminal_at ss' n"
proof (induction ss arbitrary: ss' n)
  case (Cons sg ss)
  then obtain sg' ss1 where s: "ss' = sg' # ss1" "step_of sg' = step_of sg" "map step_of ss = map step_of ss1"
    by (cases ss') auto
  have "terminal_at ss = terminal_at ss1" using Cons.IH [OF s(3)] by blast
  with s show ?case by (cases sg; cases sg') auto
qed auto

lemma same_mixed:
  "seg_wf (Mixed ps) \<Longrightarrow> seg_wf (Mixed qs) \<Longrightarrow> mixed_key ps = mixed_key qs \<Longrightarrow>
   mixed_captures (mixedSegmentShape ps) (constrainedParts ps) = mixed_captures (mixedSegmentShape qs) (constrainedParts qs)
   \<and> parts_key ps = parts_key qs"
  using mixed_key_same [of ps qs] same_captures same_parts_key by blast

lemma captures_steps:
  "mixed_wf ss \<Longrightarrow> mixed_wf ss' \<Longrightarrow> map step_of ss = map step_of ss' \<Longrightarrow> captures ss rs = captures ss' rs"
proof (induction ss arbitrary: ss' rs)
  case (Cons sg ss)
  then obtain sg' ss1 where s: "ss' = sg' # ss1" "step_of sg' = step_of sg" "map step_of ss = map step_of ss1"
    by (cases ss') auto
  have e: "ss = [] \<longleftrightarrow> ss1 = []" using s(3) by auto
  have "mixed_wf ss" "mixed_wf ss1"
    using Cons.prems s by (auto simp: mixed_wf_def)
  note IH = Cons.IH [OF this s(3)]
  show ?case
  proof (cases sg)
    case (Mixed ps)
    then obtain qs where q: "sg' = Mixed qs" "mixed_key qs = mixed_key ps" using s(2) by (cases sg') auto
    have "seg_wf (Mixed ps)" "seg_wf (Mixed qs)" using Cons.prems s q Mixed by (auto simp: mixed_wf_def)
    from same_mixed [OF this] q show ?thesis
      by (cases rs) (simp_all add: s Mixed IH split: option.split)
  qed (use s e IH in \<open>cases sg'; cases rs; auto\<close>)+
qed simp

lemma segments_key_steps:
  "mixed_wf ss \<Longrightarrow> mixed_wf ss' \<Longrightarrow> map step_of ss = map step_of ss' \<Longrightarrow> segments_key ss = segments_key ss'"
proof (induction ss arbitrary: ss')
  case (Cons sg ss)
  then obtain sg' ss1 where s: "ss' = sg' # ss1" "step_of sg' = step_of sg" "map step_of ss = map step_of ss1"
    by (cases ss') auto
  have "mixed_wf ss" "mixed_wf ss1" using Cons.prems s by (auto simp: mixed_wf_def)
  note IH = Cons.IH [OF this s(3)]
  have "segment_key sg = segment_key sg'"
  proof (cases sg)
    case (Mixed ps)
    then obtain qs where q: "sg' = Mixed qs" "mixed_key qs = mixed_key ps" using s(2) by (cases sg') auto
    have "seg_wf (Mixed ps)" "seg_wf (Mixed qs)" using Cons.prems s q Mixed by (auto simp: mixed_wf_def)
    from same_mixed [OF this] q show ?thesis by (simp add: Mixed)
  qed (use s in \<open>cases sg'; auto simp: SPECIFICITY_def\<close>)+
  with IH s show ?case by (simp add: segments_key_def)
qed simp

lemma segment_key_step:
  assumes "segment_key a = segment_key b"
  shows "step_of a = step_of b \<or> (\<exists>v w. a = Static v \<and> b = Static w)"
  using assms by (cases a; cases b) (auto simp: SPECIFICITY_def dest: parts_key_mixed_key)

lemma segments_key_Cons: "segments_key (a # as) = segment_key a # segments_key as"
  by (simp add: segments_key_def)

lemma segments_key_Nil_iff: "segments_key [] = segments_key ss \<longleftrightarrow> ss = []"
  by (cases ss) (auto simp: segments_key_def)

lemma key_captures_steps:
  "captures ss rs \<noteq> None \<Longrightarrow> captures ss' rs \<noteq> None \<Longrightarrow> segments_key ss = segments_key ss' \<Longrightarrow>
   map step_of ss = map step_of ss'"
proof (induction ss arbitrary: ss' rs)
  case Nil
  then show ?case by (simp add: segments_key_Nil_iff)
next
  case (Cons a as)
  from Cons.prems(3) obtain b bs where s: "ss' = b # bs"
    using segments_key_Nil_iff by (cases ss') (metis list.distinct(1))+
  have k: "segment_key a = segment_key b" "segments_key as = segments_key bs"
    using Cons.prems(3) by (simp_all add: s segments_key_Cons)
  show ?case
  proof (cases "\<exists>n. a = Wildcard n")
    case True
    then have "as = []" using Cons.prems(1) by (auto split: if_splits)
    moreover have "step_of b = SWildcard" using segment_key_step [OF k(1)] True by auto
    moreover have "bs = []" using calculation(1) k(2) segments_key_Nil_iff [of bs] by simp
    ultimately show ?thesis using True by (auto simp: s)
  next
    case False
    then obtain r rs' where rs: "rs = r # rs'" using Cons.prems(1) by (cases a; cases rs) auto
    have as: "captures as rs' \<noteq> None"
      using Cons.prems(1) False by (cases a) (auto simp: rs split: if_splits option.splits)
    have nb: "\<nexists>n. b = Wildcard n" using segment_key_step [OF k(1)] False by (cases a) auto
    then have bs: "captures bs rs' \<noteq> None"
      using Cons.prems(2) by (cases b) (auto simp: rs s split: if_splits option.splits)
    have "step_of a = step_of b"
      using segment_key_step [OF k(1)]
    proof
      assume "\<exists>v w. a = Static v \<and> b = Static w"
      then obtain v w where v: "a = Static v" "b = Static w" by blast
      have "r = v" "r = w"
        using Cons.prems(1,2) unfolding rs s v captures.simps by (auto simp only: split: if_splits)
      then show ?thesis by (simp add: v)
    qed
    with Cons.IH [OF as bs k(2)] show ?thesis by (simp add: s)
  qed
qed

lemma static_first:
  "captures ss vs \<noteq> None \<Longrightarrow> compare_segments (map Static vs) ss \<le> 0"
proof (induction vs arbitrary: ss)
  case Nil
  then show ?case by (cases ss rule: segs_cases) auto
next
  case (Cons v vs)
  then show ?case by (cases ss rule: segs_cases) (auto simp: SPECIFICITY_def split: if_splits option.splits)
qed

lemma captures_static: "captures (map Static vs) vs = Some []"
  by (induction vs) auto

section \<open>The best of the matching routes\<close>

interpretation reg_cmp: comparison "more_specific :: jstr \<times> compiled_pattern \<times> 'p \<Rightarrow> jstr \<times> compiled_pattern \<times> 'p \<Rightarrow> int"
  by (rule comparison_by_key [where k = "\<lambda>(_, c, _). segments_key (segments c)"])
     (auto simp: more_specific_def compareRoutePatternSpecificity_def compare_segments_sign)

lemma best_first:
  assumes "sort_by more_specific xs = (m, c, p) # rest"
  shows "(m, c, p) \<in> set xs \<and> (\<forall>(m', c', p') \<in> set xs. compare_segments (segments c) (segments c') \<le> 0)"
proof
  have "(m, c, p) \<in> set (sort_by more_specific xs)" using assms by simp
  then show "(m, c, p) \<in> set xs" by simp
  show "\<forall>(m', c', p') \<in> set xs. compare_segments (segments c) (segments c') \<le> 0"
  proof clarify
    fix m' c' p' assume "(m', c', p') \<in> set xs"
    then have "(m', c', p') \<in> set ((m, c, p) # rest)"
      unfolding assms [symmetric] by simp
    moreover have "sorted_wrt (\<lambda>a b. more_specific a b \<le> 0) ((m, c, p) # rest)"
      unfolding assms [symmetric] by (rule reg_cmp.sort_by_sorted)
    ultimately show "compare_segments (segments c) (segments c') \<le> 0"
      using segs_cmp.self by (auto simp: more_specific_def compareRoutePatternSpecificity_def)
  qed
qed

lemma trie_inv_reg:
  assumes "trie_inv regs n ts" and "(m, c, p) \<in> set regs"
  obtains i where "compiled_ok c" "terminal_at (segments c) n = Some i" "tnames (ts ! i) = param_names c"
    "i < length ts" "handlers (ts ! i) = handlers_for regs (steps c)"
proof -
  have "compiled_ok c \<and> (\<exists>i. terminal_at (segments c) n = Some i \<and> tnames (ts ! i) = param_names c)"
    using assms unfolding trie_inv_def by fast
  then obtain i where i: "compiled_ok c" "terminal_at (segments c) n = Some i" "tnames (ts ! i) = param_names c"
    by blast
  have "i < length ts \<and> handlers (ts ! i) = handlers_for regs (map step_of (segments c))"
    using assms(1) i(2) unfolding trie_inv_def by blast
  with i that show thesis by (simp add: steps_def)
qed

lemma trie_inv_terminal:
  assumes "trie_inv regs n ts" and "terminal_at ss n = Some i"
  obtains m c p where "(m, c, p) \<in> set regs" "steps c = map step_of ss"
  using assms unfolding trie_inv_def by fast

lemma compiled_mixed_wf: "compiled_ok c \<Longrightarrow> mixed_wf (segments c)"
  by (auto simp: compiled_ok_def pattern_wf_def intro: seg_wf_mixed_wf)

lemma spec_answer:
  assumes inv: "trie_inv regs n ts" and reg: "(m, c, p) \<in> set regs" and i: "terminal_at (segments c) n = Some i"
    and head: "matching_routes regs path = (m, c, p) # rest"
  shows "spec_find regs meth path = resolveDirect (ts ! i) meth (buildParams (tnames (ts ! i)) (path_captures c path))"
proof -
  obtain j where j: "terminal_at (segments c) n = Some j" "tnames (ts ! j) = param_names c"
      "handlers (ts ! j) = handlers_for regs (steps c)"
    using trie_inv_reg [OF inv reg] by blast
  then have "j = i" using i by simp
  with j have "resolveDirect \<lparr> handlers = handlers_for regs (steps c), tnames = param_names c, static_matches = None \<rparr>
      = resolveDirect (ts ! i)"
    by (intro resolveDirect_handlers) simp
  with j \<open>j = i\<close> show ?thesis by (simp add: spec_find_def head)
qed

lemma set_not_empty_Cons: "set xs \<noteq> {} \<Longrightarrow> \<exists>y ys. xs = y # ys"
  by (cases xs) auto

lemma matching_winner:
  assumes inv: "trie_inv regs n ts" and root: "filter (\<lambda>(_, c, _). path = [47] \<and> segments c = []) regs = []"
    and ss: "mixed_wf ss" "terminal_at ss n = Some i" "captures ss (request_segments path) = Some caps"
    and best: "\<And>m c p. (m, c, p) \<in> set regs \<Longrightarrow> captures (segments c) (request_segments path) \<noteq> None \<Longrightarrow>
      compare_segments ss (segments c) \<le> 0"
  shows "spec_find regs meth path = resolveDirect (ts ! i) meth (buildParams (tnames (ts ! i)) caps)"
proof -
  define hits where "hits = filter (\<lambda>(_, c, _). captures (segments c) (request_segments path) \<noteq> None) regs"
  have hits: "(m, c, p) \<in> set hits \<longleftrightarrow> (m, c, p) \<in> set regs \<and> captures (segments c) (request_segments path) \<noteq> None"
    for m c p by (simp add: hits_def)
  obtain m0 c0 p0 where r0: "(m0, c0, p0) \<in> set regs" and s0: "steps c0 = map step_of ss"
    using trie_inv_terminal [OF inv ss(2)] .
  have wf0: "mixed_wf (segments c0)"
    using trie_inv_reg [OF inv r0] compiled_mixed_wf by blast
  have c0: "captures (segments c0) (request_segments path) = Some caps"
    using captures_steps [OF wf0 ss(1)] s0 ss(3) by (simp add: steps_def)
  then have h0: "(m0, c0, p0) \<in> set hits" using r0 by (simp add: hits)
  have "set (sort_by more_specific hits) \<noteq> {}"
    unfolding reg_cmp.set_sort_by using h0 by (metis empty_iff)
  then have "\<exists>x rest. sort_by more_specific hits = x # rest"
    by (rule set_not_empty_Cons)
  then obtain x rest where x: "sort_by more_specific hits = x # rest"
    by (elim exE)
  obtain m c p where "x = (m, c, p)" by (rule prod_cases3)
  note head = x [unfolded this]
  note bf = best_first [OF head]
  have rc: "(m, c, p) \<in> set regs" and cc: "captures (segments c) (request_segments path) \<noteq> None"
    using bf hits by auto
  have wfc: "mixed_wf (segments c)" using trie_inv_reg [OF inv rc] compiled_mixed_wf by blast
  have "compare_segments (segments c) (segments c0) \<le> 0" using bf h0 by blast
  moreover have "segments_key (segments c0) = segments_key ss"
    using segments_key_steps [OF wf0 ss(1)] s0 by (simp add: steps_def)
  moreover have "compare_segments ss (segments c) \<le> 0" by (rule best [OF rc cc])
  ultimately have "segments_key (segments c) = segments_key ss"
    using compare_segments_sign [of "segments c" "segments c0"] compare_segments_sign [of ss "segments c"]
    by (auto simp: order_sign_def sgn_if split: if_splits)
  then have st: "map step_of (segments c) = map step_of ss"
    using key_captures_steps cc ss(3) by (metis option.distinct(1))
  have ic: "terminal_at (segments c) n = Some i"
    using terminal_at_steps [OF st] ss(2) by simp
  have "path_captures c path = caps"
    using captures_steps [OF wfc ss(1) st] ss(3) by (simp add: path_captures_def)
  with spec_answer [OF inv rc ic, of path rest meth] head root show ?thesis
    by (simp add: matching_routes_def hits_def)
qed

section \<open>Finding a route\<close>

lemma no_root_route:
  assumes inv: "trie_inv regs n ts" and st: "static_inv regs n sr" and none: "map_of sr path = None"
  shows "filter (\<lambda>(_, c, _). path = [47] \<and> segments c = []) regs = []"
proof (rule ccontr)
  assume "filter (\<lambda>(_, c, _). path = [47] \<and> segments c = []) regs \<noteq> []"
  then obtain m c p where reg: "(m, c, p) \<in> set regs" and c: "path = [47]" "segments c = []"
    by (auto simp: filter_empty_conv)
  obtain i where i: "compiled_ok c" "terminal_at (segments c) n = Some i"
    using trie_inv_reg [OF inv reg] by blast
  have "param_names c = []" "pattern c = [47]"
    using i(1) c by (auto simp: compiled_ok_def pattern_wf_def static_text_def)
  then have "map_of sr [47] = Some i"
    using st reg i(2) unfolding static_inv_def by fast
  with none c show False by simp
qed

lemma request_segments_start:
  "leading = (path \<noteq> [] \<and> path ! 0 = 47) \<Longrightarrow>
   request_segments path = split_on 47 (drop (if leading then 1 else 0) path)
   \<and> (if leading then 1 else 0) \<le> length path"
  by (cases path) (auto simp: request_segments_def)

lemma dynamic_miss:
  assumes inv: "trie_inv regs n ts" and st: "static_inv regs n sr" "map_of sr path = None"
    and start: "request_segments path = split_on 47 (drop start path)" "start \<le> length path"
    and m: "matchNode n path start [] = (None, vals)"
  shows "spec_find regs meth path = NotFound"
proof -
  have "captures (segments c) (request_segments path) = None" if reg: "(m, c, p) \<in> set regs" for m c p
  proof -
    obtain i where "compiled_ok c" "terminal_at (segments c) n = Some i"
      using trie_inv_reg [OF inv reg] by blast
    moreover have "node_ok n" using inv by (simp add: trie_inv_def)
    ultimately show ?thesis
      using matchNode_None [OF _ start(2) m] compiled_mixed_wf start(1) by (metis option.distinct(1))
  qed
  then have "filter (\<lambda>(_, c, _). captures (segments c) (request_segments path) \<noteq> None) regs = []"
    by (auto simp: filter_empty_conv)
  then show ?thesis
    unfolding spec_find_def matching_routes_def no_root_route [OF inv st] by (simp add: sort_by_def)
qed

lemma dynamic_hit:
  assumes inv: "trie_inv regs n ts" and st: "static_inv regs n sr" "map_of sr path = None"
    and start: "request_segments path = split_on 47 (drop start path)" "start \<le> length path"
    and m: "matchNode n path start [] = (Some i, vals)"
  shows "i < length ts \<and>
    spec_find regs meth path = resolveDirect (ts ! i) meth (buildParams (tnames (ts ! i)) vals)"
proof -
  have ok: "node_ok n" using inv by (simp add: trie_inv_def)
  from matchNode_Some [OF ok start(2) m] obtain segs caps where w: "mixed_wf segs" "vals = [] @ caps"
      "terminal_at segs n = Some i" "captures segs (request_segments path) = Some caps"
    and best: "\<And>ss. mixed_wf ss \<Longrightarrow> terminal_at ss n \<noteq> None \<Longrightarrow>
      captures ss (request_segments path) \<noteq> None \<Longrightarrow> compare_segments segs ss \<le> 0"
    unfolding start(1) by blast
  have "compare_segments segs (segments c) \<le> 0"
    if "(m, c, p) \<in> set regs" "captures (segments c) (request_segments path) \<noteq> None" for m c p
    using trie_inv_reg [OF inv that(1)] compiled_mixed_wf best [of "segments c"] that(2)
    by (metis option.distinct(1))
  from matching_winner [OF inv no_root_route [OF inv st] w(1,3,4) this] w(2)
  have "spec_find regs meth path = resolveDirect (ts ! i) meth (buildParams (tnames (ts ! i)) vals)" by simp
  moreover have "i < length ts" using inv w(3) unfolding trie_inv_def by blast
  ultimately show ?thesis by simp
qed

lemma static_hit:
  assumes inv: "trie_inv regs n ts" and st: "static_inv regs n sr" and hit: "map_of sr path = Some i"
  shows "i < length ts \<and> tnames (ts ! i) = [] \<and> spec_find regs meth path = resolveDirect (ts ! i) meth []"
proof -
  obtain m c p where reg: "(m, c, p) \<in> set regs" and pn: "param_names c = []" "pattern c = path"
    and ti: "terminal_at (segments c) n = Some i"
    using st hit unfolding static_inv_def by fast
  obtain ok: "compiled_ok c" and tn: "tnames (ts ! i) = []" and il: "i < length ts"
    using trie_inv_reg [OF inv reg] ti pn by (metis option.inject)
  have bp: "buildParams [] vs = []" for vs by (simp add: buildParams_def)
  have "spec_find regs meth path = resolveDirect (ts ! i) meth []"
  proof (cases "segments c = []")
    case True
    then have path: "path = [47]" using ok pn by (auto simp: compiled_ok_def static_text_def)
    define roots where "roots = filter (\<lambda>(_, c, _). path = [47] \<and> segments c = []) regs"
    have "(m, c, p) \<in> set roots" using reg path True by (simp add: roots_def)
    then obtain x rest where x: "roots = x # rest" by (cases roots) auto
    obtain m1 c1 p1 where x1: "x = (m1, c1, p1)" by (rule prod_cases3)
    then have "(m1, c1, p1) \<in> set roots" using x by simp
    then have r1: "(m1, c1, p1) \<in> set regs" "segments c1 = []" by (auto simp: roots_def)
    then have "terminal_at (segments c1) n = Some i" using ti True by simp
    moreover have "\<exists>rest'. matching_routes regs path = (m1, c1, p1) # rest'"
      unfolding matching_routes_def roots_def [symmetric] x x1 by simp
    ultimately show ?thesis
      using spec_answer [OF inv r1(1), of i path _ meth] tn bp by auto
  next
    case False
    then obtain vs where vs: "vs \<noteq> []" "segments c = map Static vs" "\<forall>v \<in> set vs. 47 \<notin> set v"
        "path = 47 # join_with [47] vs" "path \<noteq> [47]"
      using ok pn by (auto simp: compiled_ok_def static_text_def)
    have rs: "request_segments path = vs"
      using vs by (simp add: request_segments_def split_join)
    have root: "filter (\<lambda>(_, c, _). path = [47] \<and> segments c = []) regs = []"
      using vs(5) by (simp add: filter_empty_conv)
    have "captures (map Static vs) (request_segments path) = Some []"
      by (simp add: rs captures_static)
    moreover have "compare_segments (map Static vs) (segments c') \<le> 0"
      if "captures (segments c') (request_segments path) \<noteq> None" for c'
      using static_first that by (simp add: rs)
    moreover have "mixed_wf (map Static vs)" by (auto simp: mixed_wf_def)
    moreover have "terminal_at (map Static vs) n = Some i" using ti vs(2) by simp
    ultimately have "spec_find regs meth path = resolveDirect (ts ! i) meth (buildParams (tnames (ts ! i)) [])"
      by (intro matching_winner [OF inv root])
    then show ?thesis by (simp add: tn bp)
  qed
  with il tn show ?thesis by simp
qed

section \<open>The cache of dynamic matches\<close>

lemma evict_suffix: "evict len c n = (c', n') \<Longrightarrow> \<exists>dropped. c = dropped @ c'"
proof (induction len c n rule: evict.induct)
  case (2 len oldest e rest n)
  show ?case
  proof (cases "evict len ((oldest, e) # rest) n = ((oldest, e) # rest, n)")
    case True
    with "2.prems" show ?thesis by (intro exI [of _ "[]"]) simp
  next
    case False
    with 2 obtain dropped where "rest = dropped @ c'" by (auto split: if_splits)
    then show ?thesis by (intro exI [of _ "(oldest, e) # dropped"]) simp
  qed
qed simp

lemma evict_chars:
  "evict len c n = (c', n') \<Longrightarrow> n = sum_list (map (int \<circ> length \<circ> fst) c) \<Longrightarrow>
   n' = sum_list (map (int \<circ> length \<circ> fst) c')
   \<and> (c' = [] \<or> length c' < DYNAMIC_MATCH_CACHE_MAX \<and> n' + int len \<le> DYNAMIC_MATCH_CACHE_CHARS)"
  by (induction len c n rule: evict.induct) (auto split: if_splits)

definition fresh_dyn :: dyn_state where
  "fresh_dyn = \<lparr> cache = [], chars = 0, pending = None \<rparr>"

lemma maybe_cache_cases:
  assumes "maybeCacheDynamicMatch path i vals r = r'"
  obtains (pending) d where "dyn r = Some d \<or> dyn r = None \<and> d = fresh_dyn" "r' = r\<lparr> dyn := Some (d\<lparr> pending := Some path \<rparr>) \<rparr>"
  | (store) d c n where "dyn r = Some d" "evict (length path) (cache d) (chars d) = (c, n)"
      "r' = r\<lparr> dyn := Some (d\<lparr> cache := AList.update path (i, take (length (tnames (terms r ! i))) vals) c,
                chars := n + int (length path) \<rparr>) \<rparr>"
proof (cases "dyn r")
  case None
  with assms pending [of fresh_dyn] show thesis
    by (simp add: maybeCacheDynamicMatch_def fresh_dyn_def)
next
  case (Some d)
  obtain c n where e: "evict (length path) (cache d) (chars d) = (c, n)" by (cases "evict (length path) (cache d) (chars d)")
  show thesis
  proof (cases "pending d = Some path")
    case True
    then show thesis using store [OF Some e] assms Some e by (simp add: maybeCacheDynamicMatch_def)
  next
    case False
    then show thesis using pending [of d] assms Some by (simp add: maybeCacheDynamicMatch_def)
  qed
qed

lemma maybe_cache_inv:
  assumes inv: "router_inv regs r" and m: "matchNode (root r) path 1 [] = (Some i, vals)"
    and fresh: "\<And>d. dyn r = Some d \<Longrightarrow> map_of (cache d) path = None"
    and step: "maybeCacheDynamicMatch path i vals r = r'"
  shows "router_inv regs r' \<and> terms r' = terms r"
  using step
proof (cases rule: maybe_cache_cases)
  case (pending d)
  have "cache_bounded d \<and> cache_sound (root r) (terms r) (static_routes r) d"
    using inv pending(1)
    by (auto simp: router_inv_def fresh_dyn_def cache_bounded_def cache_sound_def DYNAMIC_MATCH_CACHE_CHARS_def)
  with inv pending(2) show ?thesis
    by (auto simp: router_inv_def cache_bounded_def cache_sound_def)
next
  case (store d c n)
  have b: "cache_bounded d" and s: "cache_sound (root r) (terms r) (static_routes r) d"
    using inv store(1) by (auto simp: router_inv_def)
  let ?v = "(i, take (length (tnames (terms r ! i))) vals)"
  obtain dropped where dr: "cache d = dropped @ c" using evict_suffix [OF store(2)] by blast
  note ch = evict_chars [OF store(2)]
  have new: "path \<notin> fst ` set c"
    using fresh [OF store(1)] by (auto simp: dr map_of_eq_None_iff)
  let ?d = "d\<lparr> cache := AList.update path ?v c, chars := n + int (length path) \<rparr>"
  have "cache_bounded ?d"
    using b ch dr new by (auto simp: cache_bounded_def AList_update_new DYNAMIC_MATCH_CACHE_MAX_def)
  moreover have "cache_sound (root r) (terms r) (static_routes r) ?d"
  proof -
    have "map_of (cache d) q = Some w" if "map_of c q = Some w" for q w
    proof -
      have "distinct (map fst (cache d))" using b by (simp add: cache_bounded_def)
      moreover have "(q, w) \<in> set (cache d)" using map_of_SomeD [OF that] by (simp add: dr)
      ultimately show ?thesis by (rule map_of_is_SomeI)
    qed
    with s m show ?thesis
      by (auto simp: cache_sound_def jmap_simps)
  qed
  ultimately show ?thesis
    using inv store(3) by (simp add: router_inv_def)
qed

lemma find_correct:
  assumes inv: "router_inv regs r" and find: "find_route meth path r = (res, r')"
  shows "res = spec_find regs meth path \<and> router_inv regs r'"
proof -
  define leading where "leading = (path \<noteq> [] \<and> path ! 0 = 47)"
  let ?start = "if leading then 1 else 0 :: nat"
  have trie: "trie_inv regs (root r) (terms r)" and st: "static_inv regs (root r) (static_routes r)"
    using inv by (auto simp: router_inv_def)
  note rs = request_segments_start [OF leading_def]
  show ?thesis
  proof (cases "if leading then map_of (static_routes r) path else None")
    case (Some i)
    then have hit: "map_of (static_routes r) path = Some i" by (simp split: if_splits)
    have "resolve i meth [] r = (res, r')"
      using find Some by (simp add: find_route_def leading_def [symmetric] Let_def)
    with resolve_inv [OF inv] static_hit [OF trie st hit] show ?thesis by metis
  next
    case None
    have f: "findDynamic meth path leading r = (res, r')"
      using find None by (simp add: find_route_def leading_def [symmetric] Let_def)
    have none: "map_of (static_routes r) path = None"
    proof (cases leading)
      case False
      show ?thesis
      proof (rule ccontr)
        assume "map_of (static_routes r) path \<noteq> None"
        then obtain i where "map_of (static_routes r) path = Some i" by blast
        then obtain m c p where reg: "(m, c, p) \<in> set regs" "param_names c = []" "pattern c = path"
          using st unfolding static_inv_def by fast
        have "compiled_ok c" using trie_inv_reg [OF trie reg(1)] by blast
        with reg(2) have "static_text c" by (simp add: compiled_ok_def)
        then have "pattern c \<noteq> [] \<and> pattern c ! 0 = 47" by (auto simp: static_text_def split: if_splits)
        with reg(3) False show False by (simp add: leading_def)
      qed
    qed (use None in simp)
    note hit = dynamic_hit [OF trie st none conjunct1 [OF rs] conjunct2 [OF rs]]
    show ?thesis
    proof (cases "if leading then Option.bind (dyn r) (\<lambda>d. map_of (cache d) path) else None")
      case (Some iv)
      obtain i v where iv: "iv = (i, v)" by (cases iv)
      from Some obtain d where l: leading and d: "dyn r = Some d" "map_of (cache d) path = Some (i, v)"
        by (auto simp: iv split: if_splits bind_splits)
      obtain vs where vs: "matchNode (root r) path 1 [] = (Some i, vs)" "v = take (length (tnames (terms r ! i))) vs"
        using inv d unfolding router_inv_def cache_sound_def by blast
      have "resolve i meth (buildParams (tnames (terms r ! i)) vs) r = (res, r')"
        using f Some by (simp add: findDynamic_def iv vs(2) take_params)
      with resolve_inv [OF inv, of i meth _ res r'] hit [of i vs meth] vs(1) l show ?thesis by auto
    next
      case none2: None
      show ?thesis
      proof (cases "matchNode (root r) path ?start []")
        case (Pair o1 vals)
        show ?thesis
        proof (cases o1)
          case None
          then have "res = NotFound" "r' = r"
            using f none2 Pair by (auto simp: findDynamic_def)
          moreover have "spec_find regs meth path = NotFound"
            using dynamic_miss [OF trie st none conjunct1 [OF rs] conjunct2 [OF rs]] Pair None by simp
          ultimately show ?thesis using inv by simp
        next
          case (Some i)
          let ?r = "if leading \<and> 0 < length (tnames (terms r ! i)) then maybeCacheDynamicMatch path i vals r else r"
          have mi: "router_inv regs ?r \<and> terms ?r = terms r"
          proof (cases "leading \<and> 0 < length (tnames (terms r ! i))")
            case True
            have "map_of (cache d) path = None" if "dyn r = Some d" for d
              using none2 True that by simp
            with maybe_cache_inv [OF inv _ _ refl, of path i vals] Pair Some True show ?thesis by simp
          next
            case False
            then have "?r = r" by presburger
            with inv show ?thesis by simp
          qed
          have "resolve i meth (buildParams (tnames (terms r ! i)) vals) ?r = (res, r')"
            using f none2 Pair Some mi by (simp add: findDynamic_def Let_def)
          with resolve_inv [of regs ?r i meth _ res r'] mi hit [of i vals meth] Pair Some show ?thesis
            by auto
        qed
      qed
    qed
  qed
qed

section \<open>Registering keeps the invariant\<close>

lemma update_mixed_same:
  "mixed_child k ms = Some c \<Longrightarrow> f c = c \<Longrightarrow> update_mixed k f ms = ms"
  by (induction k f ms rule: update_mixed.induct) (auto simp: mixed_child_def split: if_splits)

lemma with_mixed_child_present: "mixed_child (mixed_key ps) ms \<noteq> None \<Longrightarrow> with_mixed_child ps ms = ms"
  by (simp add: with_mixed_child_def mixed_child_None)

lemma reach_same: "terminal_at segs n \<noteq> None \<Longrightarrow> reach segs (\<lambda>t. t) n = n"
proof (induction segs "\<lambda>t :: nat option. t" n rule: reach.induct)
  case (2 nm segs st p ms w t)
  then obtain c where "p = Some c" by (cases p) auto
  with 2 show ?case by (auto simp: or_new_def)
next
  case (3 nm segs st p ms w t)
  then obtain c where "w = Some c" by (cases w) auto
  with 3 show ?case by (auto simp: or_new_def)
next
  case (4 parts segs st p ms w t)
  then obtain c where c: "mixed_child (mixed_key parts) ms = Some c" "terminal_at segs c \<noteq> None"
    by (cases "mixed_child (mixed_key parts) ms") auto
  with 4 show ?case
    by (auto simp: with_mixed_child_present intro!: update_mixed_same)
next
  case (5 v segs st p ms w t)
  then obtain c where c: "map_of st v = Some c" "terminal_at segs c \<noteq> None"
    by (cases "map_of st v") auto
  with 5 show ?case
    by (auto simp: or_new_def intro!: AList_update_same)
qed simp

lemma terminal_at_walk:
  "node_ok n \<Longrightarrow> list_all seg_wf segs \<Longrightarrow> terminal_at ss (reach segs (\<lambda>t. t) n) = terminal_at ss n"
  by (simp add: terminal_at_reach)

lemma compiled_seg_wf: "compiled_ok c \<Longrightarrow> list_all seg_wf (segments c)"
  by (simp add: compiled_ok_def pattern_wf_def)

lemma handlers_for_snoc:
  "handlers_for (regs @ [(m, c, p)]) st = handlers_for regs st @ (if steps c = st then [(m, p)] else [])"
  by (simp add: handlers_for_def)

lemma handlers_for_Nil: "(\<And>m c p. (m, c, p) \<in> set regs \<Longrightarrow> steps c \<noteq> st) \<Longrightarrow> handlers_for regs st = []"
  by (fastforce simp: handlers_for_def filter_empty_conv)

lemma reg_cases:
  assumes "x \<in> set (regs @ [r])"
  obtains m' c' p' where "x = (m', c', p')" "(m', c', p') \<in> set regs" | "x = r"
  using assms by (metis Un_iff empty_iff list.set(1) prod_cases3 set_ConsD set_append)

lemma reg_snoc_ex:
  "(m', c', p') \<in> set regs \<Longrightarrow> steps c' = st \<Longrightarrow> \<exists>(m, c, p) \<in> set (regs @ [r]). steps c = st"
  by (rule bexI [of _ "(m', c', p')"]) simp_all

lemma trie_inv_new:
  assumes inv: "trie_inv regs n ts" and c: "compiled_ok c" and none: "terminal_at (segments c) n = None"
    and n': "\<And>ss. terminal_at ss n' = (if map step_of ss = steps c then Some (length ts) else terminal_at ss n)"
    and ok: "node_ok n'" and t: "handlers t = [(m, p)]" "tnames t = param_names c"
  shows "trie_inv (regs @ [(m, c, p)]) n' (ts @ [t])"
proof -
  have diff: "steps c' \<noteq> steps c" if "(m', c', p') \<in> set regs" for m' c' p'
  proof
    assume "steps c' = steps c"
    then have "terminal_at (segments c') n = None"
      using terminal_at_steps [of "segments c'" "segments c" n] none by (simp add: steps_def)
    with trie_inv_reg [OF inv that] show False by (metis option.distinct(1))
  qed
  have lt: "i < length ts" if "terminal_at ss n = Some i" for ss i
    using inv that unfolding trie_inv_def by blast
  show ?thesis
    unfolding trie_inv_def
  proof (intro conjI allI impI ballI)
    fix x assume "x \<in> set (regs @ [(m, c, p)])"
    then consider (old) m' c' p' where "x = (m', c', p')" "(m', c', p') \<in> set regs" | (new) "x = (m, c, p)"
      by (rule reg_cases)
    then show "case x of (m, c, p) \<Rightarrow> compiled_ok c \<and>
        (\<exists>i. terminal_at (segments c) n' = Some i \<and> tnames ((ts @ [t]) ! i) = param_names c)"
    proof cases
      case old
      obtain i where "compiled_ok c'" "terminal_at (segments c') n = Some i" "tnames (ts ! i) = param_names c'"
          "i < length ts" using trie_inv_reg [OF inv old(2)] by blast
      with diff [OF old(2)] old show ?thesis by (auto simp: n' steps_def nth_append)
    qed (use c t in \<open>simp add: n' steps_def\<close>)
  next
    fix ss i assume i: "terminal_at ss n' = Some i"
    show "i < length (ts @ [t])" using i lt by (auto simp: n' less_Suc_eq split: if_splits)
    show "handlers ((ts @ [t]) ! i) = handlers_for (regs @ [(m, c, p)]) (map step_of ss)"
    proof (cases "map step_of ss = steps c")
      case True
      with i have "i = length ts" by (simp add: n')
      with True t diff show ?thesis by (simp add: handlers_for_snoc handlers_for_Nil)
    next
      case False
      with i have o: "terminal_at ss n = Some i" by (simp add: n')
      then have "handlers (ts ! i) = handlers_for regs (map step_of ss)"
        using inv unfolding trie_inv_def by blast
      with lt [OF o] False show ?thesis by (auto simp: handlers_for_snoc nth_append)
    qed
    show "\<exists>(m, c, p) \<in> set (regs @ [(m, c, p)]). steps c = map step_of ss"
    proof (cases "map step_of ss = steps c")
      case False
      with i have o: "terminal_at ss n = Some i" by (simp add: n')
      obtain m' c' p' where "(m', c', p') \<in> set regs" "steps c' = map step_of ss"
        using trie_inv_terminal [OF inv o] .
      then show ?thesis by (rule reg_snoc_ex)
    qed auto
  next
    fix ss ss' i assume "terminal_at ss n' = Some i" "terminal_at ss' n' = Some i"
    moreover have "terminal_at ss n = Some i \<Longrightarrow> terminal_at ss' n = Some i \<Longrightarrow> map step_of ss = map step_of ss'"
      using inv unfolding trie_inv_def by blast
    ultimately show "map step_of ss = map step_of ss'"
      using lt by (auto simp: n' split: if_splits)
  qed (rule ok)
qed

lemma trie_inv_existing:
  assumes inv: "trie_inv regs n ts" and c: "compiled_ok c" and i: "terminal_at (segments c) n = Some i"
    and names: "tnames (ts ! i) = param_names c"
    and t: "handlers t = handlers (ts ! i) @ [(m, p)]" "tnames t = tnames (ts ! i)"
  shows "trie_inv (regs @ [(m, c, p)]) n (ts[i := t])"
proof -
  have il: "i < length ts" using inv i unfolding trie_inv_def by blast
  have tn: "tnames (ts[i := t] ! j) = tnames (ts ! j)" for j
    using il t by (cases "j = i") auto
  show ?thesis
    unfolding trie_inv_def
  proof (intro conjI allI impI ballI)
    fix x assume "x \<in> set (regs @ [(m, c, p)])"
    then consider (old) m' c' p' where "x = (m', c', p')" "(m', c', p') \<in> set regs" | (new) "x = (m, c, p)"
      by (rule reg_cases)
    then show "case x of (m, c, p) \<Rightarrow> compiled_ok c \<and>
        (\<exists>j. terminal_at (segments c) n = Some j \<and> tnames (ts[i := t] ! j) = param_names c)"
    proof cases
      case old
      obtain k where "compiled_ok c'" "terminal_at (segments c') n = Some k" "tnames (ts ! k) = param_names c'"
        using trie_inv_reg [OF inv old(2)] by blast
      with old(1) show ?thesis by (simp add: tn)
    qed (use c i names in \<open>simp add: tn\<close>)
  next
    fix ss j assume j: "terminal_at ss n = Some j"
    have jl: "j < length ts" and hj: "handlers (ts ! j) = handlers_for regs (map step_of ss)"
      using inv j unfolding trie_inv_def by blast+
    show "j < length (ts[i := t])" using jl by simp
    have "map step_of ss = map step_of (segments c)" if "j = i"
      using inv i j unfolding that trie_inv_def by blast
    moreover have "j = i" if "map step_of ss = map step_of (segments c)"
      using i j terminal_at_steps [OF that, of n] by simp
    ultimately have "map step_of ss = steps c \<longleftrightarrow> j = i" unfolding steps_def by blast
    note same = this
    show "handlers (ts[i := t] ! j) = handlers_for (regs @ [(m, c, p)]) (map step_of ss)"
    proof (cases "j = i")
      case True
      then have "map step_of ss = steps c" using same by blast
      moreover from this have "handlers (ts ! i) = handlers_for regs (steps c)" using hj True by simp
      ultimately show ?thesis using True il t(1) by (simp add: handlers_for_snoc)
    next
      case False
      then have "steps c \<noteq> map step_of ss" using same by metis
      with False hj show ?thesis by (simp add: handlers_for_snoc)
    qed
    show "\<exists>(m, c, p) \<in> set (regs @ [(m, c, p)]). steps c = map step_of ss"
    proof -
      obtain m' c' p' where "(m', c', p') \<in> set regs" "steps c' = map step_of ss"
        using trie_inv_terminal [OF inv j] .
      then show ?thesis by (rule reg_snoc_ex)
    qed
  next
    fix ss ss' j assume "terminal_at ss n = Some j" "terminal_at ss' n = Some j"
    then show "map step_of ss = map step_of ss'" using inv unfolding trie_inv_def by blast
  next
    show "node_ok n" using inv by (simp add: trie_inv_def)
  qed
qed

lemma static_segments:
  assumes "compiled_ok c" "compiled_ok d" "param_names c = []" "param_names d = []" "pattern c = pattern d"
  shows "segments c = segments d"
proof -
  have "segments x = (if pattern x = [47] then [] else map Static (split_on 47 (tl (pattern x))))"
    if "compiled_ok x" "param_names x = []" for x
    using that by (auto simp: compiled_ok_def static_text_def split_join split: if_splits)
  from this [of c] this [of d] assms show ?thesis by simp
qed

lemma static_inv_add:
  assumes st: "static_inv regs n sr" and c: "compiled_ok c" and regs: "\<And>m c p. (m, c, p) \<in> set regs \<Longrightarrow> compiled_ok c"
    and same: "\<And>m c p. (m, c, p) \<in> set regs \<Longrightarrow> terminal_at (segments c) n' = terminal_at (segments c) n"
    and i: "terminal_at (segments c) n' = Some i"
  shows "static_inv (regs @ [(m, c, p)]) n' (if param_names c = [] then AList.update (pattern c) i sr else sr)"
proof -
  have old: "(\<exists>(m, d, p) \<in> set regs. param_names d = [] \<and> pattern d = path \<and> terminal_at (segments d) n' = Some j)
      \<longleftrightarrow> map_of sr path = Some j" for path j
  proof -
    have "(\<exists>(m, d, p) \<in> set regs. param_names d = [] \<and> pattern d = path \<and> terminal_at (segments d) n' = Some j)
        \<longleftrightarrow> (\<exists>(m, d, p) \<in> set regs. param_names d = [] \<and> pattern d = path \<and> terminal_at (segments d) n = Some j)"
      by (rule bex_cong) (use same in auto)
    with st show ?thesis unfolding static_inv_def by blast
  qed
  have new: "(\<exists>(m, d, p) \<in> set (regs @ [(m, c, p)]). param_names d = [] \<and> pattern d = path \<and> terminal_at (segments d) n' = Some j)
      \<longleftrightarrow> map_of sr path = Some j \<or> param_names c = [] \<and> pattern c = path \<and> j = i" for path j
    unfolding old [symmetric] using i by auto
  have clash: "j = i" if pc: "param_names c = []" and mo: "map_of sr (pattern c) = Some j" for j
  proof -
    obtain m' d p' where d: "(m', d, p') \<in> set regs" "param_names d = []" "pattern d = pattern c"
        "terminal_at (segments d) n' = Some j"
      using mo unfolding old [symmetric] by blast
    have "segments d = segments c"
      using static_segments [of d c] regs [OF d(1)] c d pc by simp
    with d(4) i show ?thesis by simp
  qed
  show ?thesis
    unfolding static_inv_def new using clash by (auto simp: jmap_simps)
qed

definition arg_compiled :: "(jstr \<Rightarrow> jstr) \<Rightarrow> route_arg \<Rightarrow> route_config_error + compiled_pattern" where
  "arg_compiled nfc pat = (case pat of Text t \<Rightarrow> compileRoutePattern nfc t | Compiled c \<Rightarrow> Inr c)"

lemma matches_inv_snoc: "matches_inv ts \<Longrightarrow> (\<And>sm. static_matches t = Some sm \<Longrightarrow> sm = []) \<Longrightarrow> matches_inv (ts @ [t])"
  by (fastforce simp: matches_inv_def)

lemma matches_inv_update: "matches_inv ts \<Longrightarrow> (\<And>sm. static_matches t = Some sm \<Longrightarrow> sm = []) \<Longrightarrow> matches_inv (ts[i := t])"
  unfolding matches_inv_def using set_update_subset_insert [of ts i t] by fastforce

definition add_error ::
    "'p routes \<Rightarrow> jstr \<Rightarrow> route_config_error + compiled_pattern \<Rightarrow> route_config_error option" where
  "add_error regs up cp =
     (if \<not> isRegistrableMethod up then Some INVALID_METHOD
      else
        (case cp of
           Inl err \<Rightarrow> Some err
         | Inr c \<Rightarrow>
             if \<exists>(m, c', p) \<in> set regs. steps c' = steps c \<and> param_names c' \<noteq> param_names c
             then Some PARAM_NAME_CONFLICT
             else if \<exists>(m, c', p) \<in> set regs. steps c' = steps c \<and> m = up then Some DUPLICATE_ROUTE
             else None))"

lemma same_steps_terminal:
  assumes inv: "trie_inv regs n ts" and i: "terminal_at (segments c) n = Some i"
  shows "(\<exists>(m, c', p) \<in> set regs. steps c' = steps c \<and> param_names c' \<noteq> param_names c)
      \<longleftrightarrow> tnames (ts ! i) \<noteq> param_names c"
    and "(\<exists>(m, c', p) \<in> set regs. steps c' = steps c \<and> m = up) \<longleftrightarrow> map_of (handlers (ts ! i)) up \<noteq> None"
proof -
  have tn: "tnames (ts ! i) = param_names c'" if r: "(m, c', p) \<in> set regs" and s: "steps c' = steps c" for m c' p
  proof -
    have "terminal_at (segments c') n = Some i"
      using i terminal_at_steps [of "segments c'" "segments c" n] s by (simp add: steps_def)
    with trie_inv_reg [OF inv r] show ?thesis by (metis option.inject)
  qed
  obtain m0 c0 p0 where r0: "(m0, c0, p0) \<in> set regs" "steps c0 = steps c"
    using trie_inv_terminal [OF inv i] unfolding steps_def by blast
  show "(\<exists>(m, c', p) \<in> set regs. steps c' = steps c \<and> param_names c' \<noteq> param_names c)
      \<longleftrightarrow> tnames (ts ! i) \<noteq> param_names c"
  proof
    assume "\<exists>(m, c', p) \<in> set regs. steps c' = steps c \<and> param_names c' \<noteq> param_names c"
    then obtain m c' p where "(m, c', p) \<in> set regs" "steps c' = steps c" "param_names c' \<noteq> param_names c" by blast
    with tn show "tnames (ts ! i) \<noteq> param_names c" by metis
  next
    assume "tnames (ts ! i) \<noteq> param_names c"
    with tn [OF r0] r0 show "\<exists>(m, c', p) \<in> set regs. steps c' = steps c \<and> param_names c' \<noteq> param_names c"
      by (intro bexI [of _ "(m0, c0, p0)"]) simp_all
  qed
  have h: "handlers (ts ! i) = handlers_for regs (steps c)"
    using inv i unfolding trie_inv_def steps_def by blast
  have "map_of (handlers (ts ! i)) up \<noteq> None \<longleftrightarrow> up \<in> fst ` set (handlers_for regs (steps c))"
    unfolding h by (metis map_of_eq_None_iff)
  also have "\<dots> \<longleftrightarrow> (\<exists>(m, c', p) \<in> set regs. steps c' = steps c \<and> m = up)"
    by (force simp: handlers_for_def)
  finally show "(\<exists>(m, c', p) \<in> set regs. steps c' = steps c \<and> m = up) \<longleftrightarrow> map_of (handlers (ts ! i)) up \<noteq> None"
    by simp
qed

lemma add_route_correct:
  assumes inv: "router_inv regs r0" and cok: "\<And>c. arg_compiled nfc pat = Inr c \<Longrightarrow> compiled_ok c"
    and add: "add_route upper nfc meth pat payload r0 = (err, r')"
  shows "err = add_error regs (upper meth) (arg_compiled nfc pat)
    \<and> (err \<noteq> None \<longrightarrow> r' = r0\<lparr> dyn := None \<rparr>)
    \<and> (err = None \<longrightarrow> (\<exists>c. arg_compiled nfc pat = Inr c \<and> router_inv (regs @ [(upper meth, c, payload)]) r'))"
proof -
  have trie: "trie_inv regs (root r0) (terms r0)" and st: "static_inv regs (root r0) (static_routes r0)"
    and mt: "matches_inv (terms r0)" using inv by (auto simp: router_inv_def)
  have ok: "node_ok (root r0)" using trie by (simp add: trie_inv_def)
  show ?thesis
  proof (cases "isRegistrableMethod (upper meth)")
    case False
    with add show ?thesis by (auto simp: add_route_def add_error_def Let_def)
  next
    case reg: True
    show ?thesis
    proof (cases "arg_compiled nfc pat")
      case (Inl e)
      with add reg show ?thesis
        by (auto simp: add_route_def add_error_def Let_def arg_compiled_def [symmetric])
    next
      case (Inr c)
      have c: "compiled_ok c" by (rule cok [OF Inr])
      let ?up = "upper meth"
      let ?root1 = "reach (segments c) (\<lambda>t. t) (root r0)"
      have t1: "terminal_at ss ?root1 = terminal_at ss (root r0)" for ss
        using ok compiled_seg_wf [OF c] by (rule terminal_at_walk)
      have ok1: "node_ok ?root1" using ok compiled_seg_wf [OF c] by (rule reach_ok)
      have oks: "compiled_ok d" if "(m, d, p) \<in> set regs" for m d p
        using trie_inv_reg [OF trie that] by blast
      show ?thesis
      proof (cases "terminal_at (segments c) (root r0)")
        case None
        let ?i = "length (terms r0)"
        let ?root2 = "reach (segments c) (\<lambda>_. Some ?i) ?root1"
        let ?t = "\<lparr> handlers = [(?up, payload)], tnames = param_names c,
                    static_matches = (if param_names c = [] then Some [] else None) \<rparr>"
        let ?sr = "if param_names c = [] then AList.update (pattern c) ?i (static_routes r0) else static_routes r0"
        have t2: "terminal_at ss ?root2 = (if map step_of ss = steps c then Some ?i else terminal_at ss (root r0))" for ss
          using terminal_at_reach [OF ok1 compiled_seg_wf [OF c]] t1 by (simp add: steps_def)
        have ok2: "node_ok ?root2" using ok1 compiled_seg_wf [OF c] by (rule reach_ok)
        have r': "err = None" "r' = r0\<lparr> root := ?root2, terms := terms r0 @ [?t], static_routes := ?sr, dyn := None \<rparr>"
          using add reg Inr None
          by (auto simp: add_route_def Let_def arg_compiled_def [symmetric] t1)
        have ti: "trie_inv (regs @ [(?up, c, payload)]) ?root2 (terms r0 @ [?t])"
          by (rule trie_inv_new [OF trie c None t2 ok2]) simp_all
        have same: "terminal_at (segments d) ?root2 = terminal_at (segments d) (root r0)" if "(m, d, p) \<in> set regs" for m d p
        proof -
          have "steps d \<noteq> steps c"
            using trie_inv_reg [OF trie that] None terminal_at_steps [of "segments d" "segments c"]
            by (metis option.distinct(1) steps_def)
          then show ?thesis by (simp add: t2 steps_def)
        qed
        have "static_inv (regs @ [(?up, c, payload)]) ?root2 ?sr"
          by (rule static_inv_add [OF st c oks same]) (simp_all add: t2 steps_def)
        moreover have "matches_inv (terms r0 @ [?t])"
          using mt by (rule matches_inv_snoc) (simp split: if_splits)
        ultimately have "router_inv (regs @ [(?up, c, payload)]) r'"
          using ti by (simp add: router_inv_def r'(2))
        moreover have "add_error regs ?up (Inr c) = None"
        proof -
          have "steps d \<noteq> steps c" if "(m, d, p) \<in> set regs" for m d p
            using trie_inv_reg [OF trie that] None terminal_at_steps [of "segments d" "segments c"]
            by (metis option.distinct(1) steps_def)
          then show ?thesis using reg by (auto simp: add_error_def)
        qed
        ultimately show ?thesis using r'(1) Inr by auto
      next
        case (Some i)
        have same: "?root1 = root r0" using Some by (intro reach_same) simp
        note st_i = same_steps_terminal [OF trie Some]
        let ?ex = "terms r0 ! i"
        show ?thesis
        proof (cases "tnames ?ex \<noteq> param_names c \<or> map_of (handlers ?ex) ?up \<noteq> None")
          case True
          have "err = (if tnames ?ex \<noteq> param_names c then Some PARAM_NAME_CONFLICT else Some DUPLICATE_ROUTE)"
              "r' = r0\<lparr> dyn := None \<rparr>"
            using add reg Inr Some True
            by (auto simp: add_route_def Let_def arg_compiled_def [symmetric] same split: if_splits)
          moreover have "add_error regs ?up (Inr c) =
              (if tnames ?ex \<noteq> param_names c then Some PARAM_NAME_CONFLICT else Some DUPLICATE_ROUTE)"
            using True reg unfolding add_error_def sum.case st_i st_i(2) by auto
          ultimately show ?thesis using Inr by simp
        next
          case False
          let ?t = "?ex\<lparr> handlers := AList.update ?up payload (handlers ?ex),
                      static_matches := map_option (\<lambda>_. []) (static_matches ?ex) \<rparr>"
          let ?sr = "if param_names c = [] then AList.update (pattern c) i (static_routes r0) else static_routes r0"
          have r': "err = None" "r' = r0\<lparr> root := root r0, terms := (terms r0)[i := ?t], static_routes := ?sr, dyn := None \<rparr>"
            using add reg Inr Some False
            by (auto simp: add_route_def Let_def arg_compiled_def [symmetric] same)
          have "handlers ?t = handlers ?ex @ [(?up, payload)]"
            using False by (simp add: AList_update_new map_of_eq_None_iff)
          then have ti: "trie_inv (regs @ [(?up, c, payload)]) (root r0) ((terms r0)[i := ?t])"
            using False by (intro trie_inv_existing [OF trie c Some]) simp_all
          have "static_inv (regs @ [(?up, c, payload)]) (root r0) ?sr"
            by (rule static_inv_add [OF st c oks]) (simp_all add: Some)
          moreover have "matches_inv ((terms r0)[i := ?t])"
            using mt by (rule matches_inv_update) auto
          ultimately have "router_inv (regs @ [(?up, c, payload)]) r'"
            using ti by (simp add: router_inv_def r'(2))
          moreover have "add_error regs ?up (Inr c) = None"
            using False reg unfolding add_error_def sum.case st_i st_i(2) by auto
          ultimately show ?thesis using r'(1) Inr by auto
        qed
      qed
    qed
  qed
qed

lemma router_inv_new: "router_inv [] new_router"
proof -
  have "trie_inv [] createNode []" by (simp add: trie_inv_def)
  moreover have "static_inv [] createNode []" by (simp add: static_inv_def)
  ultimately show ?thesis by (simp add: router_inv_def new_router_def matches_inv_def)
qed

section \<open>Histories\<close>

text \<open>The routers a program can build, with the routes whose registration succeeded.\<close>

inductive router_reach :: "(jstr \<Rightarrow> jstr) \<Rightarrow> (jstr \<Rightarrow> jstr) \<Rightarrow> 'p routes \<Rightarrow> 'p router \<Rightarrow> bool"
  for upper nfc where
  reach_new: "router_reach upper nfc [] new_router"
| reach_add: "router_reach upper nfc regs r \<Longrightarrow>
    (case pat of Text _ \<Rightarrow> True | Compiled c \<Rightarrow> \<exists>t. compileRoutePattern nfc t = Inr c) \<Longrightarrow>
    add_route upper nfc meth pat payload r = (None, r') \<Longrightarrow> arg_compiled nfc pat = Inr c \<Longrightarrow>
    router_reach upper nfc (regs @ [(upper meth, c, payload)]) r'"
| reach_rejected: "router_reach upper nfc regs r \<Longrightarrow>
    (case pat of Text _ \<Rightarrow> True | Compiled c \<Rightarrow> \<exists>t. compileRoutePattern nfc t = Inr c) \<Longrightarrow>
    add_route upper nfc meth pat payload r = (Some err, r') \<Longrightarrow> router_reach upper nfc regs r'"
| reach_find: "router_reach upper nfc regs r \<Longrightarrow> find_route meth path r = (res, r') \<Longrightarrow>
    router_reach upper nfc regs r'"

lemma arg_compiled_ok:
  assumes "nfc_keeps_slash nfc" and "case pat of Text _ \<Rightarrow> True | Compiled c \<Rightarrow> \<exists>t. compileRoutePattern nfc t = Inr c"
    and "arg_compiled nfc pat = Inr c"
  shows "compiled_ok c"
  using assms compile_ok [OF assms(1)] by (auto simp: arg_compiled_def split: route_arg.splits)

lemma router_reach_inv: "router_reach upper nfc regs r \<Longrightarrow> nfc_keeps_slash nfc \<Longrightarrow> router_inv regs r"
proof (induction rule: router_reach.induct)
  case reach_new
  show ?case by (rule router_inv_new)
next
  case (reach_add regs r pat meth payload r' c)
  with add_route_correct [OF reach_add.IH [OF reach_add.prems] arg_compiled_ok [OF reach_add.prems reach_add.hyps(2)] reach_add.hyps(3)]
  show ?case by auto
next
  case (reach_rejected regs r pat meth payload err r')
  with add_route_correct [OF reach_rejected.IH [OF reach_rejected.prems]
      arg_compiled_ok [OF reach_rejected.prems reach_rejected.hyps(2)] reach_rejected.hyps(3)]
  have "r' = r\<lparr> dyn := None \<rparr>" by simp
  with reach_rejected show ?case by (simp add: router_inv_def)
next
  case (reach_find regs r meth path res r')
  with find_correct show ?case by metis
qed

section \<open>The properties of the router\<close>

text \<open>Example routers, for the instances below.\<close>

definition compiled_text :: "string \<Rightarrow> compiled_pattern" where
  "compiled_text t = projr (compileRoutePattern (\<lambda>s. s) (js t))"

definition demo_add :: "string \<times> string \<times> nat \<Rightarrow> nat router \<Rightarrow> nat router" where
  "demo_add = (\<lambda>(m, t, p) r. snd (add_route (\<lambda>s. s) (\<lambda>s. s) (js m) (Text (js t)) p r))"

definition demo_regs :: "(string \<times> string \<times> nat) list \<Rightarrow> nat routes" where
  "demo_regs xs = map (\<lambda>(m, t, p). (js m, compiled_text t, p)) xs"

definition demo_ok :: "string \<times> string \<times> nat \<Rightarrow> nat router \<Rightarrow> bool" where
  "demo_ok = (\<lambda>(m, t, p) r. \<not> isl (compileRoutePattern (\<lambda>s. s) (js t))
     \<and> fst (add_route (\<lambda>s. s) (\<lambda>s. s) (js m) (Text (js t)) p r) = None)"

fun demo_all_ok :: "(string \<times> string \<times> nat) list \<Rightarrow> nat router \<Rightarrow> bool" where
  "demo_all_ok [] r \<longleftrightarrow> True"
| "demo_all_ok (x # xs) r \<longleftrightarrow> demo_ok x r \<and> demo_all_ok xs (demo_add x r)"

definition demo_router :: "(string \<times> string \<times> nat) list \<Rightarrow> nat router" where
  "demo_router xs = fold demo_add xs new_router"

lemma demo_fold_reach:
  "router_reach (\<lambda>s. s) (\<lambda>s. s) regs r \<Longrightarrow> demo_all_ok xs r \<Longrightarrow>
   router_reach (\<lambda>s. s) (\<lambda>s. s) (regs @ demo_regs xs) (fold demo_add xs r)"
proof (induction xs arbitrary: regs r)
  case (Cons x xs)
  obtain m t p where x: "x = (m, t, p)" by (rule prod_cases3)
  have ok: "demo_ok x r" using Cons.prems(2) by simp
  then have c: "arg_compiled (\<lambda>s. s) (Text (js t)) = Inr (compiled_text t)"
    by (simp add: x demo_ok_def arg_compiled_def compiled_text_def)
  have a: "add_route (\<lambda>s. s) (\<lambda>s. s) (js m) (Text (js t)) p r = (None, demo_add x r)"
    using ok by (simp add: x demo_ok_def demo_add_def prod_eq_iff)
  have "router_reach (\<lambda>s. s) (\<lambda>s. s) (regs @ [(js m, compiled_text t, p)]) (demo_add x r)"
    by (rule reach_add [OF Cons.prems(1) _ a c]) simp
  from Cons.IH [OF this] Cons.prems(2) show ?case
    by (simp add: x demo_regs_def)
qed (simp add: demo_regs_def)

lemma demo_reach: "demo_all_ok xs new_router \<Longrightarrow> router_reach (\<lambda>s. s) (\<lambda>s. s) (demo_regs xs) (demo_router xs)"
  using demo_fold_reach [OF reach_new, of xs] by (simp add: demo_router_def)

lemma nfc_id: "nfc_keeps_slash (\<lambda>s. s)"
  by (simp add: nfc_keeps_slash_def)

definition shop :: "(string \<times> string \<times> nat) list" where
  "shop = [(''GET'', ''/u/:id'', 1), (''GET'', ''/u/me'', 2), (''POST'', ''/u/:id'', 3),
           (''GET'', ''/f/:name.txt'', 4), (''GET'', ''/f/*'', 5)]"

definition shop_reversed :: "(string \<times> string \<times> nat) list" where
  "shop_reversed = rev shop"

lemma shop_ok: "demo_all_ok shop new_router"
  by code_simp

lemma shop_reversed_ok: "demo_all_ok shop_reversed new_router"
  by code_simp

text \<open>
  C1: \<open>find\<close> answers, on every router that any sequence of registrations and lookups can build, with
  the most specific of the registered patterns that match the path, its captures bound to its names
  in order, whichever of the static map, the cache of dynamic matches and the trie serves it.
\<close>

theorem find_most_specific:
  assumes "router_reach upper nfc regs r" and "nfc_keeps_slash nfc"
  shows "fst (find_route meth path r) = spec_find regs meth path"
  using find_correct [OF router_reach_inv [OF assms], of meth path]
  by (cases "find_route meth path r") simp

theorem find_most_specific_witness:
  "spec_find (demo_regs shop) (js ''GET'') (js ''/f/a.txt'') = Found 4 [(js ''name'', js ''a'')]
   \<and> fst (find_route (js ''GET'') (js ''/f/a.txt'') (demo_router shop)) = Found 4 [(js ''name'', js ''a'')]"
proof -
  have s: "spec_find (demo_regs shop) (js ''GET'') (js ''/f/a.txt'') = Found 4 [(js ''name'', js ''a'')]"
    by code_simp
  show ?thesis using find_most_specific [OF demo_reach [OF shop_ok] nfc_id] s by simp
qed

text \<open>
  C3: registering is all or nothing: \<open>add\<close> throws exactly for an unregistrable method, a pattern that
  does not compile, a known shape under other parameter names, and a known shape and method, in this
  order; when it throws the routes, terminals and static map are what they were, and when it does not
  the route is appended.
\<close>

theorem add_route_all_or_nothing:
  assumes "router_reach upper nfc regs r" and "nfc_keeps_slash nfc"
    and "add_route upper nfc meth (Text t) payload r = (err, r')"
  shows "err = add_error regs (upper meth) (compileRoutePattern nfc t)
    \<and> (err \<noteq> None \<longrightarrow> r' = r\<lparr> dyn := None \<rparr>)
    \<and> (err = None \<longrightarrow> (\<exists>c. compileRoutePattern nfc t = Inr c \<and>
        (\<forall>m path. fst (find_route m path r') = spec_find (regs @ [(upper meth, c, payload)]) m path)))"
proof -
  have arg: "arg_compiled nfc (Text t) = compileRoutePattern nfc t" by (simp add: arg_compiled_def)
  have "compiled_ok c" if "arg_compiled nfc (Text t) = Inr c" for c
    using arg_compiled_ok [OF assms(2) _ that] by simp
  note add = add_route_correct [OF router_reach_inv [OF assms(1,2)] this assms(3)]
  have "fst (find_route m path r') = spec_find regs' m path" if "router_inv regs' r'" for regs' m path
    using find_correct [OF that, of m path] by (cases "find_route m path r'") simp
  with add show ?thesis unfolding arg by blast
qed

theorem add_route_all_or_nothing_witness:
  "fst (add_route (\<lambda>s. s) (\<lambda>s. s) (js ''GET'') (Text (js ''/u/:name'')) 9 (demo_router shop)) = Some PARAM_NAME_CONFLICT
   \<and> add_error (demo_regs shop) (js ''GET'') (compileRoutePattern (\<lambda>s. s) (js ''/u/:name'')) = Some PARAM_NAME_CONFLICT
   \<and> snd (add_route (\<lambda>s. s) (\<lambda>s. s) (js ''GET'') (Text (js ''/u/:name'')) 9 (demo_router shop)) = (demo_router shop)\<lparr> dyn := None \<rparr>"
proof -
  have e: "add_error (demo_regs shop) (js ''GET'') (compileRoutePattern (\<lambda>s. s) (js ''/u/:name'')) = Some PARAM_NAME_CONFLICT"
    by code_simp
  show ?thesis
    using add_route_all_or_nothing [OF demo_reach [OF shop_ok] nfc_id prod.collapse [symmetric],
      of "js ''GET''" "js ''/u/:name''" 9] e by simp
qed

text \<open>
  C4: the cache of dynamic matches stays within its bounds whatever the clients ask for: at most 2048
  paths, its count of characters exact, at most 256 Ki of them (one longer path alone excepted); and
  each entry is what the trie answers for its path.
\<close>

theorem dynamic_cache_bounded:
  assumes "router_reach upper nfc regs r" and "nfc_keeps_slash nfc" and "dyn r = Some d"
  shows "length (cache d) \<le> 2048 \<and> distinct (map fst (cache d))
    \<and> chars d = (\<Sum>e\<leftarrow>cache d. int (length (fst e)))
    \<and> (chars d \<le> 262144 \<or> length (cache d) = 1)
    \<and> (\<forall>path i vals. map_of (cache d) path = Some (i, vals) \<longrightarrow>
         (\<exists>vs. matchNode (root r) path 1 [] = (Some i, vs) \<and> vals = take (length (tnames (terms r ! i))) vs))"
  using router_reach_inv [OF assms(1,2)] assms(3)
  by (auto simp: router_inv_def cache_bounded_def cache_sound_def comp_def
      DYNAMIC_MATCH_CACHE_MAX_def DYNAMIC_MATCH_CACHE_CHARS_def)

definition shop_asked :: "nat router" where
  "shop_asked =
     (let ask = (\<lambda>r. snd (find_route (js ''GET'') (js ''/u/7'') r)) in ask (ask (demo_router shop)))"

lemma shop_asked_reach: "router_reach (\<lambda>s. s) (\<lambda>s. s) (demo_regs shop) shop_asked"
proof -
  have ask: "router_reach (\<lambda>s. s) (\<lambda>s. s) regs (snd (find_route m path r))"
    if "router_reach (\<lambda>s. s) (\<lambda>s. s) regs r" for regs m path and r :: "nat router"
    using reach_find [OF that, of m path "fst (find_route m path r)"] by simp
  show ?thesis
    unfolding shop_asked_def Let_def by (intro ask demo_reach shop_ok)
qed

theorem dynamic_cache_bounded_witness:
  "\<exists>d. dyn shop_asked = Some d \<and> map_of (cache d) (js ''/u/7'') = Some (0, [js ''7'']) \<and> chars d = 4
    \<and> length (cache d) \<le> 2048"
proof -
  have d: "dyn shop_asked = Some \<lparr> cache = [(js ''/u/7'', (0, [js ''7'']))], chars = 4, pending = Some (js ''/u/7'') \<rparr>"
    by code_simp
  show ?thesis
    using dynamic_cache_bounded [OF shop_asked_reach nfc_id d] d by simp
qed

lemma resolveDirect_found:
  "(\<exists>p. resolveDirect t meth ps = Found p ps) \<longleftrightarrow>
     map_of (handlers t) meth \<noteq> None \<or> meth = js ''HEAD'' \<and> map_of (handlers t) (js ''GET'') \<noteq> None"
  unfolding resolveDirect_def by (cases "map_of (handlers t) meth") (simp_all del: js_Cons split: option.split)

lemma resolveDirect_cases:
  "(\<exists>p. resolveDirect t meth ps = Found p ps)
   \<or> resolveDirect t meth ps = MethodNotAllowed (map fst (handlers t) @
       (if map_of (handlers t) (js ''GET'') \<noteq> None \<and> map_of (handlers t) (js ''HEAD'') = None
        then [js ''HEAD''] else []))"
  unfolding resolveDirect_def by (simp del: js_Cons split: option.split)

lemma allowed_exact:
  assumes "resolveDirect t meth ps = MethodNotAllowed allowed"
  shows "m \<in> set allowed \<longleftrightarrow> (\<exists>p. resolveDirect t m qs = Found p qs)"
proof -
  have a: "allowed = map fst (handlers t) @
       (if map_of (handlers t) (js ''GET'') \<noteq> None \<and> map_of (handlers t) (js ''HEAD'') = None
        then [js ''HEAD''] else [])"
    using resolveDirect_cases [of t meth ps] assms by (auto simp del: js_Cons)
  have "m \<in> set allowed \<longleftrightarrow> map_of (handlers t) m \<noteq> None
      \<or> map_of (handlers t) (js ''GET'') \<noteq> None \<and> map_of (handlers t) (js ''HEAD'') = None \<and> m = js ''HEAD''"
    unfolding a by (auto simp: map_of_eq_None_iff simp del: js_Cons not_None_eq)
  then show ?thesis
    unfolding resolveDirect_found by (cases "map_of (handlers t) (js ''HEAD'') = None"; cases "m = js ''HEAD''") simp_all
qed

text \<open>
  A 405 answer's \<open>Allow\<close> list is exact: it holds precisely the methods for which the same path
  is found, the implied \<open>HEAD\<close> of a \<open>GET\<close> route included.
\<close>

theorem allow_list_exact:
  assumes "router_reach upper nfc regs r" and "nfc_keeps_slash nfc"
    and "fst (find_route meth path r) = MethodNotAllowed allowed"
  shows "m \<in> set allowed \<longleftrightarrow> (\<exists>p ps. fst (find_route m path r) = Found p ps)"
proof -
  have find: "fst (find_route k path r) = spec_find regs k path" for k
    using find_correct [OF router_reach_inv [OF assms(1,2)], of k path] by (cases "find_route k path r") simp
  show ?thesis
  proof (cases "matching_routes regs path")
    case Nil
    with assms(3) show ?thesis by (simp add: find spec_find_def)
  next
    case (Cons x rest)
    obtain m0 c p0 where x: "x = (m0, c, p0)" by (rule prod_cases3)
    let ?t = "\<lparr> handlers = handlers_for regs (steps c), tnames = param_names c, static_matches = None \<rparr>"
    let ?ps = "buildParams (param_names c) (path_captures c path)"
    have s: "spec_find regs k path = resolveDirect ?t k ?ps" for k
      unfolding spec_find_def Cons x by simp
    have "(\<exists>p. resolveDirect ?t m ?ps = Found p ?ps) \<longleftrightarrow> (\<exists>p ps. resolveDirect ?t m ?ps = Found p ps)"
      using resolveDirect_cases [of ?t m ?ps] by (metis router_match.distinct(3) router_match.inject(1))
    then show ?thesis
      using assms(3) allowed_exact [of ?t meth ?ps allowed m ?ps] unfolding find s by blast
  qed
qed

theorem allow_list_exact_witness:
  "fst (find_route (js ''PUT'') (js ''/u/7'') (demo_router shop)) = MethodNotAllowed [js ''GET'', js ''POST'', js ''HEAD'']
   \<and> (\<exists>p ps. fst (find_route (js ''HEAD'') (js ''/u/7'') (demo_router shop)) = Found p ps)"
proof -
  have a: "fst (find_route (js ''PUT'') (js ''/u/7'') (demo_router shop)) = MethodNotAllowed [js ''GET'', js ''POST'', js ''HEAD'']"
    by code_simp
  show ?thesis
    using allow_list_exact [OF demo_reach [OF shop_ok] nfc_id a, of "js ''HEAD''"] a by simp
qed

section \<open>Registration order\<close>

definition reg_key :: "jstr \<times> compiled_pattern \<times> 'p \<Rightarrow> step list \<times> jstr" where
  "reg_key = (\<lambda>(m, c, _). (steps c, m))"

lemma reach_unique: "router_reach upper nfc regs r \<Longrightarrow> nfc_keeps_slash nfc \<Longrightarrow> distinct (map reg_key regs)"
proof (induction rule: router_reach.induct)
  case (reach_add regs r pat meth payload r' c)
  have "None = add_error regs (upper meth) (arg_compiled nfc pat)"
    using add_route_correct [OF router_reach_inv [OF reach_add.hyps(1) reach_add.prems]
        arg_compiled_ok [OF reach_add.prems reach_add.hyps(2)] reach_add.hyps(3)] by blast
  then have "\<not> (\<exists>(m, c', p) \<in> set regs. steps c' = steps c \<and> m = upper meth)"
    unfolding reach_add.hyps(4) by (auto simp: add_error_def split: if_splits)
  then have "reg_key (upper meth, c, payload) \<notin> reg_key ` set regs"
    by (fastforce simp: reg_key_def)
  with reach_add show ?case by simp
qed auto

lemma handlers_for_distinct: "distinct (map reg_key regs) \<Longrightarrow> distinct (map fst (handlers_for regs st))"
proof (induction regs)
  case (Cons x regs)
  obtain m c p where x: "x = (m, c, p)" by (rule prod_cases3)
  show ?case
  proof (cases "steps c = st")
    case True
    have "m \<notin> fst ` set (handlers_for regs st)"
    proof
      assume "m \<in> fst ` set (handlers_for regs st)"
      then obtain c' p' where "(m, c', p') \<in> set regs" "steps c' = st" by (auto simp: handlers_for_def)
      then have "reg_key (m, c, p) \<in> reg_key ` set regs"
        using True by (intro image_eqI [of _ _ "(m, c', p')"]) (auto simp: reg_key_def)
      with Cons.prems show False by (simp add: x)
    qed
    moreover have "handlers_for (x # regs) st = (m, p) # handlers_for regs st"
      using True by (simp add: x handlers_for_def)
    ultimately show ?thesis using Cons by simp
  next
    case False
    with Cons show ?thesis by (simp add: x handlers_for_def)
  qed
qed (simp add: handlers_for_def)

lemma handlers_for_set: "set regs = set regs' \<Longrightarrow> set (handlers_for regs st) = set (handlers_for regs' st)"
  by (simp add: handlers_for_def)

fun same_answer :: "'p router_match \<Rightarrow> 'p router_match \<Rightarrow> bool" where
  "same_answer (MethodNotAllowed a) (MethodNotAllowed b) \<longleftrightarrow> set a = set b"
| "same_answer x y \<longleftrightarrow> x = y"

lemma resolveDirect_same_answer:
  assumes "map_of (handlers t) = map_of (handlers t')"
  shows "same_answer (resolveDirect t meth ps) (resolveDirect t' meth ps)"
proof -
  have "fst ` set (handlers t) = fst ` set (handlers t')"
    using assms by (metis dom_map_of_conv_image_fst)
  then show ?thesis
    unfolding resolveDirect_def assms by (simp del: js_Cons split: option.split)
qed

lemma matching_heads:
  assumes inv: "trie_inv regs n ts" and inv': "trie_inv regs' n' ts'" and set: "set regs = set regs'"
    and h: "matching_routes regs path = (m, c, p) # rest"
  shows "\<exists>m' c' p' rest'. matching_routes regs' path = (m', c', p') # rest' \<and> (m', c', p') \<in> set regs'
    \<and> (m, c, p) \<in> set regs \<and> steps c' = steps c"
proof -
  define root where "root = (\<lambda>regs :: (jstr \<times> compiled_pattern \<times> 'a) list. filter (\<lambda>(_, c, _). path = [47] \<and> segments c = []) regs)"
  define hits where "hits = (\<lambda>regs :: (jstr \<times> compiled_pattern \<times> 'a) list.
      filter (\<lambda>(_, c, _). captures (segments c) (request_segments path) \<noteq> None) regs)"
  have mr: "matching_routes xs path = root xs @ sort_by more_specific (hits xs)" for xs :: "(jstr \<times> compiled_pattern \<times> 'a) list"
    by (simp add: matching_routes_def root_def hits_def)
  have rset: "set (root regs') = set (root regs)" and hset: "set (hits regs') = set (hits regs)"
    using set by (auto simp: root_def hits_def)
  show ?thesis
  proof (cases "root regs")
    case (Cons y ys)
    then have y: "y = (m, c, p)" using h mr by simp
    then have "(m, c, p) \<in> set (root regs)" using Cons by simp
    then have mc: "(m, c, p) \<in> set regs" "segments c = []" by (auto simp: root_def)
    obtain z zs where z: "root regs' = z # zs" using rset Cons by (cases "root regs'") auto
    obtain m' c' p' where z': "z = (m', c', p')" by (rule prod_cases3)
    have "(m', c', p') \<in> set (root regs')" by (simp add: z z')
    then have "(m', c', p') \<in> set regs'" "segments c' = []" by (auto simp: root_def)
    with mc mr z z' show ?thesis by (simp add: steps_def)
  next
    case Nil
    with h mr have s: "sort_by more_specific (hits regs) = (m, c, p) # rest" by simp
    note b = best_first [OF s]
    have "set (sort_by more_specific (hits regs')) \<noteq> {}"
      unfolding reg_cmp.set_sort_by hset using b by (metis empty_iff)
    then have "\<exists>x ys. sort_by more_specific (hits regs') = x # ys" by (rule set_not_empty_Cons)
    then obtain x rest' where x: "sort_by more_specific (hits regs') = x # rest'" by (elim exE)
    obtain m' c' p' where x': "x = (m', c', p')" by (rule prod_cases3)
    note b' = best_first [OF x [unfolded x']]
    have mem: "(m, c, p) \<in> set (hits regs)" "(m', c', p') \<in> set (hits regs)"
      using b b' hset by auto
    have "compare_segments (segments c) (segments c') \<le> 0" using b mem by blast
    moreover have "compare_segments (segments c') (segments c) \<le> 0" using b' mem hset by blast
    ultimately have "segments_key (segments c) = segments_key (segments c')"
      using compare_segments_sign [of "segments c" "segments c'"] compare_segments_sign [of "segments c'" "segments c"]
      by (auto simp: order_sign_def sgn_if split: if_splits)
    moreover have "captures (segments c) (request_segments path) \<noteq> None"
        "captures (segments c') (request_segments path) \<noteq> None"
      using mem by (simp_all add: hits_def)
    ultimately have "steps c' = steps c"
      unfolding steps_def by (metis key_captures_steps)
    moreover have "root regs' = []" using rset Nil by (metis set_empty)
    moreover have "(m, c, p) \<in> set regs" "(m', c', p') \<in> set regs'"
      using mem set by (simp_all add: hits_def)
    ultimately show ?thesis using mr x x' by auto
  qed
qed

text \<open>
  C2: the order of registration does not matter: two routers that hold the same routes answer every
  request alike, whatever was looked up on either before (the \<open>Allow\<close> list up to its order).
\<close>

theorem registration_order_irrelevant:
  assumes "router_reach upper nfc regs r" and "router_reach upper nfc regs' r'" and "nfc_keeps_slash nfc"
    and "set regs = set regs'"
  shows "same_answer (fst (find_route meth path r)) (fst (find_route meth path r'))"
proof -
  note inv = router_reach_inv [OF assms(1,3)] and inv' = router_reach_inv [OF assms(2,3)]
  have trie: "trie_inv regs (root r) (terms r)" "trie_inv regs' (root r') (terms r')"
    using inv inv' by (auto simp: router_inv_def)
  have "same_answer (spec_find regs meth path) (spec_find regs' meth path)"
  proof (cases "matching_routes regs path")
    case Nil
    have "matching_routes regs' path = []"
    proof (rule ccontr)
      assume "matching_routes regs' path \<noteq> []"
      then obtain m c p rest where "matching_routes regs' path = (m, c, p) # rest"
        by (metis neq_Nil_conv prod_cases3)
      with matching_heads [OF trie(2,1) assms(4) [symmetric] this] Nil show False by simp
    qed
    with Nil show ?thesis by (simp add: spec_find_def)
  next
    case (Cons x rest)
    obtain m c p where x: "x = (m, c, p)" by (rule prod_cases3)
    obtain m' c' p' rest' where h': "matching_routes regs' path = (m', c', p') # rest'" "(m', c', p') \<in> set regs'"
        "(m, c, p) \<in> set regs" "steps c' = steps c"
      using matching_heads [OF trie assms(4) Cons [unfolded x]] by blast
    have c': "(m', c', p') \<in> set regs" using h' assms(4) by simp
    obtain i where i: "compiled_ok c" "terminal_at (segments c) (root r) = Some i" "tnames (terms r ! i) = param_names c"
      using trie_inv_reg [OF trie(1) h'(3)] by blast
    have "param_names c' = param_names c"
      using same_steps_terminal(1) [OF trie(1) i(2)] i(3) c' h'(4) by blast
    moreover have "path_captures c' path = path_captures c path"
      using captures_steps [of "segments c'" "segments c"] h'(4) i(1) trie_inv_reg [OF trie(1) c'] compiled_mixed_wf
      unfolding steps_def path_captures_def by metis
    moreover have "map_of (handlers_for regs (steps c)) = map_of (handlers_for regs' (steps c))"
      using handlers_for_distinct reach_unique assms handlers_for_set by (metis map_of_inject_set)
    ultimately show ?thesis
      unfolding spec_find_def Cons x h'(1) by (simp add: h'(4) resolveDirect_same_answer)
  qed
  then show ?thesis
    using find_correct [OF inv, of meth path] find_correct [OF inv', of meth path]
    by (cases "find_route meth path r"; cases "find_route meth path r'") simp
qed

theorem registration_order_irrelevant_witness:
  "same_answer (fst (find_route (js ''GET'') (js ''/f/a.txt'') (demo_router shop)))
     (fst (find_route (js ''GET'') (js ''/f/a.txt'') (demo_router shop_reversed)))
   \<and> fst (find_route (js ''GET'') (js ''/f/a.txt'') (demo_router shop_reversed)) = Found 4 [(js ''name'', js ''a'')]"
proof -
  have "set (demo_regs shop) = set (demo_regs shop_reversed)"
    by (auto simp: demo_regs_def shop_reversed_def)
  note s = registration_order_irrelevant [OF demo_reach [OF shop_ok] demo_reach [OF shop_reversed_ok] nfc_id this]
  have "fst (find_route (js ''GET'') (js ''/f/a.txt'') (demo_router shop_reversed)) = Found 4 [(js ''name'', js ''a'')]"
    by code_simp
  with s show ?thesis by blast
qed

end
