(* ===== verification/RoutePath.thy ===== *)
theory RoutePath
  imports Router
begin

text \<open>
  A pattern against one path, without a trie, of \<open>packages/core/src/router/pattern.ts\<close>: the matcher
  that the browser, the mock server and the adapters use, the decoding of captures, and the path a
  pattern and its parameters name.

  The anchored regular expression of a pattern is \<open>regex_groups\<close>: one group per dynamic segment. A
  \<open>.\<close> there is any character but the four line terminators.
\<close>

section \<open>Decoding captures\<close>

fun decode_entries :: "params \<Rightarrow> params option" where
  "decode_entries [] = Some []"
| "decode_entries ((k, v) # ps) =
     (case (if 37 \<in> set v then decode_uri_component v else Some v) of
        None \<Rightarrow> None
      | Some d \<Rightarrow> map_option ((#) (k, d)) (decode_entries ps))"

definition decodeRouteParams :: "params \<Rightarrow> params option" where
  "decodeRouteParams raw = decode_entries raw"

section \<open>Matching one pattern\<close>

datatype pattern_match = Matched params | NotMatched | Malformed

definition dot :: "nat \<Rightarrow> bool" where
  "dot c \<longleftrightarrow> c \<notin> {10, 13, 8232, 8233}"

fun regex_groups :: "segment list \<Rightarrow> jstr list \<Rightarrow> jstr list option" where
  "regex_groups [] rs = (if rs = [] then Some [] else None)"
| "regex_groups (Wildcard _ # segs) rs =
     (let rest = join_with [47] rs in
      if segs = [] \<and> rs \<noteq> [] \<and> rest \<noteq> [] \<and> list_all dot rest then Some [rest] else None)"
| "regex_groups (Static v # segs) (r # rs) = (if r = v then regex_groups segs rs else None)"
| "regex_groups (_ # segs) (r # rs) =
     (if r = [] then None else map_option ((#) r) (regex_groups segs rs))"
| "regex_groups (_ # segs) [] = None"

definition regex_exec :: "compiled_pattern \<Rightarrow> jstr \<Rightarrow> jstr list option" where
  "regex_exec c path =
     (if segments c = [] then (if path = [47] then Some [] else None)
      else
        (case path of
           [] \<Rightarrow> None
         | x # p \<Rightarrow> if x = 47 then regex_groups (segments c) (split_on 47 p) else None))"

definition assign :: "jstr list \<Rightarrow> jstr list \<Rightarrow> params \<Rightarrow> params" where
  "assign ns vs ps = fold (\<lambda>(n, v). AList.update n v) (zip ns vs) ps"

fun match_groups :: "segment list \<Rightarrow> jstr list \<Rightarrow> jstr list \<Rightarrow> params \<Rightarrow> params option" where
  "match_groups [] gs ns ps = Some ps"
| "match_groups (Static _ # segs) gs ns ps = match_groups segs gs ns ps"
| "match_groups (Mixed parts # segs) gs ns ps =
     (case matchMixedSegment (mixedSegmentShape parts) (case gs of [] \<Rightarrow> [] | g # _ \<Rightarrow> g) [] (constrainedParts parts) of
        (False, _) \<Rightarrow> None
      | (True, caps) \<Rightarrow> match_groups segs (drop 1 gs) (drop (length caps) ns) (assign ns caps ps))"
| "match_groups (_ # segs) gs ns ps =
     match_groups segs (drop 1 gs) (drop 1 ns) (assign ns [case gs of [] \<Rightarrow> [] | g # _ \<Rightarrow> g] ps)"

definition matchRoutePattern :: "compiled_pattern \<Rightarrow> jstr \<Rightarrow> pattern_match" where
  "matchRoutePattern c path =
     (case regex_exec c path of
        None \<Rightarrow> NotMatched
      | Some groups \<Rightarrow>
          (case match_groups (segments c) groups (param_names c) [] of
             None \<Rightarrow> NotMatched
           | Some ps \<Rightarrow>
               (case decodeRouteParams ps of None \<Rightarrow> Malformed | Some d \<Rightarrow> Matched d)))"

section \<open>Filling a pattern\<close>

type_synonym fill_params = "(jstr \<times> jstr option) list"

definition fillValue :: "fill_params \<Rightarrow> jstr \<Rightarrow> jstr option" where
  "fillValue ps name =
     (case map_of ps name of Some (Some v) \<Rightarrow> if v = [] then None else Some v | _ \<Rightarrow> None)"

definition spell :: "jstr \<Rightarrow> jstr option" where
  "spell v = (case encodePathSegment v of Inl _ \<Rightarrow> None | Inr e \<Rightarrow> Some e)"

definition noted :: "jstr list option \<Rightarrow> jstr \<Rightarrow> jstr list option" where
  "noted l name =
     (case l of None \<Rightarrow> Some [name] | Some ns \<Rightarrow> Some (if name \<in> set ns then ns else ns @ [name]))"

record fill_state =
  fpath :: jstr
  missing :: "jstr list option"
  invalid :: "jstr list option"

fun fill_pieces :: "jstr \<Rightarrow> jstr list \<Rightarrow> jstr \<Rightarrow> bool \<Rightarrow> jstr list option \<Rightarrow> jstr \<times> bool \<times> jstr list option" where
  "fill_pieces name [] joined any bad = (joined, any, bad)"
| "fill_pieces name (piece # ps) joined any bad =
     (if piece = [] then fill_pieces name ps joined any bad
      else
        (let encoded = spell piece;
             bad' = (if encoded = None then noted bad name else bad);
             e = (case encoded of None \<Rightarrow> [] | Some e \<Rightarrow> e) in
         fill_pieces name ps (joined @ (if any then 47 # e else e)) True bad'))"

text \<open>What the parts after a parameter forbid of its encoded value.\<close>

definition ambiguous :: "jstr \<Rightarrow> mixed_part list \<Rightarrow> bool" where
  "ambiguous encoded rest =
     (case rest of
        Param _ _ # _ \<Rightarrow> length encoded \<noteq> 1
      | Lit w # _ # _ \<Rightarrow> index_of (encoded @ w) w 1 \<noteq> Some (length encoded)
      | _ \<Rightarrow> False)"

fun fill_parts :: "fill_params \<Rightarrow> mixed_part list \<Rightarrow> jstr \<Rightarrow> fill_state \<Rightarrow> fill_state" where
  "fill_parts ps [] text st = st\<lparr> fpath := fpath st @ 47 # text \<rparr>"
| "fill_parts ps (Lit v # rest) text st = fill_parts ps rest (text @ v) st"
| "fill_parts ps (Param name _ # rest) text st =
     (case fillValue ps name of
        None \<Rightarrow> fill_parts ps rest text (st\<lparr> missing := noted (missing st) name \<rparr>)
      | Some v \<Rightarrow>
          (case spell v of
             None \<Rightarrow> fill_parts ps rest text (st\<lparr> invalid := noted (invalid st) name \<rparr>)
           | Some encoded \<Rightarrow>
               fill_parts ps rest (text @ encoded)
                 (if ambiguous encoded rest then st\<lparr> invalid := noted (invalid st) name \<rparr> else st)))"

fun fill_segment :: "fill_params \<Rightarrow> segment \<Rightarrow> fill_state \<Rightarrow> fill_state" where
  "fill_segment ps (Static v) st = st\<lparr> fpath := fpath st @ 47 # v \<rparr>"
| "fill_segment ps (ParamSeg name) st =
     (case fillValue ps name of
        None \<Rightarrow> st\<lparr> fpath := fpath st @ [47], missing := noted (missing st) name \<rparr>
      | Some v \<Rightarrow>
          (case spell v of
             None \<Rightarrow> st\<lparr> fpath := fpath st @ [47], invalid := noted (invalid st) name \<rparr>
           | Some encoded \<Rightarrow> st\<lparr> fpath := fpath st @ 47 # encoded \<rparr>))"
| "fill_segment ps (Wildcard name) st =
     (let (joined, any, bad) =
        (case fillValue ps name of
           None \<Rightarrow> ([], False, invalid st)
         | Some v \<Rightarrow> fill_pieces name (split_on 47 v) [] False (invalid st)) in
      st\<lparr> fpath := fpath st @ 47 # joined,
          missing := (if any then missing st else noted (missing st) name), invalid := bad \<rparr>)"
| "fill_segment ps (Mixed parts) st = fill_parts ps parts [] st"

datatype filled = Filled jstr | Unfilled "jstr list" "jstr list"

definition fillCompiled :: "compiled_pattern \<Rightarrow> fill_params \<Rightarrow> filled" where
  "fillCompiled c ps =
     (let st = fold (fill_segment ps) (segments c) \<lparr> fpath = [], missing = None, invalid = None \<rparr> in
      if missing st \<noteq> None \<or> invalid st \<noteq> None
      then Unfilled (case missing st of None \<Rightarrow> [] | Some l \<Rightarrow> l) (case invalid st of None \<Rightarrow> [] | Some l \<Rightarrow> l)
      else Filled (if fpath st = [] then [47] else fpath st))"

definition fillRoutePath ::
    "(jstr \<Rightarrow> jstr) \<Rightarrow> route_arg \<Rightarrow> fill_params \<Rightarrow> route_config_error + filled" where
  "fillRoutePath nfc pat ps =
     (case arg_compiled nfc pat of Inl err \<Rightarrow> Inl err | Inr c \<Rightarrow> Inr (fillCompiled c ps))"

section \<open>One grammar for the trie and the matcher\<close>

text \<open>What the trie makes of one route, as the request sees it: captures, then decoded.\<close>

definition route_captures :: "compiled_pattern \<Rightarrow> jstr \<Rightarrow> jstr list option" where
  "route_captures c path =
     (if segments c = [] then (if path = [47] then Some [] else None)
      else captures (segments c) (request_segments path))"

fun decode_all :: "jstr list \<Rightarrow> jstr list option" where
  "decode_all [] = Some []"
| "decode_all (v # vs) =
     (case decode_uri_component v of None \<Rightarrow> None | Some d \<Rightarrow> map_option ((#) d) (decode_all vs))"

definition answer :: "jstr list \<Rightarrow> jstr list option \<Rightarrow> pattern_match" where
  "answer names caps =
     (case caps of
        None \<Rightarrow> NotMatched
      | Some vs \<Rightarrow> (case decode_all vs of None \<Rightarrow> Malformed | Some ds \<Rightarrow> Matched (zip names ds)))"

text \<open>A wildcard's capture the regular expression can match: not empty, no line terminator.\<close>

fun visible :: "segment list \<Rightarrow> jstr list \<Rightarrow> bool" where
  "visible (Wildcard _ # segs) rs \<longleftrightarrow> join_with [47] rs \<noteq> [] \<and> list_all dot (join_with [47] rs)"
| "visible (_ # segs) (r # rs) \<longleftrightarrow> visible segs rs"
| "visible _ _ \<longleftrightarrow> True"

lemma decode_no_percent: "37 \<notin> set v \<Longrightarrow> decode_uri_component v = Some v"
  by (induction v) auto

lemma shape_length: "seg_wf (Mixed ps) \<Longrightarrow> length (mixedSegmentShape ps) = Suc (length (params_of ps)) \<and> 2 \<le> length (mixedSegmentShape ps)"
  by (cases "params_of ps") (auto simp: mixedSegmentShape_rec length_shape_rec)

lemma mixed_captures_params:
  "seg_wf (Mixed ps) \<Longrightarrow> mixed_captures (mixedSegmentShape ps) c r = Some vs \<Longrightarrow> length vs = length (params_of ps) \<and> r \<noteq> []"
  using mixed_captures_length [of "mixedSegmentShape ps" c r vs] shape_length [of ps] by simp

abbreviation names_of :: "segment list \<Rightarrow> jstr list" where
  "names_of segs \<equiv> concat (map seg_names segs)"

lemma captures_length:
  "list_all seg_wf segs \<Longrightarrow> captures segs rs = Some vs \<Longrightarrow> length vs = length (names_of segs)"
proof (induction segs rs arbitrary: vs rule: captures.induct)
  case (5 ps segs r rs)
  then obtain us ws where "mixed_captures (mixedSegmentShape ps) (constrainedParts ps) r = Some us"
      "captures segs rs = Some ws" "vs = us @ ws" by (auto split: option.splits)
  with 5 mixed_captures_params [of ps] show ?case by simp
qed (auto split: if_splits)

lemma assign_append:
  "length ns = length vs \<Longrightarrow> assign (ns @ ns') (vs @ vs') ps = assign ns' vs' (assign ns vs ps)"
  by (simp add: assign_def)

lemma groups_captures:
  "list_all seg_wf segs \<Longrightarrow> visible segs rs \<Longrightarrow>
   (case regex_groups segs rs of None \<Rightarrow> None | Some gs \<Rightarrow> match_groups segs gs (names_of segs) ps)
   = map_option (\<lambda>vs. assign (names_of segs) vs ps) (captures segs rs)"
proof (induction segs rs arbitrary: ps rule: captures.induct)
  case (1 rs)
  then show ?case by (simp add: assign_def)
next
  case (2 nm segs rs)
  then show ?case by (auto simp: Let_def)
next
  case (3 v segs r rs)
  show ?case
  proof (cases "r = v")
    case True
    have p: "list_all seg_wf segs" "visible segs rs" using "3.prems" by simp_all
    show ?thesis
      using "3.IH" [OF True p, of ps] True by (simp split: option.splits)
  qed simp
next
  case (4 nm segs r rs)
  have a: "assign (nm # names_of segs) (r # vs) ps = assign (names_of segs) vs (assign [nm] [r] ps)" for vs
    by (simp add: assign_def)
  have IH: "(case regex_groups segs rs of None \<Rightarrow> None | Some gs \<Rightarrow> match_groups segs gs (names_of segs) (assign [nm] [r] ps))
      = map_option (\<lambda>vs. assign (names_of segs) vs (assign [nm] [r] ps)) (captures segs rs)" if "r \<noteq> []"
  proof (rule "4.IH" [OF that])
    show "list_all seg_wf segs" "visible segs rs" using "4.prems" by simp_all
  qed
  show ?case
  proof (cases "r = []")
    case False
    have b: "assign ns' [] ps' = ps'" for ns' ps' by (simp add: assign_def)
    from IH False show ?thesis
      by (cases "regex_groups segs rs") (auto simp: a b option.map_comp comp_def)
  qed simp
next
  case (5 parts segs r rs)
  have wf: "seg_wf (Mixed parts)" using "5.prems" by simp
  show ?case
  proof (cases "mixed_captures (mixedSegmentShape parts) (constrainedParts parts) r")
    case None
    then show ?thesis
      by (auto simp: matchMixed_stack split: option.split)
  next
    case (Some us)
    have l: "length us = length (params_of parts)" "r \<noteq> []"
      using mixed_captures_params [OF wf Some] by auto
    have IH: "(case regex_groups segs rs of None \<Rightarrow> None | Some gs \<Rightarrow> match_groups segs gs (names_of segs) (assign (params_of parts @ names_of segs) us ps))
      = map_option (\<lambda>vs. assign (names_of segs) vs (assign (params_of parts @ names_of segs) us ps)) (captures segs rs)"
    proof (rule "5.IH" [OF Some])
      show "list_all seg_wf segs" "visible segs rs" using "5.prems" by simp_all
    qed
    have a: "assign (params_of parts @ names_of segs) us ps = assign (params_of parts) us ps"
      using l assign_append [of "params_of parts" us "names_of segs" "[]" ps] by (simp add: assign_def)
    have b: "assign (params_of parts @ names_of segs) (us @ vs) ps = assign (names_of segs) vs (assign (params_of parts) us ps)" for vs
      using l by (intro assign_append) simp
    show ?thesis
      using IH l by (cases "regex_groups segs rs") (auto simp: Some matchMixed_stack a b option.map_comp comp_def)
  qed
qed auto

lemma assign_zip: "length ns = length vs \<Longrightarrow> distinct ns \<Longrightarrow> assign ns vs [] = zip ns vs"
proof -
  have "fold (\<lambda>(n, v). AList.update n v) xs ps = ps @ xs" if "distinct (map fst (ps @ xs))"
    for xs ps :: "params"
    using that
  proof (induction xs arbitrary: ps)
    case (Cons x xs)
    then have "AList.update (fst x) (snd x) ps = ps @ [x]"
      by (simp add: AList_update_new)
    with Cons.IH [of "ps @ [x]"] Cons.prems show ?case by (simp add: case_prod_beta)
  qed simp
  from this [of "[]" "zip ns vs"] show "length ns = length vs \<Longrightarrow> distinct ns \<Longrightarrow> assign ns vs [] = zip ns vs"
    by (simp add: assign_def)
qed

lemma decode_entries_zip:
  "length ns = length vs \<Longrightarrow> decode_entries (zip ns vs) = map_option (zip ns) (decode_all vs)"
proof (induction ns vs rule: list_induct2)
  case (Cons n ns v vs)
  have "(if 37 \<in> set v then decode_uri_component v else Some v) = decode_uri_component v"
    by (simp add: decode_no_percent)
  with Cons show ?case
    by (auto simp: option.map_comp comp_def split: option.split)
qed simp

lemma match_captures:
  assumes c: "compiled_ok c" and path: "path \<noteq> []" "path ! 0 = 47"
    and vis: "visible (segments c) (request_segments path)"
  shows "matchRoutePattern c path = answer (param_names c) (route_captures c path)"
proof (cases "segments c = []")
  case True
  with c have "param_names c = []" by (simp add: compiled_ok_def pattern_wf_def)
  with True show ?thesis
    by (simp add: matchRoutePattern_def regex_exec_def route_captures_def answer_def decodeRouteParams_def)
next
  case False
  obtain p where p: "path = 47 # p" using path by (cases path) auto
  have rs: "request_segments path = split_on 47 p" by (simp add: p request_segments_def)
  have names: "param_names c = names_of (segments c)" "distinct (param_names c)"
    using c by (auto simp: compiled_ok_def pattern_wf_def)
  note gc = groups_captures [OF compiled_seg_wf [OF c] vis, of "[]"]
  show ?thesis
  proof (cases "captures (segments c) (request_segments path)")
    case None
    with gc have "(case regex_groups (segments c) (split_on 47 p) of None \<Rightarrow> None
        | Some gs \<Rightarrow> match_groups (segments c) gs (param_names c) []) = None"
      unfolding rs names(1) by simp
    with None False show ?thesis
      by (auto simp: matchRoutePattern_def regex_exec_def route_captures_def answer_def p split: option.splits)
  next
    case (Some vs)
    have len: "length (param_names c) = length vs"
      using captures_length [OF compiled_seg_wf [OF c] Some] names by simp
    have "(case regex_groups (segments c) (split_on 47 p) of None \<Rightarrow> None
        | Some gs \<Rightarrow> match_groups (segments c) gs (param_names c) []) = Some (zip (param_names c) vs)"
      using gc Some assign_zip [OF len names(2)] unfolding rs names(1) by simp
    with Some False len show ?thesis
      by (auto simp: matchRoutePattern_def regex_exec_def route_captures_def answer_def p decodeRouteParams_def
          decode_entries_zip option.map_comp comp_def split: option.splits)
  qed
qed

lemma buildParams_zip: "length names = length vs \<Longrightarrow> distinct names \<Longrightarrow> buildParams names vs = zip names vs"
proof -
  have loop: "buildParams_loop names vs ps = ps @ zip names vs"
    if "length names = length vs" "distinct names" "set names \<inter> fst ` set ps = {}" for ps
    using that
  proof (induction names vs ps rule: buildParams_loop.induct)
    case (1 n ns v vs ps)
    then have "AList.update n v ps = ps @ [(n, v)]" by (intro AList_update_new) auto
    with 1 show ?case by (auto simp: image_Un)
  qed auto
  show "length names = length vs \<Longrightarrow> distinct names \<Longrightarrow> buildParams names vs = zip names vs"
    unfolding buildParams_def using loop by simp
qed

lemma sort_by_small: "sort_by f [] = []" "sort_by f [x] = [x]"
  by (simp_all add: sort_by_def)

text \<open>What the router answers when it holds one route.\<close>

lemma one_route_found:
  assumes reach: "router_reach upper nfc [(m, c, v)] r" and keeps: "nfc_keeps_slash nfc"
  shows "compiled_ok c"
    and "fst (find_route m path r) =
      (case route_captures c path of None \<Rightarrow> NotFound | Some vs \<Rightarrow> Found v (zip (param_names c) vs))"
proof -
  note inv = router_reach_inv [OF reach keeps]
  show ok: "compiled_ok c" using inv by (simp add: router_inv_def trie_inv_def)
  then have names: "param_names c = names_of (segments c)" "distinct (param_names c)" by (auto simp: compiled_ok_def pattern_wf_def)
  have "fst (find_route m path r) = spec_find [(m, c, v)] m path"
    using find_correct [OF inv, of m path] by (cases "find_route m path r") simp
  also have "\<dots> = (case route_captures c path of None \<Rightarrow> NotFound | Some vs \<Rightarrow> Found v (zip (param_names c) vs))"
  proof (cases "segments c = []")
    case True
    have root: "request_segments [47] = [[]]" by (simp add: request_segments_def)
    have none: "captures [] (request_segments path) = None" by (cases "request_segments path") (simp_all add: request_segments_def)
    have "names_of [] = []" by simp
    then have "param_names c = []" using names(1) True by simp
    with True none show ?thesis
      by (simp add: spec_find_def matching_routes_def route_captures_def handlers_for_def resolveDirect_def buildParams_def sort_by_small)
  next
    case False
    show ?thesis
    proof (cases "captures (segments c) (request_segments path)")
      case (Some vs)
      have len: "length (param_names c) = length vs"
        using captures_length [OF compiled_seg_wf [OF ok] Some] names by simp
      from False Some buildParams_zip [OF len names(2)] show ?thesis
        by (simp add: spec_find_def matching_routes_def route_captures_def handlers_for_def resolveDirect_def path_captures_def sort_by_small)
    qed (use False in \<open>simp add: spec_find_def matching_routes_def route_captures_def sort_by_small\<close>)
  qed
  finally show "fst (find_route m path r) =
      (case route_captures c path of None \<Rightarrow> NotFound | Some vs \<Rightarrow> Found v (zip (param_names c) vs))" .
qed

text \<open>The answer of the router, its values decoded as the matcher decodes them.\<close>

definition decoded_answer :: "'p router_match \<Rightarrow> pattern_match" where
  "decoded_answer m =
     (case m of
        Found v ps \<Rightarrow> (case decode_all (map snd ps) of None \<Rightarrow> Malformed | Some ds \<Rightarrow> Matched (zip (map fst ps) ds))
      | _ \<Rightarrow> NotMatched)"

text \<open>
  C5: the matcher of the browser, the mock server and the adapters reads a pattern as the server's router
  does: on a router that holds just the route of that pattern, however it came to hold it and whatever it
  was asked before, \<open>find\<close> and the matcher agree on every absolute path whose wildcard part is not empty
  and holds no line terminator: both refuse it, or the matcher gives the parameters of \<open>find\<close>, decoded.
\<close>

theorem matcher_agrees_with_trie:
  assumes "router_reach upper nfc [(m, c, v)] r" and "nfc_keeps_slash nfc" and "path \<noteq> []" and "path ! 0 = 47"
    and "visible (segments c) (request_segments path)"
  shows "matchRoutePattern c path = decoded_answer (fst (find_route m path r))"
proof -
  note f = one_route_found [OF assms(1,2)]
  have names: "param_names c = names_of (segments c)" "distinct (param_names c)"
    using f(1) by (auto simp: compiled_ok_def pattern_wf_def)
  have "length (param_names c) = length vs" if "route_captures c path = Some vs" for vs
    using that captures_length [OF compiled_seg_wf [OF f(1)], of "request_segments path" vs] names
    by (auto simp: route_captures_def split: if_splits)
  with match_captures [OF f(1) assms(3-5)] f(2) [of path] show ?thesis
    by (auto simp: decoded_answer_def answer_def split: option.splits)
qed

definition texts_only :: "(string \<times> string \<times> nat) list" where
  "texts_only = [(''GET'', ''/f/:name.txt'', 1)]"

theorem matcher_agrees_with_trie_witness:
  "matchRoutePattern (compiled_text ''/f/:name.txt'') (js ''/f/a%20b.txt'') = Matched [(js ''name'', js ''a b'')]
   \<and> fst (find_route (js ''GET'') (js ''/f/a%20b.txt'') (demo_router texts_only)) = Found 1 [(js ''name'', js ''a%20b'')]"
proof -
  have ok: "demo_all_ok texts_only new_router" by code_simp
  have regs: "demo_regs texts_only = [(js ''GET'', compiled_text ''/f/:name.txt'', 1)]" by code_simp
  have m: "js ''/f/a%20b.txt'' \<noteq> []" "js ''/f/a%20b.txt'' ! 0 = 47" by simp_all
  have v: "visible (segments (compiled_text ''/f/:name.txt'')) (request_segments (js ''/f/a%20b.txt''))"
    by code_simp
  have r: "fst (find_route (js ''GET'') (js ''/f/a%20b.txt'') (demo_router texts_only)) = Found 1 [(js ''name'', js ''a%20b'')]"
    by code_simp
  have d: "decoded_answer (Found (1 :: nat) [(js ''name'', js ''a%20b'')]) = Matched [(js ''name'', js ''a b'')]"
    by (simp add: decoded_answer_def decode_char_def Let_def take_escape_def hex_val_def utf16_def)
  show ?thesis
    using matcher_agrees_with_trie [OF demo_reach [OF ok, unfolded regs] nfc_id m v] r d by (simp del: js_Cons)
qed

definition files_only :: "(string \<times> string \<times> nat) list" where
  "files_only = [(''GET'', ''/files/*'', 1)]"

text \<open>
  On the paths left out above the two do part: with \<open>/files/*\<close> registered, the router serves
  \<open>/files/\<close> with an empty capture, and the matcher, for the same pattern and path, finds nothing.
\<close>

theorem empty_wildcard_diverges:
  "fst (find_route (js ''GET'') (js ''/files/'') (demo_router files_only)) = Found 1 [(js ''*'', [])]
   \<and> matchRoutePattern (compiled_text ''/files/*'') (js ''/files/'') = NotMatched"
  by code_simp

end
