(* ===== verification/RouteFill.thy ===== *)
theory RouteFill
  imports RoutePath
begin

text \<open>
  Filling a pattern with parameters and matching the path it gives are inverse: the scanner of a mixed
  segment takes a filled text apart exactly where \<open>fillRoutePath\<close> put it together, and a wildcard is
  decoded to its non-empty pieces.
\<close>

section \<open>What is filled is read back\<close>

lemma spell_Some: "spell v = Some e \<longleftrightarrow> encodePathSegment v = Inr e"
  by (auto simp: spell_def split: sum.splits)

lemma encoded_pct: "encodePathSegment v = Inr e \<Longrightarrow> pct_encode (raw_of CANONICAL) v = Some e"
  by (simp add: encodePathSegment_def encode_with_Inr)

lemma encoded_decodes: "wf_str v \<Longrightarrow> encodePathSegment v = Inr e \<Longrightarrow> decode_uri_component e = Some v"
  using encoded_pct pct_encode_decode percent_not_raw(1) by blast

lemma encoded_chars: "wf_str v \<Longrightarrow> encodePathSegment v = Inr e \<Longrightarrow> x \<in> set e \<Longrightarrow> segment_char x"
  using encoded_pct pct_encode_safe safe_segment_char by blast

lemma encoded_not_Nil: "encodePathSegment v = Inr e \<Longrightarrow> v \<noteq> [] \<Longrightarrow> wf_str v \<Longrightarrow> e \<noteq> []"
  using encoded_decodes by fastforce

text \<open>The values of a pattern's parameters that a caller's record holds, and their spellings.\<close>

definition wild_pieces :: "jstr \<Rightarrow> jstr list" where
  "wild_pieces v = filter (\<lambda>p. p \<noteq> []) (split_on 47 v)"

definition param_value :: "fill_params \<Rightarrow> segment \<Rightarrow> jstr \<Rightarrow> jstr" where
  "param_value ps sg name =
     (case fillValue ps name of
        None \<Rightarrow> []
      | Some v \<Rightarrow> (case sg of Wildcard _ \<Rightarrow> join_with [47] (wild_pieces v) | _ \<Rightarrow> v))"

definition filled_params :: "compiled_pattern \<Rightarrow> fill_params \<Rightarrow> params" where
  "filled_params c ps =
     concat (map (\<lambda>sg. map (\<lambda>n. (n, param_value ps sg n)) (seg_names sg)) (segments c))"

definition values_ok :: "fill_params \<Rightarrow> bool" where
  "values_ok ps \<longleftrightarrow> (\<forall>n v. fillValue ps n = Some v \<longrightarrow> wf_str v)"

definition constraints_hold :: "compiled_pattern \<Rightarrow> fill_params \<Rightarrow> bool" where
  "constraints_hold c ps \<longleftrightarrow>
     (\<forall>parts n k v e. Mixed parts \<in> set (segments c) \<longrightarrow> Param n (Some k) \<in> set parts \<longrightarrow>
        fillValue ps n = Some v \<longrightarrow> spell v = Some e \<longrightarrow> satisfies (Some k) e)"

lemma fillValue_not_Nil: "fillValue ps n = Some v \<Longrightarrow> v \<noteq> []"
  by (auto simp: fillValue_def split: option.splits if_splits)

text \<open>The text of one segment, when nothing is missing or invalid.\<close>

definition spelled :: "fill_params \<Rightarrow> jstr \<Rightarrow> jstr option" where
  "spelled ps n = Option.bind (fillValue ps n) spell"

fun parts_encoded :: "fill_params \<Rightarrow> mixed_part list \<Rightarrow> jstr list option" where
  "parts_encoded ps [] = Some []"
| "parts_encoded ps (Lit _ # rest) = parts_encoded ps rest"
| "parts_encoded ps (Param n _ # rest) =
     (case spelled ps n of
        None \<Rightarrow> None
      | Some e \<Rightarrow> if ambiguous e rest then None else map_option ((#) e) (parts_encoded ps rest))"

lemma noted_not_None [simp]: "noted l n \<noteq> None"
  by (simp add: noted_def split: option.split)

lemma fill_parts_missing: "missing (fill_parts ps parts tx st) = None \<Longrightarrow> missing st = None"
  by (induction ps parts tx st rule: fill_parts.induct) (fastforce split: option.splits if_splits)+

lemma fill_parts_invalid: "invalid (fill_parts ps parts tx st) = None \<Longrightarrow> invalid st = None"
  by (induction ps parts tx st rule: fill_parts.induct) (fastforce split: option.splits if_splits)+

lemmas fill_parts_monotone = fill_parts_missing fill_parts_invalid

lemma fill_parts_ok:
  "missing (fill_parts ps parts tx st) = None \<Longrightarrow> invalid (fill_parts ps parts tx st) = None \<Longrightarrow>
   \<exists>encs t. parts_encoded ps parts = Some encs \<and> render parts encs = Some t
     \<and> fill_parts ps parts tx st = st\<lparr> fpath := fpath st @ 47 # tx @ t \<rparr>"
proof (induction ps parts tx st rule: fill_parts.induct)
  case (1 ps tx st)
  then show ?case by simp
next
  case (2 ps v rest tx st)
  then obtain encs t where "parts_encoded ps rest = Some encs" "render rest encs = Some t"
      "fill_parts ps rest (tx @ v) st = st\<lparr> fpath := fpath st @ 47 # (tx @ v) @ t \<rparr>" by auto
  then show ?case by (intro exI [of _ encs] exI [of _ "v @ t"]) simp
next
  case (3 ps name c rest tx st)
  show ?case
  proof (cases "fillValue ps name")
    case None
    with 3 have "missing (fill_parts ps rest tx (st\<lparr> missing := noted (missing st) name \<rparr>)) = None" by simp
    from fill_parts_monotone(1) [OF this] show ?thesis by simp
  next
    case (Some v)
    show ?thesis
    proof (cases "spell v")
      case None
      with 3 Some have "invalid (fill_parts ps rest tx (st\<lparr> invalid := noted (invalid st) name \<rparr>)) = None" by simp
      from fill_parts_monotone(2) [OF this] show ?thesis by simp
    next
      case e: (Some e)
      let ?st = "if ambiguous e rest then st\<lparr> invalid := noted (invalid st) name \<rparr> else st"
      have m: "missing (fill_parts ps rest (tx @ e) ?st) = None" "invalid (fill_parts ps rest (tx @ e) ?st) = None"
        using 3 Some e by simp_all
      have amb: "\<not> ambiguous e rest"
        using fill_parts_monotone(2) [OF m(2)] by (auto split: if_splits)
      obtain encs t where "parts_encoded ps rest = Some encs" "render rest encs = Some t"
          "fill_parts ps rest (tx @ e) st = st\<lparr> fpath := fpath st @ 47 # (tx @ e) @ t \<rparr>"
        using "3.IH"(3) [OF Some e] m amb by auto
      then show ?thesis
        using Some e amb by (intro exI [of _ "e # encs"] exI [of _ "e @ t"]) (simp add: spelled_def)
    qed
  qed
qed

text \<open>The scanner takes a text apart at the places where it was put together.\<close>

lemma unambiguous_prefix:
  assumes amb: "\<not> ambiguous e rest" and lit: "parts_wf rest"
    and eq: "v @ t1 = e @ t2" and t1: "render rest vs = Some t1" and t2: "render rest es = Some t2"
    and v: "v \<noteq> []" and le: "length v \<le> length e"
  shows "v = e"
proof (cases "length v = length e")
  case False
  then have lt: "length v < length e" using le by simp
  show ?thesis
  proof (cases rest)
    case Nil
    then have "t1 = []" using t1 by (cases vs) auto
    moreover have "t2 = []" using t2 Nil by (cases es) auto
    ultimately show ?thesis using eq by simp
  next
    case (Cons p rest')
    show ?thesis
    proof (cases p)
      case (Param n c)
      with amb Cons lt v show ?thesis by (cases v) (auto simp: ambiguous_def)
    next
      case (Lit w)
      obtain r1 where r1: "t1 = w @ r1" "render rest' vs = Some r1" using t1 Cons Lit by auto
      obtain r2 where r2: "t2 = w @ r2" "render rest' es = Some r2" using t2 Cons Lit by auto
      show ?thesis
      proof (cases rest')
        case Nil
        then have "t1 = w" using r1 by (cases vs) auto
        moreover have "t2 = w" using r2 Nil by (cases es) auto
        ultimately show ?thesis using eq by simp
      next
        case (Cons q rest2)
        with amb \<open>rest = p # rest'\<close> Lit have io: "index_of (e @ w) w 1 = Some (length e)"
          by (simp add: ambiguous_def)
        have "prefix w (drop (length v) (v @ t1))" using r1 by simp
        then have "prefix w (drop (length v) ((e @ w) @ r2))" using eq r2 by simp
        then have "prefix w ((drop (length v) e @ w) @ r2)" using lt by simp
        then have "prefix w (drop (length v) e @ w)"
          by (rule prefix_length_prefix) simp_all
        then have "prefix w (drop (length v) (e @ w))" using lt by simp
        moreover have "1 \<le> length v" using v by (cases v) auto
        moreover have "1 \<le> length (e @ w)" using lt by simp
        ultimately have False
          using index_of_SomeD(2) [OF io, of "length v"] lt by blast
        then show ?thesis ..
      qed
    qed
  qed
qed (use eq in \<open>simp add: append_eq_append_conv\<close>)

lemma scanner_inverse:
  "parts_wf parts \<Longrightarrow> parts_encoded ps parts = Some encs \<Longrightarrow> render parts encs = Some t \<Longrightarrow>
   render parts vs = Some t \<Longrightarrow> [] \<notin> set vs \<Longrightarrow> map length vs \<le> map length encs \<Longrightarrow> vs = encs"
proof (induction ps parts arbitrary: encs vs t rule: parts_encoded.induct)
  case (1 ps)
  then show ?case by (cases vs; cases encs) auto
next
  case (2 ps w rest)
  then obtain r where "render rest encs = Some r" "render rest vs = Some r" by auto
  with 2 show ?case by simp
next
  case (3 ps n c rest)
  then obtain e es where e: "encs = e # es" "\<not> ambiguous e rest" "parts_encoded ps rest = Some es" "spelled ps n = Some e"
    by (auto split: option.splits if_splits)
  from "3.prems" obtain v vs' where v: "vs = v # vs'" by (cases vs) auto
  from "3.prems"(3) e obtain t2 where t2: "render rest es = Some t2" "t = e @ t2" by auto
  from "3.prems"(4) v obtain t1 where t1: "render rest vs' = Some t1" "t = v @ t1" by auto
  have le: "length v \<le> length e" using "3.prems"(6) e v by auto
  have "v = e"
    using unambiguous_prefix [OF e(2) _ _ t1(1) t2(1)] t1 t2 "3.prems" le v by auto
  moreover have "vs' = es"
  proof (rule "3.IH" [OF e(4,2) _ e(3) t2(1)])
    show "parts_wf rest" using "3.prems"(1) by simp
    show "render rest vs' = Some t2" using t1 t2 \<open>v = e\<close> by simp
    show "[] \<notin> set vs'" using "3.prems"(5) v by simp
    show "map length vs' \<le> map length es" using "3.prems"(6) e v \<open>v = e\<close> by auto
  qed
  ultimately show ?case by (simp add: e v)
qed

lemma parts_encoded_spelled:
  "parts_encoded ps parts = Some encs \<Longrightarrow> list_all2 (\<lambda>n e. spelled ps n = Some e) (params_of parts) encs"
proof (induction ps parts arbitrary: encs rule: parts_encoded.induct)
  case (3 ps n c rest)
  then obtain e es where "encs = e # es" "spelled ps n = Some e" "parts_encoded ps rest = Some es" "\<not> ambiguous e rest"
    by (auto split: option.splits if_splits)
  with "3.IH" show ?case by simp
qed auto

lemma encoded_check:
  "parts_encoded ps parts = Some encs \<Longrightarrow>
   (\<And>n k e. Param n (Some k) \<in> set parts \<Longrightarrow> spelled ps n = Some e \<Longrightarrow> satisfies (Some k) e) \<Longrightarrow>
   check_parts parts (out @ encs) (length out)"
proof (induction ps parts arbitrary: encs out rule: parts_encoded.induct)
  case (3 ps n c rest)
  then obtain e es where e: "encs = e # es" "spelled ps n = Some e" "parts_encoded ps rest = Some es" "\<not> ambiguous e rest"
    by (auto split: option.splits if_splits)
  have "satisfies c e"
    using "3.prems"(2) [of n _ e] e(2) by (cases c) (auto simp: satisfies_def)
  moreover have "check_parts rest ((out @ [e]) @ es) (length (out @ [e]))"
    by (rule "3.IH" [OF e(2,4,3)]) (use "3.prems"(2) in auto)
  ultimately show ?case by (simp add: e(1) nth_append)
qed auto

lemma mixed_captures_filled:
  assumes wf: "seg_wf (Mixed parts)" and enc: "parts_encoded ps parts = Some encs"
    and t: "render parts encs = Some t" and ne: "[] \<notin> set encs"
    and con: "\<And>n k e. Param n (Some k) \<in> set parts \<Longrightarrow> spelled ps n = Some e \<Longrightarrow> satisfies (Some k) e"
  shows "mixed_captures (mixedSegmentShape parts) (constrainedParts parts) t = Some encs"
proof -
  let ?sh = "mixedSegmentShape parts"
  have acc: "shape_accepts ?sh t vs \<longleftrightarrow> render parts vs = Some t \<and> [] \<notin> set vs" for vs
    using wf shape_length [OF wf] by (simp add: shape_accepts_text render_shape mixedSegmentShape_rec)
  have "fst (matchMixedSegment ?sh t [] None)"
    by (rule matchMixed_complete [of _ _ encs]) (simp add: acc t ne)
  then obtain vs where m: "matchMixedSegment ?sh t [] None = (True, vs)"
    by (cases "matchMixedSegment ?sh t [] None") auto
  have "vs = encs"
  proof (rule matchMixed_True [OF m])
    fix vs' assume "vs = [] @ vs'" "shape_accepts ?sh t vs'"
      "\<And>ws. shape_accepts ?sh t ws \<Longrightarrow> map length vs' \<le> map length ws"
    then show "vs = encs"
      using scanner_inverse [OF _ enc t, of vs'] wf acc t ne by auto
  qed
  with m have m': "matchMixedSegment ?sh t [] None = (True, encs)" by simp
  show ?thesis
  proof (cases "constrainedParts parts")
    case None
    with m' show ?thesis by (simp add: mixed_captures_def)
  next
    case (Some qs)
    have "check_parts parts ([] @ encs) (length ([] :: jstr list))"
      by (rule encoded_check [OF enc con])
    with Some constrained_Some [OF Some] m' show ?thesis
      by (simp add: mixed_captures_def matchMixed_checked)
  qed
qed

fun seg_encoded :: "fill_params \<Rightarrow> segment \<Rightarrow> (jstr \<times> jstr list) option" where
  "seg_encoded ps (Static v) = Some (v, [])"
| "seg_encoded ps (ParamSeg n) = map_option (\<lambda>e. (e, [e])) (spelled ps n)"
| "seg_encoded ps (Wildcard n) =
     (case fillValue ps n of
        None \<Rightarrow> None
      | Some v \<Rightarrow>
          if wild_pieces v \<noteq> [] \<and> list_all (\<lambda>p. spell p \<noteq> None) (wild_pieces v)
          then (let t = join_with [47] (map (the \<circ> spell) (wild_pieces v)) in Some (t, [t])) else None)"
| "seg_encoded ps (Mixed parts) =
     (case parts_encoded ps parts of
        None \<Rightarrow> None | Some encs \<Rightarrow> map_option (\<lambda>t. (t, encs)) (render parts encs))"

lemma join_concat: "join_with [47] (x # xs) = x @ concat (map ((#) 47) xs)"
  by (induction xs arbitrary: x) simp_all

lemma fill_pieces_bad: "fill_pieces n ps j any bad = (j', any', None) \<Longrightarrow> bad = None"
  by (induction n ps j any bad rule: fill_pieces.induct) (fastforce simp: Let_def split: if_splits option.splits)+

lemma fill_pieces_more:
  "fill_pieces n ps j True bad = (j', any', None) \<Longrightarrow>
   any' \<and> list_all (\<lambda>p. spell p \<noteq> None) (filter (\<lambda>p. p \<noteq> []) ps)
   \<and> j' = j @ concat (map (\<lambda>p. 47 # the (spell p)) (filter (\<lambda>p. p \<noteq> []) ps))"
proof (induction ps arbitrary: j bad)
  case (Cons p ps)
  show ?case
  proof (cases "p = []")
    case False
    with Cons.prems have f: "fill_pieces n ps (j @ 47 # (case spell p of None \<Rightarrow> [] | Some e \<Rightarrow> e)) True
        (if spell p = None then noted bad n else bad) = (j', any', None)"
      by (simp add: Let_def)
    with fill_pieces_bad [OF f] have "spell p \<noteq> None" by (auto split: if_splits)
    with Cons.IH [OF f] False show ?thesis by auto
  qed (use Cons.IH [of j bad] Cons.prems in simp)
qed simp

lemma fill_pieces_start:
  "fill_pieces n ps [] False bad = (j', True, None) \<Longrightarrow>
   filter (\<lambda>p. p \<noteq> []) ps \<noteq> [] \<and> list_all (\<lambda>p. spell p \<noteq> None) (filter (\<lambda>p. p \<noteq> []) ps)
   \<and> j' = join_with [47] (map (the \<circ> spell) (filter (\<lambda>p. p \<noteq> []) ps))"
proof (induction ps arbitrary: bad)
  case (Cons p ps)
  show ?case
  proof (cases "p = []")
    case False
    with Cons.prems have f: "fill_pieces n ps (case spell p of None \<Rightarrow> [] | Some e \<Rightarrow> e) True
        (if spell p = None then noted bad n else bad) = (j', True, None)"
      by (simp add: Let_def)
    from fill_pieces_bad [OF f] have "spell p \<noteq> None" by (auto split: if_splits)
    then obtain e where "spell p = Some e" by auto
    with fill_pieces_more [OF f] False show ?thesis
      by (auto simp: join_concat comp_def)
  qed (use Cons.IH [of bad] Cons.prems in simp)
qed simp

lemma fill_segment_ok:
  assumes "missing (fill_segment ps sg st) = None" and "invalid (fill_segment ps sg st) = None"
  shows "missing st = None \<and> invalid st = None \<and>
    (\<exists>t encs. seg_encoded ps sg = Some (t, encs) \<and> fill_segment ps sg st = st\<lparr> fpath := fpath st @ 47 # t \<rparr>)"
proof (cases sg)
  case (ParamSeg n)
  with assms show ?thesis
    by (auto simp: spelled_def split: option.splits)
next
  case (Wildcard n)
  show ?thesis
  proof (cases "fillValue ps n")
    case None
    with Wildcard assms show ?thesis by simp
  next
    case (Some v)
    obtain j any bad where f: "fill_pieces n (split_on 47 v) [] False (invalid st) = (j, any, bad)"
      by (rule prod_cases3)
    with Wildcard Some assms have b: "bad = None" "any" "missing st = None" by (auto split: if_splits)
    note g = fill_pieces_bad [OF f [unfolded b(1)]]
    have s: "wild_pieces v \<noteq> [] \<and> list_all (\<lambda>p. spell p \<noteq> None) (wild_pieces v)
        \<and> j = join_with [47] (map (the \<circ> spell) (wild_pieces v))"
      using fill_pieces_start [of n "split_on 47 v" "invalid st" j] f b by (simp add: wild_pieces_def)
    then have e: "seg_encoded ps sg = Some (j, [j])"
      using Some by (simp add: Wildcard Let_def)
    have "fill_segment ps sg st = st\<lparr> fpath := fpath st @ 47 # j \<rparr>"
      using f Some b g by (simp add: Wildcard)
    with e b(3) g show ?thesis by blast
  qed
next
  case (Mixed parts)
  with fill_parts_ok [of ps parts "[]" st] fill_parts_monotone [of ps parts "[]" st] assms
  show ?thesis by auto
qed (use assms in simp)

lemma fill_segments_ok:
  "missing (fold (fill_segment ps) segs st) = None \<Longrightarrow> invalid (fold (fill_segment ps) segs st) = None \<Longrightarrow>
   missing st = None \<and> invalid st = None \<and>
   (\<exists>tes. list_all2 (\<lambda>sg te. seg_encoded ps sg = Some te) segs tes
      \<and> fpath (fold (fill_segment ps) segs st) = fpath st @ concat (map (\<lambda>te. 47 # fst te) tes))"
proof (induction segs arbitrary: st)
  case (Cons sg segs)
  from Cons.IH [of "fill_segment ps sg st"] Cons.prems obtain tes where
    m: "missing (fill_segment ps sg st) = None" "invalid (fill_segment ps sg st) = None"
    and t: "list_all2 (\<lambda>sg te. seg_encoded ps sg = Some te) segs tes"
    "fpath (fold (fill_segment ps) segs (fill_segment ps sg st))
       = fpath (fill_segment ps sg st) @ concat (map (\<lambda>te. 47 # fst te) tes)"
    by auto
  from fill_segment_ok [OF m] obtain x encs where "missing st = None" "invalid st = None"
      "seg_encoded ps sg = Some (x, encs)" "fill_segment ps sg st = st\<lparr> fpath := fpath st @ 47 # x \<rparr>" by blast
  with t show ?case by (intro conjI exI [of _ "(x, encs) # tes"]) auto
qed auto

text \<open>What the matcher makes of one filled segment.\<close>

lemma spelled_facts:
  assumes "values_ok ps" and "spelled ps n = Some e"
  obtains v where "fillValue ps n = Some v" "spell v = Some e" "wf_str v" "decode_uri_component e = Some v"
    "e \<noteq> []" "\<forall>x \<in> set e. segment_char x"
proof -
  obtain v where v: "fillValue ps n = Some v" "spell v = Some e"
    using assms(2) by (auto simp: spelled_def bind_eq_Some_conv)
  have w: "wf_str v" using assms(1) v by (auto simp: values_ok_def)
  have "v \<noteq> []" using fillValue_not_Nil [OF v(1)] .
  with v w that show thesis
    using encoded_decodes encoded_chars encoded_not_Nil by (simp add: spell_Some)
qed

lemma segment_char_no_slash: "segment_char x \<Longrightarrow> x \<noteq> 47 \<and> dot x"
  by (auto simp: segment_char_def dot_def)

lemma parts_encoded_facts:
  assumes "values_ok ps"
  shows "parts_encoded ps parts = Some encs \<Longrightarrow>
    [] \<notin> set encs \<and> (\<forall>e \<in> set encs. 47 \<notin> set e)
    \<and> decode_all encs = Some (map (param_value ps (Mixed parts')) (params_of parts))"
  using assms
proof (induction ps parts arbitrary: encs rule: parts_encoded.induct)
  case (3 ps n c rest)
  then obtain e es where e: "encs = e # es" "spelled ps n = Some e" "parts_encoded ps rest = Some es" "\<not> ambiguous e rest"
    by (auto split: option.splits if_splits)
  from spelled_facts [OF "3.prems"(2) e(2)] obtain v where v: "fillValue ps n = Some v" "decode_uri_component e = Some v"
      "e \<noteq> []" "\<forall>x \<in> set e. segment_char x" by blast
  from "3.IH" [OF e(2,4,3) "3.prems"(2)] v show ?case
    by (auto simp: e(1) param_value_def dest: segment_char_no_slash)
qed auto

lemma render_slash_free:
  "render parts vs = Some t \<Longrightarrow> slash_free parts \<Longrightarrow> \<forall>v \<in> set vs. 47 \<notin> set v \<Longrightarrow> 47 \<notin> set t"
  by (induction parts vs arbitrary: t rule: render.induct) (auto simp: slash_free_def)

definition raw_path :: "nat \<Rightarrow> bool" where
  "raw_path c \<longleftrightarrow> raw_of CANONICAL c \<or> c = 47"

lemma pct_encode_cong: "\<forall>c \<in> set xs. raw c = raw' c \<Longrightarrow> pct_encode raw xs = pct_encode raw' xs"
  by (induction raw xs rule: pct_encode.induct) (auto split: list.splits)

lemma pct_encode_piece:
  "47 \<notin> set p \<Longrightarrow> spell p = Some e \<Longrightarrow> pct_encode raw_path p = Some e"
  by (subst pct_encode_cong [of p _ "raw_of CANONICAL"]) (auto simp: raw_path_def spell_Some encoded_pct)

lemma pct_encode_pieces:
  "list_all (\<lambda>p. 47 \<notin> set p \<and> spell p \<noteq> None) ps \<Longrightarrow>
   pct_encode raw_path (join_with [47] ps) = Some (join_with [47] (map (the \<circ> spell) ps))"
proof (induction "[47::nat]" ps rule: join_with.induct)
  case (2 p)
  then show ?case by (auto simp: pct_encode_piece)
next
  case (3 p q ps)
  then obtain e where "pct_encode raw_path p = Some e" "spell p = Some e" by (auto simp: pct_encode_piece)
  moreover have "raw_path 47" by (simp add: raw_path_def)
  ultimately show ?case
    using pct_encode_append [of "47 # join_with [47] (q # ps)" raw_path p] 3
    by (simp add: is_low_def)
qed simp

lemma wild_pieces_set: "p \<in> set (wild_pieces v) \<Longrightarrow> p \<noteq> [] \<and> 47 \<notin> set p \<and> set p \<subseteq> set v"
proof -
  have "set p \<subseteq> set v" if "p \<in> set (split_on 47 v)" for p
    using that by (induction v arbitrary: p) (fastforce split: if_splits list.splits)+
  then show "p \<in> set (wild_pieces v) \<Longrightarrow> p \<noteq> [] \<and> 47 \<notin> set p \<and> set p \<subseteq> set v"
    by (auto simp: wild_pieces_def dest: split_on_no_sep)
qed

lemma wf_str_iff: "wf_str s \<longleftrightarrow> (\<forall>c \<in> set s. c < 65536)"
  by (simp add: wf_str_def list_all_iff)

lemma wild_facts:
  assumes v: "fillValue ps n = Some v" "wf_str v" and w: "wild_pieces v \<noteq> []"
    and sp: "list_all (\<lambda>p. spell p \<noteq> None) (wild_pieces v)"
    and t: "t = join_with [47] (map (the \<circ> spell) (wild_pieces v))"
  shows "decode_uri_component t = Some (param_value ps (Wildcard n) n) \<and> t \<noteq> [] \<and> list_all dot t"
proof -
  have pw: "wf_str p" if "p \<in> set (wild_pieces v)" for p
    using wild_pieces_set [OF that] v(2) by (auto simp: wf_str_iff)
  have j: "wf_str (join_with [47] (wild_pieces v))"
    using set_join_with [of "[47]" "wild_pieces v"] pw by (fastforce simp: wf_str_iff)
  have enc: "pct_encode raw_path (join_with [47] (wild_pieces v)) = Some t"
    using pct_encode_pieces [of "wild_pieces v"] sp wild_pieces_set by (auto simp: t list_all_iff)
  then have "decode_uri_component t = Some (join_with [47] (wild_pieces v))"
    by (rule pct_encode_decode [OF _ j]) (simp add: raw_path_def percent_not_raw)
  moreover have "join_with [47] (wild_pieces v) \<noteq> []"
    using w wild_pieces_set [of "hd (wild_pieces v)" v] by (cases "wild_pieces v"; cases "hd (wild_pieces v)") auto
  moreover have "list_all dot t"
  proof -
    have "dot x" if "p \<in> set (wild_pieces v)" "x \<in> set (the (spell p))" for p x
    proof -
      have "spell p \<noteq> None" using that(1) sp by (auto simp: list_all_iff)
      then have "spell p = Some (the (spell p))" by simp
      with that have "segment_char x"
        by (intro encoded_chars [OF pw [OF that(1)], of "the (spell p)"]) (simp_all only: spell_Some)
      then show ?thesis by (rule conjunct2 [OF segment_char_no_slash])
    qed
    then show ?thesis
      using set_join_with [of "[47]" "map (the \<circ> spell) (wild_pieces v)"]
      by (fastforce simp: t list_all_iff dot_def)
  qed
  ultimately show ?thesis using v(1) by (auto simp: param_value_def)
qed


text \<open>The captures of a whole filled path.\<close>

lemma decode_all_append:
  "decode_all xs = Some as \<Longrightarrow> decode_all ys = Some bs \<Longrightarrow> decode_all (xs @ ys) = Some (as @ bs)"
  by (induction xs arbitrary: as) (auto split: option.splits)

abbreviation values_of :: "fill_params \<Rightarrow> segment list \<Rightarrow> jstr list" where
  "values_of ps segs \<equiv> concat (map (\<lambda>sg. map (param_value ps sg) (seg_names sg)) segs)"

definition parts_hold :: "fill_params \<Rightarrow> segment \<Rightarrow> bool" where
  "parts_hold ps sg \<longleftrightarrow>
     (\<forall>parts n k e. sg = Mixed parts \<longrightarrow> Param n (Some k) \<in> set parts \<longrightarrow> spelled ps n = Some e \<longrightarrow>
        satisfies (Some k) e)"

lemma seg_encoded_facts:
  assumes ok: "values_ok ps" and wf: "seg_wf sg" and con: "parts_hold ps sg"
    and e: "seg_encoded ps sg = Some (t, encs)" and nw: "\<not> is_wildcard sg"
  shows "47 \<notin> set t \<and> decode_all encs = Some (map (param_value ps sg) (seg_names sg))
    \<and> captures (sg # segs) (t # rs) = map_option ((@) encs) (captures segs rs)"
proof (cases sg)
  case (Static v)
  with wf e show ?thesis by (simp add: option.map_ident append_section)
next
  case (ParamSeg n)
  with e have s: "spelled ps n = Some t" "encs = [t]" by auto
  from spelled_facts [OF ok s(1)] obtain v where "fillValue ps n = Some v" "decode_uri_component t = Some v"
      "t \<noteq> []" "\<forall>x \<in> set t. segment_char x" by blast
  then show ?thesis
    by (auto simp: ParamSeg s(2) param_value_def append_section dest: segment_char_no_slash)
next
  case (Mixed parts)
  with e have s: "parts_encoded ps parts = Some encs" "render parts encs = Some t"
    by (auto split: option.splits)
  note f = parts_encoded_facts [OF ok s(1), of parts]
  have "mixed_captures (mixedSegmentShape parts) (constrainedParts parts) t = Some encs"
    using con f by (intro mixed_captures_filled [OF _ s]) (use wf in \<open>auto simp: Mixed parts_hold_def\<close>)
  moreover have "47 \<notin> set t"
    using render_slash_free [OF s(2)] wf f by (simp add: Mixed)
  ultimately show ?thesis using f by (simp add: Mixed)
qed (use nw in simp)

lemma filled_captures:
  "values_ok ps \<Longrightarrow> list_all seg_wf segs \<Longrightarrow> list_all (\<lambda>sg. \<not> is_wildcard sg) (butlast segs) \<Longrightarrow>
   list_all (parts_hold ps) segs \<Longrightarrow> list_all2 (\<lambda>sg te. seg_encoded ps sg = Some te) segs tes \<Longrightarrow> segs \<noteq> [] \<Longrightarrow>
   (let rs = split_on 47 (join_with [47] (map fst tes)) in
      captures segs rs = Some (concat (map snd tes)) \<and> visible segs rs)
   \<and> decode_all (concat (map snd tes)) = Some (values_of ps segs)"
proof (induction segs arbitrary: tes)
  case (Cons sg segs)
  from Cons.prems(5) obtain t encs tes' where tes: "tes = (t, encs) # tes'" "seg_encoded ps sg = Some (t, encs)"
      "list_all2 (\<lambda>sg te. seg_encoded ps sg = Some te) segs tes'"
    by (cases tes) auto
  show ?case
  proof (cases "is_wildcard sg")
    case True
    with Cons.prems(3) have last: "segs = []" by (cases segs) auto
    from True obtain n where n: "sg = Wildcard n" by (cases sg) auto
    from tes(2) n obtain v where v: "fillValue ps n = Some v" "wild_pieces v \<noteq> []"
        "list_all (\<lambda>p. spell p \<noteq> None) (wild_pieces v)"
        "t = join_with [47] (map (the \<circ> spell) (wild_pieces v))" "encs = [t]"
      by (auto simp: Let_def split: option.splits if_splits)
    have "wf_str v" using Cons.prems(1) v(1) by (auto simp: values_ok_def)
    from wild_facts [OF v(1) this v(2-4)] tes last show ?thesis
      by (simp add: n v(5) join_split)
  next
    case False
    have f: "47 \<notin> set t \<and> decode_all encs = Some (map (param_value ps sg) (seg_names sg))
        \<and> captures (sg # segs) (t # rs) = map_option ((@) encs) (captures segs rs)" for rs
      using Cons.prems by (intro seg_encoded_facts [OF _ _ _ tes(2) False]) auto
    have vis: "visible (sg # segs) (t # rs) \<longleftrightarrow> visible segs rs" for rs
      using False by (cases sg) auto
    show ?thesis
    proof (cases "segs = []")
      case True
      with tes f vis [of "[]"] show ?thesis by (auto simp: Let_def)
    next
      case ne: False
      with tes obtain x tes'' where x: "tes' = x # tes''" by (cases tes') auto
      have "list_all (\<lambda>sg. \<not> is_wildcard sg) (butlast segs)" using Cons.prems(3) ne by simp
      from Cons.IH [OF Cons.prems(1) _ this _ tes(3) ne] Cons.prems have
        "(let rs = split_on 47 (join_with [47] (map fst tes')) in
            captures segs rs = Some (concat (map snd tes')) \<and> visible segs rs)
         \<and> decode_all (concat (map snd tes')) = Some (values_of ps segs)" by simp
      with f vis [of "split_on 47 (join_with [47] (map fst tes'))"] show ?thesis
        by (auto simp: tes(1) x Let_def intro: decode_all_append)
    qed
  qed
qed simp

lemma zip_filled: "filled_params c ps = zip (names_of (segments c)) (values_of ps (segments c))"
proof -
  have "concat (map (\<lambda>sg. map (\<lambda>n. (n, param_value ps sg n)) (seg_names sg)) segs)
      = zip (names_of segs) (values_of ps segs)" for segs
    by (induction segs) (simp_all add: zip_append zip_same_conv_map zip_map2)
  then show ?thesis by (simp add: filled_params_def)
qed

lemma values_len: "length (values_of ps segs) = length (names_of segs)"
  by (induction segs) simp_all

lemma filled_matches:
  assumes c: "compiled_ok c" and ok: "values_ok ps" and con: "constraints_hold c ps"
    and filled: "fillCompiled c ps = Filled path"
  shows "matchRoutePattern c path = Matched (filled_params c ps)"
proof -
  let ?st = "fold (fill_segment ps) (segments c) \<lparr> fpath = [], missing = None, invalid = None \<rparr>"
  from filled have m: "missing ?st = None" "invalid ?st = None" and p: "path = (if fpath ?st = [] then [47] else fpath ?st)"
    by (auto simp: fillCompiled_def Let_def split: if_splits)
  from fill_segments_ok [OF m] obtain tes where tes: "list_all2 (\<lambda>sg te. seg_encoded ps sg = Some te) (segments c) tes"
      "fpath ?st = concat (map (\<lambda>te. 47 # fst te) tes)" by auto
  have names: "param_names c = names_of (segments c)" using c by (simp add: compiled_ok_def pattern_wf_def)
  show ?thesis
  proof (cases "segments c = []")
    case True
    with p names show ?thesis
      by (simp add: matchRoutePattern_def regex_exec_def decodeRouteParams_def filled_params_def)
  next
    case False
    with tes obtain x tes' where x: "tes = x # tes'" by (cases tes) auto
    have path: "path = 47 # join_with [47] (map fst tes)"
      using p tes(2) by (simp add: x join_concat comp_def)
    have hold: "list_all (parts_hold ps) (segments c)"
      using con by (fastforce simp: list_all_iff parts_hold_def constraints_hold_def spelled_def bind_eq_Some_conv)
    have rs: "request_segments path = split_on 47 (join_with [47] (map fst tes))"
      by (simp add: path request_segments_def)
    have "captures (segments c) (request_segments path) = Some (concat (map snd tes))
        \<and> visible (segments c) (request_segments path)
        \<and> decode_all (concat (map snd tes)) = Some (values_of ps (segments c))"
      using filled_captures [OF ok compiled_seg_wf [OF c] _ hold tes(1) False] c
      by (simp add: rs Let_def compiled_ok_def pattern_wf_def)
    then show ?thesis
      using match_captures [OF c, of path] False
      by (simp add: path answer_def route_captures_def names zip_filled)
  qed
qed


text \<open>
  C9: filling a pattern and matching the path it gives are inverse: for every pattern that compiles
  and every record of values \<open>fillRoutePath\<close> accepts, the matcher reads from the filled path each
  parameter with the value it was filled with, whatever characters it holds (a wildcard's value loses
  only its empty pieces), as long as the values meet the pattern's constraints.
\<close>

theorem fill_match_roundtrip:
  assumes "compileRoutePattern nfc t = Inr c" and "nfc_keeps_slash nfc" and "values_ok ps" and "constraints_hold c ps"
    and "fillRoutePath nfc (Text t) ps = Inr (Filled path)"
  shows "matchRoutePattern c path = Matched (filled_params c ps)"
proof (rule filled_matches [OF compile_ok [OF assms(2,1)] assms(3,4)])
  show "fillCompiled c ps = Filled path"
    using assms(1,5) by (simp add: fillRoutePath_def arg_compiled_def)
qed

definition asset_params :: fill_params where
  "asset_params =
     [(js ''id'', Some (js ''a b'')), (js ''name'', Some (js ''x'')), (js ''rest'', Some (js ''p//q%''))]"

theorem fill_match_roundtrip_witness:
  "fillRoutePath (\<lambda>s. s) (Text (js ''/f/:id/:name.txt/*rest'')) asset_params
     = Inr (Filled (js ''/f/a%20b/x.txt/p/q%25''))
   \<and> matchRoutePattern (compiled_text ''/f/:id/:name.txt/*rest'') (js ''/f/a%20b/x.txt/p/q%25'')
     = Matched [(js ''id'', js ''a b''), (js ''name'', js ''x''), (js ''rest'', js ''p/q%'')]"
proof -
  let ?t = "''/f/:id/:name.txt/*rest''"
  have c: "compileRoutePattern (\<lambda>s. s) (js ?t) = Inr (compiled_text ?t)"
    by code_simp
  have f: "fillRoutePath (\<lambda>s. s) (Text (js ?t)) asset_params = Inr (Filled (js ''/f/a%20b/x.txt/p/q%25''))"
    by code_simp
  have v: "values_ok asset_params"
    by (auto simp: values_ok_def asset_params_def fillValue_def wf_str_def split: option.splits if_splits)
  have k: "constraints_hold (compiled_text ?t) asset_params"
  proof -
    have "segments (compiled_text ?t) = [Static (js ''f''), ParamSeg (js ''id''),
        Mixed [Param (js ''name'') None, Lit (js ''.txt'')], Wildcard (js ''rest'')]"
      by code_simp
    then show ?thesis by (auto simp: constraints_hold_def simp del: js_Cons)
  qed
  have p: "filled_params (compiled_text ?t) asset_params
      = [(js ''id'', js ''a b''), (js ''name'', js ''x''), (js ''rest'', js ''p/q%'')]"
    by code_simp
  show ?thesis
    using fill_match_roundtrip [OF c nfc_id v k f] f p by (simp only: simp_thms)
qed

end
