(* ===== verification/Idempotency.thy ===== *)
theory Idempotency
  imports ParamConstraint
begin

text \<open>
  The idempotency store of \<open>packages/core/src/idempotency.ts\<close>: \<open>MemoryIdempotencyStore\<close>, whose
  \<open>begin\<close> reserves a namespaced key for one request, whose \<open>complete\<close> keeps its response for a
  retry, and whose leases lapse.

  \<^item> An operation takes the time its clock reads (the calls are synchronous, one instant each) and,
    for \<open>begin\<close>, the \<open>crypto.randomUUID()\<close> it draws; it returns its answer and the new state.
  \<^item> Times are whole milliseconds. \<open>entries\<close> and \<open>perNamespace\<close> are the two \<open>Map\<close>s.
\<close>

section \<open>Data\<close>

record stored_response =
  sr_status :: int
  sr_headers :: "(jstr \<times> jstr) list"
  sr_body :: jstr

record mem_entry =
  ns_of :: jstr
  fingerprint :: jstr
  reservation :: jstr
  ttlMs :: int
  expiresAt :: int
  response :: "stored_response option"

datatype begin_result = New jstr | Replay stored_response | Mismatch | InFlight | Capacity

record begin_input =
  bi_namespace :: jstr
  bi_key :: jstr
  bi_fingerprint :: jstr
  bi_ttlMs :: int
  bi_pendingTtlMs :: "int option"

record idem_store =
  entries :: "(jstr, mem_entry) jmap"
  perNamespace :: "(jstr, nat) jmap"
  maxEntries :: nat
  maxPerNamespace :: nat

section \<open>Keys\<close>

definition KEY_MAX_LENGTH :: nat where
  "KEY_MAX_LENGTH = 255"

definition validIdempotencyKey :: "jstr \<Rightarrow> bool" where
  "validIdempotencyKey ck \<longleftrightarrow>
     ck \<noteq> [] \<and> length ck \<le> KEY_MAX_LENGTH \<and> list_all (\<lambda>c. 33 \<le> c \<and> c \<le> 126) ck"

definition validIdempotencyNamespace :: "jstr \<Rightarrow> bool" where
  "validIdempotencyNamespace n = validIdempotencyKey n"

definition storageKey :: "jstr \<Rightarrow> jstr \<Rightarrow> jstr" where
  "storageKey n ck = dec (length n) @ [58] @ n @ ck"

section \<open>Operations\<close>

text \<open>The constructor: no bound given means ten thousand, and no namespace bound of its own.\<close>

definition new_store :: "int option \<Rightarrow> int option \<Rightarrow> idem_store option" where
  "new_store mx pr =
     (let m = (case mx of None \<Rightarrow> 10000 | Some m \<Rightarrow> m) in
      if m < 1 then None
      else
        (let p = (case pr of None \<Rightarrow> m | Some p \<Rightarrow> p) in
         if p < 1 then None
         else Some \<lparr> entries = [], perNamespace = [], maxEntries = nat m, maxPerNamespace = nat p \<rparr>))"

definition full :: "jstr \<Rightarrow> idem_store \<Rightarrow> bool" where
  "full n st \<longleftrightarrow>
     length (entries st) \<ge> maxEntries st
     \<or> (case map_of (perNamespace st) n of None \<Rightarrow> 0 | Some c \<Rightarrow> c) \<ge> maxPerNamespace st"

definition drop_entry :: "jstr \<Rightarrow> mem_entry \<Rightarrow> idem_store \<Rightarrow> idem_store" where
  "drop_entry k e st =
     (let left = (case map_of (perNamespace st) (ns_of e) of None \<Rightarrow> 1 | Some c \<Rightarrow> c) - 1 in
      st\<lparr> entries := AList.delete k (entries st),
          perNamespace :=
            (if left > 0 then AList.update (ns_of e) left (perNamespace st)
             else AList.delete (ns_of e) (perNamespace st)) \<rparr>)"

definition sweep :: "int \<Rightarrow> idem_store \<Rightarrow> idem_store" where
  "sweep now st =
     fold (\<lambda>(k, e) st. if expiresAt e \<le> now then drop_entry k e st else st) (entries st) st"

definition reserve :: "int \<Rightarrow> jstr \<Rightarrow> begin_input \<Rightarrow> idem_store \<Rightarrow> begin_result \<times> idem_store" where
  "reserve now uuid i st =
     (let n = bi_namespace i; st1 = (if full n st then sweep now st else st) in
      if full n st1 then (Capacity, st1)
      else
        (New uuid,
         st1\<lparr> perNamespace :=
                AList.update n ((case map_of (perNamespace st1) n of None \<Rightarrow> 0 | Some c \<Rightarrow> c) + 1) (perNamespace st1),
              entries :=
                AList.update (storageKey n (bi_key i))
                  \<lparr> ns_of = n, fingerprint = bi_fingerprint i, reservation = uuid, ttlMs = bi_ttlMs i,
                    expiresAt = now + (case bi_pendingTtlMs i of None \<Rightarrow> bi_ttlMs i | Some p \<Rightarrow> p),
                    response = None \<rparr>
                  (entries st1) \<rparr>))"

definition begin_key :: "int \<Rightarrow> jstr \<Rightarrow> begin_input \<Rightarrow> idem_store \<Rightarrow> begin_result \<times> idem_store" where
  "begin_key now uuid i st =
     (let k = storageKey (bi_namespace i) (bi_key i) in
      case map_of (entries st) k of
        None \<Rightarrow> reserve now uuid i st
      | Some e \<Rightarrow>
          if expiresAt e > now
          then
            ((if fingerprint e \<noteq> bi_fingerprint i then Mismatch
              else (case response e of Some r \<Rightarrow> Replay r | None \<Rightarrow> InFlight)), st)
          else reserve now uuid i (drop_entry k e st))"

definition complete :: "int \<Rightarrow> jstr \<Rightarrow> jstr \<Rightarrow> jstr \<Rightarrow> stored_response \<Rightarrow> idem_store \<Rightarrow> bool \<times> idem_store" where
  "complete now n ck rsv resp st =
     (let k = storageKey n ck in
      case map_of (entries st) k of
        None \<Rightarrow> (False, st)
      | Some e \<Rightarrow>
          if reservation e \<noteq> rsv then (False, st)
          else if expiresAt e \<le> now then (False, drop_entry k e st)
          else
            (True, st\<lparr> entries := AList.update k (e\<lparr> response := Some resp, expiresAt := now + ttlMs e \<rparr>) (entries st) \<rparr>))"

definition abandon :: "int \<Rightarrow> jstr \<Rightarrow> jstr \<Rightarrow> jstr \<Rightarrow> idem_store \<Rightarrow> bool \<times> idem_store" where
  "abandon now n ck rsv st =
     (let k = storageKey n ck in
      case map_of (entries st) k of
        None \<Rightarrow> (False, st)
      | Some e \<Rightarrow>
          if expiresAt e \<le> now then (False, drop_entry k e st)
          else if response e = None \<and> reservation e = rsv then (True, drop_entry k e st)
          else (False, st))"

definition renew :: "int \<Rightarrow> jstr \<Rightarrow> jstr \<Rightarrow> jstr \<Rightarrow> int \<Rightarrow> idem_store \<Rightarrow> bool \<times> idem_store" where
  "renew now n ck rsv ttl st =
     (let k = storageKey n ck in
      case map_of (entries st) k of
        None \<Rightarrow> (False, st)
      | Some e \<Rightarrow>
          if reservation e \<noteq> rsv \<or> response e \<noteq> None \<or> expiresAt e \<le> now then (False, st)
          else (True, st\<lparr> entries := AList.update k (e\<lparr> expiresAt := now + ttl \<rparr>) (entries st) \<rparr>))"

section \<open>Keys of different namespaces never collide\<close>

lemma dec_colon: "58 \<notin> set (dec n)"
  using dec_digits [of 58 n] by (auto simp: is_digit_def)

lemma split_at_colon: "58 \<notin> set a \<Longrightarrow> 58 \<notin> set b \<Longrightarrow> a @ 58 # x = b @ 58 # y \<Longrightarrow> a = b \<and> x = (y :: nat list)"
  by (induction a arbitrary: b) (case_tac b; auto)+

lemma storageKey_inj [simp]: "storageKey n k = storageKey n' k' \<longleftrightarrow> n = n' \<and> k = k'"
proof
  assume "storageKey n k = storageKey n' k'"
  then have "dec (length n) = dec (length n') \<and> n @ k = n' @ k'"
    by (intro split_at_colon) (simp_all add: storageKey_def dec_colon)
  then show "n = n' \<and> k = k'" by (auto simp: dec_inj)
qed simp

section \<open>The invariant\<close>

definition in_ns :: "jstr \<Rightarrow> jstr \<times> mem_entry \<Rightarrow> bool" where
  "in_ns n x \<longleftrightarrow> ns_of (snd x) = n"

definition counts_ok :: "(jstr, mem_entry) jmap \<Rightarrow> (jstr, nat) jmap \<Rightarrow> bool" where
  "counts_ok es per \<longleftrightarrow>
     (\<forall>n. map_of per n = (let c = length (filter (in_ns n) es) in if c = 0 then None else Some c))"

definition idem_inv :: "idem_store \<Rightarrow> bool" where
  "idem_inv st \<longleftrightarrow>
     jm_wf (entries st) \<and> (\<forall>k e. (k, e) \<in> set (entries st) \<longrightarrow> (\<exists>ck. k = storageKey (ns_of e) ck))
     \<and> counts_ok (entries st) (perNamespace st)
     \<and> length (entries st) \<le> maxEntries st
     \<and> (\<forall>n. length (filter (in_ns n) (entries st)) \<le> maxPerNamespace st)"


lemma idem_inv_wf [simp]: "idem_inv st \<Longrightarrow> jm_wf (entries st)"
  by (simp add: idem_inv_def)

lemma idem_inv_key: "idem_inv st \<Longrightarrow> map_of (entries st) (storageKey n ck) = Some e \<Longrightarrow> ns_of e = n"
  by (fastforce simp: idem_inv_def dest: map_of_SomeD)

lemma drop_simps [simp]:
  "entries (drop_entry k e st) = AList.delete k (entries st)"
  "maxEntries (drop_entry k e st) = maxEntries st"
  "maxPerNamespace (drop_entry k e st) = maxPerNamespace st"
  by (simp_all add: drop_entry_def Let_def)

lemma drop_inv:
  assumes inv: "idem_inv st" and e: "map_of (entries st) k = Some e"
  shows "idem_inv (drop_entry k e st)"
proof -
  have c: "length (filter (in_ns n) (entries st))
      = length (filter (in_ns n) (AList.delete k (entries st))) + (if ns_of e = n then 1 else 0)" for n
    using jm_filter_delete [OF idem_inv_wf [OF inv] e, of "in_ns n"] by (simp add: in_ns_def)
  have per: "map_of (perNamespace st) n
      = (let c = length (filter (in_ns n) (entries st)) in if c = 0 then None else Some c)" for n
    using inv unfolding idem_inv_def counts_ok_def by blast
  have "map_of (perNamespace (drop_entry k e st)) n
      = (let c = length (filter (in_ns n) (AList.delete k (entries st))) in if c = 0 then None else Some c)" for n
    using c [of n] per [of n] per [of "ns_of e"] c [of "ns_of e"]
    by (cases "n = ns_of e") (auto simp: drop_entry_def Let_def jm_get_set jm_get_delete)
  then have "counts_ok (AList.delete k (entries st)) (perNamespace (drop_entry k e st))"
    by (simp add: counts_ok_def)
  moreover have "length (entries st) = Suc (length (AList.delete k (entries st)))"
    by (rule jm_length_delete [OF idem_inv_wf [OF inv] e])
  moreover have "length (filter (in_ns n) (AList.delete k (entries st))) \<le> maxPerNamespace st" for n
    using inv c [of n] by (auto simp: idem_inv_def dest!: spec [of _ n])
  ultimately show ?thesis
    using inv by (auto simp: idem_inv_def jm_in_delete)
qed

definition sweep_step :: "int \<Rightarrow> jstr \<times> mem_entry \<Rightarrow> idem_store \<Rightarrow> idem_store" where
  "sweep_step now x st = (if expiresAt (snd x) \<le> now then drop_entry (fst x) (snd x) st else st)"

lemma sweep_steps: "sweep now st = fold (sweep_step now) (entries st) st"
  unfolding sweep_def by (rule fold_cong) (auto simp: sweep_step_def)

lemma sweep_fold:
  "idem_inv st \<Longrightarrow> jm_wf xs \<Longrightarrow> (\<forall>x \<in> set xs. map_of (entries st) (fst x) = Some (snd x)) \<Longrightarrow>
   idem_inv (fold (sweep_step now) xs st)
   \<and> entries (fold (sweep_step now) xs st)
       = filter (\<lambda>x. \<not> (\<exists>y \<in> set xs. fst y = fst x \<and> expiresAt (snd y) \<le> now)) (entries st)
   \<and> maxEntries (fold (sweep_step now) xs st) = maxEntries st
   \<and> maxPerNamespace (fold (sweep_step now) xs st) = maxPerNamespace st"
proof (induction xs arbitrary: st)
  case (Cons x xs)
  let ?st = "sweep_step now x st"
  have inv: "idem_inv ?st"
    using Cons.prems drop_inv [of st "fst x" "snd x"] by (simp add: sweep_step_def)
  have "map_of (entries ?st) (fst y) = Some (snd y)" if "y \<in> set xs" for y
  proof -
    have "fst x \<notin> fst ` set xs" using Cons.prems(2) by simp
    then have "fst y \<noteq> fst x" using that by (metis imageI)
    moreover have "map_of (entries st) (fst y) = Some (snd y)" using Cons.prems(3) that by simp
    ultimately show ?thesis by (simp add: sweep_step_def del: map_of_eq_Some_iff)
  qed
  then have "\<forall>y \<in> set xs. map_of (entries ?st) (fst y) = Some (snd y)" by blast
  from Cons.IH [OF inv _ this] Cons.prems(2) show ?case
    by (auto simp: sweep_step_def AList.delete_eq intro!: filter_cong)
qed simp

lemma sweep_inv: "idem_inv st \<Longrightarrow> idem_inv (sweep now st)"
  and sweep_entries: "idem_inv st \<Longrightarrow> entries (sweep now st) = filter (\<lambda>x. expiresAt (snd x) > now) (entries st)"
  and sweep_max: "idem_inv st \<Longrightarrow> maxEntries (sweep now st) = maxEntries st"
    "idem_inv st \<Longrightarrow> maxPerNamespace (sweep now st) = maxPerNamespace st"
proof -
  assume inv: "idem_inv st"
  then have all: "\<forall>x \<in> set (entries st). map_of (entries st) (fst x) = Some (snd x)"
    by (simp add: jm_Some_iff)
  note f = sweep_fold [OF inv idem_inv_wf [OF inv] all, of now]
  from f show "idem_inv (sweep now st)" "maxEntries (sweep now st) = maxEntries st"
    "maxPerNamespace (sweep now st) = maxPerNamespace st" by (simp_all add: sweep_steps)
  have "\<not> (\<exists>y \<in> set (entries st). fst y = fst x \<and> expiresAt (snd y) \<le> now) \<longleftrightarrow> expiresAt (snd x) > now"
    if "x \<in> set (entries st)" for x
    using all that by (metis not_le option.inject)
  with f show "entries (sweep now st) = filter (\<lambda>x. expiresAt (snd x) > now) (entries st)"
    by (auto simp: sweep_steps intro!: filter_cong)
qed

section \<open>What the store promises\<close>

text \<open>The live entries: what a caller of the store can tell of its state.\<close>

definition still :: "int \<Rightarrow> mem_entry option \<Rightarrow> mem_entry option" where
  "still t m = (case m of None \<Rightarrow> None | Some e \<Rightarrow> if expiresAt e > t then Some e else None)"

definition live :: "int \<Rightarrow> idem_store \<Rightarrow> jstr \<times> jstr \<Rightarrow> mem_entry option" where
  "live t st x = still t (map_of (entries st) (storageKey (fst x) (snd x)))"

definition has_room :: "nat \<Rightarrow> nat \<Rightarrow> (jstr \<times> jstr \<Rightarrow> mem_entry option) \<Rightarrow> jstr \<Rightarrow> bool" where
  "has_room mx pr m n \<longleftrightarrow> card (dom m) < mx \<and> card {x \<in> dom m. fst x = n} < pr"

lemma still_simps [simp]: "still t None = None" "still t (Some e) = (if expiresAt e > t then Some e else None)"
  by (simp_all add: still_def)

lemma still_still: "t \<le> t' \<Longrightarrow> still t' (still t m) = still t' m"
  by (cases m) auto

lemma live_later: "t \<le> t' \<Longrightarrow> live t' st x = still t' (live t st x)"
  by (simp add: live_def still_still)

lemma card_live:
  assumes inv: "idem_inv st"
  shows "card {x \<in> dom (live t st). P (fst x)} = length (filter (\<lambda>x. expiresAt (snd x) > t \<and> P (ns_of (snd x))) (entries st))"
proof -
  let ?L = "filter (\<lambda>x. expiresAt (snd x) > t \<and> P (ns_of (snd x))) (entries st)"
  have "(\<lambda>x. storageKey (fst x) (snd x)) ` {x \<in> dom (live t st). P (fst x)} = fst ` set ?L"
  proof (intro set_eqI iffI)
    fix k assume "k \<in> (\<lambda>x. storageKey (fst x) (snd x)) ` {x \<in> dom (live t st). P (fst x)}"
    then obtain n ck e where k: "k = storageKey n ck" "P n" "map_of (entries st) k = Some e" "expiresAt e > t"
      by (auto simp: live_def still_def split: option.splits if_splits)
    moreover have "ns_of e = n" using idem_inv_key [OF inv] k by simp
    ultimately have "(k, e) \<in> set ?L" by (auto dest: map_of_SomeD)
    then show "k \<in> fst ` set ?L" by force
  next
    fix k assume "k \<in> fst ` set ?L"
    then obtain e where e: "(k, e) \<in> set (entries st)" "expiresAt e > t" "P (ns_of e)" by auto
    then obtain ck where k: "k = storageKey (ns_of e) ck" using inv by (auto simp: idem_inv_def)
    have "map_of (entries st) k = Some e" using e inv by (simp add: jm_Some_iff)
    with e k have "(ns_of e, ck) \<in> {x \<in> dom (live t st). P (fst x)}" by (auto simp: live_def)
    with k show "k \<in> (\<lambda>x. storageKey (fst x) (snd x)) ` {x \<in> dom (live t st). P (fst x)}" by force
  qed
  moreover have "inj_on (\<lambda>x. storageKey (fst x) (snd x)) {x \<in> dom (live t st). P (fst x)}"
    by (auto intro!: inj_onI simp: prod_eq_iff)
  note card_image [OF this]
  ultimately have "card {x \<in> dom (live t st). P (fst x)} = card (set (map fst ?L))"
    by simp
  also have "\<dots> = length ?L"
    using idem_inv_wf [OF inv] by (subst distinct_card) (auto simp: distinct_map_filter)
  finally show ?thesis .
qed


lemma full_iff:
  assumes "idem_inv st"
  shows "full n st \<longleftrightarrow> \<not> (length (entries st) < maxEntries st
      \<and> length (filter (in_ns n) (entries st)) < maxPerNamespace st)"
proof -
  have "(case map_of (perNamespace st) n of None \<Rightarrow> 0 | Some c \<Rightarrow> c) = length (filter (in_ns n) (entries st))"
    using assms unfolding idem_inv_def counts_ok_def by (auto simp: Let_def)
  then show ?thesis by (auto simp: full_def)
qed

lemma room_iff:
  assumes inv: "idem_inv st"
  shows "has_room (maxEntries st) (maxPerNamespace st) (live t st) n \<longleftrightarrow>
     length (filter (\<lambda>x. expiresAt (snd x) > t) (entries st)) < maxEntries st
     \<and> length (filter (\<lambda>x. expiresAt (snd x) > t \<and> in_ns n x) (entries st)) < maxPerNamespace st"
  using card_live [OF inv, of t "\<lambda>_. True"] card_live [OF inv, of t "\<lambda>m. m = n"]
  by (simp add: has_room_def in_ns_def)

text \<open>The store after the sweep that makes room has none exactly when its live entries leave none.\<close>

definition swept :: "int \<Rightarrow> jstr \<Rightarrow> idem_store \<Rightarrow> idem_store" where
  "swept now n st = (if full n st then sweep now st else st)"

lemma swept_inv: "idem_inv st \<Longrightarrow> idem_inv (swept now n st)"
  by (simp add: swept_def sweep_inv)

lemma swept_max: "idem_inv st \<Longrightarrow> maxEntries (swept now n st) = maxEntries st"
    "idem_inv st \<Longrightarrow> maxPerNamespace (swept now n st) = maxPerNamespace st"
  by (simp_all add: swept_def sweep_max)

lemma sweep_live: "idem_inv st \<Longrightarrow> now \<le> t \<Longrightarrow> live t (sweep now st) x = live t st x"
  by (auto simp: live_def sweep_entries map_of_filter_wf still_def split: option.split)

lemma swept_live: "idem_inv st \<Longrightarrow> now \<le> t \<Longrightarrow> live t (swept now n st) x = live t st x"
  by (simp add: swept_def sweep_live)

lemma swept_full:
  assumes inv: "idem_inv st"
  shows "full n (swept now n st) \<longleftrightarrow> \<not> has_room (maxEntries st) (maxPerNamespace st) (live now st) n"
proof (cases "full n st")
  case True
  then show ?thesis
    using full_iff [OF sweep_inv [OF inv, of now], of n] inv
    by (simp add: swept_def sweep_max room_iff [OF inv] sweep_entries)
next
  case False
  have "length (filter (\<lambda>x. expiresAt (snd x) > now) (entries st)) \<le> length (entries st)"
    by simp
  moreover have "length (filter (\<lambda>x. expiresAt (snd x) > now \<and> in_ns n x) (entries st))
      \<le> length (filter (in_ns n) (entries st))"
    using length_filter_le [of "\<lambda>x. expiresAt (snd x) > now" "filter (in_ns n) (entries st)"]
    by (simp add: conj_commute)
  ultimately show ?thesis
    using False
    by (auto simp: swept_def full_iff [OF inv] room_iff [OF inv] intro: le_less_trans [OF length_filter_le])
qed

definition new_entry :: "int \<Rightarrow> jstr \<Rightarrow> begin_input \<Rightarrow> mem_entry" where
  "new_entry now uuid i =
     \<lparr> ns_of = bi_namespace i, fingerprint = bi_fingerprint i, reservation = uuid, ttlMs = bi_ttlMs i,
       expiresAt = now + (case bi_pendingTtlMs i of None \<Rightarrow> bi_ttlMs i | Some p \<Rightarrow> p), response = None \<rparr>"

abbreviation bi_name :: "begin_input \<Rightarrow> jstr \<times> jstr" where
  "bi_name i \<equiv> (bi_namespace i, bi_key i)"

lemma reserve_eq:
  "reserve now uuid i st =
     (let n = bi_namespace i; st1 = swept now n st in
      if full n st1 then (Capacity, st1)
      else
        (New uuid,
         st1\<lparr> perNamespace := AList.update n ((case map_of (perNamespace st1) n of None \<Rightarrow> 0 | Some c \<Rightarrow> c) + 1) (perNamespace st1),
              entries := AList.update (storageKey n (bi_key i)) (new_entry now uuid i) (entries st1) \<rparr>))"
  by (simp add: reserve_def swept_def new_entry_def Let_def)

lemma add_inv:
  assumes inv: "idem_inv st" and new: "map_of (entries st) k = None" and nf: "\<not> full (ns_of e) st"
    and k: "k = storageKey (ns_of e) ck"
  shows "idem_inv (st\<lparr> perNamespace := AList.update (ns_of e)
        ((case map_of (perNamespace st) (ns_of e) of None \<Rightarrow> 0 | Some c \<Rightarrow> c) + 1) (perNamespace st),
      entries := AList.update k e (entries st) \<rparr>)"
proof -
  have snoc: "AList.update k e (entries st) = entries st @ [(k, e)]"
    using new by (intro AList_update_new) (simp add: map_of_eq_None_iff)
  have per: "map_of (perNamespace st) n
      = (let c = length (filter (in_ns n) (entries st)) in if c = 0 then None else Some c)" for n
    using inv unfolding idem_inv_def counts_ok_def by blast
  have "counts_ok (entries st @ [(k, e)]) (AList.update (ns_of e)
        ((case map_of (perNamespace st) (ns_of e) of None \<Rightarrow> 0 | Some c \<Rightarrow> c) + 1) (perNamespace st))"
    unfolding counts_ok_def using per by (auto simp: jm_get_set Let_def in_ns_def)
  moreover have "jm_wf (entries st @ [(k, e)])"
    using inv jm_wf_set [of "entries st" k e] by (simp only: snoc idem_inv_wf)
  moreover have "Suc (length (entries st)) \<le> maxEntries st"
      "length (filter (in_ns n) (entries st @ [(k, e)])) \<le> maxPerNamespace st" for n
    using nf inv by (auto simp: full_iff [OF inv] in_ns_def idem_inv_def)
  moreover have "\<forall>k' e'. (k', e') \<in> set (entries st @ [(k, e)]) \<longrightarrow> (\<exists>ck. k' = storageKey (ns_of e') ck)"
    using inv k by (auto simp: idem_inv_def)
  ultimately show ?thesis
    unfolding idem_inv_def snoc by simp
qed

lemma reserve_correct:
  assumes inv: "idem_inv st" and none: "map_of (entries st) (storageKey (bi_namespace i) (bi_key i)) = None"
  shows "\<exists>r st'. reserve now uuid i st = (r, st') \<and> idem_inv st'
     \<and> maxEntries st' = maxEntries st \<and> maxPerNamespace st' = maxPerNamespace st
     \<and> (if has_room (maxEntries st) (maxPerNamespace st) (live now st) (bi_namespace i)
        then r = New uuid \<and> (\<forall>t \<ge> now. live t st' = (live t st)(bi_name i := still t (Some (new_entry now uuid i))))
        else r = Capacity \<and> (\<forall>t \<ge> now. live t st' = live t st))"
proof -
  let ?n = "bi_namespace i" and ?st = "swept now (bi_namespace i) st"
  have f: "full ?n ?st \<longleftrightarrow> \<not> has_room (maxEntries st) (maxPerNamespace st) (live now st) ?n"
    by (rule swept_full [OF inv])
  show ?thesis
  proof (cases "full ?n ?st")
    case True
    with f show ?thesis
      using swept_inv [OF inv] swept_max [OF inv] swept_live [OF inv]
      by (simp add: reserve_eq Let_def fun_eq_iff)
  next
    case False
    let ?e = "new_entry now uuid i"
    have n: "ns_of ?e = ?n" by (simp add: new_entry_def)
    have "map_of (entries ?st) (storageKey ?n (bi_key i)) = None"
      using none inv by (simp add: swept_def sweep_entries map_of_filter_wf)
    from add_inv [OF swept_inv [OF inv] this, of ?e "bi_key i"] False n
    have "idem_inv (?st\<lparr> perNamespace := AList.update ?n ((case map_of (perNamespace ?st) ?n of None \<Rightarrow> 0 | Some c \<Rightarrow> c) + 1) (perNamespace ?st),
        entries := AList.update (storageKey ?n (bi_key i)) ?e (entries ?st) \<rparr>)" by simp
    moreover have "live t (?st\<lparr> perNamespace := p, entries := AList.update (storageKey ?n (bi_key i)) ?e (entries ?st) \<rparr>)
        = (live t st)(bi_name i := still t (Some ?e))" if "now \<le> t" for t p
      using swept_live [OF inv that, of ?n] by (auto simp: live_def jm_get_set fun_eq_iff)
    ultimately show ?thesis
      using f False swept_max [OF inv] by (simp add: reserve_eq Let_def)
  qed
qed


section \<open>The abstract store\<close>

text \<open>
  A map from names to live entries, its bounds, and each operation's answer and effect on it. Every
  store that keeps to it serves the request lane; the memory store does.
\<close>

definition spec_begin :: "bool \<Rightarrow> jstr \<Rightarrow> begin_input \<Rightarrow> mem_entry option \<Rightarrow> begin_result" where
  "spec_begin room uuid i m =
     (case m of
        Some e \<Rightarrow>
          if fingerprint e \<noteq> bi_fingerprint i then Mismatch
          else (case response e of Some r \<Rightarrow> Replay r | None \<Rightarrow> InFlight)
      | None \<Rightarrow> if room then New uuid else Capacity)"

definition memory_room :: "int \<Rightarrow> idem_store \<Rightarrow> jstr \<Rightarrow> bool" where
  "memory_room now st n = has_room (maxEntries st) (maxPerNamespace st) (live now st) n"

fun after_begin :: "int \<Rightarrow> int \<Rightarrow> begin_input \<Rightarrow> begin_result \<Rightarrow> jstr \<times> jstr \<Rightarrow> mem_entry option \<Rightarrow> mem_entry option" where
  "after_begin t now i (New uuid) x m = (if x = bi_name i then still t (Some (new_entry now uuid i)) else m)"
| "after_begin t now i _ x m = m"

text \<open>What settles an entry: its owner, while it lives.\<close>

definition owns :: "jstr \<Rightarrow> mem_entry option \<Rightarrow> bool" where
  "owns rsv m \<longleftrightarrow> (\<exists>e. m = Some e \<and> reservation e = rsv)"

definition pending_for :: "jstr \<Rightarrow> mem_entry option \<Rightarrow> bool" where
  "pending_for rsv m \<longleftrightarrow> (\<exists>e. m = Some e \<and> reservation e = rsv \<and> response e = None)"

lemma begin_refines:
  assumes inv: "idem_inv st" and b: "begin_key now uuid i st = (r, st')"
  shows "idem_inv st' \<and> maxEntries st' = maxEntries st \<and> maxPerNamespace st' = maxPerNamespace st
    \<and> r = spec_begin (memory_room now st (bi_namespace i)) uuid i (live now st (bi_name i))
    \<and> (\<forall>t \<ge> now. \<forall>x. live t st' x = after_begin t now i r x (live t st x))"
proof -
  let ?k = "storageKey (bi_namespace i) (bi_key i)"
  show ?thesis
  proof (cases "map_of (entries st) ?k")
    case None
    then have "live now st (bi_name i) = None" by (simp add: live_def)
    with reserve_correct [OF inv None, of now uuid] b None show ?thesis
      by (auto simp: begin_key_def spec_begin_def memory_room_def split: if_splits)
  next
    case (Some e)
    show ?thesis
    proof (cases "expiresAt e > now")
      case True
      then have "live now st (bi_name i) = Some e" using Some by (simp add: live_def)
      with True Some b inv show ?thesis
        by (auto simp: begin_key_def spec_begin_def split: option.splits if_splits)
    next
      case False
      let ?st = "drop_entry ?k e st"
      have none: "live now st (bi_name i) = None" using False Some by (simp add: live_def)
      have same: "live t ?st = live t st" if "now \<le> t" for t
        using Some False that by (auto simp: live_def jm_get_delete fun_eq_iff)
      have d: "map_of (entries ?st) ?k = None" by (simp add: jm_get_delete)
      from b Some False have r: "reserve now uuid i ?st = (r, st')" by (simp add: begin_key_def Let_def)
      from reserve_correct [OF drop_inv [OF inv Some] d, of now uuid] r same [of now] same none show ?thesis
        by (auto simp: spec_begin_def memory_room_def split: if_splits)
    qed
  qed
qed

lemma update_inv:
  assumes inv: "idem_inv st" and k: "map_of (entries st) k = Some e" and n: "ns_of e' = ns_of e"
  shows "idem_inv (st\<lparr> entries := AList.update k e' (entries st) \<rparr>)"
proof -
  have c: "length (filter (in_ns n) (AList.update k e' (entries st))) = length (filter (in_ns n) (entries st))" for n
    using n by (intro jm_filter_update [OF k]) (simp add: in_ns_def)
  have "\<forall>k' x. (k', x) \<in> set (AList.update k e' (entries st)) \<longrightarrow> (\<exists>ck. k' = storageKey (ns_of x) ck)"
    using inv k n by (auto simp: idem_inv_def jm_in_update dest: map_of_SomeD)
  moreover have "counts_ok (AList.update k e' (entries st)) (perNamespace st)"
    using inv unfolding idem_inv_def counts_ok_def c by blast
  ultimately show ?thesis
    using inv jm_length_update [OF k, of e'] unfolding idem_inv_def by (simp add: c)
qed

lemma complete_refines:
  assumes inv: "idem_inv st" and c: "complete now n ck rsv resp st = (b, st')"
  shows "idem_inv st' \<and> maxEntries st' = maxEntries st \<and> maxPerNamespace st' = maxPerNamespace st
    \<and> b = owns rsv (live now st (n, ck))
    \<and> (\<forall>t \<ge> now. \<forall>x. live t st' x =
         (if b \<and> x = (n, ck)
          then still t (map_option (\<lambda>e. e\<lparr> response := Some resp, expiresAt := now + ttlMs e \<rparr>) (live now st x))
          else live t st x))"
proof (cases "map_of (entries st) (storageKey n ck)")
  case None
  with c inv show ?thesis by (simp add: complete_def owns_def live_def)
next
  case (Some e)
  consider "reservation e \<noteq> rsv" | "reservation e = rsv" "expiresAt e \<le> now" | "reservation e = rsv" "expiresAt e > now"
    by linarith
  then show ?thesis
  proof cases
    case 1
    with Some c inv show ?thesis by (auto simp: complete_def owns_def live_def)
  next
    case 2
    with Some c drop_inv [OF inv Some] show ?thesis
      by (auto simp: complete_def owns_def live_def jm_get_delete)
  next
    case 3
    with Some c update_inv [OF inv Some] show ?thesis
      by (auto simp: complete_def owns_def live_def jm_get_set)
  qed
qed

lemma abandon_refines:
  assumes inv: "idem_inv st" and c: "abandon now n ck rsv st = (b, st')"
  shows "idem_inv st' \<and> maxEntries st' = maxEntries st \<and> maxPerNamespace st' = maxPerNamespace st
    \<and> b = pending_for rsv (live now st (n, ck))
    \<and> (\<forall>t \<ge> now. \<forall>x. live t st' x = (if b \<and> x = (n, ck) then None else live t st x))"
proof (cases "map_of (entries st) (storageKey n ck)")
  case None
  with c inv show ?thesis by (simp add: abandon_def pending_for_def live_def)
next
  case (Some e)
  with c drop_inv [OF inv Some] inv show ?thesis
    by (auto simp: abandon_def pending_for_def live_def jm_get_delete Let_def split: if_splits)
qed

lemma renew_refines:
  assumes inv: "idem_inv st" and c: "renew now n ck rsv ttl st = (b, st')"
  shows "idem_inv st' \<and> maxEntries st' = maxEntries st \<and> maxPerNamespace st' = maxPerNamespace st
    \<and> b = pending_for rsv (live now st (n, ck))
    \<and> (\<forall>t \<ge> now. \<forall>x. live t st' x =
         (if b \<and> x = (n, ck) then still t (map_option (\<lambda>e. e\<lparr> expiresAt := now + ttl \<rparr>) (live now st x))
          else live t st x))"
proof (cases "map_of (entries st) (storageKey n ck)")
  case None
  with c inv show ?thesis by (simp add: renew_def pending_for_def live_def)
next
  case (Some e)
  with c update_inv [OF inv Some] inv show ?thesis
    by (auto simp: renew_def pending_for_def live_def jm_get_set Let_def split: if_splits)
qed


section \<open>The interface\<close>

text \<open>
  \<open>IdempotencyStore\<close> as the request lane uses it: the four operations, the optional one as an option,
  and the upkeep a store does on its own (the memory store's \<open>sweep\<close>).
\<close>

record 's store_ops =
  op_begin :: "int \<Rightarrow> jstr \<Rightarrow> begin_input \<Rightarrow> 's \<Rightarrow> begin_result \<times> 's"
  op_complete :: "int \<Rightarrow> jstr \<Rightarrow> jstr \<Rightarrow> jstr \<Rightarrow> stored_response \<Rightarrow> 's \<Rightarrow> bool \<times> 's"
  op_abandon :: "int \<Rightarrow> jstr \<Rightarrow> jstr \<Rightarrow> jstr \<Rightarrow> 's \<Rightarrow> bool \<times> 's"
  op_renew :: "int \<Rightarrow> jstr \<Rightarrow> jstr \<Rightarrow> jstr \<Rightarrow> int \<Rightarrow> 's \<Rightarrow> bool \<times> 's"
  op_upkeep :: "int \<Rightarrow> 's \<Rightarrow> 's"

definition memory_ops :: "idem_store store_ops" where
  "memory_ops = \<lparr> op_begin = begin_key, op_complete = complete, op_abandon = abandon, op_renew = renew, op_upkeep = sweep \<rparr>"

datatype idem_op =
    BeginOp jstr begin_input
  | CompleteOp jstr jstr jstr stored_response
  | AbandonOp jstr jstr jstr
  | RenewOp jstr jstr jstr int
  | UpkeepOp

fun idem_step :: "'s store_ops \<Rightarrow> int \<Rightarrow> idem_op \<Rightarrow> 's \<Rightarrow> 's" where
  "idem_step S t (BeginOp u i) s = snd (op_begin S t u i s)"
| "idem_step S t (CompleteOp n ck rsv resp) s = snd (op_complete S t n ck rsv resp s)"
| "idem_step S t (AbandonOp n ck rsv) s = snd (op_abandon S t n ck rsv s)"
| "idem_step S t (RenewOp n ck rsv ttl) s = snd (op_renew S t n ck rsv ttl s)"
| "idem_step S t UpkeepOp s = op_upkeep S t s"

text \<open>A history: operations of any callers, each at its time, none before the one it follows.\<close>

fun idem_run :: "'s store_ops \<Rightarrow> (int \<times> idem_op) list \<Rightarrow> 's \<Rightarrow> 's" where
  "idem_run S [] s = s"
| "idem_run S ((t, x) # ops) s = idem_run S ops (idem_step S t x s)"

fun times_from :: "int \<Rightarrow> (int \<times> idem_op) list \<Rightarrow> int \<Rightarrow> bool" where
  "times_from t [] t1 \<longleftrightarrow> t \<le> t1"
| "times_from t ((t', _) # ops) t1 \<longleftrightarrow> t \<le> t' \<and> times_from t' ops t1"

text \<open>The calls that may change a live entry: its owner's, and of a completed one only a new completion.\<close>

fun settles :: "jstr \<times> jstr \<Rightarrow> mem_entry \<Rightarrow> idem_op \<Rightarrow> bool" where
  "settles x e (CompleteOp n ck rsv _) \<longleftrightarrow> x = (n, ck) \<and> rsv = reservation e"
| "settles x e (AbandonOp n ck rsv) \<longleftrightarrow> x = (n, ck) \<and> rsv = reservation e \<and> response e = None"
| "settles x e (RenewOp n ck rsv _) \<longleftrightarrow> x = (n, ck) \<and> rsv = reservation e \<and> response e = None"
| "settles x e _ \<longleftrightarrow> False"

locale idempotency_store =
  fixes S :: "'s store_ops" and view :: "int \<Rightarrow> 's \<Rightarrow> jstr \<times> jstr \<Rightarrow> mem_entry option"
    and ok :: "'s \<Rightarrow> bool" and room :: "int \<Rightarrow> 's \<Rightarrow> jstr \<Rightarrow> bool"
  assumes view_later: "ok s \<Longrightarrow> t \<le> t' \<Longrightarrow> view t' s x = still t' (view t s x)"
    and begin_law: "ok s \<Longrightarrow> op_begin S t u i s = (r, s') \<Longrightarrow>
      ok s' \<and> r = spec_begin (room t s (bi_namespace i)) u i (view t s (bi_name i))
      \<and> (\<forall>x. view t s' x = after_begin t t i r x (view t s x))"
    and complete_law: "ok s \<Longrightarrow> op_complete S t n ck rsv resp s = (b, s') \<Longrightarrow>
      ok s' \<and> b = owns rsv (view t s (n, ck))
      \<and> (\<forall>x. view t s' x =
           (if b \<and> x = (n, ck)
            then still t (map_option (\<lambda>e. e\<lparr> response := Some resp, expiresAt := t + ttlMs e \<rparr>) (view t s x))
            else view t s x))"
    and abandon_law: "ok s \<Longrightarrow> op_abandon S t n ck rsv s = (b, s') \<Longrightarrow>
      ok s' \<and> b = pending_for rsv (view t s (n, ck))
      \<and> (\<forall>x. view t s' x = (if b \<and> x = (n, ck) then None else view t s x))"
    and renew_law: "ok s \<Longrightarrow> op_renew S t n ck rsv ttl s = (b, s') \<Longrightarrow>
      ok s' \<and> b = pending_for rsv (view t s (n, ck))
      \<and> (\<forall>x. view t s' x =
           (if b \<and> x = (n, ck) then still t (map_option (\<lambda>e. e\<lparr> expiresAt := t + ttl \<rparr>) (view t s x))
            else view t s x))"
    and upkeep_law: "ok s \<Longrightarrow> ok (op_upkeep S t s) \<and> view t (op_upkeep S t s) x = view t s x"
begin

lemmas step_laws =
  begin_law [OF _ prod.collapse [symmetric]] complete_law [OF _ prod.collapse [symmetric]]
  abandon_law [OF _ prod.collapse [symmetric]] renew_law [OF _ prod.collapse [symmetric]]

lemma step_ok: "ok s \<Longrightarrow> ok (idem_step S t x s)"
  by (cases x) (use step_laws upkeep_law in \<open>simp_all only: idem_step.simps\<close>)

lemma run_ok: "ok s \<Longrightarrow> ok (idem_run S ops s)"
  by (induction ops arbitrary: s) (auto simp: step_ok)

lemma step_stable:
  assumes "ok s" and "view t s x = Some e" and "\<not> settles x e c" and "t < expiresAt e"
  shows "view t (idem_step S t c s) x = Some e"
proof (cases c)
  case (BeginOp u i)
  have "fst (op_begin S t u i s) = New r \<Longrightarrow> x \<noteq> bi_name i" for r
    using step_laws(1) [OF assms(1), of t u i] assms(2) by (auto simp: spec_begin_def split: if_splits option.splits)
  moreover have "view t (snd (op_begin S t u i s)) x = after_begin t t i (fst (op_begin S t u i s)) x (view t s x)"
    using step_laws(1) [OF assms(1), of t u i] by blast
  ultimately show ?thesis
    using assms(2) by (cases "fst (op_begin S t u i s)") (simp_all add: BeginOp)
next
  case (CompleteOp n ck rsv resp)
  have "\<not> (owns rsv (view t s (n, ck)) \<and> x = (n, ck))"
    using assms by (auto simp: CompleteOp owns_def)
  moreover note step_laws(2) [OF assms(1), of t n ck rsv resp]
  ultimately show ?thesis
    using assms(2) by (auto simp: CompleteOp simp del: split_paired_All)
next
  case (AbandonOp n ck rsv)
  have "\<not> (pending_for rsv (view t s (n, ck)) \<and> x = (n, ck))"
    using assms by (auto simp: AbandonOp pending_for_def)
  moreover note step_laws(3) [OF assms(1), of t n ck rsv]
  ultimately show ?thesis
    using assms(2) by (auto simp: AbandonOp simp del: split_paired_All)
next
  case (RenewOp n ck rsv ttl)
  have "\<not> (pending_for rsv (view t s (n, ck)) \<and> x = (n, ck))"
    using assms by (auto simp: RenewOp pending_for_def)
  moreover note step_laws(4) [OF assms(1), of t n ck rsv ttl]
  ultimately show ?thesis
    using assms(2) by (auto simp: RenewOp simp del: split_paired_All)
qed (use assms upkeep_law in simp)

text \<open>A live entry stays as it is under every history in which nobody entitled touches it.\<close>

lemma times_from_le: "times_from t ops t1 \<Longrightarrow> t \<le> t1"
  by (induction t ops t1 rule: times_from.induct) auto

lemma run_stable:
  assumes "ok s" and "view t s x = Some e" and "times_from t ops t1" and "t1 < expiresAt e"
    and "\<forall>c \<in> set ops. \<not> settles x e (snd c)"
  shows "view t1 (idem_run S ops s) x = Some e"
  using assms
proof (induction ops arbitrary: s t)
  case Nil
  then show ?case using view_later [of s t t1 x] by simp
next
  case (Cons c ops)
  obtain t' c' where c: "c = (t', c')" by (cases c)
  have le: "t \<le> t'" "times_from t' ops t1" using Cons.prems c by auto
  with times_from_le have "t' \<le> t1" by blast
  then have v: "view t' s x = Some e" "t' < expiresAt e"
    using view_later [of s t t' x] Cons.prems le by auto
  have "view t' (idem_step S t' c' s) x = Some e"
    using step_stable [OF Cons.prems(1) v(1) _ v(2), of c'] Cons.prems(5) c by simp
  then show ?case
    using Cons.IH [OF step_ok [OF Cons.prems(1)] _ le(2)] Cons.prems(4,5) c by simp
qed

text \<open>While a reservation lives nobody else gets one; once completed, the response is the answer.\<close>

lemma begin_live:
  assumes "ok s" and "view t s (bi_name i) = Some e"
  shows "fst (op_begin S t u i s) =
    (if fingerprint e \<noteq> bi_fingerprint i then Mismatch else (case response e of Some r \<Rightarrow> Replay r | None \<Rightarrow> InFlight))"
  using step_laws(1) [OF assms(1), of t u i] assms(2) by (simp add: spec_begin_def)

lemma begin_new:
  assumes "ok s" and "op_begin S t u i s = (New r, s')" and "t < expiresAt (new_entry t u i)"
  shows "ok s' \<and> r = u \<and> view t s (bi_name i) = None \<and> view t s' (bi_name i) = Some (new_entry t u i)"
  using begin_law [OF assms(1,2)] assms(3)
  by (auto simp: spec_begin_def split: option.splits if_splits)

lemma single_flight:
  assumes "ok s" and "op_begin S t u i s = (New r, s')" and "times_from t ops t1"
    and "t1 < expiresAt (new_entry t u i)" and "\<forall>c \<in> set ops. \<not> settles (bi_name i) (new_entry t u i) (snd c)"
    and "bi_name i' = bi_name i"
  shows "fst (op_begin S t1 u' i' (idem_run S ops s')) =
    (if bi_fingerprint i' = bi_fingerprint i then InFlight else Mismatch)"
proof -
  have "t < expiresAt (new_entry t u i)" using assms(3,4) times_from_le by fastforce
  from begin_new [OF assms(1,2) this] have n: "ok s'" "view t s' (bi_name i) = Some (new_entry t u i)" by auto
  from run_stable [OF n assms(3,4,5)] assms(6)
  have "view t1 (idem_run S ops s') (bi_name i') = Some (new_entry t u i)" by simp
  from begin_live [OF run_ok [OF n(1)] this, of u'] show ?thesis
    by (simp add: new_entry_def)
qed

lemma replayed:
  assumes "ok s" and "view t s (n, ck) = Some e" and "op_complete S t n ck rsv resp s = (True, s')"
    and "times_from t ops t1" and "t1 < t + ttlMs e"
    and "\<forall>c \<in> set ops. \<forall>r. snd c \<noteq> CompleteOp n ck rsv r"
    and "bi_name i = (n, ck)"
  shows "fst (op_begin S t1 u i (idem_run S ops s')) = (if bi_fingerprint i = fingerprint e then Replay resp else Mismatch)"
proof -
  let ?e = "e\<lparr> response := Some resp, expiresAt := t + ttlMs e \<rparr>"
  have "t < t + ttlMs e" using assms(4,5) times_from_le by fastforce
  with complete_law [OF assms(1,3)] assms(2) have n: "ok s'" "view t s' (n, ck) = Some ?e" "reservation e = rsv"
    by (auto simp: owns_def)
  have "\<not> settles (n, ck) ?e (snd c)" if "c \<in> set ops" for c
    using assms(6) that n(3) by (cases "snd c") auto
  with run_stable [OF n(1,2) assms(4)] assms(5,7)
  have "view t1 (idem_run S ops s') (bi_name i) = Some ?e" by simp
  from begin_live [OF run_ok [OF n(1)] this, of u] show ?thesis by simp
qed

lemma freed:
  assumes "ok s" and "view t s (bi_name i) = None"
  shows "fst (op_begin S t u i s) = (if room t s (bi_namespace i) then New u else Capacity)"
  using step_laws(1) [OF assms(1), of t u i] assms(2) by (simp add: spec_begin_def)

end

interpretation memory: idempotency_store memory_ops live idem_inv memory_room
proof
  show "live t' s x = still t' (live t s x)" if "idem_inv s" "t \<le> t'" for s t t' x
    using that(2) by (rule live_later)
next
  fix s t u i r s' assume "idem_inv s" "op_begin memory_ops t u i s = (r, s')"
  from begin_refines [OF this(1), of t u i r s'] this(2)
  show "idem_inv s' \<and> r = spec_begin (memory_room t s (bi_namespace i)) u i (live t s (bi_name i))
      \<and> (\<forall>x. live t s' x = after_begin t t i r x (live t s x))"
    by (simp add: memory_ops_def)
next
  fix s t n ck rsv resp b s' assume "idem_inv s" "op_complete memory_ops t n ck rsv resp s = (b, s')"
  from complete_refines [OF this(1), of t n ck rsv resp b s'] this(2)
  show "idem_inv s' \<and> b = owns rsv (live t s (n, ck)) \<and> (\<forall>x. live t s' x =
      (if b \<and> x = (n, ck) then still t (map_option (\<lambda>e. e\<lparr> response := Some resp, expiresAt := t + ttlMs e \<rparr>) (live t s x))
       else live t s x))"
    by (simp add: memory_ops_def)
next
  fix s t n ck rsv b s' assume "idem_inv s" "op_abandon memory_ops t n ck rsv s = (b, s')"
  from abandon_refines [OF this(1), of t n ck rsv b s'] this(2)
  show "idem_inv s' \<and> b = pending_for rsv (live t s (n, ck)) \<and> (\<forall>x. live t s' x = (if b \<and> x = (n, ck) then None else live t s x))"
    by (simp add: memory_ops_def)
next
  fix s t n ck rsv ttl b s' assume "idem_inv s" "op_renew memory_ops t n ck rsv ttl s = (b, s')"
  from renew_refines [OF this(1), of t n ck rsv ttl b s'] this(2)
  show "idem_inv s' \<and> b = pending_for rsv (live t s (n, ck)) \<and> (\<forall>x. live t s' x =
      (if b \<and> x = (n, ck) then still t (map_option (\<lambda>e. e\<lparr> expiresAt := t + ttl \<rparr>) (live t s x)) else live t s x))"
    by (simp add: memory_ops_def)
next
  show "idem_inv (op_upkeep memory_ops t s) \<and> live t (op_upkeep memory_ops t s) x = live t s x" if "idem_inv s" for s t x
    using that by (simp add: memory_ops_def sweep_inv sweep_live)
qed


section \<open>Properties\<close>

lemma memory_step_max:
  assumes "idem_inv s"
  shows "maxEntries (idem_step memory_ops t c s) = maxEntries s
    \<and> maxPerNamespace (idem_step memory_ops t c s) = maxPerNamespace s"
proof (cases c)
  case (BeginOp u i)
  then show ?thesis
    using begin_refines [OF assms prod.collapse [symmetric], of t u i] by (simp add: memory_ops_def)
next
  case (CompleteOp n ck rsv resp)
  then show ?thesis
    using complete_refines [OF assms prod.collapse [symmetric], of t n ck rsv resp] by (simp add: memory_ops_def)
next
  case (AbandonOp n ck rsv)
  then show ?thesis
    using abandon_refines [OF assms prod.collapse [symmetric], of t n ck rsv] by (simp add: memory_ops_def)
next
  case (RenewOp n ck rsv ttl)
  then show ?thesis
    using renew_refines [OF assms prod.collapse [symmetric], of t n ck rsv ttl] by (simp add: memory_ops_def)
next
  case UpkeepOp
  then show ?thesis by (simp add: memory_ops_def sweep_max [OF assms])
qed

lemma memory_run_max:
  "idem_inv s \<Longrightarrow> maxEntries (idem_run memory_ops ops s) = maxEntries s
    \<and> maxPerNamespace (idem_run memory_ops ops s) = maxPerNamespace s"
  by (induction ops arbitrary: s) (auto simp: memory_step_max memory.step_ok)

lemma new_store_empty: "new_store mx pr = Some st \<Longrightarrow> entries st = [] \<and> perNamespace st = []"
  by (auto simp: new_store_def Let_def split: if_splits)

lemma new_store_inv: "new_store mx pr = Some st \<Longrightarrow> idem_inv st"
  using new_store_empty [of mx pr st] by (simp add: idem_inv_def counts_ok_def)

text \<open>
  Whatever calls a store serves, its bounds hold: never more than \<open>maxEntries\<close> entries, never more
  than \<open>maxPerNamespace\<close> of one namespace, and the counter the code keeps per namespace is exactly the
  number of entries that namespace has (absent at zero, so the counters leak nothing).
\<close>

theorem idempotency_store_bounded:
  assumes "new_store mx pr = Some st0"
  shows "let st = idem_run memory_ops ops st0 in
    length (entries st) \<le> maxEntries st0
    \<and> (\<forall>n. length (filter (in_ns n) (entries st)) \<le> maxPerNamespace st0
         \<and> map_of (perNamespace st) n =
             (let c = length (filter (in_ns n) (entries st)) in if c = 0 then None else Some c))"
proof -
  note inv = new_store_inv [OF assms]
  have "idem_inv (idem_run memory_ops ops st0)" by (rule memory.run_ok [OF inv])
  then show ?thesis
    using memory_run_max [OF inv, of ops] unfolding idem_inv_def counts_ok_def Let_def by metis
qed

definition order_of :: "string \<Rightarrow> string \<Rightarrow> string \<Rightarrow> begin_input" where
  "order_of n k f =
     \<lparr> bi_namespace = js n, bi_key = js k, bi_fingerprint = js f, bi_ttlMs = 1000, bi_pendingTtlMs = Some 60 \<rparr>"

definition small_store :: idem_store where
  "small_store = the (new_store (Some 3) (Some 2))"

definition busy_ops :: "(int \<times> idem_op) list" where
  "busy_ops =
     [(0, BeginOp (js ''r1'') (order_of ''a'' ''k'' ''f'')), (1, BeginOp (js ''r2'') (order_of ''a'' ''l'' ''f'')),
      (2, BeginOp (js ''r3'') (order_of ''a'' ''m'' ''f'')), (3, BeginOp (js ''r4'') (order_of ''b'' ''k'' ''f'')),
      (4, AbandonOp (js ''a'') (js ''k'') (js ''r1''))]"

lemma small_store_new: "new_store (Some 3) (Some 2) = Some small_store"
  by (simp add: small_store_def new_store_def)

theorem idempotency_store_bounded_witness:
  "length (entries (idem_run memory_ops busy_ops small_store)) \<le> maxEntries small_store
   \<and> perNamespace (idem_run memory_ops busy_ops small_store) = [(js ''a'', 1), (js ''b'', 1)]"
proof -
  have "perNamespace (idem_run memory_ops busy_ops small_store) = [(js ''a'', 1), (js ''b'', 1)]"
    by code_simp
  then show ?thesis
    using idempotency_store_bounded [OF small_store_new, of busy_ops] by (simp add: Let_def)
qed

text \<open>
  C12: the memory store implements the abstract store: each call's answer is the one the live entries
  and the room they leave decide, and from then on the live entries are the abstract result: a lapsed
  entry is as good as none, other names are never touched, and a call without the reservation that
  owns a name changes nothing.
\<close>

theorem memory_store_refines:
  assumes "idem_inv st"
  shows "(let (r, st') = begin_key now uuid i st in
        r = spec_begin (has_room (maxEntries st) (maxPerNamespace st) (live now st) (bi_namespace i)) uuid i (live now st (bi_name i))
        \<and> (\<forall>t \<ge> now. \<forall>x. live t st' x = after_begin t now i r x (live t st x)))
    \<and> (let (b, st') = complete now n ck rsv resp st in
        b = owns rsv (live now st (n, ck))
        \<and> (\<forall>t \<ge> now. \<forall>x. live t st' x =
             (if b \<and> x = (n, ck)
              then still t (map_option (\<lambda>e. e\<lparr> response := Some resp, expiresAt := now + ttlMs e \<rparr>) (live now st x))
              else live t st x)))
    \<and> (let (b, st') = abandon now n ck rsv st in
        b = pending_for rsv (live now st (n, ck))
        \<and> (\<forall>t \<ge> now. \<forall>x. live t st' x = (if b \<and> x = (n, ck) then None else live t st x)))
    \<and> (let (b, st') = renew now n ck rsv ttl st in
        b = pending_for rsv (live now st (n, ck))
        \<and> (\<forall>t \<ge> now. \<forall>x. live t st' x =
             (if b \<and> x = (n, ck) then still t (map_option (\<lambda>e. e\<lparr> expiresAt := now + ttl \<rparr>) (live now st x))
              else live t st x)))"
  using begin_refines [OF assms prod.collapse [symmetric], of now uuid i]
    complete_refines [OF assms prod.collapse [symmetric], of now n ck rsv resp]
    abandon_refines [OF assms prod.collapse [symmetric], of now n ck rsv]
    renew_refines [OF assms prod.collapse [symmetric], of now n ck rsv ttl]
  by (simp add: case_prod_beta memory_room_def del: split_paired_All)

theorem memory_store_refines_witness:
  "fst (begin_key 5 (js ''r9'') (order_of ''c'' ''k'' ''f'') small_store) = New (js ''r9'')
   \<and> live 64 (snd (begin_key 5 (js ''r9'') (order_of ''c'' ''k'' ''f'') small_store)) (js ''c'', js ''k'')
      = Some (new_entry 5 (js ''r9'') (order_of ''c'' ''k'' ''f''))"
proof -
  let ?b = "begin_key 5 (js ''r9'') (order_of ''c'' ''k'' ''f'') small_store"
  have f: "fst ?b = New (js ''r9'')" by code_simp
  have e: "expiresAt (new_entry 5 (js ''r9'') (order_of ''c'' ''k'' ''f'')) = 65" by code_simp
  have n: "bi_name (order_of ''c'' ''k'' ''f'') = (js ''c'', js ''k'')"
    by (simp add: order_of_def)
  show ?thesis
    using memory_store_refines [OF new_store_inv [OF small_store_new], of 5 "js ''r9''" "order_of ''c'' ''k'' ''f''"] f e n
    by (simp add: case_prod_beta Let_def del: js_Cons split_paired_All)
qed

text \<open>
  C11: one request runs per key. Once \<open>begin\<close> answers \<open>new\<close>, then until the reservation lapses, and
  whatever anyone else calls meanwhile (other keys, other reservations, sweeps), a second \<open>begin\<close> for
  the key is refused: in flight for the same request, a mismatch for another.
\<close>

theorem one_request_runs_per_key:
  assumes "idem_inv st" and "begin_key t u i st = (New r, st')" and "times_from t ops t1"
    and "t1 < t + (case bi_pendingTtlMs i of None \<Rightarrow> bi_ttlMs i | Some p \<Rightarrow> p)"
    and "\<forall>c \<in> set ops. \<not> settles (bi_name i) (new_entry t u i) (snd c)"
    and "bi_namespace i' = bi_namespace i" and "bi_key i' = bi_key i"
  shows "fst (begin_key t1 u' i' (idem_run memory_ops ops st')) =
    (if bi_fingerprint i' = bi_fingerprint i then InFlight else Mismatch)"
proof -
  have b: "op_begin memory_ops t u i st = (New r, st')" using assms(2) by (simp add: memory_ops_def)
  have "expiresAt (new_entry t u i) = t + (case bi_pendingTtlMs i of None \<Rightarrow> bi_ttlMs i | Some p \<Rightarrow> p)"
    by (simp add: new_entry_def)
  with memory.single_flight [OF assms(1) b assms(3) _ assms(5), of i' u'] assms(4,6,7) show ?thesis
    by (simp add: memory_ops_def)
qed

definition other_ops :: "(int \<times> idem_op) list" where
  "other_ops =
     [(10, BeginOp (js ''r5'') (order_of ''c'' ''z'' ''f'')), (20, AbandonOp (js ''c'') (js ''k'') (js ''r8'')),
      (30, UpkeepOp), (40, CompleteOp (js ''c'') (js ''k'') (js ''r5'') \<lparr> sr_status = 200, sr_headers = [], sr_body = [] \<rparr>)]"

theorem one_request_runs_per_key_witness:
  "fst (begin_key 50 (js ''r6'') (order_of ''c'' ''k'' ''f'')
      (idem_run memory_ops other_ops (snd (begin_key 5 (js ''r9'') (order_of ''c'' ''k'' ''f'') small_store)))) = InFlight"
proof -
  let ?i = "order_of ''c'' ''k'' ''f''"
  have b: "begin_key 5 (js ''r9'') ?i small_store = (New (js ''r9''), snd (begin_key 5 (js ''r9'') ?i small_store))"
    by code_simp
  have t: "times_from 5 other_ops 50" by code_simp
  have l: "50 < 5 + (case bi_pendingTtlMs ?i of None \<Rightarrow> bi_ttlMs ?i | Some p \<Rightarrow> p)" by code_simp
  have o: "\<forall>c \<in> set other_ops. \<not> settles (bi_name ?i) (new_entry 5 (js ''r9'') ?i) (snd c)" by code_simp
  show ?thesis
    using one_request_runs_per_key [OF new_store_inv [OF small_store_new] b t l o refl refl, of "js ''r6''"] by simp
qed

text \<open>
  A retry replays the stored response. From the moment \<open>complete\<close> succeeds until the entry's \<open>ttlMs\<close>
  has passed, whatever anyone calls (\<open>abandon\<close> and \<open>renew\<close> by the owner included, short of completing it
  again), the same request is answered with that very response and any other is refused.
\<close>

theorem response_replayed_until_ttl:
  assumes "idem_inv st" and "live t st (n, ck) = Some e" and "complete t n ck rsv resp st = (True, st')"
    and "times_from t ops t1" and "t1 < t + ttlMs e" and "\<forall>c \<in> set ops. \<forall>r. snd c \<noteq> CompleteOp n ck rsv r"
    and "bi_namespace i = n" and "bi_key i = ck"
  shows "fst (begin_key t1 u i (idem_run memory_ops ops st')) =
    (if bi_fingerprint i = fingerprint e then Replay resp else Mismatch)"
proof -
  have c: "op_complete memory_ops t n ck rsv resp st = (True, st')" using assms(3) by (simp add: memory_ops_def)
  from memory.replayed [OF assms(1,2) c assms(4,5,6), of i u] assms(7,8) show ?thesis
    by (simp add: memory_ops_def)
qed

definition ok_response :: stored_response where
  "ok_response = \<lparr> sr_status = 201, sr_headers = [], sr_body = js ''aGk='' \<rparr>"

definition late_ops :: "(int \<times> idem_op) list" where
  "late_ops = [(30, AbandonOp (js ''c'') (js ''k'') (js ''r9'')), (400, RenewOp (js ''c'') (js ''k'') (js ''r9'') 5), (900, UpkeepOp)]"

theorem response_replayed_until_ttl_witness:
  "let st = snd (begin_key 5 (js ''r9'') (order_of ''c'' ''k'' ''f'') small_store);
       st' = snd (complete 20 (js ''c'') (js ''k'') (js ''r9'') ok_response st) in
   fst (begin_key 1019 (js ''r6'') (order_of ''c'' ''k'' ''f'') (idem_run memory_ops late_ops st')) = Replay ok_response"
proof -
  let ?i = "order_of ''c'' ''k'' ''f''"
  let ?st = "snd (begin_key 5 (js ''r9'') ?i small_store)"
  let ?st' = "snd (complete 20 (js ''c'') (js ''k'') (js ''r9'') ok_response ?st)"
  let ?e = "new_entry 5 (js ''r9'') ?i"
  have b: "begin_key 5 (js ''r9'') ?i small_store = (New (js ''r9''), ?st)" by code_simp
  have inv: "idem_inv ?st"
    using begin_refines [OF new_store_inv [OF small_store_new] b] by blast
  have l: "live 20 ?st (js ''c'', js ''k'') = Some ?e" by code_simp
  have c: "complete 20 (js ''c'') (js ''k'') (js ''r9'') ok_response ?st = (True, ?st')" by code_simp
  have t: "times_from 20 late_ops 1019" by code_simp
  have x: "1019 < 20 + ttlMs ?e" by code_simp
  have o: "\<forall>c \<in> set late_ops. \<forall>r. snd c \<noteq> CompleteOp (js ''c'') (js ''k'') (js ''r9'') r"
    by (simp add: late_ops_def del: js_Cons)
  have n: "bi_namespace ?i = js ''c''" "bi_key ?i = js ''k''" "bi_fingerprint ?i = fingerprint ?e"
    by (simp_all add: order_of_def new_entry_def)
  show ?thesis
    using response_replayed_until_ttl [OF inv l c t x o n(1,2), of "js ''r6''"] n(3) by (simp only: Let_def if_True simp_thms)
qed

text \<open>
  A dead owner blocks nobody for longer than its lease: if nobody entitled renews or settles a
  reservation, then from the end of its lease on the key is free: \<open>begin\<close> reserves it anew, unless the
  live entries fill the store.
\<close>

theorem lapsed_key_is_free:
  assumes "idem_inv st" and "begin_key t u i st = (New r, st')" and "times_from t ops t1"
    and "t1 < expiresAt (new_entry t u i)" and "expiresAt (new_entry t u i) \<le> t2"
    and "\<forall>c \<in> set ops. \<not> settles (bi_name i) (new_entry t u i) (snd c)"
    and "bi_namespace i' = bi_namespace i" and "bi_key i' = bi_key i"
  shows "let st2 = idem_run memory_ops ops st' in
    fst (begin_key t2 u' i' st2) =
      (if has_room (maxEntries st2) (maxPerNamespace st2) (live t2 st2) (bi_namespace i) then New u' else Capacity)"
proof -
  let ?e = "new_entry t u i" and ?st = "idem_run memory_ops ops st'"
  have b: "op_begin memory_ops t u i st = (New r, st')" using assms(2) by (simp add: memory_ops_def)
  have "t < expiresAt ?e" using assms(3,4) memory.times_from_le by fastforce
  note n = memory.begin_new [OF assms(1) b this]
  then have ok: "idem_inv ?st" by (simp add: memory.run_ok)
  have "live t1 ?st (bi_name i) = Some ?e"
    using memory.run_stable [OF _ _ assms(3,4,6)] n by blast
  then have "live t2 ?st (bi_name i') = None"
    using live_later [of t1 t2 ?st "bi_name i"] assms(4,5,7,8) by simp
  from memory.freed [OF ok this, of u'] assms(7) show ?thesis
    by (simp add: memory_ops_def memory_room_def Let_def)
qed

theorem lapsed_key_is_free_witness:
  "let st2 = idem_run memory_ops other_ops (snd (begin_key 5 (js ''r9'') (order_of ''c'' ''k'' ''f'') small_store)) in
   has_room (maxEntries st2) (maxPerNamespace st2) (live 65 st2) (js ''c'')
   \<and> fst (begin_key 65 (js ''r6'') (order_of ''c'' ''k'' ''g'') st2) = New (js ''r6'')"
proof -
  let ?i = "order_of ''c'' ''k'' ''f''" and ?i' = "order_of ''c'' ''k'' ''g''"
  let ?st2 = "idem_run memory_ops other_ops (snd (begin_key 5 (js ''r9'') ?i small_store))"
  have b: "begin_key 5 (js ''r9'') ?i small_store = (New (js ''r9''), snd (begin_key 5 (js ''r9'') ?i small_store))"
    by code_simp
  have t: "times_from 5 other_ops 50" by code_simp
  have l: "50 < expiresAt (new_entry 5 (js ''r9'') ?i)" "expiresAt (new_entry 5 (js ''r9'') ?i) \<le> 65" by code_simp+
  have o: "\<forall>c \<in> set other_ops. \<not> settles (bi_name ?i) (new_entry 5 (js ''r9'') ?i) (snd c)" by code_simp
  have n: "bi_namespace ?i' = bi_namespace ?i" "bi_key ?i' = bi_key ?i" "bi_namespace ?i = js ''c''"
    by (simp_all add: order_of_def)
  have r: "fst (begin_key 65 (js ''r6'') ?i' ?st2) = New (js ''r6'')" by code_simp
  show ?thesis
    using lapsed_key_is_free [OF new_store_inv [OF small_store_new] b t l o n(1,2), of "js ''r6''"] r n(3)
    by (simp add: Let_def split: if_splits del: js_Cons)
qed

end
