(* ===== verification/IdempotencyCodec.thy ===== *)
theory IdempotencyCodec
  imports Idempotency
begin

text \<open>
  Bodies and responses of \<open>packages/core/src/idempotency.ts\<close>: the search for JSON numbers a double
  cannot hold, base64, and the forms a response is stored in and rebuilt from.

  \<^item> Bytes are \<open>nat\<close>s below 256. A response body is \<open>None\<close> (null) or the chunks its reader yields.
  \<^item> \<open>btoa\<close> and \<open>atob\<close> are written out (forgiving base64, padding included). A \<open>Headers\<close> object is its
    list of names and values; that it refuses malformed names is not modelled. \<open>toLowerCase\<close> is the
    parameter \<open>lower\<close>.
\<close>

section \<open>Lossy numbers\<close>

definition isDigit :: "nat \<Rightarrow> bool" where
  "isDigit code \<longleftrightarrow> 48 \<le> code \<and> code \<le> 57"

definition isDigitOrDot :: "nat \<Rightarrow> bool" where
  "isDigitOrDot code \<longleftrightarrow> isDigit code \<or> code = 46"

text \<open>A test of \<open>text.charCodeAt(i)\<close>: past the end it is \<open>NaN\<close>, which passes none.\<close>

definition code_is :: "(nat \<Rightarrow> bool) \<Rightarrow> jstr \<Rightarrow> nat \<Rightarrow> bool" where
  "code_is P s i \<longleftrightarrow> i < length s \<and> P (s ! i)"

fun run_back :: "jstr \<Rightarrow> nat \<Rightarrow> nat" where
  "run_back s 0 = 0"
| "run_back s (Suc i) = (if code_is isDigitOrDot s i then run_back s i else Suc i)"

function run_fwd :: "(nat \<Rightarrow> bool) \<Rightarrow> jstr \<Rightarrow> nat \<Rightarrow> nat" where
  "run_fwd P s i = (if code_is P s i then run_fwd P s (Suc i) else i)"
  by pat_completeness auto
termination by (relation "measure (\<lambda>(P, s, i). length s - i)") (auto simp: code_is_def)

declare run_fwd.simps [simp del]

function long_run :: "jstr \<Rightarrow> nat \<Rightarrow> bool" where
  "long_run s i =
     (if i < length s
      then (if isDigitOrDot (s ! i) \<and> run_fwd isDigitOrDot s (Suc i) - run_back s i \<ge> 16 then True
            else long_run s (i + 16))
      else False)"
  by pat_completeness auto
termination by (relation "measure (\<lambda>(s, i). length s - i)") auto

declare long_run.simps [simp del]

function small_exponent :: "jstr \<Rightarrow> nat \<Rightarrow> bool" where
  "small_exponent s p =
     (case index_of s [45] p of
        None \<Rightarrow> False
      | Some i \<Rightarrow>
          if i < p then False
          else if 0 < i \<and> s ! (i - 1) \<in> {69, 101}
            \<and> (let digit = run_fwd (\<lambda>c. c = 48) s (Suc i) in
                code_is isDigit s digit \<and> code_is isDigit s (digit + 1) \<and> code_is isDigit s (digit + 2))
          then True
          else small_exponent s (Suc i))"
  by pat_completeness auto
termination
proof (relation "measure (\<lambda>(s, i). Suc (length s) - i)", goal_cases)
  case (2 s p i)
  then have "i + 1 \<le> length s"
    using find_sub_Some [of "[45]" "drop (min p (length s)) s"] by (fastforce simp: index_of_def Let_def)
  with 2 show ?case by simp
qed simp

declare small_exponent.simps [simp del]

definition mayHoldLossyNumber :: "jstr \<Rightarrow> bool" where
  "mayHoldLossyNumber s \<longleftrightarrow> long_run s 15 \<or> small_exponent s 0"

section \<open>Base64\<close>

definition alphabet :: jstr where
  "alphabet = js ''ABCDEFGHIJKLMNOPQRSTUVWXYZabcdefghijklmnopqrstuvwxyz0123456789+/''"

definition b64 :: "nat \<Rightarrow> nat" where
  "b64 v = alphabet ! v"

fun btoa :: "nat list \<Rightarrow> jstr" where
  "btoa [] = []"
| "btoa [a] = [b64 (a div 4), b64 (a mod 4 * 16), 61, 61]"
| "btoa [a, b] = [b64 (a div 4), b64 (a mod 4 * 16 + b div 16), b64 (b mod 16 * 4), 61]"
| "btoa (a # b # c # bs) =
     [b64 (a div 4), b64 (a mod 4 * 16 + b div 16), b64 (b mod 16 * 4 + c div 64), b64 (c mod 64)] @ btoa bs"

definition unb64 :: "nat \<Rightarrow> nat option" where
  "unb64 c = (if c \<in> set alphabet then Some (length (takeWhile (\<lambda>x. x \<noteq> c) alphabet)) else None)"

text \<open>The sextets of a group give its bytes; bits left over at the end are dropped.\<close>

fun sextets :: "nat list \<Rightarrow> nat list option" where
  "sextets [] = Some []"
| "sextets [a] = None"
| "sextets [a, b] = Some [a * 4 + b div 16]"
| "sextets [a, b, c] = Some [a * 4 + b div 16, b mod 16 * 16 + c div 4]"
| "sextets (a # b # c # d # vs) =
     map_option (\<lambda>r. [a * 4 + b div 16, b mod 16 * 16 + c div 4, c mod 4 * 64 + d] @ r) (sextets vs)"

definition ascii_space :: "nat \<Rightarrow> bool" where
  "ascii_space c \<longleftrightarrow> c \<in> {9, 10, 12, 13, 32}"

definition unpad :: "jstr \<Rightarrow> jstr" where
  "unpad s =
     (if length s mod 4 = 0
      then (if length s \<ge> 2 \<and> drop (length s - 2) s = [61, 61] then take (length s - 2) s
            else if s \<noteq> [] \<and> last s = 61 then butlast s else s)
      else s)"

definition atob :: "jstr \<Rightarrow> nat list option" where
  "atob value_text =
     (let s = unpad (filter (\<lambda>c. \<not> ascii_space c) value_text) in
      if list_all (\<lambda>c. unb64 c \<noteq> None) s then sextets (map (\<lambda>c. the (unb64 c)) s) else None)"

definition BASE64_CHUNK :: nat where
  "BASE64_CHUNK = 32768"

function binary_of :: "nat list \<Rightarrow> nat \<Rightarrow> jstr \<Rightarrow> jstr" where
  "binary_of bytes i binary =
     (if i < length bytes then binary_of bytes (i + BASE64_CHUNK) (binary @ slice bytes i (min (i + BASE64_CHUNK) (length bytes)))
      else binary)"
  by pat_completeness auto
termination by (relation "measure (\<lambda>(bs, i, b). length bs - i)") (auto simp: BASE64_CHUNK_def)

declare binary_of.simps [simp del]

definition bytesToBase64 :: "nat list \<Rightarrow> jstr" where
  "bytesToBase64 bytes = btoa (binary_of bytes 0 [])"

definition base64ToBytes :: "jstr \<Rightarrow> nat list option" where
  "base64ToBytes s = atob s"

text \<open>The form \<open>/^[A-Za-z0-9+/]*={0,2}$/\<close>.\<close>

definition b64_form :: "jstr \<Rightarrow> bool" where
  "b64_form s \<longleftrightarrow>
     (let rest = dropWhile (\<lambda>c. c \<in> set alphabet) s in rest = [] \<or> rest = [61] \<or> rest = [61, 61])"

definition ends_with :: "jstr \<Rightarrow> jstr \<Rightarrow> bool" where
  "ends_with s t \<longleftrightarrow> suffix t s"

definition base64DecodedLength :: "jstr \<Rightarrow> nat option" where
  "base64DecodedLength s =
     (if s = [] then Some 0
      else if length s mod 4 \<noteq> 0 \<or> \<not> b64_form s then None
      else Some (length s div 4 * 3 - (if ends_with s [61, 61] then 2 else if ends_with s [61] then 1 else 0)))"

section \<open>Stored responses\<close>

definition IDEMPOTENT_REPLAY_HEADER :: jstr where
  "IDEMPOTENT_REPLAY_HEADER = js ''x-nifra-idempotent-replay''"

definition REPLAY_UNSAFE_RESPONSE_HEADERS :: "jstr list" where
  "REPLAY_UNSAFE_RESPONSE_HEADERS =
     [js ''authentication-info'', js ''connection'', js ''keep-alive'', js ''proxy-authenticate'',
      js ''proxy-authentication-info'', js ''proxy-authorization'', js ''set-cookie'', js ''te'', js ''trailer'',
      js ''transfer-encoding'', js ''upgrade'']"

definition replaySafeHeaders :: "(jstr \<Rightarrow> jstr) \<Rightarrow> (jstr \<times> jstr) list \<Rightarrow> (jstr \<times> jstr) list" where
  "replaySafeHeaders lower hs = filter (\<lambda>(n, v). lower n \<notin> set REPLAY_UNSAFE_RESPONSE_HEADERS) hs"

record http_response =
  hr_status :: int
  hr_headers :: "(jstr \<times> jstr) list"
  hr_body :: "nat list list option"

datatype codec_fault = TooLarge int | CorruptStatus | CorruptBody | BadBound

definition header_get :: "(jstr \<Rightarrow> jstr) \<Rightarrow> jstr \<Rightarrow> (jstr \<times> jstr) list \<Rightarrow> jstr option" where
  "header_get lower n hs =
     (let vs = map snd (filter (\<lambda>h. lower (fst h) = n) hs) in
      if vs = [] then None else Some (join_with (js '', '') vs))"

definition header_set :: "(jstr \<Rightarrow> jstr) \<Rightarrow> jstr \<Rightarrow> jstr \<Rightarrow> (jstr \<times> jstr) list \<Rightarrow> (jstr \<times> jstr) list" where
  "header_set lower n v hs =
     (let same = (\<lambda>h. lower (fst h) = n) in
      if \<exists>h \<in> set hs. same h
      then takeWhile (\<lambda>h. \<not> same h) hs @ (fst (hd (dropWhile (\<lambda>h. \<not> same h) hs)), v)
             # filter (\<lambda>h. \<not> same h) (tl (dropWhile (\<lambda>h. \<not> same h) hs))
      else hs @ [(n, v)])"

fun read_chunks :: "int \<Rightarrow> nat list list \<Rightarrow> int \<Rightarrow> nat list \<Rightarrow> codec_fault + nat list" where
  "read_chunks mx [] got acc = Inr acc"
| "read_chunks mx (c # cs) got acc =
     (let got' = got + int (length c) in
      if got' > mx then Inl (TooLarge mx) else read_chunks mx cs got' (acc @ c))"

definition boundedResponseBytes :: "(jstr \<Rightarrow> jstr) \<Rightarrow> int \<Rightarrow> http_response \<Rightarrow> codec_fault + nat list" where
  "boundedResponseBytes lower mx r =
     (case hr_body r of
        None \<Rightarrow> Inr []
      | Some chunks \<Rightarrow>
          (case header_get lower (js ''content-length'') (hr_headers r) of
             Some n \<Rightarrow>
               if n \<noteq> [] \<and> list_all isDigit n \<and> int (number_of n) > mx then Inl (TooLarge mx)
               else read_chunks mx chunks 0 []
           | None \<Rightarrow> read_chunks mx chunks 0 []))"

definition serializeResponse :: "(jstr \<Rightarrow> jstr) \<Rightarrow> int \<Rightarrow> http_response \<Rightarrow> codec_fault + stored_response" where
  "serializeResponse lower mx r =
     (if mx < 0 then Inl BadBound
      else
        (case boundedResponseBytes lower mx r of
           Inl e \<Rightarrow> Inl e
         | Inr bytes \<Rightarrow>
             Inr \<lparr> sr_status = hr_status r, sr_headers = replaySafeHeaders lower (hr_headers r),
                   sr_body = (if bytes \<noteq> [] then bytesToBase64 bytes else []) \<rparr>))"

definition responseFromStored :: "(jstr \<Rightarrow> jstr) \<Rightarrow> int \<Rightarrow> stored_response \<Rightarrow> codec_fault + http_response" where
  "responseFromStored lower mx stored =
     (if sr_status stored < 200 \<or> sr_status stored > 599 then Inl CorruptStatus
      else
        (case base64DecodedLength (sr_body stored) of
           None \<Rightarrow> Inl CorruptBody
         | Some n \<Rightarrow>
             if mx < 0 then Inl BadBound
             else if int n > mx then Inl (TooLarge mx)
             else
               (let headers = header_set lower IDEMPOTENT_REPLAY_HEADER (js ''1'') (replaySafeHeaders lower (sr_headers stored)) in
                if sr_body stored = [] then Inr \<lparr> hr_status = sr_status stored, hr_headers = headers, hr_body = None \<rparr>
                else
                  (case base64ToBytes (sr_body stored) of
                     None \<Rightarrow> Inl CorruptBody
                   | Some b \<Rightarrow> Inr \<lparr> hr_status = sr_status stored, hr_headers = headers, hr_body = Some [b] \<rparr>))))"


section \<open>Base64 is read back\<close>

fun enc6 :: "nat list \<Rightarrow> nat list" where
  "enc6 [] = []"
| "enc6 [a] = [a div 4, a mod 4 * 16]"
| "enc6 [a, b] = [a div 4, a mod 4 * 16 + b div 16, b mod 16 * 4]"
| "enc6 (a # b # c # bs) =
     [a div 4, a mod 4 * 16 + b div 16, b mod 16 * 4 + c div 64, c mod 64] @ enc6 bs"

definition padding :: "nat list \<Rightarrow> nat" where
  "padding bs = (3 - length bs mod 3) mod 3"

lemma length_mod3: "length (a # b # c # bs) mod 3 = length bs mod 3"
  by (simp add: numeral_3_eq_3 [symmetric])

lemma btoa_split: "btoa bs = map b64 (enc6 bs) @ replicate (padding bs) 61"
proof (induction bs rule: btoa.induct)
  case (4 a b c bs)
  then show ?case by (simp add: padding_def length_mod3 del: length_Cons)
qed (simp_all add: padding_def numeral_2_eq_2)

lemma digit_pair: "y < m \<Longrightarrow> (x * m + y) div m = x" "y < m \<Longrightarrow> (x * m + y) mod m = (y :: nat)"
  by simp_all

lemma byte_div: "b < 256 \<Longrightarrow> b div 4 < 64" "b < 256 \<Longrightarrow> b div 16 < 16" "b < 256 \<Longrightarrow> b div 64 < (4 :: nat)"
  by (simp_all add: less_mult_imp_div_less)

lemma sextet_bound: "b < 256 \<Longrightarrow> a mod 4 * 16 + b div 16 < 64" "b < 256 \<Longrightarrow> a mod 16 * 4 + b div 64 < (64 :: nat)"
  using byte_div [of b] mod_less_divisor [of 4 a] mod_less_divisor [of 16 a] by linarith+

lemma enc6_bound: "list_all (\<lambda>b. b < 256) bs \<Longrightarrow> list_all (\<lambda>v. v < 64) (enc6 bs)"
proof (induction bs rule: enc6.induct)
  case (2 a)
  then show ?case using sextet_bound(1) [of 0 a] by (simp add: byte_div)
next
  case (3 a b)
  then show ?case using sextet_bound(2) [of 0 b] by (simp add: byte_div sextet_bound)
qed (simp_all add: byte_div sextet_bound)

lemma sextets_enc6: "list_all (\<lambda>b. b < 256) bs \<Longrightarrow> sextets (enc6 bs) = Some bs"
proof (induction bs rule: enc6.induct)
  case (3 a b)
  then show ?case using byte_div(2) [of b] by (simp add: digit_pair)
next
  case (4 a b c bs)
  then show ?case using byte_div(2) [of b] byte_div(3) [of c] by (simp add: digit_pair)
qed simp_all

lemma length_enc6: "length (enc6 bs) + padding bs = (length bs + 2) div 3 * 4"
proof (induction bs rule: enc6.induct)
  case (4 a b c bs)
  have "(length (a # b # c # bs) + 2) div 3 = Suc ((length bs + 2) div 3)" by simp
  with 4 show ?case by (simp add: padding_def length_mod3 del: length_Cons)
qed (simp_all add: padding_def)

lemma takeWhile_nth: "distinct xs \<Longrightarrow> v < length xs \<Longrightarrow> length (takeWhile (\<lambda>x. x \<noteq> xs ! v) xs) = v"
proof (induction xs arbitrary: v)
  case (Cons x xs)
  then show ?case by (cases v) auto
qed simp

lemma alphabet_facts:
  "length alphabet = 64" "distinct alphabet" "\<forall>c \<in> set alphabet. c \<noteq> 61 \<and> \<not> ascii_space c"
  by code_simp+

lemma b64_facts: "v < 64 \<Longrightarrow> unb64 (b64 v) = Some v \<and> b64 v \<noteq> 61 \<and> \<not> ascii_space (b64 v) \<and> b64 v \<in> set alphabet"
  using alphabet_facts nth_mem [of v alphabet] takeWhile_nth [of alphabet v] by (simp add: unb64_def b64_def)


lemma core_facts:
  assumes "list_all (\<lambda>b. b < 256) bs"
  shows "61 \<notin> set (map b64 (enc6 bs))" "list_all (\<lambda>c. \<not> ascii_space c) (map b64 (enc6 bs))"
    "map unb64 (map b64 (enc6 bs)) = map Some (enc6 bs)" "set (map b64 (enc6 bs)) \<subseteq> set alphabet"
proof -
  have "v < 64" if "v \<in> set (enc6 bs)" for v
    using enc6_bound [OF assms] that by (simp add: list_all_iff)
  then have "unb64 (b64 v) = Some v \<and> b64 v \<noteq> 61 \<and> \<not> ascii_space (b64 v) \<and> b64 v \<in> set alphabet" if "v \<in> set (enc6 bs)" for v
    using b64_facts that by blast
  then show "61 \<notin> set (map b64 (enc6 bs))" "list_all (\<lambda>c. \<not> ascii_space c) (map b64 (enc6 bs))"
    "map unb64 (map b64 (enc6 bs)) = map Some (enc6 bs)" "set (map b64 (enc6 bs)) \<subseteq> set alphabet"
    by (fastforce simp: list_all_iff)+
qed

lemma padding_le: "padding bs \<le> 2"
  using mod_less_divisor [of 3 "3 - length bs mod 3"] by (simp add: padding_def del: mod_less_divisor)

lemma unpad_padded:
  assumes "61 \<notin> set xs" and "p \<le> 2" and "(length xs + p) mod 4 = 0"
  shows "unpad (xs @ replicate p 61) = xs"
proof -
  consider "p = 0" | "p = 1" | "p = 2" using assms(2) by linarith
  then show ?thesis
  proof cases
    case 1
    have "drop (length xs - 2) xs \<noteq> [61, 61]"
      using assms(1) set_drop_subset [of "length xs - 2" xs] by force
    moreover have "xs \<noteq> [] \<Longrightarrow> last xs \<noteq> 61" using assms(1) last_in_set by metis
    ultimately show ?thesis using 1 by (auto simp: unpad_def)
  next
    case 2
    have "drop (length xs - 1) xs @ [61] \<noteq> [61, 61]"
      using assms(1) set_drop_subset [of "length xs - 1" xs] by force
    then show ?thesis using 2 assms(3) by (simp add: unpad_def)
  next
    case 3
    with assms(3) show ?thesis by (simp add: unpad_def numeral_2_eq_2)
  qed
qed

lemma length_btoa: "length (btoa bs) = (length bs + 2) div 3 * 4"
  using length_enc6 [of bs] by (simp add: btoa_split)

lemma atob_btoa:
  assumes "list_all (\<lambda>b. b < 256) bs"
  shows "atob (btoa bs) = Some bs"
proof -
  let ?core = "map b64 (enc6 bs)"
  note c = core_facts [OF assms]
  have "filter (\<lambda>c. \<not> ascii_space c) (btoa bs) = ?core @ replicate (padding bs) 61"
    using c(2) by (simp add: btoa_split filter_id_conv list_all_iff ascii_space_def)
  moreover have "unpad (?core @ replicate (padding bs) 61) = ?core"
    using length_enc6 [of bs] by (intro unpad_padded [OF c(1) padding_le]) simp
  moreover have "list_all (\<lambda>c. unb64 c \<noteq> None) ?core \<and> map (\<lambda>c. the (unb64 c)) ?core = enc6 bs"
  proof -
    have "unb64 (b64 v) = Some v" if "v \<in> set (enc6 bs)" for v
      using enc6_bound [OF assms] that b64_facts by (simp add: list_all_iff)
    then show ?thesis by (simp add: list_all_iff map_idI)
  qed
  ultimately show ?thesis
    using sextets_enc6 [OF assms] by (simp only: atob_def Let_def if_True)
qed

lemma binary_of_eq: "binary_of bs i acc = acc @ drop i bs"
proof (induction bs i acc rule: binary_of.induct)
  case (1 bs i acc)
  show ?case
  proof (cases "i < length bs")
    case True
    have "slice bs i (min (i + BASE64_CHUNK) (length bs)) @ drop (i + BASE64_CHUNK) bs = drop i bs"
      using slice_append_drop [of i "min (i + BASE64_CHUNK) (length bs)" bs] True by (cases "i + BASE64_CHUNK \<le> length bs") auto
    with 1 [OF True] True show ?thesis by (simp add: binary_of.simps [of bs i acc])
  qed (simp add: binary_of.simps [of bs i acc])
qed

lemma base64_back: "list_all (\<lambda>b. b < 256) bs \<Longrightarrow> base64ToBytes (bytesToBase64 bs) = Some bs"
  by (simp add: base64ToBytes_def bytesToBase64_def binary_of_eq atob_btoa)

lemma padding_length: "(length bs + 2) div 3 * 3 - padding bs = length bs"
proof -
  obtain q r where n: "length bs = q * 3 + r" "r < 3"
    by (metis div_mult_mod_eq mod_less_divisor zero_less_numeral)
  then consider "r = 0" | "r = 1" | "r = 2" by linarith
  moreover have "length bs mod 3 = r" "(length bs + 2) div 3 = q + (r + 2) div 3"
    using n by simp_all
  ultimately show ?thesis
    using n(1) by cases (simp_all add: padding_def)
qed

lemma length_back:
  assumes "list_all (\<lambda>b. b < 256) bs"
  shows "base64DecodedLength (bytesToBase64 bs) = Some (length bs)"
proof (cases "bs = []")
  case False
  let ?core = "map b64 (enc6 bs)"
  have e: "bytesToBase64 bs = ?core @ replicate (padding bs) 61"
    by (simp add: bytesToBase64_def binary_of_eq btoa_split)
  note c = core_facts [OF assms]
  have len: "length (bytesToBase64 bs) = (length bs + 2) div 3 * 4"
    by (simp add: bytesToBase64_def binary_of_eq length_btoa)
  have ne: "bytesToBase64 bs \<noteq> []" using len False by (cases bs) auto
  have "61 \<notin> set alphabet" using alphabet_facts(3) by blast
  then have "dropWhile (\<lambda>c. c \<in> set alphabet) (replicate (padding bs) 61) = replicate (padding bs) 61"
    by (cases "padding bs") simp_all
  moreover have "dropWhile (\<lambda>c. c \<in> set alphabet) (?core @ replicate (padding bs) 61)
      = dropWhile (\<lambda>c. c \<in> set alphabet) (replicate (padding bs) 61)"
    using c(4) by (intro dropWhile_append2) blast
  ultimately have "dropWhile (\<lambda>c. c \<in> set alphabet) (bytesToBase64 bs) = replicate (padding bs) 61"
    by (simp only: e)
  moreover consider "padding bs = 0" | "padding bs = 1" | "padding bs = 2" using padding_le [of bs] by linarith
  then have "(replicate (padding bs) 61 :: jstr) \<in> {[], [61], [61, 61]}
      \<and> (if ends_with (bytesToBase64 bs) [61, 61] then 2 else if ends_with (bytesToBase64 bs) [61] then 1 else 0) = padding bs"
  proof cases
    case 1
    then have "bytesToBase64 bs = ?core" using e by simp
    then have "61 \<notin> set (bytesToBase64 bs)" using c(1) by simp
    then have "\<not> ends_with (bytesToBase64 bs) [61, 61] \<and> \<not> ends_with (bytesToBase64 bs) [61]"
      by (auto simp: ends_with_def suffix_def)
    with 1 show ?thesis by simp
  next
    case 2
    have "\<not> ends_with (?core @ [61]) [61, 61]"
    proof
      assume "ends_with (?core @ [61]) [61, 61]"
      then obtain zs where "?core @ [61] = zs @ [61, 61]" by (auto simp: ends_with_def suffix_def)
      then have "?core = zs @ [61]" by simp
      then have "61 \<in> set ?core" by (simp only: set_append) simp
      with c(1) show False by blast
    qed
    moreover have "ends_with (?core @ [61]) [61]" by (auto simp: ends_with_def suffix_def)
    ultimately show ?thesis using 2 by (simp add: e)
  next
    case 3
    then show ?thesis by (simp add: e ends_with_def suffix_def numeral_2_eq_2)
  qed
  ultimately show ?thesis
    using ne len padding_length [of bs] by (auto simp: base64DecodedLength_def b64_form_def Let_def)
qed (simp add: base64DecodedLength_def bytesToBase64_def binary_of_eq)


section \<open>The search for lossy numbers is exact\<close>

lemma run_back_le: "run_back s i \<le> i"
  by (induction s i rule: run_back.induct) auto

lemma run_back_all: "run_back s i \<le> j \<Longrightarrow> j < i \<Longrightarrow> code_is isDigitOrDot s j"
  by (induction s i rule: run_back.induct) (auto simp: less_Suc_eq split: if_splits)

lemma run_back_reaches: "\<forall>j. a \<le> j \<and> j < i \<longrightarrow> code_is isDigitOrDot s j \<Longrightarrow> a \<le> i \<Longrightarrow> run_back s i \<le> a"
proof (induction s i rule: run_back.induct)
  case (2 s i)
  show ?case
  proof (cases "a = Suc i")
    case True
    then show ?thesis using run_back_le [of s "Suc i"] by simp
  qed (use 2 in auto)
qed simp

lemma run_fwd_le: "i \<le> run_fwd P s i"
proof (induction P s i rule: run_fwd.induct)
  case (1 P s i)
  then show ?case by (cases "code_is P s i") (simp_all add: run_fwd.simps [of P s i])
qed

lemma run_fwd_all: "i \<le> j \<Longrightarrow> j < run_fwd P s i \<Longrightarrow> code_is P s j"
proof (induction P s i rule: run_fwd.induct)
  case (1 P s i)
  then show ?case
    by (cases "i = j") (auto simp: run_fwd.simps [of P s i] run_fwd.simps [of P s j] split: if_splits)
qed

lemma run_fwd_stops: "\<not> code_is P s (run_fwd P s i)"
proof (induction P s i rule: run_fwd.induct)
  case (1 P s i)
  then show ?case by (cases "code_is P s i") (simp_all add: run_fwd.simps [of P s i])
qed

lemma run_fwd_reaches:
  assumes "\<forall>j. i \<le> j \<and> j < e \<longrightarrow> code_is P s j"
  shows "e \<le> run_fwd P s i"
proof (rule ccontr)
  assume "\<not> e \<le> run_fwd P s i"
  with assms run_fwd_le [of i P s] have "code_is P s (run_fwd P s i)" by simp
  with run_fwd_stops show False by blast
qed

definition long_at :: "jstr \<Rightarrow> nat \<Rightarrow> bool" where
  "long_at s p \<longleftrightarrow> p < length s \<and> isDigitOrDot (s ! p) \<and> run_fwd isDigitOrDot s (Suc p) - run_back s p \<ge> 16"

lemma long_run_probes: "long_run s i \<longleftrightarrow> (\<exists>m. long_at s (i + 16 * m))"
proof (induction s i rule: long_run.induct)
  case (1 s i)
  have split: "(\<exists>m. long_at s (i + 16 * m)) \<longleftrightarrow> long_at s i \<or> (\<exists>m. long_at s (i + 16 + 16 * m))"
  proof
    assume "\<exists>m. long_at s (i + 16 * m)"
    then obtain m where "long_at s (i + 16 * m)" ..
    then show "long_at s i \<or> (\<exists>m. long_at s (i + 16 + 16 * m))"
      by (cases m) (auto simp: algebra_simps)
  next
    assume "long_at s i \<or> (\<exists>m. long_at s (i + 16 + 16 * m))"
    then show "\<exists>m. long_at s (i + 16 * m)"
    proof
      assume "\<exists>m. long_at s (i + 16 + 16 * m)"
      then obtain m where "long_at s (i + 16 + 16 * m)" ..
      then show ?thesis by (intro exI [of _ "Suc m"]) (simp add: algebra_simps)
    qed (use exI [of "\<lambda>m. long_at s (i + 16 * m)" 0] in simp)
  qed
  show ?case
  proof (cases "i < length s")
    case False
    then show ?thesis by (simp add: long_run.simps [of s i] long_at_def)
  next
    case True
    then have r: "long_run s i \<longleftrightarrow> long_at s i \<or> long_run s (i + 16)"
      by (auto simp: long_run.simps [of s i] long_at_def)
    show ?thesis
    proof (cases "long_at s i")
      case False
      then have "long_run s (i + 16) \<longleftrightarrow> (\<exists>m. long_at s (i + 16 + 16 * m))"
        using True by (intro 1) (auto simp: long_at_def)
      then show ?thesis using False unfolding r split by simp
    qed (unfold r split, simp)
  qed
qed

definition has_long_run :: "jstr \<Rightarrow> bool" where
  "has_long_run s \<longleftrightarrow> (\<exists>a. a + 16 \<le> length s \<and> (\<forall>j < 16. isDigitOrDot (s ! (a + j))))"

definition has_small_exponent :: "jstr \<Rightarrow> bool" where
  "has_small_exponent s \<longleftrightarrow>
     (\<exists>i k. 0 < i \<and> i < length s \<and> s ! (i - 1) \<in> {69, 101} \<and> s ! i = 45
        \<and> (\<forall>j < k. code_is (\<lambda>c. c = 48) s (Suc i + j))
        \<and> code_is (\<lambda>c. isDigit c \<and> c \<noteq> 48) s (Suc i + k)
        \<and> code_is isDigit s (Suc i + k + 1) \<and> code_is isDigit s (Suc i + k + 2))"

lemma long_run_exact: "long_run s 15 \<longleftrightarrow> has_long_run s"
proof
  assume "long_run s 15"
  then obtain p where p: "long_at s p" by (auto simp: long_run_probes)
  let ?b = "run_back s p" and ?e = "run_fwd isDigitOrDot s (Suc p)"
  have all: "code_is isDigitOrDot s j" if "?b \<le> j" "j < ?e" for j
  proof (cases "j < p")
    case True
    then show ?thesis using run_back_all that by blast
  next
    case False
    then show ?thesis
      using p run_fwd_all [of "Suc p" j isDigitOrDot s] that by (cases "j = p") (auto simp: long_at_def code_is_def)
  qed
  have "?b + 16 \<le> ?e" using p by (auto simp: long_at_def)
  then have "\<forall>j < 16. code_is isDigitOrDot s (?b + j)" using all by simp
  moreover from this have "?b + 15 < length s" by (auto simp: code_is_def dest: spec [of _ 15])
  ultimately show "has_long_run s" by (auto simp: has_long_run_def code_is_def intro!: exI [of _ ?b])
next
  assume "has_long_run s"
  then obtain a where a: "a + 16 \<le> length s" "\<forall>j < 16. isDigitOrDot (s ! (a + j))" by (auto simp: has_long_run_def)
  let ?p = "15 + 16 * (a div 16)"
  have p: "a \<le> ?p" "?p < a + 16" by presburger+
  have all: "code_is isDigitOrDot s j" if "a \<le> j" "j < a + 16" for j
    using a that spec [OF a(2), of "j - a"] by (simp add: code_is_def)
  have "run_back s ?p \<le> a" using all p by (intro run_back_reaches) auto
  moreover have "a + 16 \<le> run_fwd isDigitOrDot s (Suc ?p)" using all p by (intro run_fwd_reaches) auto
  moreover have "code_is isDigitOrDot s ?p" using all p by blast
  ultimately have "long_at s ?p" by (auto simp: long_at_def code_is_def)
  then show "long_run s 15" by (auto simp: long_run_probes)
qed

definition exponent_at :: "jstr \<Rightarrow> nat \<Rightarrow> bool" where
  "exponent_at s i \<longleftrightarrow> 0 < i \<and> s ! (i - 1) \<in> {69, 101}
     \<and> (let digit = run_fwd (\<lambda>c. c = 48) s (Suc i) in
        code_is isDigit s digit \<and> code_is isDigit s (digit + 1) \<and> code_is isDigit s (digit + 2))"

lemma index_of_char:
  assumes "index_of s [c] p = r"
  shows "case r of None \<Rightarrow> (\<forall>i. p \<le> i \<and> i < length s \<longrightarrow> s ! i \<noteq> c)
    | Some i \<Rightarrow> p \<le> i \<and> i < length s \<and> s ! i = c \<and> (\<forall>j. p \<le> j \<and> j < i \<longrightarrow> s ! j \<noteq> c)"
proof -
  have pre: "prefix [c] (drop i s) \<longleftrightarrow> i < length s \<and> s ! i = c" for i
    by (cases "i < length s") (auto simp: Cons_nth_drop_Suc [symmetric])
  let ?f = "min p (length s)"
  show ?thesis
  proof (cases r)
    case None
    with assms have "find_sub [c] (drop ?f s) = None" by (simp add: index_of_def Let_def)
    from find_sub_None [OF this] have "\<not> prefix [c] (drop (j + ?f) s)" for j by simp
    then have "\<not> (?f \<le> i \<and> i < length s \<and> s ! i = c)" for i
      using pre [of i] by (metis le_add_diff_inverse2)
    with None show ?thesis by auto
  next
    case (Some i)
    with assms obtain k where k: "find_sub [c] (drop ?f s) = Some k" "i = ?f + k" by (auto simp: index_of_def Let_def)
    from find_sub_Some [OF k(1)] have i: "prefix [c] (drop i s)" by (simp add: k(2) add.commute)
    have "s ! j \<noteq> c" if "?f \<le> j" "j < i" for j
      using find_sub_first [OF k(1), of "j - ?f"] that i pre [of j] pre [of i] k(2) by simp
    with Some i pre [of i] k(2) show ?thesis by auto
  qed
qed

lemma small_exponent_scan:
  "small_exponent s p \<longleftrightarrow> (\<exists>i. p \<le> i \<and> i < length s \<and> s ! i = 45 \<and> exponent_at s i)"
proof (induction s p rule: small_exponent.induct)
  case (1 s p)
  show ?case
  proof (cases "index_of s [45] p")
    case None
    with index_of_char [OF None] show ?thesis by (auto simp: small_exponent.simps [of s p])
  next
    case (Some i)
    with index_of_char [OF Some] have i: "p \<le> i" "i < length s" "s ! i = 45" "\<And>j. p \<le> j \<Longrightarrow> j < i \<Longrightarrow> s ! j \<noteq> 45" by auto
    show ?thesis
    proof (cases "exponent_at s i")
      case True
      with Some i show ?thesis by (auto simp: small_exponent.simps [of s p] exponent_at_def)
    next
      case False
      then have r: "small_exponent s p \<longleftrightarrow> small_exponent s (Suc i)"
        using Some i(1) by (auto simp: small_exponent.simps [of s p] exponent_at_def)
      have "small_exponent s (Suc i) \<longleftrightarrow> (\<exists>j. Suc i \<le> j \<and> j < length s \<and> s ! j = 45 \<and> exponent_at s j)"
        using False i(1) by (intro "1.IH" [OF Some]) (auto simp: exponent_at_def)
      also have "\<dots> \<longleftrightarrow> (\<exists>j. p \<le> j \<and> j < length s \<and> s ! j = 45 \<and> exponent_at s j)"
      proof
        assume "\<exists>j. p \<le> j \<and> j < length s \<and> s ! j = 45 \<and> exponent_at s j"
        then obtain j where j: "p \<le> j" "j < length s" "s ! j = 45" "exponent_at s j" by blast
        have "\<not> j < i" using i(4) [of j] j by blast
        moreover have "j \<noteq> i" using False j by blast
        ultimately have "Suc i \<le> j" by linarith
        with j show "\<exists>j. Suc i \<le> j \<and> j < length s \<and> s ! j = 45 \<and> exponent_at s j" by blast
      next
        assume "\<exists>j. Suc i \<le> j \<and> j < length s \<and> s ! j = 45 \<and> exponent_at s j"
        then show "\<exists>j. p \<le> j \<and> j < length s \<and> s ! j = 45 \<and> exponent_at s j"
          using i(1) by (meson Suc_leD le_trans)
      qed
      finally show ?thesis unfolding r .
    qed
  qed
qed

lemma exponent_at_iff:
  "exponent_at s i \<longleftrightarrow> 0 < i \<and> s ! (i - 1) \<in> {69, 101}
     \<and> (\<exists>k. (\<forall>j < k. code_is (\<lambda>c. c = 48) s (Suc i + j))
        \<and> code_is (\<lambda>c. isDigit c \<and> c \<noteq> 48) s (Suc i + k)
        \<and> code_is isDigit s (Suc i + k + 1) \<and> code_is isDigit s (Suc i + k + 2))"
proof -
  let ?P = "\<lambda>c. c = (48 :: nat)" and ?d = "run_fwd (\<lambda>c. c = 48) s (Suc i)"
  have z: "\<forall>j < ?d - Suc i. code_is ?P s (Suc i + j)"
    using run_fwd_all [of "Suc i" _ ?P s] by auto
  have le: "Suc i \<le> ?d" by (rule run_fwd_le)
  have d: "?d = Suc i + k" if "\<forall>j < k. code_is ?P s (Suc i + j)" "code_is (\<lambda>c. isDigit c \<and> c \<noteq> 48) s (Suc i + k)" for k
  proof (rule antisym)
    have "code_is ?P s j" if "Suc i \<le> j" "j < Suc i + k" for j
      using spec [OF \<open>\<forall>j < k. code_is ?P s (Suc i + j)\<close>, of "j - Suc i"] that by simp
    then show "Suc i + k \<le> ?d" by (intro run_fwd_reaches) auto
    show "?d \<le> Suc i + k"
    proof (rule ccontr)
      assume "\<not> ?d \<le> Suc i + k"
      then have "code_is ?P s (Suc i + k)" by (intro run_fwd_all [of "Suc i"]) auto
      with that(2) show False by (simp add: code_is_def)
    qed
  qed
  have n: "code_is isDigit s ?d \<longleftrightarrow> code_is (\<lambda>c. isDigit c \<and> c \<noteq> 48) s ?d"
    using run_fwd_stops [of ?P s "Suc i"] by (auto simp: code_is_def)
  show ?thesis
  proof
    assume a: "exponent_at s i"
    then have "code_is (\<lambda>c. isDigit c \<and> c \<noteq> 48) s (Suc i + (?d - Suc i))"
      using n le by (simp add: exponent_at_def Let_def)
    moreover have "code_is isDigit s (Suc i + (?d - Suc i) + 1) \<and> code_is isDigit s (Suc i + (?d - Suc i) + 2)"
      using a le by (simp add: exponent_at_def Let_def)
    moreover have "0 < i \<and> s ! (i - 1) \<in> {69, 101}" using a by (simp add: exponent_at_def)
    ultimately show "0 < i \<and> s ! (i - 1) \<in> {69, 101}
     \<and> (\<exists>k. (\<forall>j < k. code_is (\<lambda>c. c = 48) s (Suc i + j))
        \<and> code_is (\<lambda>c. isDigit c \<and> c \<noteq> 48) s (Suc i + k)
        \<and> code_is isDigit s (Suc i + k + 1) \<and> code_is isDigit s (Suc i + k + 2))"
      using z by blast
  next
    assume a: "0 < i \<and> s ! (i - 1) \<in> {69, 101}
     \<and> (\<exists>k. (\<forall>j < k. code_is (\<lambda>c. c = 48) s (Suc i + j))
        \<and> code_is (\<lambda>c. isDigit c \<and> c \<noteq> 48) s (Suc i + k)
        \<and> code_is isDigit s (Suc i + k + 1) \<and> code_is isDigit s (Suc i + k + 2))"
    then obtain k where k: "\<forall>j < k. code_is (\<lambda>c. c = 48) s (Suc i + j)"
        "code_is (\<lambda>c. isDigit c \<and> c \<noteq> 48) s (Suc i + k)"
        "code_is isDigit s (Suc i + k + 1)" "code_is isDigit s (Suc i + k + 2)" by blast
    from d [OF k(1,2)] k(2-4) have "code_is isDigit s ?d \<and> code_is isDigit s (?d + 1) \<and> code_is isDigit s (?d + 2)"
      unfolding n by simp
    with a show "exponent_at s i" unfolding exponent_at_def Let_def by blast
  qed
qed

section \<open>Responses are read back\<close>

lemma read_chunks_Inr:
  "read_chunks mx cs got acc = Inr b \<Longrightarrow> b = acc @ concat cs \<and> (cs = [] \<or> got + int (length (concat cs)) \<le> mx)"
proof (induction cs arbitrary: got acc)
  case (Cons c cs)
  then have le: "got + int (length c) \<le> mx" and r: "read_chunks mx cs (got + int (length c)) (acc @ c) = Inr b"
    by (auto simp: Let_def split: if_splits)
  from Cons.IH [OF r] le show ?case by (cases cs) auto
qed simp

lemma bounded_Inr:
  "boundedResponseBytes lower mx r = Inr b \<Longrightarrow> 0 \<le> mx \<Longrightarrow>
   b = (case hr_body r of None \<Rightarrow> [] | Some cs \<Rightarrow> concat cs) \<and> int (length b) \<le> mx"
  by (auto simp: boundedResponseBytes_def split: option.splits if_splits dest!: read_chunks_Inr)

lemma header_set_names:
  "h \<in> set (header_set lower n v hs) \<Longrightarrow> h \<in> set hs \<or> lower (fst h) = n \<or> fst h = n"
proof -
  assume a: "h \<in> set (header_set lower n v hs)"
  let ?d = "dropWhile (\<lambda>h. lower (fst h) \<noteq> n) hs"
  show ?thesis
  proof (cases "\<exists>h \<in> set hs. lower (fst h) = n")
    case True
    then have "?d \<noteq> []" by (auto simp: dropWhile_eq_Nil_conv)
    then have "lower (fst (hd ?d)) = n" using hd_dropWhile [of "\<lambda>h. lower (fst h) \<noteq> n" hs] by simp
    moreover have "set (tl xs) \<subseteq> set xs" for xs :: "(jstr \<times> jstr) list" by (cases xs) auto
    from this [of ?d] have "set (tl ?d) \<subseteq> set ?d" .
    moreover have "set ?d \<subseteq> set hs" by (auto dest: set_dropWhileD)
    ultimately show ?thesis
      using a True by (auto simp: header_set_def Let_def dest: set_takeWhileD)
  next
    case False
    then show ?thesis using a by (auto simp: header_set_def)
  qed
qed

text \<open>
  C13: a stored response is the response: what \<open>serializeResponse\<close> keeps of a response within the bound,
  \<open>responseFromStored\<close> rebuilds with the same status and the same body bytes, and its headers hold no
  session or connection header, neither those of the first response nor the replay marker's own.
\<close>

theorem stored_response_roundtrip:
  assumes "serializeResponse lower mx r = Inr stored" and "200 \<le> hr_status r" and "hr_status r \<le> 599"
    and "\<forall>cs. hr_body r = Some cs \<longrightarrow> list_all (\<lambda>b. b < 256) (concat cs)"
    and "lower IDEMPOTENT_REPLAY_HEADER = IDEMPOTENT_REPLAY_HEADER"
  shows "\<exists>r'. responseFromStored lower mx stored = Inr r' \<and> hr_status r' = hr_status r
    \<and> (let bytes = (case hr_body r of None \<Rightarrow> [] | Some cs \<Rightarrow> concat cs) in
        hr_body r' = (if bytes = [] then None else Some [bytes]) \<and> int (length bytes) \<le> mx)
    \<and> (\<forall>h \<in> set (hr_headers r'). lower (fst h) \<notin> set REPLAY_UNSAFE_RESPONSE_HEADERS)"
proof -
  let ?b = "case hr_body r of None \<Rightarrow> [] | Some cs \<Rightarrow> concat cs"
  from assms(1) obtain b where b: "boundedResponseBytes lower mx r = Inr b" "0 \<le> mx"
    and st: "stored = \<lparr> sr_status = hr_status r, sr_headers = replaySafeHeaders lower (hr_headers r),
        sr_body = (if b \<noteq> [] then bytesToBase64 b else []) \<rparr>"
    by (auto simp: serializeResponse_def split: if_splits sum.splits)
  from bounded_Inr [OF b] have bb: "b = ?b" "int (length b) \<le> mx" by auto
  have bytes: "list_all (\<lambda>b. b < 256) b" using assms(4) bb(1) by (cases "hr_body r") auto
  have len: "base64DecodedLength (sr_body stored) = Some (length b)"
    using length_back [OF bytes] by (cases "b = []") (simp_all add: st, simp add: base64DecodedLength_def)
  have ne: "bytesToBase64 b \<noteq> []" if "b \<noteq> []"
    using base64_back [OF bytes] that by (auto simp: base64ToBytes_def atob_def unpad_def)
  let ?hs = "header_set lower IDEMPOTENT_REPLAY_HEADER (js ''1'') (replaySafeHeaders lower (replaySafeHeaders lower (hr_headers r)))"
  have hs: "\<forall>h \<in> set ?hs. lower (fst h) \<notin> set REPLAY_UNSAFE_RESPONSE_HEADERS"
  proof
    fix h assume "h \<in> set ?hs"
    from header_set_names [OF this] assms(5)
    have "h \<in> set (replaySafeHeaders lower (hr_headers r)) \<or> lower (fst h) = IDEMPOTENT_REPLAY_HEADER"
      by (auto simp: replaySafeHeaders_def)
    moreover have "IDEMPOTENT_REPLAY_HEADER \<notin> set REPLAY_UNSAFE_RESPONSE_HEADERS" by code_simp
    ultimately show "lower (fst h) \<notin> set REPLAY_UNSAFE_RESPONSE_HEADERS"
      by (auto simp: replaySafeHeaders_def)
  qed
  have "responseFromStored lower mx stored =
      Inr \<lparr> hr_status = hr_status r, hr_headers = ?hs, hr_body = (if b = [] then None else Some [b]) \<rparr>"
  proof (cases "b = []")
    case True
    then show ?thesis
      using len assms(2,3) b(2) by (simp add: responseFromStored_def st)
  next
    case False
    then show ?thesis
      using len assms(2,3) b(2) bb(2) ne base64_back [OF bytes] by (simp add: responseFromStored_def st Let_def)
  qed
  then show ?thesis
    using hs bb by (simp add: Let_def del: js_Cons)
qed

definition sample_response :: http_response where
  "sample_response =
     \<lparr> hr_status = 201, hr_headers = [(js ''content-type'', js ''text/plain''), (js ''set-cookie'', js ''s=1'')],
       hr_body = Some [[104, 105], [255]] \<rparr>"

theorem stored_response_roundtrip_witness:
  "serializeResponse (\<lambda>s. s) 3 sample_response
     = Inr \<lparr> sr_status = 201, sr_headers = [(js ''content-type'', js ''text/plain'')], sr_body = js ''aGn/'' \<rparr>
   \<and> (\<exists>r'. responseFromStored (\<lambda>s. s) 3 \<lparr> sr_status = 201, sr_headers = [(js ''content-type'', js ''text/plain'')], sr_body = js ''aGn/'' \<rparr> = Inr r'
       \<and> hr_status r' = 201 \<and> hr_body r' = Some [[104, 105, 255]])"
proof -
  have s: "serializeResponse (\<lambda>s. s) 3 sample_response
     = Inr \<lparr> sr_status = 201, sr_headers = [(js ''content-type'', js ''text/plain'')], sr_body = js ''aGn/'' \<rparr>"
    by (simp add: serializeResponse_def sample_response_def boundedResponseBytes_def header_get_def
        bytesToBase64_def binary_of_eq b64_def alphabet_def replaySafeHeaders_def REPLAY_UNSAFE_RESPONSE_HEADERS_def)
  have h: "200 \<le> hr_status sample_response" "hr_status sample_response \<le> 599"
    "\<forall>cs. hr_body sample_response = Some cs \<longrightarrow> list_all (\<lambda>b. b < 256) (concat cs)"
    by (simp_all add: sample_response_def)
  have b: "hr_status sample_response = 201" "hr_body sample_response = Some [[104, 105], [255]]"
    by (simp_all add: sample_response_def)
  show ?thesis
    using stored_response_roundtrip [OF s h refl] s unfolding b by (simp add: Let_def del: js_Cons) blast
qed

text \<open>
  The search that skips fifteen characters of sixteen misses nothing: \<open>mayHoldLossyNumber\<close> holds
  exactly for the texts with sixteen consecutive digits or dots, or with a negative exponent of three
  or more digits, leading zeros not counted.
\<close>

theorem lossy_number_search_exact:
  "mayHoldLossyNumber s \<longleftrightarrow> has_long_run s \<or> has_small_exponent s"
  by (auto simp: mayHoldLossyNumber_def long_run_exact small_exponent_scan exponent_at_iff has_small_exponent_def)

end
