(* ===== verification/EffectScope.thy ===== *)
theory EffectScope
  imports Prelude
begin

text \<open>
  The boundary of owned effects: \<open>packages/core/src/effect-scope.ts\<close> and \<open>effect-lifecycle.ts\<close>. A scope
  keeps the evidence whether an effect began, committed or is uncertain; \<open>run\<close> takes one effect through
  its hooks, in order, and reports each stage.

  \<^item> What the caller's hooks do is part of the input: each returns or throws an error of the type \<open>'e\<close>.
    The errors of \<open>run\<close>'s own checks are \<open>InvalidInput\<close> and \<open>BadConfig\<close>.
  \<^item> The output lists the transitions called and the events the observers saw. Times, durations, traces
    and metadata are left out of the events; whether the metadata are valid is an input.
\<close>

section \<open>Tokens\<close>

definition is_lower :: "nat \<Rightarrow> bool" where
  "is_lower c \<longleftrightarrow> 97 \<le> c \<and> c \<le> 122"

definition is_numeral :: "nat \<Rightarrow> bool" where
  "is_numeral c \<longleftrightarrow> 48 \<le> c \<and> c \<le> 57"

fun capability_tail :: "bool \<Rightarrow> jstr \<Rightarrow> bool" where
  "capability_tail sep [] \<longleftrightarrow> \<not> sep"
| "capability_tail sep (c # cs) \<longleftrightarrow>
     (if is_lower c \<or> is_numeral c then capability_tail False cs
      else c \<in> {45, 46, 95} \<and> \<not> sep \<and> capability_tail True cs)"

definition validCapabilityId :: "jstr \<Rightarrow> bool" where
  "validCapabilityId s \<longleftrightarrow> (case s of [] \<Rightarrow> False | c # cs \<Rightarrow> is_lower c \<and> capability_tail False cs)"

definition valid_effect_id :: "jstr \<Rightarrow> bool" where
  "valid_effect_id s \<longleftrightarrow> s \<noteq> [] \<and> length s \<le> 64 \<and> list_all (\<lambda>c. 33 \<le> c \<and> c \<le> 126) s"

definition valid_error_code :: "jstr \<Rightarrow> bool" where
  "valid_error_code s \<longleftrightarrow>
     (case s of [] \<Rightarrow> False
      | c # cs \<Rightarrow> is_lower c \<and> length cs \<le> 63
          \<and> list_all (\<lambda>c. is_lower c \<or> is_numeral c \<or> c \<in> {45, 46, 95}) cs)"

section \<open>Evidence\<close>

record evidence =
  ev_began :: bool
  ev_committed :: bool
  ev_uncertain :: nat
  ev_retry :: bool

definition new_evidence :: evidence where
  "new_evidence = \<lparr> ev_began = False, ev_committed = False, ev_uncertain = 0, ev_retry = False \<rparr>"

definition ambiguous_evidence :: "evidence \<Rightarrow> bool" where
  "ambiguous_evidence ev \<longleftrightarrow> ev_uncertain ev > 0"

definition markBegan :: "evidence \<Rightarrow> evidence" where
  "markBegan ev = ev\<lparr> ev_began := True, ev_retry := False, ev_uncertain := ev_uncertain ev + 1 \<rparr>"

definition markCommitted :: "evidence \<Rightarrow> evidence" where
  "markCommitted ev =
     ev\<lparr> ev_began := True, ev_committed := True,
         ev_uncertain := (if ev_uncertain ev > 0 then ev_uncertain ev - 1 else ev_uncertain ev) \<rparr>"

definition markAmbiguous :: "evidence \<Rightarrow> evidence" where
  "markAmbiguous ev =
     ev\<lparr> ev_began := True, ev_retry := False,
         ev_uncertain := (if ev_uncertain ev = 0 then 1 else ev_uncertain ev) \<rparr>"

definition markFailed :: "evidence \<Rightarrow> evidence" where
  "markFailed ev =
     ev\<lparr> ev_began := True, ev_retry := False,
         ev_uncertain := (if ev_uncertain ev > 0 then ev_uncertain ev - 1 else ev_uncertain ev) \<rparr>"

text \<open>\<open>None\<close>: it throws, an effect began.\<close>

definition markSafeToRetry :: "evidence \<Rightarrow> evidence option" where
  "markSafeToRetry ev = (if ev_began ev then None else Some (ev\<lparr> ev_retry := True \<rparr>))"

definition safeToRetry :: "evidence \<Rightarrow> bool" where
  "safeToRetry ev \<longleftrightarrow> ev_retry ev \<and> \<not> ev_began ev"

section \<open>Events\<close>

datatype effect_stage = Admission | Execution | Compensation | Reconciliation
datatype effect_phase = Started | Succeeded | Failed | Ambiguous

record lifecycle_event =
  le_effectId :: jstr
  le_capability :: jstr
  le_stage :: effect_stage
  le_phase :: effect_phase
  le_attempt :: "int option"
  le_errorCode :: "jstr option"

definition emitEffectLifecycle :: "bool \<Rightarrow> bool \<Rightarrow> lifecycle_event \<Rightarrow> lifecycle_event list \<Rightarrow> lifecycle_event list" where
  "emitEffectLifecycle observed metadata_ok e log =
     (if \<not> observed then log
      else if \<not> validCapabilityId (le_capability e) \<or> \<not> valid_effect_id (le_effectId e) then log
      else if \<not> metadata_ok then log
      else if (case le_attempt e of None \<Rightarrow> False | Some a \<Rightarrow> a < 1) then log
      else if (case le_errorCode e of None \<Rightarrow> False | Some c \<Rightarrow> \<not> valid_error_code c) then log
      else log @ [e])"

section \<open>Running one effect\<close>

datatype 'e code_config = DefaultCode | FixedCode jstr | CodeOf "'e \<Rightarrow> bool \<Rightarrow> 'e + jstr"

record ('a, 'e) effect_input =
  ei_capability :: jstr
  ei_effectId :: jstr
  ei_metadata :: "'e option"
  ei_stage :: effect_stage
  ei_attempt :: "int option"
  ei_observed :: bool
  ei_aborted_first :: "'e option"
  ei_intent :: "'e option"
  ei_admit :: "'e option option"
  ei_aborted_then :: "'e option"
  ei_executing :: "'e option"
  ei_execute :: "'e + 'a"
  ei_committed :: "'e option"
  ei_errorCode :: "'e code_config"
  ei_failurePhase :: "('e \<Rightarrow> bool \<Rightarrow> 'e + effect_phase) option"

datatype 'e effect_error = InvalidInput | BadConfig | Threw 'e

datatype transition = Intent | Executing | Execute | Committed | FailedWith bool jstr

record ('a, 'e) effect_run =
  er_result :: "'e effect_error + 'a"
  er_evidence :: evidence
  er_calls :: "transition list"
  er_log :: "lifecycle_event list"

definition codeFor :: "'e code_config \<Rightarrow> 'e \<Rightarrow> bool \<Rightarrow> 'e effect_error + jstr" where
  "codeFor configured err began =
     (case (case configured of
              CodeOf f \<Rightarrow> (case f err began of Inl x \<Rightarrow> Inl (Threw x) | Inr c \<Rightarrow> Inr c)
            | FixedCode c \<Rightarrow> Inr c
            | DefaultCode \<Rightarrow> Inr (if began then js ''execution_failed'' else js ''admission_failed'')) of
        Inl x \<Rightarrow> Inl x
      | Inr c \<Rightarrow> if valid_error_code c then Inr c else Inl BadConfig)"

text \<open>The error code, the phase and the misconfiguration a caught error is settled with.\<close>

definition settle_error :: "('a, 'e) effect_input \<Rightarrow> 'e \<Rightarrow> bool \<Rightarrow> jstr \<times> effect_phase \<times> 'e effect_error option" where
  "settle_error i err began =
     (let code0 = (if began then js ''execution_failed'' else js ''admission_failed'');
          phase0 = (if began then Ambiguous else Failed) in
      case codeFor (ei_errorCode i) err began of
        Inl x \<Rightarrow> (code0, phase0, Some x)
      | Inr code \<Rightarrow>
          (case ei_failurePhase i of
             None \<Rightarrow> (code, phase0, None)
           | Some f \<Rightarrow>
               (case f err began of
                  Inl x \<Rightarrow> (code, phase0, Some (Threw x))
                | Inr p \<Rightarrow>
                    if p \<noteq> Failed \<and> p \<noteq> Ambiguous then (code, phase0, Some BadConfig)
                    else (code, p, None))))"

definition event_of :: "('a, 'e) effect_input \<Rightarrow> effect_stage \<Rightarrow> effect_phase \<Rightarrow> jstr option \<Rightarrow> lifecycle_event" where
  "event_of i st ph code =
     \<lparr> le_effectId = ei_effectId i, le_capability = ei_capability i, le_stage = st, le_phase = ph,
       le_attempt = ei_attempt i, le_errorCode = code \<rparr>"

abbreviation emits :: "('a, 'e) effect_input \<Rightarrow> effect_stage \<Rightarrow> effect_phase \<Rightarrow> jstr option \<Rightarrow> lifecycle_event list \<Rightarrow> lifecycle_event list" where
  "emits i st ph code log \<equiv> emitEffectLifecycle (ei_observed i) (ei_metadata i = None) (event_of i st ph code) log"

text \<open>The \<open>catch\<close> block.\<close>

definition caught ::
    "('a, 'e) effect_input \<Rightarrow> 'e \<Rightarrow> bool \<Rightarrow> evidence \<Rightarrow> transition list \<Rightarrow> lifecycle_event list \<Rightarrow> ('a, 'e) effect_run" where
  "caught i err began ev calls log =
     (let (code, phase, bad) = settle_error i err began in
      \<lparr> er_result = Inl (case bad of None \<Rightarrow> Threw err | Some x \<Rightarrow> x),
        er_evidence = (if began \<and> phase = Failed then markFailed ev else ev),
        er_calls = calls @ [FailedWith began code],
        er_log =
          emits i (if began then ei_stage i else if ei_admit i = None then ei_stage i else Admission)
            (if began then phase else Failed) (Some code) log \<rparr>)"





section \<open>What one run leaves behind\<close>

definition ev_ok :: "evidence \<Rightarrow> bool" where
  "ev_ok ev \<longleftrightarrow> (ev_committed ev \<longrightarrow> ev_began ev) \<and> (ev_uncertain ev > 0 \<longrightarrow> ev_began ev)"

lemmas mark_defs = markBegan_def markCommitted_def markAmbiguous_def markFailed_def

lemma marks_ok:
  "ev_ok new_evidence" "ev_ok ev \<Longrightarrow> ev_ok (markBegan ev)" "ev_ok ev \<Longrightarrow> ev_ok (markCommitted ev)"
  "ev_ok ev \<Longrightarrow> ev_ok (markAmbiguous ev)" "ev_ok ev \<Longrightarrow> ev_ok (markFailed ev)"
  "ev_ok ev \<Longrightarrow> markSafeToRetry ev = Some ev' \<Longrightarrow> ev_ok ev'"
  by (auto simp: ev_ok_def new_evidence_def mark_defs markSafeToRetry_def split: if_splits)



lemma valid_default_codes:
  "valid_error_code (js ''execution_failed'')" "valid_error_code (js ''admission_failed'')"
  by code_simp+

lemma codeFor_valid: "codeFor c err began = Inr code \<Longrightarrow> valid_error_code code"
  by (auto simp: codeFor_def split: sum.splits if_splits)

lemma settle_error_valid:
  "settle_error i err began = (code, phase, bad) \<Longrightarrow> valid_error_code code \<and> phase \<in> {Failed, Ambiguous}"
  by (auto simp: settle_error_def Let_def valid_default_codes simp del: js_Cons
      split: sum.splits option.splits if_splits dest: codeFor_valid)

definition input_valid :: "('a, 'e) effect_input \<Rightarrow> bool" where
  "input_valid i \<longleftrightarrow> validCapabilityId (ei_capability i) \<and> valid_effect_id (ei_effectId i) \<and> ei_metadata i = None
     \<and> \<not> (case ei_attempt i of None \<Rightarrow> False | Some a \<Rightarrow> a < 1)"

lemma emits_valid:
  "input_valid i \<Longrightarrow> (case code of None \<Rightarrow> True | Some c \<Rightarrow> valid_error_code c) \<Longrightarrow>
   emits i st ph code log = (if ei_observed i then log @ [event_of i st ph code] else log)"
  by (auto simp: emitEffectLifecycle_def input_valid_def event_of_def split: option.splits)

lemma event_of_simps [simp]:
  "le_stage (event_of i st ph code) = st" "le_phase (event_of i st ph code) = ph"
  by (simp_all add: event_of_def)

lemma caught_facts:
  assumes "input_valid i"
  shows "\<exists>code phase bad. settle_error i err began = (code, phase, bad) \<and> phase \<in> {Failed, Ambiguous}
    \<and> er_evidence (caught i err began ev calls log) = (if began \<and> phase = Failed then markFailed ev else ev)
    \<and> er_calls (caught i err began ev calls log) = calls @ [FailedWith began code]
    \<and> (\<exists>x. er_result (caught i err began ev calls log) = Inl x)
    \<and> er_log (caught i err began ev calls log) =
        (if ei_observed i
         then log @ [event_of i (if began then ei_stage i else if ei_admit i = None then ei_stage i else Admission)
            (if began then phase else Failed) (Some code)]
         else log)"
proof -
  obtain code phase bad where s: "settle_error i err began = (code, phase, bad)" by (rule prod_cases3)
  from settle_error_valid [OF s] show ?thesis
    by (intro exI [of _ code] exI [of _ phase] exI [of _ bad]) (auto simp: caught_def s emits_valid [OF assms])
qed

















end
