(* ===== verification/IdempotencyLane.thy ===== *)
theory IdempotencyLane
  imports IdempotencyCodec EffectScope
begin

text \<open>
  The request lane of idempotent routes: \<open>packages/core/src/server/idempotency-lane.ts\<close>, with the
  fingerprint of \<open>packages/core/src/idempotency.ts\<close>. \<open>resolve\<close> pins a route's settings at registration;
  the gate \<open>admit\<close> is its three stretches between the points where it waits: reading the request,
  \<open>begin\<close> with the store, and settling what the handler did.

  \<^item> The store is any \<open>store_ops\<close>. Where the gate waits, other calls may reach it.
  \<^item> SHA-256, the JSON parser with \<open>canonicalJson\<close>, the UTF-8 decoder, \<open>toUpperCase\<close> and \<open>toLowerCase\<close> are
    parameters. \<open>wrapResponse\<close>, which only adds to a response, is left out.
  \<^item> The handler's outcome is an input: a throw or a response, whose body may fail to be captured.
\<close>

section \<open>Fingerprints\<close>

fun hex_bytes :: "nat list \<Rightarrow> jstr" where
  "hex_bytes [] = []"
| "hex_bytes (b # bs) =
     (let digit = (\<lambda>d. if d < 10 then 48 + d else 87 + d) in digit (b div 16) # digit (b mod 16) # hex_bytes bs)"

definition bytesToHex :: "nat list \<Rightarrow> jstr" where
  "bytesToHex bytes = hex_bytes bytes"

text \<open>\<open>TextEncoder\<close>: a lone surrogate becomes U+FFFD.\<close>

fun utf8_text :: "jstr \<Rightarrow> nat list" where
  "utf8_text [] = []"
| "utf8_text (c # cs) =
     (if is_high c then
        (case cs of
           [] \<Rightarrow> utf8 65533
         | d # ds \<Rightarrow>
             if is_low d then utf8 ((c - 55296) * 1024 + (d - 56320) + 65536) @ utf8_text ds
             else utf8 65533 @ utf8_text cs)
      else if is_low c then utf8 65533 @ utf8_text cs
      else utf8 c @ utf8_text cs)"

definition trim_space :: "nat \<Rightarrow> bool" where
  "trim_space c \<longleftrightarrow> c \<in> {9, 10, 11, 12, 13, 32, 160, 5760, 8232, 8233, 8239, 8287, 12288, 65279} \<or> 8192 \<le> c \<and> c \<le> 8202"

definition trim_text :: "jstr \<Rightarrow> jstr" where
  "trim_text s = rev (dropWhile trim_space (rev (dropWhile trim_space s)))"

definition media_type :: "(jstr \<Rightarrow> jstr) \<Rightarrow> jstr \<Rightarrow> jstr" where
  "media_type lower contentType = lower (trim_text (hd (split_on 59 contentType)))"

definition fingerprint_material :: "(jstr \<Rightarrow> jstr) \<Rightarrow> (jstr \<Rightarrow> jstr) \<Rightarrow> jstr \<Rightarrow> jstr \<Rightarrow> nat list \<Rightarrow> jstr \<Rightarrow> nat list" where
  "fingerprint_material upper lower method path bytes contentType =
     utf8_text (upper method @ [10] @ path @ [10] @ media_type lower contentType @ [10]) @ bytes"

definition computeIdempotencyFingerprint ::
    "(nat list \<Rightarrow> nat list) \<Rightarrow> (jstr \<Rightarrow> jstr) \<Rightarrow> (jstr \<Rightarrow> jstr) \<Rightarrow> jstr \<Rightarrow> jstr \<Rightarrow> nat list \<Rightarrow> jstr \<Rightarrow> jstr" where
  "computeIdempotencyFingerprint sha upper lower method path bytes contentType =
     bytesToHex (sha (fingerprint_material upper lower method path bytes contentType))"

text \<open>
  \<open>decode\<close> is the replacing UTF-8 decoder; \<open>canonical lossy text\<close> parses (keeping the text of lossy
  numbers when told to) and prints canonically, or throws.
\<close>

definition canonicalizeIdempotencyBody ::
    "(jstr \<Rightarrow> jstr) \<Rightarrow> (nat list \<Rightarrow> jstr) \<Rightarrow> (bool \<Rightarrow> jstr \<Rightarrow> jstr option) \<Rightarrow> nat list \<Rightarrow> jstr option \<Rightarrow> nat list" where
  "canonicalizeIdempotencyBody lower decode canonical bytes contentType =
     (let mediaType = (case contentType of None \<Rightarrow> [] | Some t \<Rightarrow> media_type lower t) in
      if mediaType \<noteq> js ''application/json'' \<and> \<not> ends_with mediaType (js ''+json'') then bytes
      else
        (let tx = decode bytes in
         if 65533 \<in> set tx then bytes
         else (case canonical (mayHoldLossyNumber tx) tx of None \<Rightarrow> bytes | Some c \<Rightarrow> utf8_text c)))"

section \<open>Registration\<close>

datatype namespace_config = SharedScope jstr | PrincipalResolver

record store_info =
  si_durable :: bool
  si_renews :: bool

record idempotency_config =
  ic_sse :: bool
  ic_store :: "store_info option"
  ic_durable :: bool
  ic_ttlMs :: "int option"
  ic_pendingTtlMs :: "int option"
  ic_headerName :: "jstr option"
  ic_namespace :: "namespace_config option"
  ic_maxResponseBytes :: "int option"

record resolved_idempotency =
  ri_store :: store_info
  ri_ttlMs :: int
  ri_pendingTtlMs :: "int option"
  ri_headerName :: jstr
  ri_namespace :: namespace_config
  ri_maxResponseBytes :: int

datatype invalid_idempotency =
    SseRoute | NotDurable | BadTtl | BadPendingTtl | BadHeaderName | NamespaceRequired | BadNamespace
  | ResolverRequired | BadResponseBound

definition DEFAULT_IDEMPOTENCY_TTL_MS :: int where
  "DEFAULT_IDEMPOTENCY_TTL_MS = 86400000"

definition DEFAULT_IDEMPOTENCY_PENDING_TTL_MS :: int where
  "DEFAULT_IDEMPOTENCY_PENDING_TTL_MS = 60000"

definition DEFAULT_IDEMPOTENCY_HEADER :: jstr where
  "DEFAULT_IDEMPOTENCY_HEADER = js ''idempotency-key''"

definition safe_positive :: "int \<Rightarrow> bool" where
  "safe_positive n \<longleftrightarrow> 0 < n \<and> n \<le> 9007199254740991"

text \<open>The first check a route's settings fail, for the store, retention, header and bound it would get.\<close>

definition namespace_fault :: "namespace_config option \<Rightarrow> bool \<Rightarrow> invalid_idempotency option" where
  "namespace_fault n authenticated =
     (case n of
        None \<Rightarrow> Some NamespaceRequired
      | Some PrincipalResolver \<Rightarrow> None
      | Some (SharedScope t) \<Rightarrow>
          if \<not> validIdempotencyNamespace t then Some BadNamespace
          else if authenticated then Some ResolverRequired else None)"

definition config_fault ::
    "(jstr \<Rightarrow> bool) \<Rightarrow> store_info \<Rightarrow> int \<Rightarrow> jstr \<Rightarrow> int \<Rightarrow> idempotency_config \<Rightarrow> bool \<Rightarrow> invalid_idempotency option" where
  "config_fault header_ok st ttl headerName bound c authenticated =
     (if ic_sse c then Some SseRoute
      else if ic_durable c \<and> \<not> si_durable st then Some NotDurable
      else if \<not> safe_positive ttl then Some BadTtl
      else if (case ic_pendingTtlMs c of None \<Rightarrow> False | Some p \<Rightarrow> \<not> si_renews st \<or> \<not> safe_positive p) then Some BadPendingTtl
      else if \<not> header_ok headerName then Some BadHeaderName
      else
        (case namespace_fault (ic_namespace c) authenticated of
           Some e \<Rightarrow> Some e
         | None \<Rightarrow> if \<not> safe_positive bound then Some BadResponseBound else None))"

definition resolve_idempotency ::
    "(jstr \<Rightarrow> jstr) \<Rightarrow> (jstr \<Rightarrow> bool) \<Rightarrow> store_info \<Rightarrow> idempotency_config \<Rightarrow> bool \<Rightarrow> int
     \<Rightarrow> invalid_idempotency + resolved_idempotency" where
  "resolve_idempotency lower header_ok fallback c authenticated maxBodyBytes =
     (let st = (case ic_store c of None \<Rightarrow> fallback | Some s \<Rightarrow> s);
          ttl = (case ic_ttlMs c of None \<Rightarrow> DEFAULT_IDEMPOTENCY_TTL_MS | Some t \<Rightarrow> t);
          headerName = lower (case ic_headerName c of None \<Rightarrow> DEFAULT_IDEMPOTENCY_HEADER | Some h \<Rightarrow> h);
          bound = (case ic_maxResponseBytes c of None \<Rightarrow> maxBodyBytes | Some b \<Rightarrow> b) in
      case config_fault header_ok st ttl headerName bound c authenticated of
        Some e \<Rightarrow> Inl e
      | None \<Rightarrow>
          Inr \<lparr> ri_store = st, ri_ttlMs = ttl,
                ri_pendingTtlMs =
                  (if si_renews st
                   then Some (case ic_pendingTtlMs c of None \<Rightarrow> DEFAULT_IDEMPOTENCY_PENDING_TTL_MS | Some p \<Rightarrow> p)
                   else None),
                ri_headerName = headerName, ri_namespace = the (ic_namespace c), ri_maxResponseBytes = bound \<rparr>)"

lemma namespace_fault_None:
  "namespace_fault n authenticated = None \<Longrightarrow>
   n = Some PrincipalResolver \<or> \<not> authenticated \<and> (\<exists>t. n = Some (SharedScope t) \<and> validIdempotencyNamespace t)"
  by (auto simp: namespace_fault_def split: option.splits namespace_config.splits if_splits)

lemma config_fault_None:
  "config_fault header_ok st ttl headerName bound c authenticated = None \<Longrightarrow>
   \<not> ic_sse c \<and> (ic_durable c \<longrightarrow> si_durable st) \<and> safe_positive ttl \<and> header_ok headerName
   \<and> (\<forall>p. ic_pendingTtlMs c = Some p \<longrightarrow> si_renews st \<and> safe_positive p)
   \<and> namespace_fault (ic_namespace c) authenticated = None \<and> safe_positive bound"
  unfolding config_fault_def by (auto split: if_split_asm option.split_asm)

section \<open>The gate: what it answers itself\<close>

text \<open>\<open>jsonError\<close>: its body is the JSON text of \<open>ok: false\<close> and the code.\<close>

definition json_error :: "int \<Rightarrow> jstr \<Rightarrow> (jstr \<times> jstr) list \<Rightarrow> http_response" where
  "json_error st code headers =
     \<lparr> hr_status = st, hr_headers = headers @ [(js ''content-type'', js ''application/json'')],
       hr_body =
         Some [js ''{'' @ [34] @ js ''ok'' @ [34] @ js '':false,'' @ [34] @ js ''error'' @ [34] @ js '':'' @ [34] @ code @ [34] @ js ''}''] \<rparr>"

definition retry_later :: "int \<Rightarrow> jstr \<Rightarrow> http_response" where
  "retry_later st code = json_error st code [(js ''retry-after'', js ''1'')]"

text \<open>A request's body as the gate gets it: decoded by a codec before, or read up to the limit.\<close>

datatype gate_body = PreDecoded int "nat list" jstr | BodyRead "nat list" | BodyRefused int

record gate_request =
  gq_key :: "jstr option"
  gq_namespace :: jstr
  gq_body :: gate_body
  gq_contentType :: "jstr option"
  gq_method :: jstr
  gq_path :: jstr
  gq_aborted :: bool

datatype gate_open = Refuse http_response | Enter jstr jstr "nat list" jstr

definition open_gate :: "int \<Rightarrow> gate_request \<Rightarrow> gate_open" where
  "open_gate maxBodyBytes q =
     (case gq_key q of
        None \<Rightarrow> Refuse (json_error 400 (js ''idempotency_key_required'') [])
      | Some k \<Rightarrow>
          if \<not> validIdempotencyKey k then Refuse (json_error 400 (js ''idempotency_key_required'') [])
          else if \<not> validIdempotencyNamespace (gq_namespace q)
          then Refuse (json_error 500 (js ''idempotency_namespace_invalid'') [])
          else
            (let enter = (\<lambda>bytes contentType.
               if gq_aborted q then Refuse (json_error 503 (js ''request_timeout'') [])
               else Enter (gq_namespace q) k bytes contentType) in
             case gq_body q of
               PreDecoded n encoded contentType \<Rightarrow>
                 if n > maxBodyBytes then Refuse (json_error 413 (js ''payload_too_large'') [])
                 else enter encoded contentType
             | BodyRefused st \<Rightarrow>
                 Refuse (json_error st (if st = 413 then js ''payload_too_large'' else js ''bad_request'') [])
             | BodyRead bytes \<Rightarrow> enter bytes (case gq_contentType q of None \<Rightarrow> [] | Some t \<Rightarrow> t)))"

section \<open>The gate: the reservation\<close>

datatype gate_begin = Answer http_response | ReplayOf stored_response | RunHandler jstr

definition begin_gate ::
    "'s store_ops \<Rightarrow> int \<Rightarrow> jstr \<Rightarrow> begin_input \<Rightarrow> bool \<Rightarrow> 's \<Rightarrow> gate_begin \<times> 's" where
  "begin_gate S t uuid i aborted s =
     (case op_begin S t uuid i s of
        (Mismatch, s') \<Rightarrow> (Answer (json_error 409 (js ''idempotency_key_reused'') []), s')
      | (InFlight, s') \<Rightarrow> (Answer (retry_later 409 (js ''idempotency_in_progress'')), s')
      | (Capacity, s') \<Rightarrow> (Answer (retry_later 503 (js ''idempotency_store_capacity'')), s')
      | (New rsv, s') \<Rightarrow>
          if aborted
          then (Answer (json_error 503 (js ''request_timeout'') []),
                snd (op_abandon S t (bi_namespace i) (bi_key i) rsv s'))
          else (RunHandler rsv, s')
      | (Replay stored, s') \<Rightarrow>
          if aborted then (Answer (json_error 503 (js ''request_timeout'') []), s') else (ReplayOf stored, s'))"

section \<open>The gate: the outcome\<close>

definition REFUSALS :: "int list" where
  "REFUSALS = [401, 403, 408, 409, 425, 429]"

text \<open>A thrown error is passed on (\<open>Escaped\<close>); \<open>Lost\<close> says another request may own the key by now.\<close>

datatype gate_end = Sent http_response | Lost http_response | Escaped

datatype handler_outcome = Threw_error | Responded http_response bool

definition lost :: gate_end where
  "lost = Lost (retry_later 503 (js ''idempotency_reservation_lost''))"

definition bare_response :: "int \<Rightarrow> http_response" where
  "bare_response st = \<lparr> hr_status = st, hr_headers = [], hr_body = None \<rparr>"

definition complete_gate ::
    "'s store_ops \<Rightarrow> int \<Rightarrow> jstr \<Rightarrow> jstr \<Rightarrow> jstr \<Rightarrow> stored_response \<Rightarrow> http_response \<Rightarrow> 's \<Rightarrow> gate_end \<times> 's" where
  "complete_gate S t n k rsv stored r s =
     (case op_complete S t n k rsv stored s of (done_, s') \<Rightarrow> (if done_ then Sent r else lost, s'))"

definition settleThrown ::
    "(jstr \<Rightarrow> jstr) \<Rightarrow> 's store_ops \<Rightarrow> int \<Rightarrow> int \<Rightarrow> jstr \<Rightarrow> jstr \<Rightarrow> jstr \<Rightarrow> evidence \<Rightarrow> 's \<Rightarrow> gate_end \<times> 's" where
  "settleThrown lower S mx t n k rsv ev s =
     (if \<not> ev_began ev then (Escaped, snd (op_abandon S t n k rsv s))
      else
        (case serializeResponse lower mx (bare_response 500) of
           Inl _ \<Rightarrow> (Escaped, s)
         | Inr stored \<Rightarrow> complete_gate S t n k rsv stored (bare_response 500) s))"

definition release_gate ::
    "'s store_ops \<Rightarrow> int \<Rightarrow> jstr \<Rightarrow> jstr \<Rightarrow> jstr \<Rightarrow> http_response \<Rightarrow> 's \<Rightarrow> gate_end \<times> 's" where
  "release_gate S t n k rsv r s =
     (case op_abandon S t n k rsv s of (gone, s') \<Rightarrow> (if gone then Sent r else lost, s'))"

definition capture_gate ::
    "(jstr \<Rightarrow> jstr) \<Rightarrow> 's store_ops \<Rightarrow> int \<Rightarrow> int \<Rightarrow> jstr \<Rightarrow> jstr \<Rightarrow> jstr \<Rightarrow> http_response \<Rightarrow> 's \<Rightarrow> gate_end \<times> 's" where
  "capture_gate lower S mx t n k rsv r s =
     (case serializeResponse lower mx r of
        Inr stored \<Rightarrow> complete_gate S t n k rsv stored r s
      | Inl _ \<Rightarrow>
          (let small = json_error 507 (js ''idempotency_response_too_large'') [] in
           case serializeResponse lower mx small of
             Inr stored \<Rightarrow> complete_gate S t n k rsv stored small s
           | Inl _ \<Rightarrow>
               (case serializeResponse lower mx (bare_response 507) of
                  Inr stored \<Rightarrow> complete_gate S t n k rsv stored (bare_response 507) s
                | Inl _ \<Rightarrow> (Escaped, s))))"

definition settle_gate ::
    "(jstr \<Rightarrow> jstr) \<Rightarrow> 's store_ops \<Rightarrow> int \<Rightarrow> int \<Rightarrow> jstr \<Rightarrow> jstr \<Rightarrow> jstr \<Rightarrow> bool \<Rightarrow> evidence \<Rightarrow> handler_outcome \<Rightarrow> 's
     \<Rightarrow> gate_end \<times> 's" where
  "settle_gate lower S mx t n k rsv entered ev out s =
     (case out of
        Threw_error \<Rightarrow> settleThrown lower S mx t n k rsv ev s
      | Responded r capture_fails \<Rightarrow>
          if \<not> entered \<and> \<not> ev_began ev then release_gate S t n k rsv r s
          else if (hr_status r \<in> set REFUSALS \<or> hr_status r \<ge> 500 \<and> safeToRetry ev) \<and> \<not> ev_began ev
          then release_gate S t n k rsv r s
          else if capture_fails then settleThrown lower S mx t n k rsv ev s
          else capture_gate lower S mx t n k rsv r s)"


section \<open>What the lane makes of any store\<close>

lemma serialize_status: "serializeResponse lower mx r = Inr stored \<Longrightarrow> sr_status stored = hr_status r"
  by (auto simp: serializeResponse_def split: if_splits sum.splits)

lemma serialize_bare: "0 \<le> mx \<Longrightarrow> \<exists>stored. serializeResponse lower mx (bare_response st) = Inr stored"
  by (simp add: serializeResponse_def bare_response_def boundedResponseBytes_def)

context idempotency_store
begin

lemma complete_own:
  assumes "ok s" and "view t s (n, k) = Some e" and "reservation e = rsv"
    and "complete_gate S t n k rsv stored r s = (g, s')"
  shows "g = Sent r \<and> op_complete S t n k rsv stored s = (True, s')"
proof -
  obtain b s1 where c: "op_complete S t n k rsv stored s = (b, s1)" by (cases "op_complete S t n k rsv stored s")
  from complete_law [OF assms(1) c] assms(2,3) have "b" by (simp add: owns_def)
  with c assms(4) show ?thesis by (simp add: complete_gate_def)
qed

lemma settle_began:
  assumes ok: "ok s" and e: "view t s (n, k) = Some e" "reservation e = rsv" and ev: "ev_began ev" and mx: "0 \<le> mx"
    and g: "settle_gate lower S mx t n k rsv entered ev out s = (g, s')"
  shows "\<exists>r stored. g = Sent r \<and> sr_status stored = hr_status r \<and> op_complete S t n k rsv stored s = (True, s')"
proof -
  have fin: "\<exists>r stored. g = Sent r \<and> sr_status stored = hr_status r \<and> op_complete S t n k rsv stored s = (True, s')"
    if "serializeResponse lower mx r = Inr stored" "complete_gate S t n k rsv stored r s = (g, s')" for r stored
    using complete_own [OF ok e that(2)] serialize_status [OF that(1)] by blast
  have thrown: ?thesis if "settleThrown lower S mx t n k rsv ev s = (g, s')"
    using that fin serialize_bare [OF mx, of lower 500] ev by (auto simp: settleThrown_def)
  have captured: ?thesis if "capture_gate lower S mx t n k rsv r s = (g, s')" for r
    using that fin serialize_bare [OF mx, of lower 507]
    by (auto simp: capture_gate_def Let_def split: sum.splits)
  show ?thesis
    using g ev thrown captured by (auto simp: settle_gate_def split: handler_outcome.splits if_splits)
qed

lemma settle_rejected:
  assumes ok: "ok s" and e: "view t s (n, k) = Some e" "reservation e = rsv" "response e = None"
    and ev: "\<not> entered" "\<not> ev_began ev"
    and g: "settle_gate lower S mx t n k rsv entered ev (Responded r fails) s = (g, s')"
  shows "g = Sent r \<and> ok s' \<and> view t s' (n, k) = None"
proof -
  obtain b s1 where c: "op_abandon S t n k rsv s = (b, s1)" by (cases "op_abandon S t n k rsv s")
  from abandon_law [OF ok c] e have "b" "ok s1" "view t s1 (n, k) = None" by (auto simp: pending_for_def)
  with c g ev show ?thesis by (simp add: settle_gate_def release_gate_def)
qed

lemma begin_gate_live:
  assumes "ok s" and "view t s (bi_name i) = Some e" and "response e = Some stored"
  shows "fst (begin_gate S t u i False s) =
    (if bi_fingerprint i = fingerprint e then ReplayOf stored else Answer (json_error 409 (js ''idempotency_key_reused'') []))"
  using begin_live [OF assms(1,2), of u] assms(3)
  by (cases "op_begin S t u i s") (auto simp: begin_gate_def simp del: js_Cons)

end

section \<open>Properties\<close>

text \<open>
  C10: an effect is not repeated under its key. When a handler that began an effect ends - with any response,
  too large or broken ones included, or a throw - while its own reservation is still live under its token, the
  gate sends a response and stores one with the same status; and until the entry's retention is over, whatever
  else happens to the store, no request with that key reaches a handler again: the same request is answered with
  the stored response and any other is refused. (A reservation that lapsed before its handler ended is out of
  this: the store refuses its completion, and another request may by then have reserved the key.)
\<close>

theorem begun_effect_never_repeated:
  assumes "idem_inv st" and "live t st (n, k) = Some e" and "reservation e = rsv" and "ev_began ev" and "0 \<le> mx"
    and "settle_gate lower memory_ops mx t n k rsv entered ev out st = (g, st')"
    and "times_from t ops t1" and "t1 < t + ttlMs e" and "\<forall>c \<in> set ops. \<forall>r. snd c \<noteq> CompleteOp n k rsv r"
    and "bi_namespace i = n" and "bi_key i = k"
  shows "\<exists>r stored. g = Sent r \<and> sr_status stored = hr_status r
    \<and> fst (begin_gate memory_ops t1 u i False (idem_run memory_ops ops st')) =
        (if bi_fingerprint i = fingerprint e then ReplayOf stored
         else Answer (json_error 409 (js ''idempotency_key_reused'') []))"
proof -
  from memory.settle_began [OF assms(1-6)] obtain r stored where
    g: "g = Sent r" "sr_status stored = hr_status r" "op_complete memory_ops t n k rsv stored st = (True, st')" by blast
  from memory.replayed [OF assms(1,2) g(3) assms(7-9), of i u] assms(10,11)
  have "fst (op_begin memory_ops t1 u i (idem_run memory_ops ops st')) =
      (if bi_fingerprint i = fingerprint e then Replay stored else Mismatch)" by simp
  with g(1,2) show ?thesis
    by (cases "op_begin memory_ops t1 u i (idem_run memory_ops ops st')")
      (auto simp: begin_gate_def simp del: js_Cons)
qed

definition charged_evidence :: evidence where
  "charged_evidence = markCommitted (markBegan new_evidence)"

theorem begun_effect_never_repeated_witness:
  "let st = snd (begin_key 5 (js ''r9'') (order_of ''c'' ''k'' ''f'') small_store);
       st' = snd (settle_gate (\<lambda>s. s) memory_ops 2 20 (js ''c'') (js ''k'') (js ''r9'') True charged_evidence
                (Responded sample_response False) st) in
   \<exists>stored. sr_status stored = 507
     \<and> fst (begin_gate memory_ops 1019 (js ''r6'') (order_of ''c'' ''k'' ''f'') False (idem_run memory_ops late_ops st')) = ReplayOf stored"
proof -
  let ?i = "order_of ''c'' ''k'' ''f''"
  let ?st = "snd (begin_key 5 (js ''r9'') ?i small_store)"
  let ?s = "settle_gate (\<lambda>s. s) memory_ops 2 20 (js ''c'') (js ''k'') (js ''r9'') True charged_evidence
                (Responded sample_response False) ?st"
  let ?e = "new_entry 5 (js ''r9'') ?i"
  have b: "begin_key 5 (js ''r9'') ?i small_store = (New (js ''r9''), ?st)" by code_simp
  have inv: "idem_inv ?st"
    using begin_refines [OF new_store_inv [OF small_store_new] b] by blast
  have l: "live 20 ?st (js ''c'', js ''k'') = Some ?e" by code_simp
  have rs: "reservation ?e = js ''r9''" by (simp add: new_entry_def)
  have ev: "ev_began charged_evidence" by code_simp
  have g: "fst ?s = Sent (bare_response 507)" by code_simp
  then have s: "?s = (Sent (bare_response 507), snd ?s)" by (metis prod.collapse)
  have t: "times_from 20 late_ops 1019" by code_simp
  have x: "1019 < 20 + ttlMs ?e" by code_simp
  have o: "\<forall>c \<in> set late_ops. \<forall>r. snd c \<noteq> CompleteOp (js ''c'') (js ''k'') (js ''r9'') r"
    by (simp add: late_ops_def del: js_Cons)
  have n: "bi_namespace ?i = js ''c''" "bi_key ?i = js ''k''" "bi_fingerprint ?i = fingerprint ?e"
    by (simp_all add: order_of_def new_entry_def)
  have m: "(0::int) \<le> 2" by simp
  from begun_effect_never_repeated [OF inv l rs ev m s t x o n(1,2), of "js ''r6''"]
  obtain stored where "sr_status stored = 507"
    "fst (begin_gate memory_ops 1019 (js ''r6'') ?i False (idem_run memory_ops late_ops (snd ?s))) = ReplayOf stored"
    using n(3) by (auto simp: bare_response_def simp del: js_Cons)
  then show ?thesis unfolding Let_def by blast
qed

text \<open>
  A request that was turned away before its handler ran (no authentication, bad input, a guard) and
  began no effect holds its key no longer: the caller gets that response, and at once the key is free
  for the next request, unless the store is full.
\<close>

theorem rejected_request_frees_key:
  assumes "idem_inv st" and "live t st (n, k) = Some e" and "reservation e = rsv" and "response e = None"
    and "\<not> ev_began ev" and "bi_namespace i = n" and "bi_key i = k"
  shows "let (g, st') = settle_gate lower memory_ops mx t n k rsv False ev (Responded r fails) st in
    g = Sent r \<and> fst (begin_key t u i st') =
      (if has_room (maxEntries st') (maxPerNamespace st') (live t st') n then New u else Capacity)"
proof -
  obtain g st' where s: "settle_gate lower memory_ops mx t n k rsv False ev (Responded r fails) st = (g, st')"
    by (cases "settle_gate lower memory_ops mx t n k rsv False ev (Responded r fails) st")
  from memory.settle_rejected [OF assms(1-4) _ assms(5) s] have g: "g = Sent r" "idem_inv st'" "live t st' (n, k) = None"
    by simp_all
  have "fst (begin_key t u i st') =
      (if has_room (maxEntries st') (maxPerNamespace st') (live t st') n then New u else Capacity)"
    using memory.freed [OF g(2), of t i u] g(3) assms(6,7) by (simp add: memory_ops_def memory_room_def)
  with g(1) show ?thesis unfolding s by simp
qed

theorem rejected_request_frees_key_witness:
  "let st = snd (begin_key 5 (js ''r9'') (order_of ''c'' ''k'' ''f'') small_store);
       (g, st') = settle_gate (\<lambda>s. s) memory_ops 2 20 (js ''c'') (js ''k'') (js ''r9'') False new_evidence
                (Responded (bare_response 422) False) st in
   g = Sent (bare_response 422) \<and> fst (begin_key 20 (js ''r6'') (order_of ''c'' ''k'' ''g'') st') = New (js ''r6'')"
proof -
  let ?i = "order_of ''c'' ''k'' ''f''" and ?i' = "order_of ''c'' ''k'' ''g''"
  let ?st = "snd (begin_key 5 (js ''r9'') ?i small_store)"
  let ?s = "settle_gate (\<lambda>s. s) memory_ops 2 20 (js ''c'') (js ''k'') (js ''r9'') False new_evidence
                (Responded (bare_response 422) False) ?st"
  have b: "begin_key 5 (js ''r9'') ?i small_store = (New (js ''r9''), ?st)" by code_simp
  have inv: "idem_inv ?st"
    using begin_refines [OF new_store_inv [OF small_store_new] b] by blast
  have l: "live 20 ?st (js ''c'', js ''k'') = Some (new_entry 5 (js ''r9'') ?i)" by code_simp
  have e: "reservation (new_entry 5 (js ''r9'') ?i) = js ''r9''" "response (new_entry 5 (js ''r9'') ?i) = None"
    by (simp_all add: new_entry_def)
  have ev: "\<not> ev_began new_evidence" by code_simp
  have n: "bi_namespace ?i' = js ''c''" "bi_key ?i' = js ''k''" by (simp_all add: order_of_def)
  have f: "fst (begin_key 20 (js ''r6'') ?i' (snd ?s)) = New (js ''r6'')" by code_simp
  show ?thesis
    using rejected_request_frees_key [OF inv l e ev n, of "\<lambda>s. s" 2 "bare_response 422" False "js ''r6''"] f
    by (simp add: case_prod_beta Let_def del: js_Cons)
qed

text \<open>
  A route whose settings registration accepts is sound: its bounds are positive, a durable scope is
  backed by a durable store, an authenticated route resolves its namespace from the principal, a shared
  namespace is a valid token, and there is a lease to renew exactly when the store can renew one.
\<close>

theorem resolved_settings_sound:
  assumes "resolve_idempotency lower header_ok fallback c authenticated maxBodyBytes = Inr r"
  shows "\<not> ic_sse c \<and> safe_positive (ri_ttlMs r) \<and> safe_positive (ri_maxResponseBytes r) \<and> header_ok (ri_headerName r)
    \<and> (ic_durable c \<longrightarrow> si_durable (ri_store r))
    \<and> (authenticated \<longrightarrow> ri_namespace r = PrincipalResolver)
    \<and> (\<forall>n. ri_namespace r = SharedScope n \<longrightarrow> validIdempotencyNamespace n)
    \<and> (case ri_pendingTtlMs r of None \<Rightarrow> \<not> si_renews (ri_store r) | Some p \<Rightarrow> si_renews (ri_store r) \<and> safe_positive p)"
proof -
  let ?st = "case ic_store c of None \<Rightarrow> fallback | Some s \<Rightarrow> s"
  let ?ttl = "case ic_ttlMs c of None \<Rightarrow> DEFAULT_IDEMPOTENCY_TTL_MS | Some t \<Rightarrow> t"
  let ?h = "lower (case ic_headerName c of None \<Rightarrow> DEFAULT_IDEMPOTENCY_HEADER | Some h \<Rightarrow> h)"
  let ?b = "case ic_maxResponseBytes c of None \<Rightarrow> maxBodyBytes | Some b \<Rightarrow> b"
  have d: "safe_positive DEFAULT_IDEMPOTENCY_PENDING_TTL_MS" by code_simp
  from assms have ok: "config_fault header_ok ?st ?ttl ?h ?b c authenticated = None"
    unfolding resolve_idempotency_def Let_def by (cases "config_fault header_ok ?st ?ttl ?h ?b c authenticated") simp_all
  with assms have r: "ri_store r = ?st" "ri_ttlMs r = ?ttl" "ri_headerName r = ?h" "ri_maxResponseBytes r = ?b"
      "ri_namespace r = the (ic_namespace c)"
      "ri_pendingTtlMs r = (if si_renews ?st
         then Some (case ic_pendingTtlMs c of None \<Rightarrow> DEFAULT_IDEMPOTENCY_PENDING_TTL_MS | Some p \<Rightarrow> p) else None)"
    unfolding resolve_idempotency_def Let_def by auto
  note f = config_fault_None [OF ok]
  then have "namespace_fault (ic_namespace c) authenticated = None" by blast
  from namespace_fault_None [OF this] have "(authenticated \<longrightarrow> ri_namespace r = PrincipalResolver)
    \<and> (\<forall>n. ri_namespace r = SharedScope n \<longrightarrow> validIdempotencyNamespace n)"
    unfolding r by auto
  moreover have "case ri_pendingTtlMs r of None \<Rightarrow> \<not> si_renews (ri_store r) | Some p \<Rightarrow> si_renews (ri_store r) \<and> safe_positive p"
    using f d unfolding r by (cases "ic_pendingTtlMs c") auto
  ultimately show ?thesis
    using f unfolding r(1-4) by blast
qed

definition payments :: idempotency_config where
  "payments =
     \<lparr> ic_sse = False, ic_store = Some \<lparr> si_durable = True, si_renews = True \<rparr>, ic_durable = True, ic_ttlMs = None,
       ic_pendingTtlMs = None, ic_headerName = None, ic_namespace = Some PrincipalResolver, ic_maxResponseBytes = Some 4096 \<rparr>"

theorem resolved_settings_sound_witness:
  "\<exists>r. resolve_idempotency (\<lambda>s. s) (\<lambda>h. True) \<lparr> si_durable = False, si_renews = True \<rparr> payments True 1000 = Inr r
    \<and> si_durable (ri_store r) \<and> ri_namespace r = PrincipalResolver \<and> ri_pendingTtlMs r = Some 60000"
proof -
  let ?f = "\<lparr> si_durable = False, si_renews = True \<rparr>"
  let ?r = "\<lparr> ri_store = \<lparr> si_durable = True, si_renews = True \<rparr>, ri_ttlMs = 86400000, ri_pendingTtlMs = Some 60000,
      ri_headerName = js ''idempotency-key'', ri_namespace = PrincipalResolver, ri_maxResponseBytes = 4096 \<rparr>"
  have e: "resolve_idempotency (\<lambda>s. s) (\<lambda>h. True) ?f payments True 1000 = Inr ?r"
    by (simp add: resolve_idempotency_def config_fault_def namespace_fault_def payments_def safe_positive_def DEFAULT_IDEMPOTENCY_TTL_MS_def
        DEFAULT_IDEMPOTENCY_PENDING_TTL_MS_def DEFAULT_IDEMPOTENCY_HEADER_def Let_def)
  have d: "ic_durable payments" by (simp add: payments_def)
  show ?thesis
    using resolved_settings_sound [OF e] e d by (intro exI [of _ ?r]) (simp del: js_Cons)
qed

end
