(* ===== verification/JobStore.thy ===== *)
theory JobStore
  imports ParamConstraint
begin

text \<open>
  The in-process job store, \<open>packages/jobs/src/memory-store.ts\<close>: jobs wait, are leased under a fresh
  token for a time, and are completed, retried or dead-lettered by whoever holds the token.

  \<^item> \<open>m_jobs\<close> and \<open>m_dead\<close> are the two \<open>Map\<close>s; times are whole milliseconds; tokens are the decimal texts of
    a counter, as \<open>String(++leaseSeq)\<close> makes them.
  \<^item> The interface \<open>JobStore\<close> of \<open>packages/jobs/src/types.ts\<close> is the record \<open>job_ops\<close> and the locale
    \<open>job_store\<close> of its laws.
\<close>

section \<open>Data\<close>

record 'p job =
  j_id :: jstr
  j_name :: jstr
  j_payload :: 'p
  j_attempt :: nat
  j_maxAttempts :: int
  j_traceparent :: "jstr option"
  j_runAt :: int
  j_leaseUntil :: int
  j_lease :: "jstr option"

record dead_job =
  d_id :: jstr
  d_name :: jstr
  d_error :: jstr

record 'p new_job =
  n_name :: jstr
  n_payload :: 'p
  n_runAt :: int
  n_maxAttempts :: int
  n_traceparent :: "jstr option"

record 'p stored_job =
  sj_id :: jstr
  sj_name :: jstr
  sj_payload :: 'p
  sj_attempt :: nat
  sj_maxAttempts :: int
  sj_traceparent :: "jstr option"
  sj_lease :: "jstr option"

record 'p memory_jobs =
  m_jobs :: "(jstr, 'p job) jmap"
  m_dead :: "(jstr, dead_job) jmap"
  m_seq :: nat
  m_leaseSeq :: nat

record job_counts =
  c_pending :: nat
  c_active :: nat
  c_dead :: nat

section \<open>Operations\<close>

definition new_memory_jobs :: "'p memory_jobs" where
  "new_memory_jobs = \<lparr> m_jobs = [], m_dead = [], m_seq = 0, m_leaseSeq = 0 \<rparr>"

definition fresh_job :: "jstr \<Rightarrow> 'p new_job \<Rightarrow> 'p job" where
  "fresh_job i j =
     \<lparr> j_id = i, j_name = n_name j, j_payload = n_payload j, j_attempt = 0, j_maxAttempts = n_maxAttempts j,
       j_traceparent = n_traceparent j, j_runAt = n_runAt j, j_leaseUntil = 0, j_lease = None \<rparr>"

text \<open>The default \<open>idFor\<close>; an injected one gives the identifier instead.\<close>

definition id_for :: "jstr option \<Rightarrow> 'p memory_jobs \<Rightarrow> jstr \<times> 'p memory_jobs" where
  "id_for injected s =
     (case injected of
        Some i \<Rightarrow> (i, s)
      | None \<Rightarrow> (js ''job_'' @ dec (m_seq s + 1), s\<lparr> m_seq := m_seq s + 1 \<rparr>))"

definition enqueue_job :: "jstr option \<Rightarrow> 'p new_job \<Rightarrow> 'p memory_jobs \<Rightarrow> jstr \<times> 'p memory_jobs" where
  "enqueue_job injected j s =
     (case id_for injected s of
        (i, s') \<Rightarrow> (i, s'\<lparr> m_jobs := AList.update i (fresh_job i j) (m_jobs s') \<rparr>))"

definition stored_of :: "'p job \<Rightarrow> 'p stored_job" where
  "stored_of r =
     \<lparr> sj_id = j_id r, sj_name = j_name r, sj_payload = j_payload r, sj_attempt = j_attempt r,
       sj_maxAttempts = j_maxAttempts r, sj_traceparent = j_traceparent r, sj_lease = j_lease r \<rparr>"

definition due :: "int \<Rightarrow> 'p job \<Rightarrow> bool" where
  "due now r \<longleftrightarrow> j_runAt r \<le> now \<and> j_leaseUntil r \<le> now"

fun lease_loop ::
    "int \<Rightarrow> nat \<Rightarrow> int \<Rightarrow> (jstr, 'p job) jmap \<Rightarrow> nat \<Rightarrow> nat \<Rightarrow> (jstr, 'p job) jmap \<times> 'p stored_job list \<times> nat" where
  "lease_loop now limit leaseMs [] taken sq = ([], [], sq)"
| "lease_loop now limit leaseMs ((k, r) # rs) taken sq =
     (if taken \<ge> limit then ((k, r) # rs, [], sq)
      else if due now r then
        (let r' = r\<lparr> j_leaseUntil := now + leaseMs, j_lease := Some (dec (sq + 1)) \<rparr>;
             (rs', out, sq') = lease_loop now limit leaseMs rs (taken + 1) (sq + 1) in
         ((k, r') # rs', stored_of r' # out, sq'))
      else
        (let (rs', out, sq') = lease_loop now limit leaseMs rs taken sq in ((k, r) # rs', out, sq')))"

definition lease_jobs :: "int \<Rightarrow> nat \<Rightarrow> int \<Rightarrow> 'p memory_jobs \<Rightarrow> 'p stored_job list \<times> 'p memory_jobs" where
  "lease_jobs now limit leaseMs s =
     (case lease_loop now limit leaseMs (m_jobs s) 0 (m_leaseSeq s) of
        (rs, out, sq) \<Rightarrow> (out, s\<lparr> m_jobs := rs, m_leaseSeq := sq \<rparr>))"

definition held :: "jstr \<Rightarrow> jstr option \<Rightarrow> 'p memory_jobs \<Rightarrow> 'p job option" where
  "held i l s =
     (case map_of (m_jobs s) i of
        None \<Rightarrow> None
      | Some r \<Rightarrow> if l \<noteq> None \<and> j_lease r \<noteq> l then None else Some r)"

definition complete_job :: "jstr \<Rightarrow> jstr option \<Rightarrow> 'p memory_jobs \<Rightarrow> 'p memory_jobs" where
  "complete_job i l s = (if held i l s \<noteq> None then s\<lparr> m_jobs := AList.delete i (m_jobs s) \<rparr> else s)"

definition retry_job :: "jstr \<Rightarrow> int \<Rightarrow> jstr option \<Rightarrow> 'p memory_jobs \<Rightarrow> 'p memory_jobs" where
  "retry_job i runAt l s =
     (case held i l s of
        None \<Rightarrow> s
      | Some r \<Rightarrow>
          s\<lparr> m_jobs :=
               AList.update i (r\<lparr> j_attempt := j_attempt r + 1, j_runAt := runAt, j_leaseUntil := 0, j_lease := None \<rparr>)
                 (m_jobs s) \<rparr>)"

definition dead_letter :: "jstr \<Rightarrow> jstr \<Rightarrow> jstr option \<Rightarrow> 'p memory_jobs \<Rightarrow> 'p memory_jobs" where
  "dead_letter i err l s =
     (case held i l s of
        None \<Rightarrow> s
      | Some r \<Rightarrow>
          s\<lparr> m_jobs := AList.delete i (m_jobs s),
             m_dead := AList.update i \<lparr> d_id = i, d_name = j_name r, d_error = err \<rparr> (m_dead s) \<rparr>)"

definition renew_job :: "jstr \<Rightarrow> int \<Rightarrow> jstr option \<Rightarrow> 'p memory_jobs \<Rightarrow> 'p memory_jobs" where
  "renew_job i until l s =
     (case held i l s of
        None \<Rightarrow> s
      | Some r \<Rightarrow>
          if j_lease r \<noteq> None
          then s\<lparr> m_jobs := AList.update i (r\<lparr> j_leaseUntil := until \<rparr>) (m_jobs s) \<rparr> else s)"

definition count_jobs :: "int \<Rightarrow> 'p memory_jobs \<Rightarrow> job_counts" where
  "count_jobs now s =
     (let active = length (filter (\<lambda>x. j_leaseUntil (snd x) > now) (m_jobs s)) in
      \<lparr> c_pending = length (m_jobs s) - active, c_active = active, c_dead = length (m_dead s) \<rparr>)"

definition dead_letters :: "'p memory_jobs \<Rightarrow> dead_job list" where
  "dead_letters s = map snd (m_dead s)"

section \<open>The interface\<close>

record ('p, 's) job_ops =
  jo_enqueue :: "'p new_job \<Rightarrow> 's \<Rightarrow> jstr \<times> 's"
  jo_lease :: "int \<Rightarrow> nat \<Rightarrow> int \<Rightarrow> 's \<Rightarrow> 'p stored_job list \<times> 's"
  jo_complete :: "jstr \<Rightarrow> jstr option \<Rightarrow> 's \<Rightarrow> 's"
  jo_retry :: "jstr \<Rightarrow> int \<Rightarrow> jstr option \<Rightarrow> 's \<Rightarrow> 's"
  jo_dead :: "jstr \<Rightarrow> jstr \<Rightarrow> jstr option \<Rightarrow> 's \<Rightarrow> 's"
  jo_renew :: "jstr \<Rightarrow> int \<Rightarrow> jstr option \<Rightarrow> 's \<Rightarrow> 's"

definition memory_job_ops :: "('p, 'p memory_jobs) job_ops" where
  "memory_job_ops =
     \<lparr> jo_enqueue = enqueue_job None, jo_lease = lease_jobs, jo_complete = complete_job, jo_retry = retry_job,
       jo_dead = dead_letter, jo_renew = renew_job \<rparr>"

text \<open>Who may settle a job: the holder of its token, or a caller that names none.\<close>

definition may_settle :: "jstr option \<Rightarrow> 'p job option \<Rightarrow> bool" where
  "may_settle l m \<longleftrightarrow> (\<exists>r. m = Some r \<and> (l = None \<or> j_lease r = l))"

definition leased_job :: "int \<Rightarrow> jstr option \<Rightarrow> 'p job \<Rightarrow> 'p job" where
  "leased_job until tok r = r\<lparr> j_leaseUntil := until, j_lease := tok \<rparr>"

definition retried_job :: "int \<Rightarrow> 'p job \<Rightarrow> 'p job" where
  "retried_job runAt r = r\<lparr> j_attempt := j_attempt r + 1, j_runAt := runAt, j_leaseUntil := 0, j_lease := None \<rparr>"

definition lease_view :: "int \<Rightarrow> 'p stored_job list \<Rightarrow> (jstr \<Rightarrow> 'p job option) \<Rightarrow> jstr \<Rightarrow> 'p job option" where
  "lease_view until out v i =
     (case map_of (map (\<lambda>x. (sj_id x, sj_lease x)) out) i of
        None \<Rightarrow> v i
      | Some tok \<Rightarrow> map_option (leased_job until tok) (v i))"

text \<open>Any caller's operation on a store.\<close>

datatype 'p job_op =
    EnqueueJob "'p new_job"
  | LeaseJobs int nat int
  | CompleteJob jstr "jstr option"
  | RetryJob jstr int "jstr option"
  | DeadLetter jstr jstr "jstr option"
  | RenewJob jstr int "jstr option"

fun job_step :: "('p, 's) job_ops \<Rightarrow> 'p job_op \<Rightarrow> 's \<Rightarrow> 's" where
  "job_step S (EnqueueJob j) s = snd (jo_enqueue S j s)"
| "job_step S (LeaseJobs now n ms) s = snd (jo_lease S now n ms s)"
| "job_step S (CompleteJob i l) s = jo_complete S i l s"
| "job_step S (RetryJob i t l) s = jo_retry S i t l s"
| "job_step S (DeadLetter i err l) s = jo_dead S i err l s"
| "job_step S (RenewJob i t l) s = jo_renew S i t l s"

text \<open>What a call that names the job could do to it, and what keeps the job hidden up to a time.\<close>

fun touches :: "jstr \<Rightarrow> jstr \<Rightarrow> 'p job_op \<Rightarrow> bool" where
  "touches i tok (CompleteJob k l) \<longleftrightarrow> k = i \<and> (l = None \<or> l = Some tok)"
| "touches i tok (RetryJob k _ l) \<longleftrightarrow> k = i \<and> (l = None \<or> l = Some tok)"
| "touches i tok (DeadLetter k _ l) \<longleftrightarrow> k = i \<and> (l = None \<or> l = Some tok)"
| "touches i tok (RenewJob k _ l) \<longleftrightarrow> k = i \<and> (l = None \<or> l = Some tok)"
| "touches i tok _ \<longleftrightarrow> False"

fun leases_before :: "int \<Rightarrow> 'p job_op \<Rightarrow> bool" where
  "leases_before t (LeaseJobs now n ms) \<longleftrightarrow> now < t"
| "leases_before t _ \<longleftrightarrow> True"

lemma leased_simps [simp]:
  "j_id (leased_job u t r) = j_id r" "j_lease (leased_job u t r) = t" "j_leaseUntil (leased_job u t r) = u"
  "j_attempt (leased_job u t r) = j_attempt r" "j_maxAttempts (leased_job u t r) = j_maxAttempts r"
  by (simp_all add: leased_job_def)

lemma stored_of_simps [simp]: "sj_id (stored_of r) = j_id r" "sj_lease (stored_of r) = j_lease r"
  by (simp_all add: stored_of_def)

locale job_store =
  fixes S :: "('p, 's) job_ops" and view :: "'s \<Rightarrow> jstr \<Rightarrow> 'p job option" and ok :: "'s \<Rightarrow> bool"
    and issued :: "'s \<Rightarrow> jstr set"
  assumes view_finite: "ok s \<Longrightarrow> finite (dom (view s))"
    and view_issued: "ok s \<Longrightarrow> view s i = Some r \<Longrightarrow> j_lease r = Some t \<Longrightarrow> t \<in> issued s"
    and enqueue_law: "ok s \<Longrightarrow> jo_enqueue S j s = (i, s') \<Longrightarrow>
      ok s' \<and> issued s' = issued s \<and> view s i = None \<and> view s' = (view s)(i \<mapsto> fresh_job i j)"
    and lease_law: "ok s \<Longrightarrow> jo_lease S now n ms s = (out, s') \<Longrightarrow>
      ok s' \<and> issued s \<subseteq> issued s' \<and> length out \<le> n \<and> distinct (map sj_id out)
      \<and> (\<forall>x \<in> set out. \<exists>r t. view s (sj_id x) = Some r \<and> due now r \<and> sj_lease x = Some t \<and> t \<notin> issued s
          \<and> x = stored_of (leased_job (now + ms) (Some t) r))
      \<and> view s' = lease_view (now + ms) out (view s)"
    and complete_law: "ok s \<Longrightarrow> ok (jo_complete S i l s) \<and> issued (jo_complete S i l s) = issued s
      \<and> view (jo_complete S i l s) = (if may_settle l (view s i) then (view s)(i := None) else view s)"
    and retry_law: "ok s \<Longrightarrow> ok (jo_retry S i again l s) \<and> issued (jo_retry S i again l s) = issued s
      \<and> view (jo_retry S i again l s)
          = (if may_settle l (view s i) then (view s)(i := map_option (retried_job again) (view s i)) else view s)"
    and dead_law: "ok s \<Longrightarrow> ok (jo_dead S i err l s) \<and> issued (jo_dead S i err l s) = issued s
      \<and> view (jo_dead S i err l s) = (if may_settle l (view s i) then (view s)(i := None) else view s)"
    and renew_law: "ok s \<Longrightarrow> ok (jo_renew S i until l s) \<and> issued (jo_renew S i until l s) = issued s
      \<and> view (jo_renew S i until l s)
          = (if may_settle l (view s i)
             then (view s)(i := map_option (\<lambda>r. if j_lease r = None then r else r\<lparr> j_leaseUntil := until \<rparr>) (view s i))
             else view s)"
begin

lemmas enqueue_step = enqueue_law [OF _ prod.collapse [symmetric]]
lemmas lease_step = lease_law [OF _ prod.collapse [symmetric]]

lemma step_ok: "ok s \<Longrightarrow> ok (job_step S c s)"
  by (cases c) (use enqueue_step lease_step complete_law retry_law dead_law renew_law in \<open>simp_all only: job_step.simps\<close>)

lemma run_ok: "ok s \<Longrightarrow> ok (fold (job_step S) ops s)"
  by (induction ops arbitrary: s) (auto simp: step_ok)

lemma step_issued: "ok s \<Longrightarrow> issued s \<subseteq> issued (job_step S c s)"
  by (cases c) (use enqueue_step lease_step complete_law retry_law dead_law renew_law in \<open>simp_all only: job_step.simps order_refl\<close>)

text \<open>A token that is not a job's current one never becomes it again.\<close>

definition without :: "jstr \<Rightarrow> jstr \<Rightarrow> 's \<Rightarrow> bool" where
  "without i t s \<longleftrightarrow> (\<forall>r. view s i = Some r \<longrightarrow> j_lease r \<noteq> Some t)"

lemma step_without:
  assumes "ok s" and "t \<in> issued s" and "without i t s"
  shows "without i t (job_step S c s)"
proof (cases c)
  case (EnqueueJob j)
  with enqueue_step [OF assms(1), of j] assms(3) show ?thesis
    by (auto simp: without_def fresh_job_def split: if_splits)
next
  case (LeaseJobs now n ms)
  let ?out = "fst (jo_lease S now n ms s)"
  have v: "view (snd (jo_lease S now n ms s)) i = lease_view (now + ms) ?out (view s) i"
    using lease_step [OF assms(1), of now n ms] by simp
  show ?thesis
  proof (cases "map_of (map (\<lambda>x. (sj_id x, sj_lease x)) ?out) i")
    case None
    with v assms(3) LeaseJobs show ?thesis by (simp add: without_def lease_view_def)
  next
    case (Some tok)
    then obtain x where x: "x \<in> set ?out" "sj_id x = i" "sj_lease x = tok" by (auto dest!: map_of_SomeD)
    with lease_step [OF assms(1), of now n ms] have "\<exists>t'. tok = Some t' \<and> t' \<notin> issued s" by blast
    then have "tok \<noteq> Some t" using assms(2) by blast
    with v Some LeaseJobs show ?thesis by (auto simp: without_def lease_view_def)
  qed
next
  case (CompleteJob k l)
  with complete_law [OF assms(1), of k l] assms(3) show ?thesis by (auto simp: without_def)
next
  case (RetryJob k again l)
  with retry_law [OF assms(1), of k again l] assms(3) show ?thesis by (auto simp: without_def retried_job_def)
next
  case (DeadLetter k err l)
  with dead_law [OF assms(1), of k err l] assms(3) show ?thesis by (auto simp: without_def)
next
  case (RenewJob k until l)
  with renew_law [OF assms(1), of k until l] assms(3) show ?thesis by (auto simp: without_def split: if_splits)
qed

lemma run_without:
  "ok s \<Longrightarrow> t \<in> issued s \<Longrightarrow> without i t s \<Longrightarrow> without i t (fold (job_step S) ops s)"
proof (induction ops arbitrary: s)
  case (Cons c ops)
  then have "ok (job_step S c s)" "t \<in> issued (job_step S c s)" "without i t (job_step S c s)"
    using step_ok step_issued step_without by blast+
  from Cons.IH [OF this] show ?case by simp
qed simp

text \<open>A leased job stays with its holder and hidden until its lease runs out.\<close>

definition hidden :: "jstr \<Rightarrow> jstr \<Rightarrow> int \<Rightarrow> 's \<Rightarrow> bool" where
  "hidden i tok until s \<longleftrightarrow> (\<exists>r. view s i = Some r \<and> j_lease r = Some tok \<and> j_leaseUntil r = until)"

lemma not_leased:
  assumes "ok s" and "hidden i tok until s" and "now < until"
  shows "i \<notin> sj_id ` set (fst (jo_lease S now n ms s))"
proof
  assume "i \<in> sj_id ` set (fst (jo_lease S now n ms s))"
  then obtain x where x: "x \<in> set (fst (jo_lease S now n ms s))" "sj_id x = i" by blast
  with lease_step [OF assms(1), of now n ms] obtain r where "view s i = Some r" "due now r" by blast
  with assms(2,3) show False by (auto simp: hidden_def due_def)
qed

lemma step_hidden:
  assumes "ok s" and h: "hidden i tok until s" and "\<not> touches i tok c" and "leases_before until c"
  shows "hidden i tok until (job_step S c s)"
proof (cases c)
  case (EnqueueJob j)
  with enqueue_step [OF assms(1), of j] h show ?thesis
    by (auto simp: hidden_def split: if_splits)
next
  case (LeaseJobs now n ms)
  then have no: "i \<notin> sj_id ` set (fst (jo_lease S now n ms s))"
    using not_leased [OF assms(1) h] assms(4) by simp
  have v: "view (snd (jo_lease S now n ms s)) i = lease_view (now + ms) (fst (jo_lease S now n ms s)) (view s) i"
    using lease_step [OF assms(1), of now n ms] by simp
  from no have "map_of (map (\<lambda>x. (sj_id x, sj_lease x)) (fst (jo_lease S now n ms s))) i = None"
    by (simp add: map_of_eq_None_iff image_image)
  with v h LeaseJobs show ?thesis by (simp add: hidden_def lease_view_def)
next
  case (CompleteJob k l)
  with complete_law [OF assms(1), of k l] h assms(3) show ?thesis by (auto simp: hidden_def may_settle_def)
next
  case (RetryJob k again l)
  with retry_law [OF assms(1), of k again l] h assms(3) show ?thesis by (auto simp: hidden_def may_settle_def)
next
  case (DeadLetter k err l)
  with dead_law [OF assms(1), of k err l] h assms(3) show ?thesis by (auto simp: hidden_def may_settle_def)
next
  case (RenewJob k until l)
  with renew_law [OF assms(1), of k until l] h assms(3) show ?thesis by (auto simp: hidden_def may_settle_def)
qed

lemma run_hidden:
  "ok s \<Longrightarrow> hidden i tok until s \<Longrightarrow> \<forall>c \<in> set ops. \<not> touches i tok c \<and> leases_before until c \<Longrightarrow>
   hidden i tok until (fold (job_step S) ops s)"
  by (induction ops arbitrary: s) (auto simp: step_ok step_hidden)

lemma lease_hidden:
  assumes "ok s" and "x \<in> set (fst (jo_lease S now n ms s))"
  obtains tok where "sj_lease x = Some tok" "hidden (sj_id x) tok (now + ms) (snd (jo_lease S now n ms s))"
proof -
  let ?out = "fst (jo_lease S now n ms s)"
  from lease_step [OF assms(1), of now n ms] assms(2) obtain r tok where
    r: "view s (sj_id x) = Some r" "sj_lease x = Some tok" by blast
  have d: "distinct (map sj_id ?out)" and v: "view (snd (jo_lease S now n ms s)) = lease_view (now + ms) ?out (view s)"
    using lease_step [OF assms(1), of now n ms] by auto
  have "map_of (map (\<lambda>x. (sj_id x, sj_lease x)) ?out) (sj_id x) = Some (sj_lease x)"
    using d assms(2) by (intro map_of_is_SomeI) (auto simp: comp_def)
  with r v have "hidden (sj_id x) tok (now + ms) (snd (jo_lease S now n ms s))"
    by (simp add: hidden_def lease_view_def)
  with r(2) that show thesis by blast
qed

end

section \<open>The memory store keeps the interface\<close>

definition jobs_inv :: "'p memory_jobs \<Rightarrow> bool" where
  "jobs_inv s \<longleftrightarrow>
     jm_wf (m_jobs s) \<and> (\<forall>k r. (k, r) \<in> set (m_jobs s) \<longrightarrow> j_id r = k)
     \<and> (\<forall>k \<in> fst ` set (m_jobs s) \<union> fst ` set (m_dead s). \<exists>n. n \<le> m_seq s \<and> k = js ''job_'' @ dec n)
     \<and> jm_wf (m_dead s) \<and> fst ` set (m_jobs s) \<inter> fst ` set (m_dead s) = {}
     \<and> (\<forall>k r t. (k, r) \<in> set (m_jobs s) \<longrightarrow> j_lease r = Some t \<longrightarrow> (\<exists>n. n \<le> m_leaseSeq s \<and> t = dec n))"

definition job_view :: "'p memory_jobs \<Rightarrow> jstr \<Rightarrow> 'p job option" where
  "job_view s = map_of (m_jobs s)"

lemma jobs_invI:
  assumes "jm_wf (m_jobs s)" and "\<And>k r. (k, r) \<in> set (m_jobs s) \<Longrightarrow> j_id r = k"
    and "\<And>k. k \<in> fst ` set (m_jobs s) \<Longrightarrow> \<exists>n. n \<le> m_seq s \<and> k = js ''job_'' @ dec n"
    and "\<And>k. k \<in> fst ` set (m_dead s) \<Longrightarrow> \<exists>n. n \<le> m_seq s \<and> k = js ''job_'' @ dec n"
    and "jm_wf (m_dead s)" and "fst ` set (m_jobs s) \<inter> fst ` set (m_dead s) = {}"
    and "\<And>k r t. (k, r) \<in> set (m_jobs s) \<Longrightarrow> j_lease r = Some t \<Longrightarrow> \<exists>n. n \<le> m_leaseSeq s \<and> t = dec n"
  shows "jobs_inv s"
  using assms unfolding jobs_inv_def by blast

lemma jobs_invD:
  assumes "jobs_inv s"
  shows "jm_wf (m_jobs s)" and "(k, r) \<in> set (m_jobs s) \<Longrightarrow> j_id r = k"
    and "k \<in> fst ` set (m_jobs s) \<Longrightarrow> \<exists>n. n \<le> m_seq s \<and> k = js ''job_'' @ dec n"
    and "k \<in> fst ` set (m_dead s) \<Longrightarrow> \<exists>n. n \<le> m_seq s \<and> k = js ''job_'' @ dec n"
    and "jm_wf (m_dead s)" and "fst ` set (m_jobs s) \<inter> fst ` set (m_dead s) = {}"
    and "(k, r) \<in> set (m_jobs s) \<Longrightarrow> j_lease r = Some t \<Longrightarrow> \<exists>n. n \<le> m_leaseSeq s \<and> t = dec n"
  using assms unfolding jobs_inv_def by blast+

lemma lease_loop_spec:
  "lease_loop now limit ms rs taken sq = (rs', out, sq') \<Longrightarrow> jm_wf rs \<Longrightarrow> \<forall>k r. (k, r) \<in> set rs \<longrightarrow> j_id r = k \<Longrightarrow>
   taken \<le> limit \<Longrightarrow>
   length out + taken \<le> limit \<and> sq' = sq + length out \<and> map fst rs' = map fst rs
   \<and> distinct (map sj_id out) \<and> sj_id ` set out \<subseteq> fst ` set rs
   \<and> (\<forall>x \<in> set out. \<exists>r n. (sj_id x, r) \<in> set rs \<and> due now r \<and> sq < n \<and> n \<le> sq'
        \<and> sj_lease x = Some (dec n) \<and> x = stored_of (leased_job (now + ms) (sj_lease x) r))
   \<and> map_of rs' = lease_view (now + ms) out (map_of rs)"
proof (induction rs arbitrary: taken sq rs' out sq')
  case Nil
  then show ?case by (simp add: lease_view_def fun_eq_iff)
next
  case (Cons x rs)
  obtain k r where x: "x = (k, r)" by (cases x)
  have wf: "jm_wf rs" "\<forall>k r. (k, r) \<in> set rs \<longrightarrow> j_id r = k" "k \<notin> fst ` set rs" "j_id r = k"
    using Cons.prems(2,3) by (auto simp: x)
  show ?case
  proof (cases "taken \<ge> limit")
    case True
    with Cons.prems show ?thesis by (simp add: x lease_view_def fun_eq_iff)
  next
    case lt: False
    show ?thesis
    proof (cases "due now r")
      case True
      let ?r = "leased_job (now + ms) (Some (dec (sq + 1))) r"
      obtain rs1 out1 where o: "lease_loop now limit ms rs (taken + 1) (sq + 1) = (rs1, out1, sq')"
          "rs' = (k, ?r) # rs1" "out = stored_of ?r # out1"
        using Cons.prems(1) lt True by (auto simp: x Let_def leased_job_def split: prod.splits)
      have "taken + 1 \<le> limit" using lt by simp
      note ih = Cons.IH [OF o(1) wf(1,2) this]
      have no: "k \<notin> sj_id ` set out1" using ih wf(3) by blast
      from ih have m: "map_of rs1 = lease_view (now + ms) out1 (map_of rs)" by blast
      have m2: "map_of rs' = lease_view (now + ms) out (map_of (x # rs))"
      proof (rule ext)
        fix i show "map_of rs' i = lease_view (now + ms) out (map_of (x # rs)) i"
          using wf(4) by (cases "i = k") (simp_all add: o x m lease_view_def split: option.split)
      qed
      have b2: "\<exists>r n. (sj_id y, r) \<in> set (x # rs) \<and> due now r \<and> sq < n \<and> n \<le> sq'
        \<and> sj_lease y = Some (dec n) \<and> y = stored_of (leased_job (now + ms) (sj_lease y) r)" if "y \<in> set out" for y
      proof (cases "y = stored_of ?r")
        case True
        then show ?thesis
          using ih wf(4) \<open>due now r\<close> by (intro exI [of _ r] exI [of _ "sq + 1"]) (simp add: x)
      next
        case False
        then have "y \<in> set out1" using that o(3) by simp
        with ih obtain r' n where "(sj_id y, r') \<in> set rs" "due now r'" "sq + 1 < n" "n \<le> sq'"
            "sj_lease y = Some (dec n)" "y = stored_of (leased_job (now + ms) (sj_lease y) r')" by blast
        then show ?thesis by (intro exI [of _ r'] exI [of _ n]) simp
      qed
      show ?thesis
      proof (intro conjI)
        show "map_of rs' = lease_view (now + ms) out (map_of (x # rs))" by (rule m2)
        show "\<forall>y \<in> set out. \<exists>r n. (sj_id y, r) \<in> set (x # rs) \<and> due now r \<and> sq < n \<and> n \<le> sq'
            \<and> sj_lease y = Some (dec n) \<and> y = stored_of (leased_job (now + ms) (sj_lease y) r)"
          using b2 by blast
      qed (use ih no wf(4) in \<open>auto simp: o x\<close>)
    next
      case False
      obtain rs1 where o: "lease_loop now limit ms rs taken sq = (rs1, out, sq')" "rs' = (k, r) # rs1"
        using Cons.prems(1) lt False by (auto simp: x Let_def split: prod.splits)
      note ih = Cons.IH [OF o(1) wf(1,2) Cons.prems(4)]
      have "k \<notin> sj_id ` set out" using ih wf(3) by blast
      then have none: "map_of (map (\<lambda>x. (sj_id x, sj_lease x)) out) k = None"
        by (simp add: map_of_eq_None_iff image_image)
      from ih have m: "map_of rs1 = lease_view (now + ms) out (map_of rs)" by blast
      have m2: "map_of rs' = lease_view (now + ms) out (map_of (x # rs))"
      proof (rule ext)
        fix i show "map_of rs' i = lease_view (now + ms) out (map_of (x # rs)) i"
          using none by (cases "i = k") (simp_all add: o x m lease_view_def split: option.split)
      qed
      have b2: "\<exists>r n. (sj_id y, r) \<in> set (x # rs) \<and> due now r \<and> sq < n \<and> n \<le> sq'
        \<and> sj_lease y = Some (dec n) \<and> y = stored_of (leased_job (now + ms) (sj_lease y) r)" if "y \<in> set out" for y
        using ih that by (meson list.set_intros(2))
      show ?thesis
      proof (intro conjI)
        show "map_of rs' = lease_view (now + ms) out (map_of (x # rs))" by (rule m2)
        show "\<forall>y \<in> set out. \<exists>r n. (sj_id y, r) \<in> set (x # rs) \<and> due now r \<and> sq < n \<and> n \<le> sq'
            \<and> sj_lease y = Some (dec n) \<and> y = stored_of (leased_job (now + ms) (sj_lease y) r)"
          using b2 by blast
      qed (use ih in \<open>auto simp: o x\<close>)
    qed
  qed
qed


lemma held_eq: "held i l s = (if may_settle l (job_view s i) then job_view s i else None)"
  by (auto simp: held_def may_settle_def job_view_def split: option.split)

lemma jobs_inv_id: "jobs_inv s \<Longrightarrow> map_of (m_jobs s) i = Some r \<Longrightarrow> j_id r = i"
  by (auto simp: jobs_inv_def dest: map_of_SomeD)

lemma jobs_inv_update:
  assumes inv: "jobs_inv s" and r: "map_of (m_jobs s) i = Some r" and r': "j_id r' = j_id r"
    "j_lease r' = None \<or> j_lease r' = j_lease r"
  shows "jobs_inv (s\<lparr> m_jobs := AList.update i r' (m_jobs s) \<rparr>)"
proof -
  note wf = jobs_invD(1) [OF inv]
  have m: "(i, r) \<in> set (m_jobs s)" by (rule map_of_SomeD [OF r])
  have k: "fst ` set (AList.update i r' (m_jobs s)) = fst ` set (m_jobs s)"
    using m by (force simp: dom_update)
  have e: "x = r' \<and> k = i \<or> (k, x) \<in> set (m_jobs s)" if "(k, x) \<in> set (AList.update i r' (m_jobs s))" for k x
    using that by (auto simp: jm_in_update [OF wf] split: if_splits)
  let ?s = "s\<lparr> m_jobs := AList.update i r' (m_jobs s) \<rparr>"
  have k': "fst ` set (m_jobs ?s) = fst ` set (m_jobs s)" using k by simp
  have e': "x = r' \<and> k = i \<or> (k, x) \<in> set (m_jobs s)" if "(k, x) \<in> set (m_jobs ?s)" for k x
    using that e by simp
  show ?thesis
  proof (rule jobs_invI)
    show "jm_wf (m_jobs ?s)" using wf by simp
    show "j_id x = k" if "(k, x) \<in> set (m_jobs ?s)" for k x
      using e' [OF that] r'(1) jobs_invD(2) [OF inv m] jobs_invD(2) [OF inv, of k x] by metis
    show "\<exists>n. n \<le> m_seq ?s \<and> k = js ''job_'' @ dec n" if "k \<in> fst ` set (m_jobs ?s)" for k
      using that jobs_invD(3) [OF inv, of k] unfolding k' by simp
    show "\<exists>n. n \<le> m_seq ?s \<and> k = js ''job_'' @ dec n" if "k \<in> fst ` set (m_dead ?s)" for k
      using that jobs_invD(4) [OF inv, of k] by simp
    show "jm_wf (m_dead ?s)" using jobs_invD(5) [OF inv] by simp
    show "fst ` set (m_jobs ?s) \<inter> fst ` set (m_dead ?s) = {}" using jobs_invD(6) [OF inv] unfolding k' by simp
    show "\<exists>n. n \<le> m_leaseSeq ?s \<and> t = dec n" if "(k, x) \<in> set (m_jobs ?s)" "j_lease x = Some t" for k x t
      using e' [OF that(1)] that(2) r'(2) jobs_invD(7) [OF inv m, of t] jobs_invD(7) [OF inv, of k x t] by auto
  qed
qed

lemma jobs_inv_bury:
  assumes inv: "jobs_inv s" and d: "ds = m_dead s \<or> i \<in> fst ` set (m_jobs s) \<and> ds = AList.update i d (m_dead s)"
  shows "jobs_inv (s\<lparr> m_jobs := AList.delete i (m_jobs s), m_dead := ds \<rparr>)"
proof -
  let ?s = "s\<lparr> m_jobs := AList.delete i (m_jobs s), m_dead := ds \<rparr>"
  have j: "fst ` set (m_jobs ?s) = fst ` set (m_jobs s) - {i}" by (force simp: jm_in_delete)
  have kk: "fst ` set ds = fst ` set (m_dead s)
      \<or> i \<in> fst ` set (m_jobs s) \<and> fst ` set ds = insert i (fst ` set (m_dead s))"
    using d by (metis dom_update insert_is_Un)
  have dd: "m_dead ?s = ds" by simp
  have k: "fst ` set (m_dead ?s) \<subseteq> insert i (fst ` set (m_dead s))" unfolding dd using kk by blast
  have k': "x \<in> fst ` set (m_jobs s) \<or> x \<in> fst ` set (m_dead s)" if "x \<in> fst ` set (m_dead ?s)" for x
    using that kk unfolding dd by blast
  have m: "(x, r) \<in> set (m_jobs s)" if "(x, r) \<in> set (m_jobs ?s)" for x r
    using that by (simp add: jm_in_delete)
  show ?thesis
  proof (rule jobs_invI)
    show "jm_wf (m_jobs ?s)" using jobs_invD(1) [OF inv] by simp
    show "j_id x = k" if "(k, x) \<in> set (m_jobs ?s)" for k x
      by (rule jobs_invD(2) [OF inv m [OF that]])
    show "\<exists>n. n \<le> m_seq ?s \<and> k = js ''job_'' @ dec n" if "k \<in> fst ` set (m_jobs ?s)" for k
      using that jobs_invD(3) [OF inv, of k] unfolding j by simp
    show "\<exists>n. n \<le> m_seq ?s \<and> k = js ''job_'' @ dec n" if "k \<in> fst ` set (m_dead ?s)" for k
      using k' [OF that] jobs_invD(3,4) [OF inv, of k] by auto
    show "jm_wf (m_dead ?s)" using jobs_invD(5) [OF inv] d by auto
    show "fst ` set (m_jobs ?s) \<inter> fst ` set (m_dead ?s) = {}" using jobs_invD(6) [OF inv] k unfolding j by blast
    show "\<exists>n. n \<le> m_leaseSeq ?s \<and> t = dec n" if "(k, x) \<in> set (m_jobs ?s)" "j_lease x = Some t" for k x t
      using jobs_invD(7) [OF inv m [OF that(1)] that(2)] by simp
  qed
qed

lemma jobs_inv_delete: "jobs_inv s \<Longrightarrow> jobs_inv (s\<lparr> m_jobs := AList.delete i (m_jobs s) \<rparr>)"
  using jobs_inv_bury [of s "m_dead s" i] by simp

lemma new_memory_jobs_inv: "jobs_inv new_memory_jobs"
  by (simp add: jobs_inv_def new_memory_jobs_def)

lemma enqueue_spec:
  assumes inv: "jobs_inv s" and e: "enqueue_job None j s = (i, s')"
  shows "jobs_inv s' \<and> job_view s i = None \<and> job_view s' = (job_view s)(i \<mapsto> fresh_job i j)
    \<and> i \<notin> fst ` set (m_dead s) \<and> m_dead s' = m_dead s \<and> m_leaseSeq s' = m_leaseSeq s
    \<and> m_seq s' = m_seq s + 1 \<and> length (m_jobs s') = length (m_jobs s) + 1"
proof -
  from e have i: "i = js ''job_'' @ dec (m_seq s + 1)"
    and s': "s' = s\<lparr> m_seq := m_seq s + 1, m_jobs := AList.update i (fresh_job i j) (m_jobs s) \<rparr>"
    by (auto simp: enqueue_job_def id_for_def simp del: js_Cons)
  have ne: "\<not> (\<exists>n. n \<le> m_seq s \<and> i = js ''job_'' @ dec n)" by (auto simp: i dec_inj)
  then have no: "i \<notin> fst ` set (m_jobs s)" "i \<notin> fst ` set (m_dead s)"
    using inv unfolding jobs_inv_def by blast+
  have u: "AList.update i (fresh_job i j) (m_jobs s) = m_jobs s @ [(i, fresh_job i j)]"
    by (rule AList_update_new [OF no(1)])
  have keys: "\<exists>n. n \<le> m_seq s + 1 \<and> k = js ''job_'' @ dec n" if "k \<in> fst ` set (m_jobs s) \<union> fst ` set (m_dead s)" for k
    using that jobs_invD(3,4) [OF inv, of k] le_add1 le_trans by blast
  have m: "m_jobs s' = m_jobs s @ [(i, fresh_job i j)]" by (simp add: s' u)
  have f: "j_id (fresh_job i j) = i" "j_lease (fresh_job i j) = None" by (simp_all add: fresh_job_def)
  have "jobs_inv s'"
  proof (rule jobs_invI)
    show "jm_wf (m_jobs s')" using jobs_invD(1) [OF inv] by (simp add: s')
    show "j_id x = k" if "(k, x) \<in> set (m_jobs s')" for k x
      using that jobs_invD(2) [OF inv, of k x] by (auto simp: m f)
    show "\<exists>n. n \<le> m_seq s' \<and> k = js ''job_'' @ dec n" if "k \<in> fst ` set (m_jobs s')" for k
      using that keys [of k] i unfolding m by (auto simp: s' simp del: js_Cons)
    show "\<exists>n. n \<le> m_seq s' \<and> k = js ''job_'' @ dec n" if "k \<in> fst ` set (m_dead s')" for k
      using that keys [of k] by (auto simp: s' simp del: js_Cons)
    show "jm_wf (m_dead s')" using jobs_invD(5) [OF inv] by (simp add: s')
    show "fst ` set (m_jobs s') \<inter> fst ` set (m_dead s') = {}" using jobs_invD(6) [OF inv] no unfolding m by (auto simp: s')
    show "\<exists>n. n \<le> m_leaseSeq s' \<and> t = dec n" if "(k, x) \<in> set (m_jobs s')" "j_lease x = Some t" for k x t
      using that jobs_invD(7) [OF inv, of k x t] f unfolding m by (auto simp: s')
  qed
  moreover have "job_view s' = (job_view s)(i \<mapsto> fresh_job i j)" by (simp add: s' job_view_def jm_get_set)
  ultimately show ?thesis
    using no by (simp add: s' u job_view_def map_of_eq_None_iff del: js_Cons)
qed

lemma lease_spec:
  assumes inv: "jobs_inv s" and l: "lease_jobs now n ms s = (out, s')"
  shows "jobs_inv s' \<and> length out \<le> n \<and> distinct (map sj_id out)
    \<and> (\<forall>x \<in> set out. \<exists>r m. job_view s (sj_id x) = Some r \<and> due now r \<and> m_leaseSeq s < m \<and> m \<le> m_leaseSeq s'
        \<and> sj_lease x = Some (dec m) \<and> x = stored_of (leased_job (now + ms) (sj_lease x) r))
    \<and> job_view s' = lease_view (now + ms) out (job_view s)
    \<and> m_dead s' = m_dead s \<and> m_seq s' = m_seq s \<and> m_leaseSeq s \<le> m_leaseSeq s' \<and> length (m_jobs s') = length (m_jobs s)"
proof -
  obtain rs sq where o: "lease_loop now n ms (m_jobs s) 0 (m_leaseSeq s) = (rs, out, sq)"
      "s' = s\<lparr> m_jobs := rs, m_leaseSeq := sq \<rparr>"
    using l by (auto simp: lease_jobs_def split: prod.splits)
  have wf: "jm_wf (m_jobs s)" "\<forall>k r. (k, r) \<in> set (m_jobs s) \<longrightarrow> j_id r = k"
    using inv by (auto simp: jobs_inv_def)
  note f = lease_loop_spec [OF o(1) wf]
  then have keys: "map fst rs = map fst (m_jobs s)" "fst ` set rs = fst ` set (m_jobs s)"
    by (simp, metis list.set_map zero_le)
  have v: "map_of rs = lease_view (now + ms) out (map_of (m_jobs s))" and len: "length out \<le> n" and d: "distinct (map sj_id out)"
    and sq: "m_leaseSeq s \<le> sq" using f by simp_all
  have x: "\<exists>r m. map_of (m_jobs s) (sj_id x) = Some r \<and> due now r \<and> m_leaseSeq s < m \<and> m \<le> sq
        \<and> sj_lease x = Some (dec m) \<and> x = stored_of (leased_job (now + ms) (sj_lease x) r)" if "x \<in> set out" for x
    using f that wf(1) by (simp del: ex_simps) (metis)
  have new: "j_id r = k \<and> (\<forall>t. j_lease r = Some t \<longrightarrow> (\<exists>n. n \<le> sq \<and> t = dec n))" if "(k, r) \<in> set rs" for k r
  proof -
    have m: "map_of rs k = Some r" using that wf(1) keys(1) by simp
    show ?thesis
    proof (cases "map_of (map (\<lambda>x. (sj_id x, sj_lease x)) out) k")
      case None
      with m v have "map_of (m_jobs s) k = Some r" by (simp add: lease_view_def)
      then have "(k, r) \<in> set (m_jobs s)" by (rule map_of_SomeD)
      then show ?thesis
        using inv sq unfolding jobs_inv_def by (meson le_trans)
    next
      case (Some tok)
      then obtain y where y: "y \<in> set out" "sj_id y = k" "sj_lease y = tok" by (auto dest!: map_of_SomeD)
      from x [OF y(1)] obtain r0 m0 where "map_of (m_jobs s) k = Some r0" "m0 \<le> sq" "tok = Some (dec m0)"
        using y by blast
      moreover from this m v Some have "r = leased_job (now + ms) tok r0" by (simp add: lease_view_def)
      ultimately show ?thesis using jobs_inv_id [OF inv] by auto
    qed
  qed
  have "jobs_inv s'"
  proof (rule jobs_invI)
    show "jm_wf (m_jobs s')" using wf(1) keys(1) by (simp add: o(2))
    show "j_id x = k" if "(k, x) \<in> set (m_jobs s')" for k x
      using that new by (simp add: o(2))
    show "\<exists>n. n \<le> m_seq s' \<and> k = js ''job_'' @ dec n" if "k \<in> fst ` set (m_jobs s')" for k
      using that jobs_invD(3) [OF inv, of k] keys(2) by (simp add: o(2) del: js_Cons)
    show "\<exists>n. n \<le> m_seq s' \<and> k = js ''job_'' @ dec n" if "k \<in> fst ` set (m_dead s')" for k
      using that jobs_invD(4) [OF inv, of k] by (simp add: o(2) del: js_Cons)
    show "jm_wf (m_dead s')" using jobs_invD(5) [OF inv] by (simp add: o(2))
    show "fst ` set (m_jobs s') \<inter> fst ` set (m_dead s') = {}" using jobs_invD(6) [OF inv] keys(2) by (simp add: o(2))
    show "\<exists>n. n \<le> m_leaseSeq s' \<and> t = dec n" if "(k, x) \<in> set (m_jobs s')" "j_lease x = Some t" for k x t
      using that new [of k x] by (simp add: o(2))
  qed
  moreover have "length rs = length (m_jobs s)" using arg_cong [OF keys(1), of length] by simp
  ultimately show ?thesis
    using v len d sq x by (simp add: o(2) job_view_def)
qed


lemma may_settle_Some: "may_settle l m \<Longrightarrow> \<exists>r. m = Some r"
  by (auto simp: may_settle_def)

lemma complete_spec:
  assumes "jobs_inv s"
  shows "jobs_inv (complete_job i l s)
    \<and> job_view (complete_job i l s) = (if may_settle l (job_view s i) then (job_view s)(i := None) else job_view s)
    \<and> m_leaseSeq (complete_job i l s) = m_leaseSeq s \<and> m_seq (complete_job i l s) = m_seq s
    \<and> m_dead (complete_job i l s) = m_dead s
    \<and> length (m_jobs s) = length (m_jobs (complete_job i l s)) + (if may_settle l (job_view s i) then 1 else 0)"
proof (cases "may_settle l (job_view s i)")
  case True
  then obtain r where r: "map_of (m_jobs s) i = Some r" by (auto simp: may_settle_def job_view_def)
  with True jm_length_delete [OF jobs_invD(1) [OF assms] r] jobs_inv_delete [OF assms, of i] show ?thesis
    by (auto simp: complete_job_def held_eq job_view_def jm_get_delete)
qed (use assms in \<open>simp add: complete_job_def held_eq\<close>)

lemma retry_spec:
  assumes "jobs_inv s"
  shows "jobs_inv (retry_job i again l s)
    \<and> job_view (retry_job i again l s)
        = (if may_settle l (job_view s i) then (job_view s)(i := map_option (retried_job again) (job_view s i)) else job_view s)
    \<and> m_leaseSeq (retry_job i again l s) = m_leaseSeq s \<and> m_seq (retry_job i again l s) = m_seq s
    \<and> m_dead (retry_job i again l s) = m_dead s \<and> length (m_jobs (retry_job i again l s)) = length (m_jobs s)"
proof (cases "may_settle l (job_view s i)")
  case True
  then obtain r where r: "map_of (m_jobs s) i = Some r" by (auto simp: may_settle_def job_view_def)
  have "jobs_inv (s\<lparr> m_jobs := AList.update i (retried_job again r) (m_jobs s) \<rparr>)"
    by (rule jobs_inv_update [OF assms r]) (simp_all add: retried_job_def)
  with True r jm_length_update [OF r] show ?thesis
    by (simp add: retry_job_def held_eq job_view_def jm_get_set retried_job_def)
qed (use assms in \<open>simp add: retry_job_def held_eq\<close>)

lemma dead_spec:
  assumes "jobs_inv s"
  shows "jobs_inv (dead_letter i err l s)
    \<and> job_view (dead_letter i err l s) = (if may_settle l (job_view s i) then (job_view s)(i := None) else job_view s)
    \<and> m_leaseSeq (dead_letter i err l s) = m_leaseSeq s \<and> m_seq (dead_letter i err l s) = m_seq s
    \<and> length (m_jobs (dead_letter i err l s)) + length (m_dead (dead_letter i err l s))
        = length (m_jobs s) + length (m_dead s)"
proof (cases "may_settle l (job_view s i)")
  case True
  then obtain r where r: "map_of (m_jobs s) i = Some r" by (auto simp: may_settle_def job_view_def)
  then have k: "i \<in> fst ` set (m_jobs s)" by (force dest: map_of_SomeD)
  then have "i \<notin> fst ` set (m_dead s)" using jobs_invD(6) [OF assms] by blast
  then have "AList.update i d (m_dead s) = m_dead s @ [(i, d)]" for d by (rule AList_update_new)
  moreover have "jobs_inv (s\<lparr> m_jobs := AList.delete i (m_jobs s), m_dead := AList.update i d (m_dead s) \<rparr>)" for d
    using k by (intro jobs_inv_bury [OF assms]) blast
  ultimately show ?thesis
    using True r jm_length_delete [OF jobs_invD(1) [OF assms] r]
    by (simp add: dead_letter_def held_eq job_view_def jm_get_delete)
qed (use assms in \<open>simp add: dead_letter_def held_eq\<close>)

lemma renew_spec:
  assumes "jobs_inv s"
  shows "jobs_inv (renew_job i until l s)
    \<and> job_view (renew_job i until l s)
        = (if may_settle l (job_view s i)
           then (job_view s)(i := map_option (\<lambda>r. if j_lease r = None then r else r\<lparr> j_leaseUntil := until \<rparr>) (job_view s i))
           else job_view s)
    \<and> m_leaseSeq (renew_job i until l s) = m_leaseSeq s \<and> m_seq (renew_job i until l s) = m_seq s
    \<and> m_dead (renew_job i until l s) = m_dead s \<and> length (m_jobs (renew_job i until l s)) = length (m_jobs s)"
proof (cases "may_settle l (job_view s i)")
  case True
  then obtain r where r: "map_of (m_jobs s) i = Some r" by (auto simp: may_settle_def job_view_def)
  have "jobs_inv (s\<lparr> m_jobs := AList.update i (r\<lparr> j_leaseUntil := until \<rparr>) (m_jobs s) \<rparr>)"
    by (rule jobs_inv_update [OF assms r]) simp_all
  with True r jm_length_update [OF r] assms show ?thesis
    by (auto simp: renew_job_def held_eq job_view_def jm_get_set)
qed (use assms in \<open>simp add: renew_job_def held_eq\<close>)

definition issued_tokens :: "'p memory_jobs \<Rightarrow> jstr set" where
  "issued_tokens s = dec ` {0..m_leaseSeq s}"

interpretation memory_jobs: job_store memory_job_ops job_view jobs_inv issued_tokens
proof
  fix s :: "'a memory_jobs" assume inv: "jobs_inv s"
  show "finite (dom (job_view s))" by (simp add: job_view_def finite_dom_map_of)
  show "t \<in> issued_tokens s" if "job_view s i = Some r" "j_lease r = Some t" for i r t
    using jobs_invD(7) [OF inv map_of_SomeD that(2), of i] that(1) by (auto simp: job_view_def issued_tokens_def)
  show "jobs_inv s' \<and> issued_tokens s' = issued_tokens s \<and> job_view s i = None \<and> job_view s' = (job_view s)(i \<mapsto> fresh_job i j)"
    if "jo_enqueue memory_job_ops j s = (i, s')" for j i s'
    using enqueue_spec [OF inv, of j i s'] that by (simp add: memory_job_ops_def issued_tokens_def)
  show "jobs_inv s' \<and> issued_tokens s \<subseteq> issued_tokens s' \<and> length out \<le> n \<and> distinct (map sj_id out)
      \<and> (\<forall>x \<in> set out. \<exists>r t. job_view s (sj_id x) = Some r \<and> due now r \<and> sj_lease x = Some t \<and> t \<notin> issued_tokens s
          \<and> x = stored_of (leased_job (now + ms) (Some t) r))
      \<and> job_view s' = lease_view (now + ms) out (job_view s)"
    if "jo_lease memory_job_ops now n ms s = (out, s')" for now n ms out s'
  proof -
    from that have l: "lease_jobs now n ms s = (out, s')" by (simp add: memory_job_ops_def)
    note f = lease_spec [OF inv l]
    have "\<exists>r t. job_view s (sj_id x) = Some r \<and> due now r \<and> sj_lease x = Some t \<and> t \<notin> issued_tokens s
          \<and> x = stored_of (leased_job (now + ms) (Some t) r)" if "x \<in> set out" for x
    proof -
      from f that obtain r m where r: "job_view s (sj_id x) = Some r" "due now r" "m_leaseSeq s < m"
          "sj_lease x = Some (dec m)" "x = stored_of (leased_job (now + ms) (sj_lease x) r)" by blast
      then have "dec m \<notin> issued_tokens s" by (auto simp: issued_tokens_def dec_inj)
      with r show ?thesis by (intro exI [of _ r] exI [of _ "dec m"]) simp
    qed
    with f show ?thesis by (auto simp: issued_tokens_def)
  qed
  show "jobs_inv (jo_complete memory_job_ops i l s) \<and> issued_tokens (jo_complete memory_job_ops i l s) = issued_tokens s
      \<and> job_view (jo_complete memory_job_ops i l s) = (if may_settle l (job_view s i) then (job_view s)(i := None) else job_view s)"
    for i l using complete_spec [OF inv, of i l] by (simp add: memory_job_ops_def issued_tokens_def)
  show "jobs_inv (jo_retry memory_job_ops i again l s) \<and> issued_tokens (jo_retry memory_job_ops i again l s) = issued_tokens s
      \<and> job_view (jo_retry memory_job_ops i again l s)
          = (if may_settle l (job_view s i) then (job_view s)(i := map_option (retried_job again) (job_view s i)) else job_view s)"
    for i again l using retry_spec [OF inv, of i again l] by (simp add: memory_job_ops_def issued_tokens_def)
  show "jobs_inv (jo_dead memory_job_ops i err l s) \<and> issued_tokens (jo_dead memory_job_ops i err l s) = issued_tokens s
      \<and> job_view (jo_dead memory_job_ops i err l s) = (if may_settle l (job_view s i) then (job_view s)(i := None) else job_view s)"
    for i err l using dead_spec [OF inv, of i err l] by (simp add: memory_job_ops_def issued_tokens_def)
  show "jobs_inv (jo_renew memory_job_ops i until l s) \<and> issued_tokens (jo_renew memory_job_ops i until l s) = issued_tokens s
      \<and> job_view (jo_renew memory_job_ops i until l s)
          = (if may_settle l (job_view s i)
             then (job_view s)(i := map_option (\<lambda>r. if j_lease r = None then r else r\<lparr> j_leaseUntil := until \<rparr>) (job_view s i))
             else job_view s)"
    for i until l using renew_spec [OF inv, of i until l] by (simp add: memory_job_ops_def issued_tokens_def)
qed


section \<open>Properties\<close>

text \<open>
  The ledger of a history, kept beside the store: where each job that was ever enqueued must be. A call moves the job
  it names, and only that one, when its caller may settle it.
\<close>

datatype 'p place = Waits "'p new_job" | Buried "'p new_job" jstr | Finished

fun ledger_step :: "'p job_op \<Rightarrow> 'p memory_jobs \<Rightarrow> (jstr \<Rightarrow> 'p place option) \<Rightarrow> jstr \<Rightarrow> 'p place option" where
  "ledger_step (EnqueueJob j) s L = L(fst (jo_enqueue memory_job_ops j s) \<mapsto> Waits j)"
| "ledger_step (CompleteJob i l) s L = (if may_settle l (job_view s i) then L(i \<mapsto> Finished) else L)"
| "ledger_step (DeadLetter i err l) s L =
     (if may_settle l (job_view s i) then (case L i of Some (Waits j) \<Rightarrow> L(i \<mapsto> Buried j err) | _ \<Rightarrow> L) else L)"
| "ledger_step _ s L = L"

fun ledger :: "'p job_op list \<Rightarrow> 'p memory_jobs \<Rightarrow> (jstr \<Rightarrow> 'p place option) \<Rightarrow> jstr \<Rightarrow> 'p place option" where
  "ledger [] s L = L"
| "ledger (c # cs) s L = ledger cs (job_step memory_job_ops c s) (ledger_step c s L)"

fun enqueues :: "'p job_op \<Rightarrow> nat" where
  "enqueues (EnqueueJob j) = 1"
| "enqueues _ = 0"

definition same_job :: "'p new_job \<Rightarrow> 'p job \<Rightarrow> bool" where
  "same_job j r \<longleftrightarrow> j_name r = n_name j \<and> j_payload r = n_payload j \<and> j_maxAttempts r = n_maxAttempts j
     \<and> j_traceparent r = n_traceparent j"

text \<open>A job is where the ledger says, as it was enqueued.\<close>

definition placed :: "'p memory_jobs \<Rightarrow> jstr \<Rightarrow> 'p place option \<Rightarrow> bool" where
  "placed s i p =
     (case p of
        None \<Rightarrow> job_view s i = None \<and> map_of (m_dead s) i = None
      | Some (Waits j) \<Rightarrow> (\<exists>r. job_view s i = Some r \<and> same_job j r) \<and> map_of (m_dead s) i = None
      | Some (Buried j err) \<Rightarrow>
          job_view s i = None \<and> map_of (m_dead s) i = Some \<lparr> d_id = i, d_name = n_name j, d_error = err \<rparr>
      | Some Finished \<Rightarrow> job_view s i = None \<and> map_of (m_dead s) i = None)"

definition ledger_ok :: "'p memory_jobs \<Rightarrow> (jstr \<Rightarrow> 'p place option) \<Rightarrow> bool" where
  "ledger_ok s L \<longleftrightarrow> finite (dom L) \<and> (\<forall>i. placed s i (L i)) \<and> (\<forall>i \<in> dom L. \<exists>n. n \<le> m_seq s \<and> i = js ''job_'' @ dec n)"

lemma placed_view: "placed s i p \<Longrightarrow> job_view s i = Some r \<Longrightarrow> \<exists>j. p = Some (Waits j) \<and> same_job j r \<and> map_of (m_dead s) i = None"
  by (auto simp: placed_def split: option.splits place.splits)

lemma placed_same:
  "placed s i p \<Longrightarrow> map_of (m_dead s') i = map_of (m_dead s) i \<Longrightarrow>
   job_view s' i = job_view s i \<or> (\<exists>r r'. job_view s i = Some r \<and> job_view s' i = Some r' \<and> (\<forall>j. same_job j r \<longrightarrow> same_job j r')) \<Longrightarrow>
   placed s' i p"
  by (auto simp: placed_def split: option.splits place.splits)

lemma ledgerD: "ledger_ok s L \<Longrightarrow> placed s i (L i)"
  by (simp add: ledger_ok_def)

lemma ledger_elsewhere:
  "ledger_ok s L \<Longrightarrow> job_view s' k = job_view s k \<Longrightarrow> map_of (m_dead s') k = map_of (m_dead s) k \<Longrightarrow> k \<noteq> i \<Longrightarrow>
   placed s' k ((L(i \<mapsto> p)) k)"
  using placed_same [of s k "L k" s'] ledgerD [of s L k] by simp

lemma ledger_moved:
  assumes "ledger_ok s L" and "m_seq s' = m_seq s" and "L i = Some q" and "\<And>k. placed s' k ((L(i \<mapsto> p)) k)"
  shows "ledger_ok s' (L(i \<mapsto> p)) \<and> card (dom (L(i \<mapsto> p))) = card (dom L)"
proof -
  have d: "dom (L(i \<mapsto> p)) = dom L" using assms(3) by auto
  show ?thesis unfolding ledger_ok_def d assms(2) using assms(1) [unfolded ledger_ok_def] assms(4) by blast
qed

lemma ledger_kept:
  assumes "ledger_ok s L" and "m_seq s' = m_seq s" and "m_dead s' = m_dead s"
    and "\<And>i. job_view s' i = job_view s i
      \<or> (\<exists>r r'. job_view s i = Some r \<and> job_view s' i = Some r' \<and> (\<forall>j. same_job j r \<longrightarrow> same_job j r'))"
  shows "ledger_ok s' L"
proof -
  have "placed s' i (L i)" for i
    by (rule placed_same [of s]) (use assms in \<open>auto simp: ledger_ok_def\<close>)
  with assms(1,2) show ?thesis by (simp add: ledger_ok_def)
qed

lemma dead_letter_dead:
  "map_of (m_dead (dead_letter i err l s)) k =
     (if may_settle l (job_view s i) \<and> k = i then Some \<lparr> d_id = i, d_name = j_name (the (job_view s i)), d_error = err \<rparr>
      else map_of (m_dead s) k)"
  by (auto simp: dead_letter_def held_eq jm_get_set may_settle_def split: option.splits)

lemma step_ledger:
  assumes inv: "jobs_inv s" and L: "ledger_ok s L"
  shows "ledger_ok (job_step memory_job_ops c s) (ledger_step c s L)
    \<and> card (dom (ledger_step c s L)) = card (dom L) + enqueues c"
proof (cases c)
  case (EnqueueJob j)
  obtain i s' where e: "enqueue_job None j s = (i, s')" by (cases "enqueue_job None j s")
  note f = enqueue_spec [OF inv e]
  have i: "i = js ''job_'' @ dec (m_seq s + 1)" using e by (auto simp: enqueue_job_def id_for_def simp del: js_Cons)
  have "\<nexists>n. n \<le> m_seq s \<and> i = js ''job_'' @ dec n" by (auto simp: i dec_inj)
  with L have new: "i \<notin> dom L" unfolding ledger_ok_def by blast
  have dead: "map_of (m_dead s) i = None" using f by (simp add: map_of_eq_None_iff)
  have "placed s' k ((L(i \<mapsto> Waits j)) k)" for k
  proof (cases "k = i")
    case True
    with f dead show ?thesis by (simp add: placed_def same_job_def fresh_job_def)
  next
    case False
    have "job_view s' k = job_view s k" "map_of (m_dead s') k = map_of (m_dead s) k" using f False by simp_all
    from ledger_elsewhere [OF L this False] show ?thesis .
  qed
  moreover have "\<exists>n. n \<le> m_seq s' \<and> k = js ''job_'' @ dec n" if "k \<in> dom (L(i \<mapsto> Waits j))" for k
  proof (cases "k = i")
    case True
    with f i show ?thesis by (intro exI [of _ "m_seq s + 1"]) (simp del: js_Cons)
  next
    case False
    with that L obtain n where "n \<le> m_seq s" "k = js ''job_'' @ dec n" unfolding ledger_ok_def by auto
    with f show ?thesis by (intro exI [of _ n]) (simp del: js_Cons)
  qed
  moreover have "finite (dom L)" using L by (simp add: ledger_ok_def)
  ultimately show ?thesis using new by (simp add: EnqueueJob ledger_ok_def memory_job_ops_def e)
next
  case (LeaseJobs now n ms)
  obtain out s' where l: "lease_jobs now n ms s = (out, s')" by (cases "lease_jobs now n ms s")
  note f = lease_spec [OF inv l]
  have "ledger_ok s' L"
  proof (rule ledger_kept [OF L])
    fix i
    have "job_view s' i = lease_view (now + ms) out (job_view s) i" using f by simp
    then show "job_view s' i = job_view s i
      \<or> (\<exists>r r'. job_view s i = Some r \<and> job_view s' i = Some r' \<and> (\<forall>j. same_job j r \<longrightarrow> same_job j r'))"
      by (cases "job_view s i") (auto simp: lease_view_def same_job_def leased_job_def split: option.splits)
  qed (use f in auto)
  then show ?thesis by (simp add: LeaseJobs memory_job_ops_def l)
next
  case (CompleteJob i l)
  note f = complete_spec [OF inv, of i l]
  show ?thesis
  proof (cases "may_settle l (job_view s i)")
    case True
    then obtain r where r: "job_view s i = Some r" by (auto simp: may_settle_def)
    obtain j where j: "L i = Some (Waits j)" "map_of (m_dead s) i = None"
      using placed_view [OF ledgerD [OF L] r] by blast
    have "placed (complete_job i l s) k ((L(i \<mapsto> Finished)) k)" for k
    proof (cases "k = i")
      case True
      with f j \<open>may_settle l (job_view s i)\<close> show ?thesis by (simp add: placed_def)
    next
      case False
      have "job_view (complete_job i l s) k = job_view s k" "map_of (m_dead (complete_job i l s)) k = map_of (m_dead s) k"
        using f False by simp_all
      from ledger_elsewhere [OF L this False] show ?thesis .
    qed
    from ledger_moved [OF L _ j(1) this] f have "ledger_ok (complete_job i l s) (L(i \<mapsto> Finished))
        \<and> card (dom (L(i \<mapsto> Finished))) = card (dom L)" by blast
    with True show ?thesis by (simp add: CompleteJob memory_job_ops_def)
  next
    case False
    with ledger_kept [OF L, of "complete_job i l s"] f show ?thesis by (simp add: CompleteJob memory_job_ops_def)
  qed
next
  case (RetryJob i again l)
  note f = retry_spec [OF inv, of i again l]
  have "ledger_ok (retry_job i again l s) L"
    by (rule ledger_kept [OF L]) (use f in \<open>auto simp: same_job_def retried_job_def may_settle_def\<close>)
  then show ?thesis by (simp add: RetryJob memory_job_ops_def)
next
  case (DeadLetter i err l)
  note f = dead_spec [OF inv, of i err l] and g = dead_letter_dead [of i err l s]
  show ?thesis
  proof (cases "may_settle l (job_view s i)")
    case True
    then obtain r where r: "job_view s i = Some r" by (auto simp: may_settle_def)
    obtain j where j: "L i = Some (Waits j)" "same_job j r"
      using placed_view [OF ledgerD [OF L] r] by blast
    have "placed (dead_letter i err l s) k ((L(i \<mapsto> Buried j err)) k)" for k
    proof (cases "k = i")
      case True
      with f g j r \<open>may_settle l (job_view s i)\<close> show ?thesis by (simp add: placed_def same_job_def)
    next
      case False
      have "job_view (dead_letter i err l s) k = job_view s k" "map_of (m_dead (dead_letter i err l s)) k = map_of (m_dead s) k"
        using f g False by simp_all
      from ledger_elsewhere [OF L this False] show ?thesis .
    qed
    from ledger_moved [OF L _ j(1) this] f have "ledger_ok (dead_letter i err l s) (L(i \<mapsto> Buried j err))
        \<and> card (dom (L(i \<mapsto> Buried j err))) = card (dom L)" by blast
    with True j show ?thesis by (simp add: DeadLetter memory_job_ops_def)
  next
    case False
    then have "dead_letter i err l s = s" by (simp add: dead_letter_def held_eq)
    with L False show ?thesis by (simp add: DeadLetter memory_job_ops_def)
  qed
next
  case (RenewJob i until l)
  note f = renew_spec [OF inv, of i until l]
  have "ledger_ok (renew_job i until l s) L"
  proof (rule ledger_kept [OF L])
    fix k
    show "job_view (renew_job i until l s) k = job_view s k
      \<or> (\<exists>r r'. job_view s k = Some r \<and> job_view (renew_job i until l s) k = Some r' \<and> (\<forall>j. same_job j r \<longrightarrow> same_job j r'))"
    proof (cases "k = i \<and> may_settle l (job_view s i)")
      case True
      then obtain r where r: "job_view s k = Some r" by (auto simp: may_settle_def)
      have "same_job j r \<longrightarrow> same_job j (if j_lease r = None then r else r\<lparr> j_leaseUntil := until \<rparr>)" for j
        by (simp add: same_job_def)
      with f True r show ?thesis by simp
    qed (use f in auto)
  qed (use f in simp_all)
  then show ?thesis by (simp add: RenewJob memory_job_ops_def)
qed

lemma run_ledger:
  "jobs_inv s \<Longrightarrow> ledger_ok s L \<Longrightarrow>
   ledger_ok (fold (job_step memory_job_ops) ops s) (ledger ops s L)
   \<and> card (dom (ledger ops s L)) = card (dom L) + sum_list (map enqueues ops)"
proof (induction ops arbitrary: s L)
  case (Cons c ops)
  show ?case
    using Cons.IH [OF memory_jobs.step_ok [OF Cons.prems(1), of c], of "ledger_step c s L"] step_ledger [OF Cons.prems, of c] by simp
qed simp

text \<open>The counts are the sizes of the sets they name.\<close>

lemma count_where: "jm_wf m \<Longrightarrow> length (filter (\<lambda>x. P (snd x)) m) = card {k. \<exists>r. map_of m k = Some r \<and> P r}"
proof -
  assume wf: "jm_wf m"
  have "{k. \<exists>r. map_of m k = Some r \<and> P r} = fst ` set (filter (\<lambda>x. P (snd x)) m)"
    using jm_Some_iff [OF wf] by force
  also have "card \<dots> = length (map fst (filter (\<lambda>x. P (snd x)) m))"
    using distinct_card [OF distinct_map_filter [OF wf], of "\<lambda>x. P (snd x)"] by simp
  finally show ?thesis by simp
qed

text \<open>
  C15: no job is lost, doubled or mistaken for another: after any calls, by any number of workers and with any tokens,
  each job that was ever enqueued is in exactly the place the ledger of the calls gives it - waiting or running as it
  was enqueued, dead-lettered under its name with the error of its caller, or finished for good - its identifier was
  given to no other job, and \<open>counts\<close> reports how many wait, run and are dead-lettered.
\<close>

theorem no_job_lost:
  fixes ops :: "'p job_op list"
  shows "let s = fold (job_step memory_job_ops) ops new_memory_jobs; L = ledger ops new_memory_jobs Map.empty; c = count_jobs now s in
    (\<forall>i. placed s i (L i)) \<and> card (dom L) = sum_list (map enqueues ops)
    \<and> c_active c = card {i. \<exists>r. job_view s i = Some r \<and> j_leaseUntil r > now}
    \<and> c_pending c = card {i. \<exists>r. job_view s i = Some r \<and> \<not> j_leaseUntil r > now}
    \<and> c_dead c = card (dom (map_of (m_dead s)))"
proof -
  let ?s = "fold (job_step memory_job_ops) ops (new_memory_jobs :: 'p memory_jobs)"
  have inv: "jobs_inv ?s" by (rule memory_jobs.run_ok [OF new_memory_jobs_inv])
  have "ledger_ok (new_memory_jobs :: 'p memory_jobs) Map.empty"
    by (simp add: ledger_ok_def placed_def job_view_def new_memory_jobs_def)
  from run_ledger [OF new_memory_jobs_inv this, of ops]
  have l: "\<forall>i. placed ?s i (ledger ops new_memory_jobs Map.empty i)"
    "card (dom (ledger ops (new_memory_jobs :: 'p memory_jobs) Map.empty)) = sum_list (map enqueues ops)"
    by (simp_all add: ledger_ok_def)
  note wf = jobs_invD(1,5) [OF inv]
  have "length (filter (\<lambda>x. j_leaseUntil (snd x) > now) (m_jobs ?s)) + length (filter (\<lambda>x. \<not> j_leaseUntil (snd x) > now) (m_jobs ?s))
      = length (m_jobs ?s)" by (rule sum_length_filter_compl)
  moreover have "length (m_dead ?s) = card (dom (map_of (m_dead ?s)))"
    using distinct_card [OF wf(2)] by (simp add: dom_map_of_conv_image_fst)
  ultimately show ?thesis
    using l count_where [OF wf(1), of "\<lambda>r. j_leaseUntil r > now"] count_where [OF wf(1), of "\<lambda>r. \<not> j_leaseUntil r > now"]
    by (simp add: Let_def count_jobs_def job_view_def)
qed

text \<open>
  C16: a stale lease cannot settle a job: once a job's current token is no longer the one a worker was
  given - the lease ran out and another worker took the job, or it was retried - no call with the old
  token completes, retries, buries or renews it, then or at any later time.
\<close>

theorem stale_lease_powerless:
  assumes "jobs_inv s" and "lease_jobs now n ms s = (out, s1)" and "x \<in> set out" and "sj_lease x = Some t"
    and "s2 = fold (job_step memory_job_ops) ops s1"
    and "\<And>r. job_view s2 (sj_id x) = Some r \<Longrightarrow> j_lease r \<noteq> Some t"
  shows "let s3 = fold (job_step memory_job_ops) later s2 in
    complete_job (sj_id x) (Some t) s3 = s3 \<and> retry_job (sj_id x) again (Some t) s3 = s3
    \<and> dead_letter (sj_id x) err (Some t) s3 = s3 \<and> renew_job (sj_id x) until (Some t) s3 = s3"
proof -
  let ?s3 = "fold (job_step memory_job_ops) later s2"
  have f: "jobs_inv s1 \<and> t \<in> issued_tokens s1"
    using lease_spec [OF assms(1,2)] assms(3,4) by (fastforce simp: issued_tokens_def)
  have inv: "jobs_inv s2" using f memory_jobs.run_ok assms(5) by blast
  have "issued_tokens s1 \<subseteq> issued_tokens s2"
  proof -
    have "jobs_inv s \<Longrightarrow> issued_tokens s \<subseteq> issued_tokens (fold (job_step memory_job_ops) ops s)" for s :: "'a memory_jobs"
    proof (induction ops arbitrary: s)
      case (Cons c ops)
      then show ?case using memory_jobs.step_issued memory_jobs.step_ok by fastforce
    qed simp
    with f assms(5) show ?thesis by blast
  qed
  with f have "t \<in> issued_tokens s2" by blast
  moreover have "memory_jobs.without (sj_id x) t s2" using assms(6) by (simp add: memory_jobs.without_def)
  ultimately have "memory_jobs.without (sj_id x) t ?s3" by (rule memory_jobs.run_without [OF inv])
  then have "held (sj_id x) (Some t) ?s3 = None"
    by (auto simp: held_eq may_settle_def memory_jobs.without_def)
  then show ?thesis
    by (simp add: complete_job_def retry_job_def dead_letter_def renew_job_def Let_def)
qed

definition mail :: "nat new_job" where
  "mail = \<lparr> n_name = js ''mail'', n_payload = 7, n_runAt = 0, n_maxAttempts = 3, n_traceparent = None \<rparr>"

definition mail_store :: "nat memory_jobs" where
  "mail_store = fold (job_step memory_job_ops) [EnqueueJob mail, EnqueueJob mail] new_memory_jobs"

lemma mail_store_inv: "jobs_inv mail_store"
  unfolding mail_store_def by (rule memory_jobs.run_ok [OF new_memory_jobs_inv])

theorem stale_lease_powerless_witness:
  "let s1 = snd (lease_jobs 10 1 50 mail_store); s2 = fold (job_step memory_job_ops) [LeaseJobs 60 2 50] s1 in
   complete_job (js ''job_1'') (Some (js ''1'')) s2 = s2 \<and> length (m_jobs (complete_job (js ''job_1'') (Some (js ''2'')) s2)) = 1"
proof -
  let ?o = "lease_jobs 10 1 50 mail_store"
  let ?s2 = "fold (job_step memory_job_ops) [LeaseJobs 60 2 50] (snd ?o)"
  let ?x = "hd (fst ?o)"
  have o: "?o = (fst ?o, snd ?o)" by simp
  have x: "?x \<in> set (fst ?o)" by code_simp
  have t: "sj_lease ?x = Some (js ''1'')" by code_simp
  have i: "sj_id ?x = js ''job_1''" by code_simp
  have "map_option j_lease (job_view ?s2 (sj_id ?x)) = Some (Some (js ''2''))" by code_simp
  then have st: "j_lease r \<noteq> Some (js ''1'')" if "job_view ?s2 (sj_id ?x) = Some r" for r
    using that by auto
  have r2: "?s2 = fold (job_step memory_job_ops) [LeaseJobs 60 2 50] (snd ?o)" by (rule refl)
  have l: "length (m_jobs (complete_job (js ''job_1'') (Some (js ''2'')) ?s2)) = 1" by code_simp
  show ?thesis
    using stale_lease_powerless [OF mail_store_inv o x t r2 st, where later = "[]"] l unfolding i Let_def
    by simp
qed

text \<open>
  C17: a lease is exclusive: from the moment a job is leased, no other lease call returns it before its
  time runs out, whatever is called meanwhile, unless someone who may (the holder, or a caller that
  names no token) settles or renews it.
\<close>

theorem lease_is_exclusive:
  assumes "jobs_inv s" and "lease_jobs now n ms s = (out, s1)" and "x \<in> set out" and "sj_lease x = Some t"
    and "\<forall>c \<in> set ops. \<not> touches (sj_id x) t c \<and> leases_before (now + ms) c" and "now' < now + ms"
  shows "sj_id x \<notin> sj_id ` set (fst (lease_jobs now' k ms' (fold (job_step memory_job_ops) ops s1)))"
proof -
  have m: "jo_lease memory_job_ops = (lease_jobs :: int \<Rightarrow> nat \<Rightarrow> int \<Rightarrow> 'a memory_jobs \<Rightarrow> _)" by (simp add: memory_job_ops_def)
  have x: "x \<in> set (fst (jo_lease memory_job_ops now n ms s))" using assms(2,3) by (simp add: m)
  have ok: "jobs_inv s1" using lease_spec [OF assms(1,2)] by simp
  from memory_jobs.lease_hidden [OF assms(1) x] assms(2,4) have "memory_jobs.hidden (sj_id x) t (now + ms) s1"
    by (metis m option.inject snd_conv)
  from memory_jobs.run_hidden [OF ok this assms(5)]
  have "memory_jobs.hidden (sj_id x) t (now + ms) (fold (job_step memory_job_ops) ops s1)" .
  from memory_jobs.not_leased [OF memory_jobs.run_ok [OF ok] this assms(6)] show ?thesis by (simp add: m)
qed

theorem lease_is_exclusive_witness:
  "let s1 = snd (lease_jobs 10 1 50 mail_store) in
   js ''job_1'' \<notin> sj_id ` set (fst (lease_jobs 59 9 50
      (fold (job_step memory_job_ops) [LeaseJobs 20 5 50, CompleteJob (js ''job_1'') (Some (js ''7''))] s1)))"
proof -
  let ?o = "lease_jobs 10 1 50 mail_store"
  let ?ops = "[LeaseJobs 20 5 50, CompleteJob (js ''job_1'') (Some (js ''7''))]"
  let ?x = "hd (fst ?o)"
  have o: "?o = (fst ?o, snd ?o)" by simp
  have x: "?x \<in> set (fst ?o)" by code_simp
  have t: "sj_lease ?x = Some (js ''1'')" by code_simp
  have i: "sj_id ?x = js ''job_1''" by code_simp
  have c: "\<forall>c \<in> set ?ops. \<not> touches (sj_id ?x) (js ''1'') c \<and> leases_before (10 + 50) c"
    unfolding i by simp
  show ?thesis
    using lease_is_exclusive [OF mail_store_inv o x t c, of 59 9 50] unfolding i Let_def by simp
qed

end
