(* ===== verification/JobQueue.thy ===== *)
theory JobQueue
  imports JobStore Complex_Main
begin

text \<open>
  The job queue, \<open>packages/jobs/src/queue.ts\<close>, over any store of the interface, and the retry delays of
  \<open>packages/jobs/src/backoff.ts\<close>.

  \<^item> A queue is its definitions, its store, the jobs it runs (\<open>q_running\<close>, one entry per promise) and the
    lease and definition each runs under (\<open>q_holds\<close>). What happens is a sequence of events: an enqueue, a
    poll, a renewal, the end of a handler.
  \<^item> The store answers within the stretch that calls it, as the memory store does: \<open>admit\<close> is the call of
    \<open>store.lease\<close> with the start of what it returns, the end of a handler is its settlement with the
    release of its slot. What may happen while a slower store works on such a call is not modelled.
  \<^item> A number that may be no whole number is an option; delays are whole milliseconds. A backoff may also
    give a number that is not finite, or throw. The instrumentation hooks, which cannot change a result,
    and the poll timer are left out.
\<close>

section \<open>Backoff\<close>

text \<open>What a backoff gives: a delay, a number that is not finite (as \<open>String\<close> writes it), or an error it throws.\<close>

datatype backoff_delay = DelayMs int | NoNumber jstr | BackoffThrew jstr

definition delayMs :: "int \<Rightarrow> int option" where
  "delayMs v = (if v < 0 then None else Some v)"

text \<open>From the 1025th attempt on the power of two is \<open>Infinity\<close>: above every cap, but no number when the base is 0.\<close>

definition exponentialBackoff :: "int \<Rightarrow> int \<Rightarrow> real \<Rightarrow> real \<Rightarrow> (nat \<Rightarrow> backoff_delay) option" where
  "exponentialBackoff baseMs maxMs jitter random =
     (case (delayMs baseMs, delayMs maxMs) of
        (Some b, Some m) \<Rightarrow>
          if \<not> (0 \<le> jitter \<and> jitter \<le> 1) then None
          else
            Some (\<lambda>attempt.
              let raw = min m (b * 2 ^ (attempt - 1)) in
              if b = 0 \<and> attempt > 1024 then NoNumber (js ''NaN'')
              else DelayMs (if jitter > 0 then \<lfloor>real_of_int raw * (1 - jitter * random) + 1 / 2\<rfloor> else raw))
      | _ \<Rightarrow> None)"

definition fixedBackoff :: "int \<Rightarrow> (nat \<Rightarrow> backoff_delay) option" where
  "fixedBackoff ms = map_option (\<lambda>d attempt. DelayMs d) (delayMs ms)"

definition noBackoff :: "nat \<Rightarrow> backoff_delay" where
  "noBackoff attempt = DelayMs 0"

section \<open>Definitions of jobs\<close>

record 'p job_def =
  df_validate :: "'p \<Rightarrow> (jstr list + 'p)"
  df_attempts :: int
  df_backoff :: "nat \<Rightarrow> backoff_delay"
  df_timeoutMs :: "int option"

datatype job_error =
    DuplicateJob | UnknownJob | BadTimeout | TimeoutAboveLease | BadAttempts | BadTime | InvalidPayload "jstr list"
  | BadConcurrency | BadPollInterval | BadLease

datatype retry_config = DefaultRetries | Attempts "int option" | Policy "int option" "(nat \<Rightarrow> backoff_delay) option"

definition attemptCount :: "int option \<Rightarrow> int option" where
  "attemptCount v = map_option (max 1) v"

definition normalizeRetries ::
    "retry_config \<Rightarrow> int \<Rightarrow> (nat \<Rightarrow> backoff_delay) \<Rightarrow> (int \<times> (nat \<Rightarrow> backoff_delay)) option" where
  "normalizeRetries retries defaultAttempts defaultBackoff =
     (case retries of
        DefaultRetries \<Rightarrow> Some (defaultAttempts, defaultBackoff)
      | Attempts n \<Rightarrow> map_option (\<lambda>a. (a, defaultBackoff)) (attemptCount n)
      | Policy n b \<Rightarrow>
          map_option (\<lambda>a. (a, case b of None \<Rightarrow> defaultBackoff | Some f \<Rightarrow> f)) (attemptCount n))"

definition timeout_below_lease :: "int option \<Rightarrow> int \<Rightarrow> bool" where
  "timeout_below_lease timeoutMs leaseMs = (case timeoutMs of None \<Rightarrow> True | Some t \<Rightarrow> t < leaseMs)"

definition MAX_TIMEOUT_MS :: int where
  "MAX_TIMEOUT_MS = 2147483647"

record 'p hold =
  h_lease :: "jstr option"
  h_job :: "'p stored_job"
  h_def :: "'p job_def option"

record ('p, 's) queue =
  q_store :: 's
  q_defs :: "(jstr, 'p job_def) jmap"
  q_defaultAttempts :: int
  q_defaultBackoff :: "nat \<Rightarrow> backoff_delay"
  q_timer :: bool
  q_concurrency :: nat
  q_leaseMs :: int
  q_running :: "jstr list"
  q_holds :: "(jstr, 'p hold) jmap"

definition createQueue :: "'s \<Rightarrow> int option option \<Rightarrow> (nat \<Rightarrow> backoff_delay) \<Rightarrow> ('p, 's) queue option" where
  "createQueue st defaultAttempts backoff =
     map_option
       (\<lambda>a. \<lparr> q_store = st, q_defs = [], q_defaultAttempts = a, q_defaultBackoff = backoff, q_timer = False,
              q_concurrency = 1, q_leaseMs = 30000, q_running = [], q_holds = [] \<rparr>)
       (case defaultAttempts of None \<Rightarrow> Some 3 | Some n \<Rightarrow> attemptCount n)"

definition define_job ::
    "jstr \<Rightarrow> ('p \<Rightarrow> (jstr list + 'p)) \<Rightarrow> retry_config \<Rightarrow> int option \<Rightarrow> ('p, 's) queue \<Rightarrow> job_error + ('p, 's) queue" where
  "define_job name validate retries timeoutMs q =
     (if map_of (q_defs q) name \<noteq> None then Inl DuplicateJob
      else if (case timeoutMs of None \<Rightarrow> False | Some t \<Rightarrow> t \<le> 0 \<or> t > MAX_TIMEOUT_MS) then Inl BadTimeout
      else if q_timer q \<and> \<not> timeout_below_lease timeoutMs (q_leaseMs q) then Inl TimeoutAboveLease
      else
        (case normalizeRetries retries (q_defaultAttempts q) (q_defaultBackoff q) of
           None \<Rightarrow> Inl BadAttempts
         | Some (attempts, backoff) \<Rightarrow>
             Inr (q\<lparr> q_defs :=
                       AList.update name
                         \<lparr> df_validate = validate, df_attempts = attempts, df_backoff = backoff, df_timeoutMs = timeoutMs \<rparr>
                         (q_defs q) \<rparr>)))"

record worker_options =
  w_concurrency :: "int option"
  w_pollIntervalMs :: "int option"
  w_leaseMs :: "int option"

definition assertWorkerOptions :: "worker_options \<Rightarrow> job_error option" where
  "assertWorkerOptions w =
     (if (case w_concurrency w of None \<Rightarrow> False | Some c \<Rightarrow> c \<le> 0) then Some BadConcurrency
      else if (case w_pollIntervalMs w of None \<Rightarrow> False | Some p \<Rightarrow> p < 0) then Some BadPollInterval
      else if (case w_leaseMs w of None \<Rightarrow> False | Some l \<Rightarrow> l \<le> 0) then Some BadLease else None)"

definition start_worker :: "worker_options \<Rightarrow> ('p, 's) queue \<Rightarrow> job_error + ('p, 's) queue" where
  "start_worker w q =
     (case assertWorkerOptions w of
        Some e \<Rightarrow> Inl e
      | None \<Rightarrow>
          (let lease = (case w_leaseMs w of None \<Rightarrow> 30000 | Some l \<Rightarrow> l) in
           if \<not> list_all (\<lambda>x. timeout_below_lease (df_timeoutMs (snd x)) lease) (q_defs q) then Inl TimeoutAboveLease
           else
             Inr (q\<lparr> q_concurrency := nat (case w_concurrency w of None \<Rightarrow> 1 | Some c \<Rightarrow> c),
                     q_leaseMs := lease, q_timer := True \<rparr>)))"

section \<open>Enqueueing\<close>

definition lower_hex :: "nat \<Rightarrow> bool" where
  "lower_hex c \<longleftrightarrow> 48 \<le> c \<and> c \<le> 57 \<or> 97 \<le> c \<and> c \<le> 102"

definition traceparentOrUndefined :: "jstr \<Rightarrow> jstr option" where
  "traceparentOrUndefined v =
     (if map length (split_on 45 v) = [2, 32, 16, 2] \<and> list_all (list_all lower_hex) (split_on 45 v) then Some v else None)"

text \<open>A time option: absent, a number that is not finite, or whole milliseconds.\<close>

datatype time_option = NoTime | NotFinite | Millis int

record enqueue_options =
  o_delayMs :: time_option
  o_runAt :: time_option
  o_traceparent :: "jstr option"

definition eligible_at :: "int \<Rightarrow> enqueue_options \<Rightarrow> int option" where
  "eligible_at now opts =
     (case o_runAt opts of
        Millis t \<Rightarrow> Some t
      | NotFinite \<Rightarrow> None
      | NoTime \<Rightarrow>
          (case o_delayMs opts of
             NotFinite \<Rightarrow> None
           | NoTime \<Rightarrow> Some now
           | Millis d \<Rightarrow> Some (now + max 0 d)))"

definition write_job ::
    "('p, 's) job_ops \<Rightarrow> int \<Rightarrow> jstr \<Rightarrow> 'p job_def \<Rightarrow> 'p \<Rightarrow> enqueue_options \<Rightarrow> jstr option \<Rightarrow> 's \<Rightarrow> job_error + jstr \<times> 's" where
  "write_job S now name def payload opts traceparent st =
     (case df_validate def payload of
        Inl issues \<Rightarrow> Inl (InvalidPayload issues)
      | Inr v \<Rightarrow>
          (case eligible_at now opts of
             None \<Rightarrow> Inl BadTime
           | Some runAt \<Rightarrow>
               Inr (jo_enqueue S
                      \<lparr> n_name = name, n_payload = v, n_runAt = runAt, n_maxAttempts = df_attempts def,
                        n_traceparent = traceparent \<rparr> st)))"

definition enqueue ::
    "('p, 's) job_ops \<Rightarrow> int \<Rightarrow> jstr \<Rightarrow> 'p \<Rightarrow> enqueue_options \<Rightarrow> jstr option \<Rightarrow> ('p, 's) queue
     \<Rightarrow> (job_error + jstr) \<times> ('p, 's) queue" where
  "enqueue S now name payload opts contextTrace q =
     (case map_of (q_defs q) name of
        None \<Rightarrow> (Inl UnknownJob, q)
      | Some def \<Rightarrow>
          (let traceparent =
             (case Option.bind (o_traceparent opts) traceparentOrUndefined of None \<Rightarrow> contextTrace | Some t \<Rightarrow> Some t) in
           case write_job S now name def payload opts traceparent (q_store q) of
             Inl e \<Rightarrow> (Inl e, q)
           | Inr (i, st) \<Rightarrow> (Inr i, q\<lparr> q_store := st \<rparr>)))"

section \<open>Running\<close>

datatype handler_end = HandlerDone | HandlerFailed jstr

datatype run_outcome = Completed | Retried | DeadLettered

text \<open>\<open>JSON.stringify\<close> of a string: a lone surrogate is escaped, a pair is kept.\<close>

definition hex_digit :: "nat \<Rightarrow> nat" where
  "hex_digit d = (if d < 10 then 48 + d else 87 + d)"

definition unit_escape :: "nat \<Rightarrow> jstr" where
  "unit_escape c = [92, 117, hex_digit (c div 4096 mod 16), hex_digit (c div 256 mod 16), hex_digit (c div 16 mod 16), hex_digit (c mod 16)]"

definition json_unit :: "nat \<Rightarrow> jstr" where
  "json_unit c =
     (if c = 34 \<or> c = 92 then [92, c]
      else if c = 8 then js [CHR 0x5C, CHR 0x62]
      else if c = 9 then js [CHR 0x5C, CHR 0x74]
      else if c = 10 then js [CHR 0x5C, CHR 0x6E]
      else if c = 12 then js [CHR 0x5C, CHR 0x66]
      else if c = 13 then js [CHR 0x5C, CHR 0x72]
      else if c < 32 \<or> 0xD800 \<le> c \<and> c \<le> 0xDFFF then unit_escape c
      else [c])"

fun json_units :: "jstr \<Rightarrow> jstr" where
  "json_units [] = []"
| "json_units [c] = json_unit c"
| "json_units (c # d # cs) =
     (if 0xD800 \<le> c \<and> c \<le> 0xDBFF \<and> 0xDC00 \<le> d \<and> d \<le> 0xDFFF then c # d # json_units cs
      else json_unit c @ json_units (d # cs))"

definition json_string :: "jstr \<Rightarrow> jstr" where
  "json_string s = [34] @ json_units s @ [34]"

text \<open>How an attempt ends: with an outcome, or rejected (\<open>Inl\<close>), the job left as it is, when the backoff throws.\<close>

definition attemptJob ::
    "('p, 's) job_ops \<Rightarrow> int \<Rightarrow> 'p hold \<Rightarrow> 'p job_def \<Rightarrow> handler_end \<Rightarrow> 's \<Rightarrow> (jstr + run_outcome) \<times> 's" where
  "attemptJob S now h def out st =
     (let job = h_job h; attempt = sj_attempt job + 1 in
      case out of
        HandlerDone \<Rightarrow> (Inr Completed, jo_complete S (sj_id job) (h_lease h) st)
      | HandlerFailed err \<Rightarrow>
          if int attempt \<ge> sj_maxAttempts job then (Inr DeadLettered, jo_dead S (sj_id job) err (h_lease h) st)
          else
            (case df_backoff def attempt of
               BackoffThrew e \<Rightarrow> (Inl e, st)
             | NoNumber v \<Rightarrow>
                 (Inr DeadLettered,
                  jo_dead S (sj_id job)
                    (err @ js ''; jobs: backoff for '' @ json_string (sj_name job) @ js '' returned '' @ v
                       @ js '' after attempt '' @ dec attempt @ js '', not a finite delay'')
                    (h_lease h) st)
             | DelayMs delay \<Rightarrow> (Inr Retried, jo_retry S (sj_id job) (now + max 0 delay) (h_lease h) st)))"

text \<open>\<open>runOne\<close>, with the definition it looked up when it began.\<close>

definition runOne ::
    "('p, 's) job_ops \<Rightarrow> int \<Rightarrow> 'p hold \<Rightarrow> handler_end \<Rightarrow> 's \<Rightarrow> (jstr + run_outcome) \<times> 's" where
  "runOne S now h out st =
     (case h_def h of
        None \<Rightarrow>
          (Inr DeadLettered,
           jo_dead S (sj_id (h_job h)) (js ''no handler defined for '' @ json_string (sj_name (h_job h))) (h_lease h) st)
      | Some def \<Rightarrow> attemptJob S now h def out st)"

text \<open>\<open>begin\<close>: a job taken from the store starts, unless it runs here already.\<close>

definition admit_one :: "'p stored_job \<Rightarrow> ('p, 's) queue \<Rightarrow> ('p, 's) queue" where
  "admit_one job q =
     (case map_of (q_holds q) (sj_id job) of
        Some h \<Rightarrow> q\<lparr> q_holds := AList.update (sj_id job) (h\<lparr> h_lease := sj_lease job \<rparr>) (q_holds q) \<rparr>
      | None \<Rightarrow>
          q\<lparr> q_holds :=
               AList.update (sj_id job)
                 \<lparr> h_lease = sj_lease job, h_job = job, h_def = map_of (q_defs q) (sj_name job) \<rparr> (q_holds q),
             q_running := q_running q @ [sj_id job] \<rparr>)"

definition admit :: "('p, 's) job_ops \<Rightarrow> int \<Rightarrow> ('p, 's) queue \<Rightarrow> ('p, 's) queue" where
  "admit S now q =
     (let free = int (q_concurrency q) - int (length (q_running q)) in
      if free \<le> 0 then q
      else
        (case jo_lease S now (nat free) (q_leaseMs q) (q_store q) of
           (leased, st) \<Rightarrow> fold admit_one leased (q\<lparr> q_store := st \<rparr>)))"

text \<open>The end of a handler: the job is settled, then its slot and hold are released; and the error its run rejects with.\<close>

definition finish :: "('p, 's) job_ops \<Rightarrow> int \<Rightarrow> jstr \<Rightarrow> handler_end \<Rightarrow> ('p, 's) queue \<Rightarrow> ('p, 's) queue" where
  "finish S now i out q =
     (case map_of (q_holds q) i of
        None \<Rightarrow> q
      | Some h \<Rightarrow>
          q\<lparr> q_store := snd (runOne S now h out (q_store q)), q_running := remove1 i (q_running q),
             q_holds := AList.delete i (q_holds q) \<rparr>)"

definition finish_rejection :: "('p, 's) job_ops \<Rightarrow> int \<Rightarrow> jstr \<Rightarrow> handler_end \<Rightarrow> ('p, 's) queue \<Rightarrow> jstr option" where
  "finish_rejection S now i out q =
     (case map_of (q_holds q) i of
        None \<Rightarrow> None
      | Some h \<Rightarrow> (case fst (runOne S now h out (q_store q)) of Inl e \<Rightarrow> Some e | Inr _ \<Rightarrow> None))"

text \<open>A job without a definition has no heartbeat.\<close>

definition heartbeat :: "('p, 's) job_ops \<Rightarrow> int \<Rightarrow> jstr \<Rightarrow> ('p, 's) queue \<Rightarrow> ('p, 's) queue" where
  "heartbeat S now i q =
     (case map_of (q_holds q) i of
        None \<Rightarrow> q
      | Some h \<Rightarrow>
          if h_def h = None then q
          else q\<lparr> q_store := jo_renew S i (now + q_leaseMs q) (h_lease h) (q_store q) \<rparr>)"

text \<open>
  \<open>process\<close>: one poll, then every job in the batch ends, when and how \<open>ends\<close> says. It counts the started
  ones, or those in flight when none started, and rejects with the first error of their runs. \<open>drain\<close>
  repeats it until it counts none.
\<close>

fun settle_all ::
    "('p, 's) job_ops \<Rightarrow> (jstr \<Rightarrow> int \<times> handler_end) \<Rightarrow> jstr list \<Rightarrow> ('p, 's) queue \<Rightarrow> jstr option list \<times> ('p, 's) queue" where
  "settle_all S ends [] q = ([], q)"
| "settle_all S ends (i # batch) q =
     (case ends i of
        (now, out) \<Rightarrow>
          (case settle_all S ends batch (finish S now i out q) of
             (rs, q') \<Rightarrow> (finish_rejection S now i out q # rs, q')))"

definition process_round ::
    "('p, 's) job_ops \<Rightarrow> int \<Rightarrow> (jstr \<Rightarrow> int \<times> handler_end) \<Rightarrow> ('p, 's) queue \<Rightarrow> (jstr + nat) \<times> ('p, 's) queue" where
  "process_round S now ends q =
     (let q1 = admit S now q; started = drop (length (q_running q)) (q_running q1);
          batch = (if started \<noteq> [] then started else q_running q1) in
      case settle_all S ends batch q1 of
        (rs, q2) \<Rightarrow> (case find (\<lambda>r. r \<noteq> None) rs of Some (Some e) \<Rightarrow> (Inl e, q2) | _ \<Rightarrow> (Inr (length batch), q2)))"

text \<open>Round \<open>k\<close> polls at \<open>clock k\<close>.\<close>

fun drain ::
    "('p, 's) job_ops \<Rightarrow> (nat \<Rightarrow> int) \<Rightarrow> (nat \<Rightarrow> jstr \<Rightarrow> int \<times> handler_end) \<Rightarrow> nat \<Rightarrow> nat \<Rightarrow> ('p, 's) queue \<Rightarrow> nat
     \<Rightarrow> ((jstr + nat) \<times> ('p, 's) queue) option" where
  "drain S clock ends 0 k q sofar = None"
| "drain S clock ends (Suc fuel) k q sofar =
     (case process_round S (clock k) (ends k) q of
        (Inl e, q') \<Rightarrow> Some (Inl e, q')
      | (Inr n, q') \<Rightarrow> if n = 0 then Some (Inr sofar, q') else drain S clock ends fuel (Suc k) q' (sofar + n))"

datatype 'p queue_event =
    Define jstr "'p \<Rightarrow> (jstr list + 'p)" retry_config "int option"
  | Start worker_options
  | Enqueue int jstr 'p enqueue_options "jstr option"
  | Poll int
  | Heartbeat int jstr
  | Finish int jstr handler_end

definition or_same :: "'e + 'q \<Rightarrow> 'q \<Rightarrow> 'q" where
  "or_same x q = (case x of Inl e \<Rightarrow> q | Inr q' \<Rightarrow> q')"

fun queue_step :: "('p, 's) job_ops \<Rightarrow> 'p queue_event \<Rightarrow> ('p, 's) queue \<Rightarrow> ('p, 's) queue" where
  "queue_step S (Define name validate retries timeoutMs) q = or_same (define_job name validate retries timeoutMs q) q"
| "queue_step S (Start w) q = or_same (start_worker w q) q"
| "queue_step S (Enqueue now name payload opts trace) q = snd (enqueue S now name payload opts trace q)"
| "queue_step S (Poll now) q = admit S now q"
| "queue_step S (Heartbeat now i) q = heartbeat S now i q"
| "queue_step S (Finish now i out) q = finish S now i out q"

section \<open>What a queue does to its store\<close>

definition tries :: "'p job \<Rightarrow> nat" where
  "tries r = nat (j_maxAttempts r - int (j_attempt r))"

definition remaining :: "(jstr \<Rightarrow> 'p job option) \<Rightarrow> nat" where
  "remaining v = (\<Sum>i \<in> dom v. tries (the (v i)))"

lemma remaining_settle:
  assumes "finite (dom v)" and "v i = Some r"
  shows "remaining v = tries r + remaining (v(i := None))"
proof -
  have "remaining v = tries r + (\<Sum>k \<in> dom v - {i}. tries (the (v k)))"
    using assms sum.remove [OF assms(1), of i "\<lambda>k. tries (the (v k))"] by (simp add: remaining_def domI)
  moreover have "(\<Sum>k \<in> dom v - {i}. tries (the (v k))) = remaining (v(i := None))"
    unfolding remaining_def by (rule sum.cong) auto
  ultimately show ?thesis by simp
qed

lemma remaining_set:
  "finite (dom v) \<Longrightarrow> remaining (v(i \<mapsto> r)) = tries r + remaining (v(i := None))"
  using remaining_settle [of "v(i \<mapsto> r)" i r] by simp

lemma remaining_lease: "remaining (lease_view u out v) = remaining v"
proof -
  have "dom (lease_view u out v) = dom v" by (auto simp: lease_view_def split: option.splits)
  moreover have "tries (the (lease_view u out v i)) = tries (the (v i))" if "i \<in> dom v" for i
    using that by (auto simp: lease_view_def tries_def split: option.splits)
  ultimately show ?thesis unfolding remaining_def by (intro sum.cong) simp_all
qed

lemma tries_retried: "tries (retried_job t r) = tries r - 1"
  by (simp add: tries_def retried_job_def)

lemma admit_one_fixed [simp]:
  "q_store (fold admit_one out q) = q_store q" "q_defs (fold admit_one out q) = q_defs q"
  "q_concurrency (fold admit_one out q) = q_concurrency q" "q_leaseMs (fold admit_one out q) = q_leaseMs q"
  "q_defaultAttempts (fold admit_one out q) = q_defaultAttempts q"
  by (induction out arbitrary: q) (auto simp: admit_one_def split: option.splits)

lemma admit_one_holds:
  "distinct (map sj_id out) \<Longrightarrow>
   map_of (q_holds (fold admit_one out q)) i =
     (case map_of (map (\<lambda>x. (sj_id x, x)) out) i of
        None \<Rightarrow> map_of (q_holds q) i
      | Some x \<Rightarrow>
          Some (case map_of (q_holds q) i of
                  Some h \<Rightarrow> h\<lparr> h_lease := sj_lease x \<rparr>
                | None \<Rightarrow> \<lparr> h_lease = sj_lease x, h_job = x, h_def = map_of (q_defs q) (sj_name x) \<rparr>))"
proof (induction out arbitrary: q)
  case (Cons x out)
  have "map_of (map (\<lambda>x. (sj_id x, x)) out) (sj_id x) = None"
    using Cons.prems by (simp add: map_of_eq_None_iff image_image)
  with Cons show ?case
    by (auto simp: admit_one_def jm_get_set split: option.splits)
qed simp

lemma admit_one_running:
  "distinct (map sj_id out) \<Longrightarrow>
   q_running (fold admit_one out q)
     = q_running q @ filter (\<lambda>i. map_of (q_holds q) i = None) (map sj_id out)"
proof (induction out arbitrary: q)
  case (Cons x out)
  have "filter (\<lambda>i. map_of (q_holds (admit_one x q)) i = None) (map sj_id out)
      = filter (\<lambda>i. map_of (q_holds q) i = None) (map sj_id out)"
  proof (rule filter_cong [OF refl])
    fix i assume "i \<in> set (map sj_id out)"
    moreover have "sj_id x \<notin> set (map sj_id out)" using Cons.prems by simp
    ultimately have "i \<noteq> sj_id x" by metis
    then show "(map_of (q_holds (admit_one x q)) i = None) = (map_of (q_holds q) i = None)"
      by (simp add: admit_one_def jm_get_set split: option.split)
  qed
  with Cons show ?case by (auto simp: admit_one_def split: option.splits)
qed simp

lemma admit_one_wf: "jm_wf (q_holds q) \<Longrightarrow> jm_wf (q_holds (fold admit_one out q))"
  by (induction out arbitrary: q) (auto simp: admit_one_def split: option.splits)

lemma slots_kept [simp]:
  "q_concurrency (finish S now i out q) = q_concurrency q" "q_concurrency (admit S now q) = q_concurrency q"
  "q_concurrency (heartbeat S now i q) = q_concurrency q"
  "q_concurrency (snd (enqueue S now name payload opts trace q)) = q_concurrency q"
  by (auto simp: finish_def admit_def heartbeat_def enqueue_def Let_def split: option.split prod.split sum.split)

lemma settle_all_fixed [simp]:
  "q_concurrency (snd (settle_all S ends batch q)) = q_concurrency q" "q_defs (snd (settle_all S ends batch q)) = q_defs q"
  "length (fst (settle_all S ends batch q)) = length batch"
  by (induction batch arbitrary: q) (simp_all add: finish_def split_beta split: option.split)

lemma process_round_fixed:
  "q_concurrency (snd (process_round S now ends q)) = q_concurrency q" "q_defs (snd (process_round S now ends q)) = q_defs q"
proof -
  have d: "q_defs (admit S now q) = q_defs q" by (simp add: admit_def Let_def split: prod.split)
  note f = settle_all_fixed [of S ends _ "admit S now q"]
  have "snd (process_round S now ends q) = snd (settle_all S ends
      (let started = drop (length (q_running q)) (q_running (admit S now q)) in
       if started \<noteq> [] then started else q_running (admit S now q)) (admit S now q))"
    by (simp add: process_round_def Let_def split: prod.split option.split)
  then show "q_concurrency (snd (process_round S now ends q)) = q_concurrency q" "q_defs (snd (process_round S now ends q)) = q_defs q"
    using f(1,2) d by simp_all
qed

text \<open>Handler runs, and the attempts the queue has taken on.\<close>

definition accepted :: "('p, 's) job_ops \<Rightarrow> 'p queue_event \<Rightarrow> ('p, 's) queue \<Rightarrow> nat" where
  "accepted S e q =
     (case e of
        Enqueue now name payload opts trace \<Rightarrow>
          (case fst (enqueue S now name payload opts trace q) of
             Inl _ \<Rightarrow> 0
           | Inr _ \<Rightarrow> nat (df_attempts (the (map_of (q_defs q) name))))
      | _ \<Rightarrow> 0)"

definition runs_now :: "'p queue_event \<Rightarrow> ('p, 's) queue \<Rightarrow> nat" where
  "runs_now e q = (case e of Finish now i out \<Rightarrow> if i \<in> set (q_running q) then 1 else 0 | _ \<Rightarrow> 0)"

definition rejected_now :: "('p, 's) job_ops \<Rightarrow> 'p queue_event \<Rightarrow> ('p, 's) queue \<Rightarrow> nat" where
  "rejected_now S e q =
     (case e of Finish now i out \<Rightarrow> if finish_rejection S now i out q \<noteq> None then 1 else 0 | _ \<Rightarrow> 0)"

fun rejected_runs :: "('p, 's) job_ops \<Rightarrow> 'p queue_event list \<Rightarrow> ('p, 's) queue \<Rightarrow> nat" where
  "rejected_runs S [] q = 0"
| "rejected_runs S (e # es) q = rejected_now S e q + rejected_runs S es (queue_step S e q)"

fun handler_runs :: "('p, 's) job_ops \<Rightarrow> 'p queue_event list \<Rightarrow> ('p, 's) queue \<Rightarrow> nat" where
  "handler_runs S [] q = 0"
| "handler_runs S (e # es) q = runs_now e q + handler_runs S es (queue_step S e q)"

fun attempts_accepted :: "('p, 's) job_ops \<Rightarrow> 'p queue_event list \<Rightarrow> ('p, 's) queue \<Rightarrow> nat" where
  "attempts_accepted S [] q = 0"
| "attempts_accepted S (e # es) q = accepted S e q + attempts_accepted S es (queue_step S e q)"

text \<open>What a run of the queue keeps, over any store that keeps the interface.\<close>

context job_store
begin

definition hold_ok :: "'s \<Rightarrow> jstr \<Rightarrow> 'p hold \<Rightarrow> bool" where
  "hold_ok s i h \<longleftrightarrow>
     (\<exists>r. view s i = Some r \<and> h_lease h \<noteq> None \<and> j_lease r = h_lease h \<and> sj_id (h_job h) = i
        \<and> sj_attempt (h_job h) = j_attempt r \<and> sj_maxAttempts (h_job h) = j_maxAttempts r)"

definition store_ok :: "'s \<Rightarrow> bool" where
  "store_ok s \<longleftrightarrow> ok s \<and> (\<forall>i r. view s i = Some r \<longrightarrow> int (j_attempt r) < j_maxAttempts r)"

definition queue_ok :: "('p, 's) queue \<Rightarrow> bool" where
  "queue_ok q \<longleftrightarrow>
     store_ok (q_store q) \<and> distinct (q_running q) \<and> set (q_running q) = fst ` set (q_holds q) \<and> jm_wf (q_holds q)
     \<and> (\<forall>i h. map_of (q_holds q) i = Some h \<longrightarrow> hold_ok (q_store q) i h)
     \<and> (\<forall>n d. map_of (q_defs q) n = Some d \<longrightarrow> 1 \<le> df_attempts d) \<and> 1 \<le> q_defaultAttempts q
     \<and> (\<forall>i h d. map_of (q_holds q) i = Some h \<longrightarrow> h_def h = Some d \<longrightarrow> (\<exists>n. map_of (q_defs q) n = Some d))"

lemma store_okD: "store_ok s \<Longrightarrow> ok s" "store_ok s \<Longrightarrow> view s i = Some r \<Longrightarrow> int (j_attempt r) < j_maxAttempts r"
  by (auto simp: store_ok_def)

lemma queue_okD:
  assumes "queue_ok q"
  shows "store_ok (q_store q)" and "ok (q_store q)" and "distinct (q_running q)" and "set (q_running q) = fst ` set (q_holds q)"
    and "jm_wf (q_holds q)" and "map_of (q_holds q) i = Some h \<Longrightarrow> hold_ok (q_store q) i h"
    and "map_of (q_defs q) n = Some d \<Longrightarrow> 1 \<le> df_attempts d" and "1 \<le> q_defaultAttempts q"
    and "map_of (q_holds q) i = Some h \<Longrightarrow> h_def h = Some d \<Longrightarrow> \<exists>n. map_of (q_defs q) n = Some d"
  using assms store_okD(1) unfolding queue_ok_def by blast+

text \<open>The end of a handler settles its job: it is gone, or it waits with one more attempt made.\<close>

definition settled :: "jstr \<Rightarrow> 's \<Rightarrow> 's \<Rightarrow> bool" where
  "settled i s s' \<longleftrightarrow>
     ok s' \<and> (view s' = (view s)(i := None)
       \<or> (\<exists>r t. view s i = Some r \<and> view s' = (view s)(i \<mapsto> retried_job t r) \<and> int (j_attempt r + 1) < j_maxAttempts r))"

lemma settle_dead:
  "ok s \<Longrightarrow> hold_ok s i h \<Longrightarrow> settled i s (jo_dead S i err (h_lease h) s)"
  using dead_law [of s i err "h_lease h"] by (auto simp: settled_def hold_ok_def may_settle_def)

lemma settle_complete:
  "ok s \<Longrightarrow> hold_ok s i h \<Longrightarrow> settled i s (jo_complete S i (h_lease h) s)"
  using complete_law [of s i "h_lease h"] by (auto simp: settled_def hold_ok_def may_settle_def)

lemma settle_retry:
  "ok s \<Longrightarrow> hold_ok s i h \<Longrightarrow> int (sj_attempt (h_job h) + 1) < sj_maxAttempts (h_job h) \<Longrightarrow>
   settled i s (jo_retry S i t (h_lease h) s)"
  using retry_law [of s i t "h_lease h"] by (auto simp: settled_def hold_ok_def may_settle_def)

lemma runOne_settled:
  assumes "ok s" and "hold_ok s i h" and "runOne S now h out s = (res, s')"
  shows "case res of
      Inl e \<Rightarrow> s' = s \<and> (\<exists>d a. h_def h = Some d \<and> df_backoff d a = BackoffThrew e)
    | Inr _ \<Rightarrow> settled i s s'"
proof -
  have i: "sj_id (h_job h) = i" using assms(2) by (auto simp: hold_ok_def)
  show ?thesis
    using settle_dead [OF assms(1,2)] settle_complete [OF assms(1,2)] settle_retry [OF assms(1,2)] assms(3)
    by (auto simp: runOne_def attemptJob_def Let_def i simp del: js_Cons
        split: option.splits handler_end.splits if_splits backoff_delay.splits)
qed

lemma settled_store_ok: "store_ok s \<Longrightarrow> settled i s s' \<Longrightarrow> store_ok s'"
  by (auto simp: store_ok_def settled_def retried_job_def split: if_splits)

lemma settled_other: "settled i s s' \<Longrightarrow> k \<noteq> i \<Longrightarrow> view s' k = view s k"
  by (auto simp: settled_def)

lemma hold_ok_same: "view s' i = view s i \<Longrightarrow> hold_ok s' i h = hold_ok s i h"
  by (simp add: hold_ok_def)

lemma settled_remaining:
  assumes "store_ok s" and "view s i = Some r" and "settled i s s'"
  shows "Suc (remaining (view s')) \<le> remaining (view s)"
proof -
  have t: "1 \<le> tries r" using store_okD(2) [OF assms(1,2)] by (simp add: tries_def)
  have fin: "finite (dom (view s))" using view_finite store_okD(1) [OF assms(1)] by blast
  note all = remaining_settle [OF fin assms(2)] remaining_set [OF fin, of i]
  from assms(3) consider "view s' = (view s)(i := None)" | u where "view s' = (view s)(i \<mapsto> retried_job u r)"
    using assms(2) by (auto simp: settled_def)
  then show ?thesis using all t by cases (simp_all add: tries_retried)
qed

lemma finish_ok:
  assumes "queue_ok q"
  shows "queue_ok (finish S now i out q)"
proof (cases "map_of (q_holds q) i")
  case (Some h)
  note d = queue_okD [OF assms]
  obtain res s' where run: "runOne S now h out (q_store q) = (res, s')" by (cases "runOne S now h out (q_store q)")
  let ?q = "q\<lparr> q_store := s', q_running := remove1 i (q_running q), q_holds := AList.delete i (q_holds q) \<rparr>"
  have st: "s' = q_store q \<or> settled i (q_store q) s'"
    using runOne_settled [OF d(2) d(6) [OF Some] run] by (auto split: sum.splits)
  then have ok: "store_ok s'" using settled_store_ok [OF d(1)] d(1) by blast
  have del: "map_of (q_holds q) k = Some g \<and> k \<noteq> i" if "map_of (AList.delete i (q_holds q)) k = Some g" for k g
    using that by (auto simp: jm_get_delete split: if_splits)
  have keep: "hold_ok s' k g" if "map_of (AList.delete i (q_holds q)) k = Some g" for k g
  proof -
    have "view s' k = view (q_store q) k" using st settled_other del [OF that] by blast
    then show ?thesis using d(6) [of k g] del [OF that] hold_ok_same by blast
  qed
  have keys: "set (remove1 i (q_running q)) = fst ` set (AList.delete i (q_holds q))"
    using d(3,4) by (auto simp: AList.delete_eq image_iff)
  have "queue_ok ?q"
    using ok d(3,5,7,8) d(9) keep keys del by (simp add: queue_ok_def) blast
  with Some run show ?thesis by (simp add: finish_def)
qed (use assms in \<open>simp add: finish_def\<close>)

lemma finish_rejected_from:
  assumes "queue_ok q" and "finish_rejection S now i out q = Some e"
  shows "\<exists>n d a. map_of (q_defs q) n = Some d \<and> df_backoff d a = BackoffThrew e"
proof -
  obtain h s' where h: "map_of (q_holds q) i = Some h" "runOne S now h out (q_store q) = (Inl e, s')"
    using assms(2) by (auto simp: finish_rejection_def fst_def split: option.splits sum.splits prod.splits)
  note d = queue_okD [OF assms(1)]
  from runOne_settled [OF d(2) d(6) [OF h(1)] h(2)] d(9) [OF h(1)] show ?thesis by (auto, blast)
qed

lemma finish_remaining:
  assumes "queue_ok q"
  shows "remaining (view (q_store (finish S now i out q))) + (if i \<in> set (q_running q) then 1 else 0)
    \<le> remaining (view (q_store q)) + (if finish_rejection S now i out q \<noteq> None then 1 else 0)"
proof (cases "map_of (q_holds q) i")
  case None
  then have "i \<notin> set (q_running q)" using queue_okD(4) [OF assms] by (simp add: map_of_eq_None_iff)
  with None show ?thesis by (simp add: finish_def)
next
  case (Some h)
  note d = queue_okD [OF assms]
  obtain res s' where run: "runOne S now h out (q_store q) = (res, s')" by (cases "runOne S now h out (q_store q)")
  from d(6) [OF Some] obtain r where r: "view (q_store q) i = Some r" by (auto simp: hold_ok_def)
  note st = runOne_settled [OF d(2) d(6) [OF Some] run]
  show ?thesis
  proof (cases res)
    case (Inl e)
    with st Some run show ?thesis by (simp add: finish_def finish_rejection_def)
  next
    case (Inr v)
    with st settled_remaining [OF d(1) r, of s'] Some run show ?thesis by (simp add: finish_def finish_rejection_def)
  qed
qed

lemma finish_running: "queue_ok q \<Longrightarrow> q_running (finish S now i out q) = remove1 i (q_running q)"
  using queue_okD(4) [of q] by (auto simp: finish_def map_of_eq_None_iff remove1_idem split: option.split)

lemma lease_keeps:
  assumes "store_ok s" and "jo_lease S now n ms s = (out, s')"
  shows "store_ok s'"
proof -
  note f = lease_law [OF store_okD(1) [OF assms(1)] assms(2)]
  have "int (j_attempt r) < j_maxAttempts r" if "view s' i = Some r" for i r
    using that f store_okD(2) [OF assms(1), of i] by (auto simp: lease_view_def split: option.splits)
  with f show ?thesis by (simp add: store_ok_def)
qed

lemma lease_view_at:
  "distinct (map sj_id out) \<Longrightarrow> x \<in> set out \<Longrightarrow> lease_view u out v (sj_id x) = map_option (leased_job u (sj_lease x)) (v (sj_id x))"
  "sj_id ` set out \<inter> {i} = {} \<Longrightarrow> lease_view u out v i = v i"
proof -
  assume "distinct (map sj_id out)" "x \<in> set out"
  then have "map_of (map (\<lambda>x. (sj_id x, sj_lease x)) out) (sj_id x) = Some (sj_lease x)"
    by (intro map_of_is_SomeI) (auto simp: comp_def)
  then show "lease_view u out v (sj_id x) = map_option (leased_job u (sj_lease x)) (v (sj_id x))"
    by (simp add: lease_view_def)
next
  assume "sj_id ` set out \<inter> {i} = {}"
  then have "map_of (map (\<lambda>x. (sj_id x, sj_lease x)) out) i = None" by (auto simp: map_of_eq_None_iff)
  then show "lease_view u out v i = v i" by (simp add: lease_view_def)
qed

lemma admit_holds:
  assumes ok: "queue_ok q" and l: "jo_lease S now n ms (q_store q) = (out, s')"
    and h: "map_of (q_holds (fold admit_one out (q\<lparr> q_store := s' \<rparr>))) i = Some h"
  shows "hold_ok s' i h"
proof -
  note d = queue_okD [OF ok] and f = lease_law [OF queue_okD(2) [OF ok] l]
  from f have dist: "distinct (map sj_id out)" and v: "view s' = lease_view (now + ms) out (view (q_store q))" by simp_all
  note at = h [unfolded admit_one_holds [OF dist]]
  show ?thesis
  proof (cases "map_of (map (\<lambda>x. (sj_id x, x)) out) i")
    case None
    then have "sj_id ` set out \<inter> {i} = {}" by (auto simp: map_of_eq_None_iff image_image)
    from lease_view_at(2) [OF this] v have "view s' i = view (q_store q) i" by simp
    moreover have "hold_ok (q_store q) i h" using None at d(6) [of i h] by simp
    ultimately show ?thesis using hold_ok_same by blast
  next
    case (Some x)
    then have x: "x \<in> set out" "sj_id x = i" by (auto dest!: map_of_SomeD)
    with f obtain r t where r: "view (q_store q) i = Some r" "sj_lease x = Some t"
        "x = stored_of (leased_job (now + ms) (Some t) r)" by blast
    have v': "view s' i = Some (leased_job (now + ms) (Some t) r)"
      using lease_view_at(1) [OF dist x(1)] v r x(2) by simp
    show ?thesis
    proof (cases "map_of (q_holds q) i")
      case None
      with at Some have "h = \<lparr> h_lease = sj_lease x, h_job = x, h_def = map_of (q_defs q) (sj_name x) \<rparr>" by simp
      with v' r(2) x(2) show ?thesis
        unfolding hold_ok_def by (intro exI [of _ "leased_job (now + ms) (Some t) r"]) (use r(3) in \<open>simp add: stored_of_def\<close>)
    next
      case (Some g)
      with at \<open>map_of (map (\<lambda>x. (sj_id x, x)) out) i = Some x\<close> have "h = g\<lparr> h_lease := sj_lease x \<rparr>" by simp
      with v' r d(6) [OF Some] show ?thesis by (auto simp: hold_ok_def)
    qed
  qed
qed

lemma admit_ok:
  assumes "queue_ok q"
  shows "queue_ok (admit S now q)"
proof (cases "int (q_concurrency q) - int (length (q_running q)) \<le> 0")
  case False
  let ?n = "nat (int (q_concurrency q) - int (length (q_running q)))"
  obtain out s' where l: "jo_lease S now ?n (q_leaseMs q) (q_store q) = (out, s')" by (cases "jo_lease S now ?n (q_leaseMs q) (q_store q)")
  let ?q = "fold admit_one out (q\<lparr> q_store := s' \<rparr>)"
  note d = queue_okD [OF assms] and f = lease_law [OF queue_okD(2) [OF assms] l]
  from f have dist: "distinct (map sj_id out)" by simp
  have run: "q_running ?q = q_running q @ filter (\<lambda>i. map_of (q_holds q) i = None) (map sj_id out)"
    using admit_one_running [OF dist, of "q\<lparr> q_store := s' \<rparr>"] by simp
  have "distinct (q_running ?q)"
    using d(3,4) dist unfolding run by (auto simp: map_of_eq_None_iff)
  moreover have "set (q_running ?q) = fst ` set (q_holds ?q)"
  proof -
    have "i \<in> dom (map_of (q_holds ?q)) \<longleftrightarrow> i \<in> set (q_running ?q)" for i
    proof (cases "map_of (map (\<lambda>x. (sj_id x, x)) out) i")
      case None
      then have "i \<notin> sj_id ` set out" by (simp add: map_of_eq_None_iff image_image)
      with None admit_one_holds [OF dist, of "q\<lparr> q_store := s' \<rparr>" i] d(4) show ?thesis
        by (auto simp: run dom_map_of_conv_image_fst [symmetric])
    next
      case (Some x)
      then have "i \<in> sj_id ` set out" by (auto dest!: map_of_SomeD)
      with Some admit_one_holds [OF dist, of "q\<lparr> q_store := s' \<rparr>" i] d(4) show ?thesis
        by (auto simp: run dom_map_of_conv_image_fst [symmetric])
    qed
    then show ?thesis by (auto simp: dom_map_of_conv_image_fst)
  qed
  moreover have "\<exists>n. map_of (q_defs ?q) n = Some d" if "map_of (q_holds ?q) i = Some h" "h_def h = Some d" for i h d
    using that admit_one_holds [OF dist, of "q\<lparr> q_store := s' \<rparr>" i] queue_okD(9) [OF assms, of i _ d]
    by (auto split: option.splits)
  moreover note lease_keeps [OF d(1) l] admit_holds [OF assms l]
  ultimately have "queue_ok ?q"
    using d(7,8) admit_one_wf [of "q\<lparr> q_store := s' \<rparr>" out] d(5) by (simp add: queue_ok_def)
  with False l show ?thesis by (simp add: admit_def Let_def)
qed (use assms in \<open>simp add: admit_def\<close>)

lemma admit_remaining:
  assumes "queue_ok q"
  shows "remaining (view (q_store (admit S now q))) = remaining (view (q_store q))"
proof -
  have "remaining (view s') = remaining (view (q_store q))"
    if "jo_lease S now n (q_leaseMs q) (q_store q) = (out, s')" for n out s'
    using lease_law [OF queue_okD(2) [OF assms] that] by (simp add: remaining_lease)
  then show ?thesis by (simp add: admit_def Let_def split: prod.split)
qed

lemma admit_length:
  assumes "queue_ok q"
  shows "length (q_running (admit S now q)) \<le> max (length (q_running q)) (q_concurrency q)
    \<and> take (length (q_running q)) (q_running (admit S now q)) = q_running q"
proof -
  let ?n = "nat (int (q_concurrency q) - int (length (q_running q)))"
  obtain out s' where l: "jo_lease S now ?n (q_leaseMs q) (q_store q) = (out, s')" by (cases "jo_lease S now ?n (q_leaseMs q) (q_store q)")
  from lease_law [OF queue_okD(2) [OF assms] l] have dist: "distinct (map sj_id out)" and len: "length out \<le> ?n" by simp_all
  have n: "length (filter (\<lambda>i. map_of (q_holds q) i = None) (map sj_id out)) \<le> ?n"
    by (rule le_trans [OF length_filter_le]) (simp add: len)
  have run: "q_running (fold admit_one out (q\<lparr> q_store := s' \<rparr>))
      = q_running q @ filter (\<lambda>i. map_of (q_holds q) i = None) (map sj_id out)"
    using admit_one_running [OF dist, of "q\<lparr> q_store := s' \<rparr>"] by simp
  show ?thesis
  proof (cases "int (q_concurrency q) - int (length (q_running q)) \<le> 0")
    case False
    then have "q_running (admit S now q) = q_running (fold admit_one out (q\<lparr> q_store := s' \<rparr>))"
      using l by (simp add: admit_def Let_def)
    with n False show ?thesis unfolding run by simp
  qed (simp add: admit_def)
qed

lemma queue_ok_store:
  assumes "queue_ok q" and "store_ok s'" and "\<And>i h. map_of (q_holds q) i = Some h \<Longrightarrow> hold_ok (q_store q) i h \<Longrightarrow> hold_ok s' i h"
  shows "queue_ok (q\<lparr> q_store := s' \<rparr>)"
  using queue_okD [OF assms(1)] assms(2,3) by (simp add: queue_ok_def)

lemma heartbeat_ok:
  assumes "queue_ok q"
  shows "queue_ok (heartbeat S now i q) \<and> q_running (heartbeat S now i q) = q_running q
    \<and> remaining (view (q_store (heartbeat S now i q))) = remaining (view (q_store q))"
proof (cases "map_of (q_holds q) i")
  case (Some h)
  note d = queue_okD [OF assms]
  let ?u = "now + q_leaseMs q"
  let ?s = "jo_renew S i ?u (h_lease h) (q_store q)"
  from d(6) [OF Some] obtain r where r: "view (q_store q) i = Some r" "j_lease r = h_lease h" "h_lease h \<noteq> None"
    by (auto simp: hold_ok_def)
  note f = renew_law [OF d(2), of i ?u "h_lease h"]
  from f r have v: "view ?s = (view (q_store q))(i \<mapsto> r\<lparr> j_leaseUntil := ?u \<rparr>)" by (auto simp: may_settle_def)
  have fin: "finite (dom (view (q_store q)))" by (rule view_finite [OF d(2)])
  have "int (j_attempt r) < j_maxAttempts r" by (rule store_okD(2) [OF d(1) r(1)])
  then have st: "store_ok ?s" using conjunct1 [OF f] v d(1) by (simp add: store_ok_def)
  have "hold_ok ?s k g" if "hold_ok (q_store q) k g" for k g
    using that r(1) by (auto simp: hold_ok_def v)
  then have "queue_ok (q\<lparr> q_store := ?s \<rparr>)" using st by (intro queue_ok_store [OF assms]) blast+
  moreover have "remaining (view ?s) = remaining (view (q_store q))"
    unfolding v using remaining_set [OF fin, of i] remaining_settle [OF fin r(1)] by (simp add: tries_def)
  ultimately show ?thesis using Some assms by (simp add: heartbeat_def)
qed (use assms in \<open>simp add: heartbeat_def\<close>)

lemma enqueue_ok:
  assumes "queue_ok q"
  shows "queue_ok (snd (enqueue S now name payload opts trace q))
    \<and> q_running (snd (enqueue S now name payload opts trace q)) = q_running q
    \<and> remaining (view (q_store (snd (enqueue S now name payload opts trace q))))
        = remaining (view (q_store q)) + accepted S (Enqueue now name payload opts trace) q"
proof (cases "enqueue S now name payload opts trace q")
  case (Pair res q')
  note d = queue_okD [OF assms]
  show ?thesis
  proof (cases res)
    case (Inl e)
    with Pair have "q' = q" by (auto simp: enqueue_def Let_def split: option.splits sum.splits prod.splits)
    with Pair Inl assms show ?thesis by (simp add: accepted_def)
  next
    case (Inr i)
    then obtain df tp st where df: "map_of (q_defs q) name = Some df"
        and w: "write_job S now name df payload opts tp (q_store q) = Inr (i, st)" and q': "q' = q\<lparr> q_store := st \<rparr>"
      using Pair by (auto simp: enqueue_def Let_def split: option.splits sum.splits prod.splits)
    from w obtain j where j: "jo_enqueue S j (q_store q) = (i, st)" "n_maxAttempts j = df_attempts df"
      by (auto simp: write_job_def split: option.splits sum.splits)
    from enqueue_law [OF d(2) j(1)] have f: "ok st" "view (q_store q) i = None"
        "view st = (view (q_store q))(i \<mapsto> fresh_job i j)" by auto
    have pos: "1 \<le> df_attempts df" by (rule d(7) [OF df])
    have fr: "int (j_attempt (fresh_job i j)) < j_maxAttempts (fresh_job i j)" "tries (fresh_job i j) = nat (df_attempts df)"
      using pos j(2) by (simp_all add: fresh_job_def tries_def)
    have "store_ok st" using d(1) f fr(1) by (simp add: store_ok_def)
    moreover have "hold_ok st k h" if "hold_ok (q_store q) k h" for k h
      using that f(2) by (auto simp: hold_ok_def f(3))
    ultimately have "queue_ok q'" unfolding q' by (intro queue_ok_store [OF assms]) blast+
    moreover have "(view (q_store q))(i := None) = view (q_store q)" using f(2) by (simp add: fun_upd_idem)
    then have "remaining (view st) = remaining (view (q_store q)) + nat (df_attempts df)"
      unfolding f(3) remaining_set [OF view_finite [OF d(2)]] fr(2) by simp
    ultimately show ?thesis using Pair Inr df by (simp add: accepted_def q')
  qed
qed

lemma define_ok:
  assumes "queue_ok q" and "define_job name vld retries tmo q = Inr q'"
  shows "queue_ok q' \<and> q_running q' = q_running q \<and> q_store q' = q_store q \<and> q_concurrency q' = q_concurrency q"
proof -
  note d = queue_okD [OF assms(1)]
  from assms(2) obtain a b where n: "normalizeRetries retries (q_defaultAttempts q) (q_defaultBackoff q) = Some (a, b)"
      and q': "q' = q\<lparr> q_defs := AList.update name
          \<lparr> df_validate = vld, df_attempts = a, df_backoff = b, df_timeoutMs = tmo \<rparr> (q_defs q) \<rparr>"
    by (auto simp: define_job_def split: if_splits option.splits prod.splits)
  have a: "1 \<le> a"
    using n d(8) by (auto simp: normalizeRetries_def attemptCount_def split: retry_config.splits)
  have "1 \<le> df_attempts x" if "map_of (q_defs q') k = Some x" for k x
    using that a d(7) [of k x] by (auto simp: q' jm_get_set split: if_splits)
  moreover have "\<exists>n. map_of (q_defs q') n = Some x" if h: "map_of (q_holds q') k = Some h" "h_def h = Some x" for k h x
  proof -
    obtain n where "map_of (q_defs q) n = Some x" using d(9) [of k h x] h by (auto simp: q')
    moreover have "map_of (q_defs q) name = None" using assms(2) by (auto simp: define_job_def split: if_splits)
    ultimately have "map_of (q_defs q') n = Some x" by (auto simp: q' jm_get_set)
    then show ?thesis by blast
  qed
  ultimately
  show ?thesis using d by (simp add: queue_ok_def q')
qed

lemma start_ok:
  assumes "queue_ok q" and "start_worker w q = Inr q'"
  shows "queue_ok q' \<and> q_running q' = q_running q \<and> q_store q' = q_store q
    \<and> q_concurrency q' = nat (case w_concurrency w of None \<Rightarrow> 1 | Some c \<Rightarrow> c)"
proof -
  from assms(2) obtain l where q': "q' = q\<lparr> q_concurrency := nat (case w_concurrency w of None \<Rightarrow> 1 | Some c \<Rightarrow> c),
      q_leaseMs := l, q_timer := True \<rparr>"
    by (auto simp: start_worker_def Let_def split: option.splits if_splits)
  show ?thesis using queue_okD [OF assms(1)] unfolding q' by (simp add: queue_ok_def)
qed

text \<open>Every event keeps the invariant, and every run of a handler uses up an attempt.\<close>

lemma step_queue_ok:
  assumes "queue_ok q"
  shows "queue_ok (queue_step S e q)"
proof (cases e)
  case (Define n v r t)
  with define_ok [OF assms, of n v r t] assms show ?thesis by (simp add: or_same_def split: sum.split)
next
  case (Start w)
  with start_ok [OF assms, of w] assms show ?thesis by (simp add: or_same_def split: sum.split)
next
  case (Enqueue now name payload opts trace)
  with enqueue_ok [OF assms, of now name payload opts trace] show ?thesis by simp
next
  case (Poll now)
  with admit_ok [OF assms, of now] show ?thesis by simp
next
  case (Heartbeat now i)
  with heartbeat_ok [OF assms, of now i] show ?thesis by simp
next
  case (Finish now i out)
  with finish_ok [OF assms, of now i out] show ?thesis by simp
qed

lemma step_remaining:
  assumes "queue_ok q"
  shows "runs_now e q + remaining (view (q_store (queue_step S e q)))
    \<le> remaining (view (q_store q)) + accepted S e q + rejected_now S e q"
proof (cases e)
  case (Define n v r t)
  then show ?thesis
    using define_ok [OF assms, of n v r t]
    by (cases "define_job n v r t q") (simp_all add: runs_now_def accepted_def rejected_now_def or_same_def)
next
  case (Start w)
  then show ?thesis
    using start_ok [OF assms, of w]
    by (cases "start_worker w q") (simp_all add: runs_now_def accepted_def rejected_now_def or_same_def)
next
  case (Enqueue now name payload opts trace)
  then show ?thesis using enqueue_ok [OF assms, of now name payload opts trace] by (simp add: runs_now_def)
next
  case (Poll now)
  then show ?thesis using admit_remaining [OF assms, of now] by (simp add: runs_now_def)
next
  case (Heartbeat now i)
  then show ?thesis using heartbeat_ok [OF assms, of now i] by (simp add: runs_now_def)
next
  case (Finish now i out)
  then show ?thesis using finish_remaining [OF assms, of now i out] by (simp add: runs_now_def accepted_def rejected_now_def add.commute)
qed

lemma run_queue_ok: "queue_ok q \<Longrightarrow> queue_ok (fold (queue_step S) es q)"
  by (induction es arbitrary: q) (auto intro: step_queue_ok)

lemma run_remaining:
  "queue_ok q \<Longrightarrow> handler_runs S es q + remaining (view (q_store (fold (queue_step S) es q)))
     \<le> remaining (view (q_store q)) + attempts_accepted S es q + rejected_runs S es q"
proof (induction es arbitrary: q)
  case (Cons e es)
  show ?case
    using Cons.IH [OF step_queue_ok [OF Cons.prems, of e]] step_remaining [OF Cons.prems, of e] by simp
qed simp

text \<open>A round runs what it counts, and a drain ends because every round uses up attempts.\<close>

lemma settle_batch:
  "queue_ok q \<Longrightarrow> distinct batch \<Longrightarrow> set batch \<subseteq> set (q_running q) \<Longrightarrow> settle_all S ends batch q = (rs, q') \<Longrightarrow>
   queue_ok q'
   \<and> length (filter (\<lambda>r. r = None) rs) + remaining (view (q_store q')) \<le> remaining (view (q_store q))
   \<and> set (q_running q') = set (q_running q) - set batch
   \<and> (\<forall>e. Some e \<in> set rs \<longrightarrow> (\<exists>n d a. map_of (q_defs q) n = Some d \<and> df_backoff d a = BackoffThrew e))"
proof (induction batch arbitrary: q rs)
  case (Cons i batch)
  obtain now out where e: "ends i = (now, out)" by (cases "ends i")
  let ?q = "finish S now i out q"
  obtain rs' where rs: "settle_all S ends batch ?q = (rs', q')" "rs = finish_rejection S now i out q # rs'"
    using Cons.prems(4) by (auto simp: e split: prod.splits)
  have r: "set (q_running ?q) = set (q_running q) - {i}"
    using finish_running [OF Cons.prems(1)] queue_okD(3) [OF Cons.prems(1)] by simp
  have "set batch \<subseteq> set (q_running ?q)" "distinct batch" using Cons.prems(2,3) r by auto
  note ih = Cons.IH [OF finish_ok [OF Cons.prems(1)] this(2,1) rs(1)]
  have i: "i \<in> set (q_running q)" using Cons.prems(3) by simp
  have defs: "q_defs ?q = q_defs q" by (simp add: finish_def split: option.split)
  have "length (filter (\<lambda>r. r = None) rs) + remaining (view (q_store q')) \<le> remaining (view (q_store q))"
    using ih finish_remaining [OF Cons.prems(1), of now i out] i unfolding rs(2) by (simp split: if_splits)
  with ih r finish_rejected_from [OF Cons.prems(1), of now i out] show ?case unfolding rs(2) defs by auto
qed simp

lemma process_round_step:
  assumes "queue_ok q" and "process_round S now ends q = (res, q')"
  shows "queue_ok q' \<and> (case res of
      Inl e \<Rightarrow> \<exists>n d a. map_of (q_defs q) n = Some d \<and> df_backoff d a = BackoffThrew e
    | Inr n \<Rightarrow> n + remaining (view (q_store q')) \<le> remaining (view (q_store q))
        \<and> (n = 0 \<longrightarrow> q' = admit S now q \<and> q_running q' = []))"
proof -
  let ?q = "admit S now q"
  let ?started = "drop (length (q_running q)) (q_running ?q)"
  define batch where "batch = (if ?started \<noteq> [] then ?started else q_running ?q)"
  have ok: "queue_ok ?q" by (rule admit_ok [OF assms(1)])
  have b: "distinct batch" "set batch \<subseteq> set (q_running ?q)"
    using queue_okD(3) [OF ok] unfolding batch_def by (auto dest: in_set_dropD)
  obtain rs q2 where s: "settle_all S ends batch ?q = (rs, q2)" by (cases "settle_all S ends batch ?q")
  note f = settle_batch [OF ok b s]
  have defs: "q_defs ?q = q_defs q" by (simp add: admit_def Let_def split: prod.split)
  have len: "length rs = length batch" using settle_all_fixed(3) [of S ends batch ?q] s by simp
  have p: "process_round S now ends q
      = (case find (\<lambda>r. r \<noteq> None) rs of Some (Some e) \<Rightarrow> (Inl e, q2) | _ \<Rightarrow> (Inr (length batch), q2))"
    using s unfolding process_round_def Let_def batch_def [symmetric] by simp
  show ?thesis
  proof (cases "find (\<lambda>r. r \<noteq> None) rs")
    case None
    then have "filter (\<lambda>r. r = None) rs = rs" by (simp add: find_None_iff)
    with f len have n: "length batch + remaining (view (q_store q2)) \<le> remaining (view (q_store q))"
      unfolding admit_remaining [OF assms(1)] by simp
    have r: "res = Inr (length batch)" "q' = q2" using p None assms(2) by simp_all
    have "q' = ?q \<and> q_running q' = []" if "batch = []"
    proof -
      have "q_running ?q = []" using that unfolding batch_def by (simp split: if_splits)
      with r(2) s that show ?thesis by simp
    qed
    then have "length batch = 0 \<longrightarrow> q' = ?q \<and> q_running q' = []" unfolding length_0_conv by blast
    moreover have "queue_ok q'" using f r(2) by simp
    moreover have "length batch + remaining (view (q_store q')) \<le> remaining (view (q_store q))" using n r(2) by simp
    ultimately show ?thesis unfolding r(1) sum.case by blast
  next
    case (Some x)
    then obtain e where e: "x = Some e" "Some e \<in> set rs" by (auto simp: find_Some_iff) (metis nth_mem)
    with p Some assms(2) have "res = Inl e" "q' = q2" by simp_all
    with f e(2) show ?thesis unfolding defs by simp
  qed
qed

lemma drain_ends:
  "queue_ok q \<Longrightarrow> remaining (view (q_store q)) < fuel \<Longrightarrow>
   \<exists>m res q'. m < fuel \<and> drain S clock ends fuel k q sofar = Some (res, q') \<and> drain S clock ends m k q sofar = None
     \<and> drain S clock ends (Suc m) k q sofar = Some (res, q')
     \<and> (case res of
          Inl e \<Rightarrow> \<exists>n d a. map_of (q_defs q) n = Some d \<and> df_backoff d a = BackoffThrew e
        | Inr c \<Rightarrow> sofar \<le> c \<and> c \<le> sofar + remaining (view (q_store q))
            \<and> (\<exists>q0. queue_ok q0 \<and> q' = admit S (clock (k + m)) q0 \<and> q_running q' = [] \<and> q_concurrency q0 = q_concurrency q))"
proof (induction fuel arbitrary: k q sofar)
  case (Suc fuel)
  obtain res q' where p: "process_round S (clock k) (ends k) q = (res, q')" by (cases "process_round S (clock k) (ends k) q")
  note st = process_round_step [OF Suc.prems(1) p]
  show ?case
  proof (cases "\<exists>n. res = Inr n \<and> n \<noteq> 0")
    case False
    have "sofar \<le> sofar + remaining (view (q_store q))" by simp
    with False st Suc.prems(1) show ?thesis
      by (intro exI [of _ 0] exI [of _ "case res of Inl e \<Rightarrow> Inl e | Inr n \<Rightarrow> Inr sofar"] exI [of _ q'])
        (auto simp: p split: sum.splits)
  next
    case True
    then obtain n where n: "res = Inr n" "n \<noteq> 0" by blast
    with st have ok: "queue_ok q'" and le: "n + remaining (view (q_store q')) \<le> remaining (view (q_store q))" by simp_all
    from n(2) le Suc.prems(2) have "remaining (view (q_store q')) < fuel" by linarith
    from Suc.IH [OF ok this, of "Suc k" "sofar + n"] obtain m r2 q2 where h: "m < fuel"
      "drain S clock ends fuel (Suc k) q' (sofar + n) = Some (r2, q2)" "drain S clock ends m (Suc k) q' (sofar + n) = None"
      "drain S clock ends (Suc m) (Suc k) q' (sofar + n) = Some (r2, q2)"
      "case r2 of
          Inl e \<Rightarrow> \<exists>n d a. map_of (q_defs q') n = Some d \<and> df_backoff d a = BackoffThrew e
        | Inr c \<Rightarrow> sofar + n \<le> c \<and> c \<le> sofar + n + remaining (view (q_store q'))
            \<and> (\<exists>q0. queue_ok q0 \<and> q2 = admit S (clock (Suc k + m)) q0 \<and> q_running q2 = [] \<and> q_concurrency q0 = q_concurrency q')"
      by blast
    have same: "q_concurrency q' = q_concurrency q" "q_defs q' = q_defs q"
      using process_round_fixed [of S "clock k" "ends k" q] p by simp_all
    have "case r2 of
          Inl e \<Rightarrow> \<exists>n d a. map_of (q_defs q) n = Some d \<and> df_backoff d a = BackoffThrew e
        | Inr c \<Rightarrow> sofar \<le> c \<and> c \<le> sofar + remaining (view (q_store q))
            \<and> (\<exists>q0. queue_ok q0 \<and> q2 = admit S (clock (k + Suc m)) q0 \<and> q_running q2 = [] \<and> q_concurrency q0 = q_concurrency q)"
      using h(5) le unfolding same by (cases r2) auto
    moreover have "drain S clock ends (Suc g) k q sofar = drain S clock ends g (Suc k) q' (sofar + n)" for g
      using n p by simp
    ultimately show ?thesis using h(1-4) by (intro exI [of _ "Suc m"] exI [of _ r2] exI [of _ q2]) (simp del: drain.simps)
  qed
qed simp

end

section \<open>Over the memory store\<close>

lemma lease_loop_due:
  "lease_loop now limit ms rs taken sq = (rs', [], sq') \<Longrightarrow> taken < limit \<Longrightarrow>
   rs' = rs \<and> (\<forall>x \<in> set rs. \<not> due now (snd x))"
proof (induction rs arbitrary: rs' sq')
  case (Cons x rs)
  obtain k r where x: "x = (k, r)" by (cases x)
  show ?case
  proof (cases "due now r")
    case True
    with Cons.prems show ?thesis by (auto simp: x Let_def split: prod.splits)
  next
    case False
    with Cons.prems obtain rs1 where "lease_loop now limit ms rs taken sq = (rs1, [], sq')" "rs' = (k, r) # rs1"
      by (auto simp: x Let_def split: prod.splits)
    with Cons.IH [of rs1 sq'] Cons.prems(2) False show ?thesis by (simp add: x)
  qed
qed simp

lemma lease_jobs_due:
  assumes "lease_jobs now n ms s = ([], s')" and "0 < n" and "job_view s' i = Some r"
  shows "\<not> due now r"
proof -
  obtain rs sq where o: "lease_loop now n ms (m_jobs s) 0 (m_leaseSeq s) = (rs, [], sq)" "m_jobs s' = rs"
    using assms(1) by (auto simp: lease_jobs_def split: prod.splits)
  have "(i, r) \<in> set rs" using assms(3) o(2) by (simp add: job_view_def map_of_SomeD)
  with lease_loop_due [OF o(1) assms(2)] show ?thesis by fastforce
qed

definition tries_left :: "'p memory_jobs \<Rightarrow> nat" where
  "tries_left s = sum_list (map (\<lambda>x. tries (snd x)) (m_jobs s))"

lemma remaining_list: "jm_wf m \<Longrightarrow> remaining (map_of m) = sum_list (map (\<lambda>x. tries (snd x)) m)"
proof (induction m)
  case (Cons x m)
  obtain k r where x: "x = (k, r)" by (cases x)
  have "(map_of m)(k := None) = map_of m"
    using Cons.prems by (intro fun_upd_idem) (simp add: x map_of_eq_None_iff)
  with remaining_set [of "map_of m" k r] have "remaining ((map_of m)(k \<mapsto> r)) = tries r + remaining (map_of m)"
    by (simp add: finite_dom_map_of)
  moreover have e: "map_of ((k, r) # m) = (map_of m)(k \<mapsto> r)" by (simp add: fun_eq_iff)
  moreover have "remaining (map_of m) = sum_list (map (\<lambda>x. tries (snd x)) m)" using Cons by simp
  ultimately have "remaining (map_of ((k, r) # m)) = sum_list (map (\<lambda>x. tries (snd x)) ((k, r) # m))"
    by (simp only: list.map sum_list.Cons snd_conv)
  then show ?case by (simp only: x)
qed (simp add: remaining_def)

lemma tries_left_remaining: "jobs_inv s \<Longrightarrow> remaining (job_view s) = tries_left s"
  using remaining_list [OF jobs_invD(1)] by (simp add: job_view_def tries_left_def)

lemma createQueue_ok: "createQueue new_memory_jobs n b = Some q \<Longrightarrow> memory_jobs.queue_ok q"
proof -
  assume "createQueue new_memory_jobs n b = Some q"
  then obtain z where z: "(case n of None \<Rightarrow> Some 3 | Some n \<Rightarrow> attemptCount n) = Some z" and q: "q = \<lparr> q_store = new_memory_jobs, q_defs = [], q_defaultAttempts = z,
      q_defaultBackoff = b, q_timer = False, q_concurrency = 1, q_leaseMs = 30000, q_running = [], q_holds = [] \<rparr>"
    by (auto simp: createQueue_def)
  from z have "1 \<le> z" by (auto simp: attemptCount_def split: option.splits)
  moreover have "job_view (new_memory_jobs :: 'a memory_jobs) i = None" for i by (simp add: job_view_def new_memory_jobs_def)
  ultimately show "memory_jobs.queue_ok q"
    using new_memory_jobs_inv unfolding q by (simp add: memory_jobs.queue_ok_def memory_jobs.store_ok_def)
qed

text \<open>The slots the queue has had.\<close>

fun slots_asked :: "'p queue_event \<Rightarrow> nat" where
  "slots_asked (Start w) = nat (case w_concurrency w of None \<Rightarrow> 1 | Some c \<Rightarrow> c)"
| "slots_asked _ = 1"

definition slots :: "'p queue_event list \<Rightarrow> nat" where
  "slots es = foldr (\<lambda>e. max (slots_asked e)) es 1"

lemma slots_simps [simp]: "slots [] = 1" "slots (e # es) = max (slots_asked e) (slots es)"
  by (simp_all add: slots_def)

lemma step_slots:
  assumes "memory_jobs.queue_ok q"
  shows "q_concurrency (queue_step memory_job_ops e q) \<le> max (q_concurrency q) (slots_asked e)
    \<and> (0 < q_concurrency q \<longrightarrow> 0 < q_concurrency (queue_step memory_job_ops e q))
    \<and> length (q_running (queue_step memory_job_ops e q)) \<le> max (length (q_running q)) (q_concurrency q)"
proof (cases e)
  case (Define n v r t)
  then show ?thesis
    using memory_jobs.define_ok [OF assms, of n v r t]
    by (cases "define_job n v r t q") (simp_all add: or_same_def)
next
  case (Start w)
  show ?thesis
  proof (cases "start_worker w q")
    case (Inr q')
    then have "0 < nat (case w_concurrency w of None \<Rightarrow> 1 | Some c \<Rightarrow> c)"
      by (auto simp: start_worker_def assertWorkerOptions_def split: if_splits option.splits)
    with Inr Start memory_jobs.start_ok [OF assms Inr] show ?thesis by (simp add: or_same_def)
  qed (simp add: Start or_same_def)
next
  case (Enqueue now name payload opts trace)
  with memory_jobs.enqueue_ok [OF assms, of now name payload opts trace] show ?thesis by simp
next
  case (Poll now)
  with memory_jobs.admit_length [OF assms, of now] show ?thesis by simp
next
  case (Heartbeat now i)
  with memory_jobs.heartbeat_ok [OF assms, of now i] show ?thesis by simp
next
  case (Finish now i out)
  then show ?thesis
    using memory_jobs.finish_running [OF assms, of now i out] length_remove1 [of i "q_running q"]
    by (simp split: if_splits)
qed

lemma run_slots:
  "memory_jobs.queue_ok q \<Longrightarrow> 0 < q_concurrency q \<Longrightarrow> q_concurrency q \<le> m \<Longrightarrow> length (q_running q) \<le> m \<Longrightarrow> slots es \<le> m \<Longrightarrow>
   length (q_running (fold (queue_step memory_job_ops) es q)) \<le> m
   \<and> 0 < q_concurrency (fold (queue_step memory_job_ops) es q)"
proof (induction es arbitrary: q)
  case (Cons e es)
  let ?q = "queue_step memory_job_ops e q"
  note st = step_slots [OF Cons.prems(1), of e]
  have "0 < q_concurrency ?q" "q_concurrency ?q \<le> m" "length (q_running ?q) \<le> m" "slots es \<le> m"
    using st Cons.prems(2-5) by auto
  from Cons.IH [OF memory_jobs.step_queue_ok [OF Cons.prems(1)] this] show ?case by simp
qed simp

lemma slots_pos: "1 \<le> slots es"
  by (induction es) simp_all

lemma drain_more: "drain S clock ends g k q sofar = Some x \<Longrightarrow> g \<le> fuel \<Longrightarrow> drain S clock ends fuel k q sofar = Some x"
proof (induction g arbitrary: fuel k q sofar)
  case (Suc g)
  then obtain f where f: "fuel = Suc f" "g \<le> f" by (cases fuel) auto
  from Suc.prems(1) Suc.IH [OF _ f(2)] show ?case unfolding f(1) by (auto split: prod.splits sum.splits if_splits)
qed simp

lemma admit_nothing_due:
  assumes ok: "memory_jobs.queue_ok q" and "0 < q_concurrency q" and none: "q_running (admit memory_job_ops now q) = []"
    and r: "job_view (q_store (admit memory_job_ops now q)) i = Some r"
  shows "\<not> due now r"
proof -
  note d = memory_jobs.queue_okD [OF ok]
  have e: "q_running q = []" using memory_jobs.admit_length [OF ok, of now] none by simp
  obtain out s' where l: "lease_jobs now (q_concurrency q) (q_leaseMs q) (q_store q) = (out, s')"
    by (cases "lease_jobs now (q_concurrency q) (q_leaseMs q) (q_store q)")
  have a: "admit memory_job_ops now q = fold admit_one out (q\<lparr> q_store := s' \<rparr>)"
    using e l assms(2) by (simp add: admit_def memory_job_ops_def Let_def)
  have dist: "distinct (map sj_id out)" using lease_spec [OF d(2) l] by simp
  have "q_holds q = []" using d(4) e by simp
  with none admit_one_running [OF dist, of "q\<lparr> q_store := s' \<rparr>"] have "out = []" unfolding a by simp
  with l assms(2) r lease_jobs_due [of now "q_concurrency q" "q_leaseMs q" "q_store q" s' i r] show ?thesis
    unfolding a by simp
qed

section \<open>Properties\<close>

text \<open>
  C19: a queue runs no job twice at once and never more jobs than it has slots: whatever is defined,
  enqueued, polled, renewed and finished, in any order, the jobs in flight are distinct, no more than the
  largest concurrency ever asked for, and each is still in the store under the lease its run holds, with
  an attempt number within its attempts - even when its lease ran out and the store handed it back.
\<close>

theorem jobs_run_once_within_slots:
  fixes q0 :: "('p, 'p memory_jobs) queue"
  assumes "createQueue new_memory_jobs n b = Some q0"
  shows "let q = fold (queue_step memory_job_ops) es q0 in
    length (q_running q) \<le> slots es \<and> distinct (q_running q)
    \<and> (\<forall>i \<in> set (q_running q). \<exists>h r. map_of (q_holds q) i = Some h \<and> job_view (q_store q) i = Some r
         \<and> j_lease r = h_lease h \<and> h_lease h \<noteq> None \<and> int (sj_attempt (h_job h) + 1) \<le> j_maxAttempts r)"
proof -
  let ?q = "fold (queue_step memory_job_ops) es q0"
  from assms have "q_concurrency q0 = 1" "q_running q0 = []" by (auto simp: createQueue_def)
  with run_slots [OF createQueue_ok [OF assms], of "slots es" es] slots_pos [of es]
  have len: "length (q_running ?q) \<le> slots es" by simp
  have ok: "memory_jobs.queue_ok ?q" by (rule memory_jobs.run_queue_ok [OF createQueue_ok [OF assms]])
  note d = memory_jobs.queue_okD [OF ok]
  have "\<exists>h r. map_of (q_holds ?q) i = Some h \<and> job_view (q_store ?q) i = Some r
         \<and> j_lease r = h_lease h \<and> h_lease h \<noteq> None \<and> int (sj_attempt (h_job h) + 1) \<le> j_maxAttempts r"
    if "i \<in> set (q_running ?q)" for i
  proof -
    from that d(4) have "map_of (q_holds ?q) i \<noteq> None" unfolding map_of_eq_None_iff by blast
    then obtain h where h: "map_of (q_holds ?q) i = Some h" by blast
    from d(6) [OF h] obtain r where r: "job_view (q_store ?q) i = Some r" "h_lease h \<noteq> None" "j_lease r = h_lease h"
      "sj_attempt (h_job h) = j_attempt r" by (auto simp: memory_jobs.hold_ok_def)
    with memory_jobs.store_okD(2) [OF d(1) r(1)] h show ?thesis by auto
  qed
  with len d(3) show ?thesis unfolding Let_def by blast
qed

text \<open>
  C20: handlers run no more often than the attempts enqueued jobs were given, runs whose backoff throws apart:
  over any run of a queue, the handler runs that ended and the attempts its store still has to give are
  together no more than the attempts of the jobs it accepted and the runs that were rejected by a throwing
  backoff. (Such a run uses up no attempt: see \<open>throwing_backoff_runs_on\<close>.)
\<close>

theorem runs_within_attempts:
  fixes q0 :: "('p, 'p memory_jobs) queue"
  assumes "createQueue new_memory_jobs n b = Some q0"
  shows "handler_runs memory_job_ops es q0 + tries_left (q_store (fold (queue_step memory_job_ops) es q0))
    \<le> attempts_accepted memory_job_ops es q0 + rejected_runs memory_job_ops es q0"
proof -
  note ok = createQueue_ok [OF assms] and okn = memory_jobs.run_queue_ok [OF createQueue_ok [OF assms], of es]
  have "tries_left (q_store q0) = 0" using assms by (auto simp: createQueue_def new_memory_jobs_def tries_left_def)
  with memory_jobs.run_remaining [OF ok, of es] tries_left_remaining [OF memory_jobs.queue_okD(2) [OF ok]]
    tries_left_remaining [OF memory_jobs.queue_okD(2) [OF okn]] show ?thesis by simp
qed

text \<open>
  C18: \<open>drain\<close> ends, and when it returns it leaves nothing due: whatever handlers throw and however time
  moves between rounds, when nobody else uses the queue meanwhile it ends with the poll of some round \<open>m\<close>,
  no later than the attempts that are left. It rejects only with an error that the backoff of a defined job throws.
  When it returns it has run no more handlers than attempts were left, no job is in flight, and no job in the store
  was due at the time of that last poll.
\<close>

theorem drain_leaves_nothing_due:
  fixes q0 :: "('p, 'p memory_jobs) queue"
  assumes "createQueue new_memory_jobs n b = Some q0" and "q = fold (queue_step memory_job_ops) es q0"
    and "tries_left (q_store q) < fuel"
  shows "\<exists>m res q'. m \<le> tries_left (q_store q) \<and> drain memory_job_ops clock ends fuel 0 q 0 = Some (res, q')
    \<and> drain memory_job_ops clock ends m 0 q 0 = None \<and> drain memory_job_ops clock ends (Suc m) 0 q 0 = Some (res, q')
    \<and> (case res of
         Inl e \<Rightarrow> \<exists>name d a. map_of (q_defs q) name = Some d \<and> df_backoff d a = BackoffThrew e
       | Inr count \<Rightarrow> count \<le> tries_left (q_store q) \<and> q_running q' = []
           \<and> (\<forall>i. case job_view (q_store q') i of None \<Rightarrow> True | Some r \<Rightarrow> \<not> due (clock m) r))"
proof -
  note ok = memory_jobs.run_queue_ok [OF createQueue_ok [OF assms(1)], of es, folded assms(2)]
  have rem: "remaining (job_view (q_store q)) = tries_left (q_store q)"
    by (rule tries_left_remaining [OF memory_jobs.queue_okD(2) [OF ok]])
  from assms(1) have "q_concurrency q0 = 1" "q_running q0 = []" by (auto simp: createQueue_def)
  with run_slots [OF createQueue_ok [OF assms(1)], of "slots es" es] slots_pos [of es] assms(2)
  have pos: "0 < q_concurrency q" by simp
  have "remaining (job_view (q_store q)) < Suc (tries_left (q_store q))" using rem by simp
  from memory_jobs.drain_ends [OF ok this, of clock ends 0 0] obtain m res q' where
    m: "m \<le> tries_left (q_store q)" "drain memory_job_ops clock ends m 0 q 0 = None"
      "drain memory_job_ops clock ends (Suc m) 0 q 0 = Some (res, q')"
    and res: "case res of
          Inl e \<Rightarrow> \<exists>n d a. map_of (q_defs q) n = Some d \<and> df_backoff d a = BackoffThrew e
        | Inr c \<Rightarrow> 0 \<le> c \<and> c \<le> 0 + remaining (job_view (q_store q)) \<and> (\<exists>q0. memory_jobs.queue_ok q0
            \<and> q' = admit memory_job_ops (clock (0 + m)) q0 \<and> q_running q' = [] \<and> q_concurrency q0 = q_concurrency q)"
    by (auto simp: less_Suc_eq_le simp del: drain.simps)
  have "drain memory_job_ops clock ends fuel 0 q 0 = Some (res, q')"
    by (rule drain_more [OF m(3)]) (use m(1) assms(3) in simp)
  moreover have "case res of
         Inl e \<Rightarrow> \<exists>name d a. map_of (q_defs q) name = Some d \<and> df_backoff d a = BackoffThrew e
       | Inr count \<Rightarrow> count \<le> tries_left (q_store q) \<and> q_running q' = []
           \<and> (\<forall>i. case job_view (q_store q') i of None \<Rightarrow> True | Some r \<Rightarrow> \<not> due (clock m) r)"
  proof (cases res)
    case (Inr c)
    with res obtain q1 where q1: "c \<le> tries_left (q_store q)" "memory_jobs.queue_ok q1"
      "q' = admit memory_job_ops (clock m) q1" "q_running q' = []" "q_concurrency q1 = q_concurrency q" unfolding rem by auto
    have "\<not> due (clock m) r" if "job_view (q_store q') i = Some r" for i r
      by (rule admit_nothing_due [OF q1(2) _ q1(4) [unfolded q1(3)] that [unfolded q1(3)]]) (use q1(5) pos in simp)
    with q1 Inr show ?thesis by (auto split: option.split)
  qed (use res in simp)
  ultimately show ?thesis using m by blast
qed

text \<open>
  A backoff is a delay within its bounds: for a base and a cap that are finite and not negative and a
  jitter within [0, 1] - anything else is refused - every delay is between 0 and the cap, the jitter takes
  off at most its fraction, and for the same random draw a later attempt never waits less, as long as the base
  is not 0 or no more than 1024 attempts were made.
\<close>

theorem exponentialBackoff_bounds:
  assumes "exponentialBackoff baseMs maxMs jitter random = Some f" and "0 \<le> random" and "random < 1" and "1 \<le> a" and "a \<le> b"
    and "baseMs \<noteq> 0 \<or> b \<le> 1024"
  shows "\<exists>x y. f a = DelayMs x \<and> f b = DelayMs y \<and> 0 \<le> x \<and> x \<le> maxMs \<and> x \<le> y
    \<and> real_of_int (min maxMs (baseMs * 2 ^ (a - 1))) * (1 - jitter) \<le> real_of_int x + 1 / 2"
proof -
  from assms(1) have p: "0 \<le> baseMs" "0 \<le> maxMs" "0 \<le> jitter" "jitter \<le> 1"
    and f0: "f = (\<lambda>n. let raw = min maxMs (baseMs * 2 ^ (n - 1)) in
        if baseMs = 0 \<and> n > 1024 then NoNumber (js ''NaN'')
        else DelayMs (if jitter > 0 then \<lfloor>real_of_int raw * (1 - jitter * random) + 1 / 2\<rfloor> else raw))"
    by (auto simp: exponentialBackoff_def delayMs_def split: if_splits)
  define g where "g = (\<lambda>n :: nat. let raw = min maxMs (baseMs * 2 ^ (n - 1)) in
        if jitter > 0 then \<lfloor>real_of_int raw * (1 - jitter * random) + 1 / 2\<rfloor> else raw)"
  have fg: "f a = DelayMs (g a)" "f b = DelayMs (g b)" using assms(5,6) by (auto simp: f0 g_def Let_def simp del: js_Cons)
  define raw where "raw n = min maxMs (baseMs * 2 ^ (n - 1))" for n :: nat
  define s where "s = 1 - jitter * random"
  have "jitter * random \<le> jitter * 1" by (rule mult_left_mono) (use assms(3) p in auto)
  then have s: "0 \<le> s" "s \<le> 1" "1 - jitter \<le> s" using p assms(2) by (auto simp: s_def)
  have fn: "g n = (if jitter > 0 then \<lfloor>real_of_int (raw n) * s + 1 / 2\<rfloor> else raw n)" for n
    by (simp add: g_def raw_def s_def Let_def)
  have r0: "0 \<le> raw n" "raw n \<le> maxMs" for n using p by (auto simp: raw_def)
  have "(2::int) ^ (a - 1) \<le> 2 ^ (b - 1)" using assms(5) by (intro power_increasing) auto
  then have "baseMs * 2 ^ (a - 1) \<le> baseMs * 2 ^ (b - 1)" using p(1) by (rule mult_left_mono)
  then have rab: "raw a \<le> raw b" by (auto simp: raw_def min_def)
  have m: "real_of_int (raw a) * s \<le> real_of_int (raw b) * s" using rab s(1) by (simp add: mult_right_mono)
  have lo: "0 \<le> real_of_int (raw a) * s" using r0(1) s(1) by simp
  have up: "real_of_int (raw a) * s \<le> real_of_int (raw a)" using r0(1) [of a] s(2) by (simp add: mult_left_le)
  have j: "real_of_int (raw a) * (1 - jitter) \<le> real_of_int (raw a) * s" using r0(1) [of a] s(3) by (simp add: mult_left_mono)
  show ?thesis
  proof (cases "jitter > 0")
    case True
    have "\<lfloor>real_of_int (raw a) * s + 1 / 2\<rfloor> \<le> raw a" using up by linarith
    moreover have "0 \<le> \<lfloor>real_of_int (raw a) * s + 1 / 2\<rfloor>" using lo by linarith
    moreover have "\<lfloor>real_of_int (raw a) * s + 1 / 2\<rfloor> \<le> \<lfloor>real_of_int (raw b) * s + 1 / 2\<rfloor>"
      using m by (intro floor_mono) simp
    moreover have "real_of_int (raw a) * (1 - jitter) \<le> real_of_int \<lfloor>real_of_int (raw a) * s + 1 / 2\<rfloor> + 1 / 2"
      using j by linarith
    ultimately show ?thesis using True r0(2) [of a] unfolding fg fn raw_def [symmetric] by auto
  next
    case False
    with r0 [of a] rab p j up show ?thesis unfolding fg fn raw_def [symmetric] by auto
  qed
qed

section \<open>Witnesses\<close>

definition new_queue :: "(nat, nat memory_jobs) queue" where
  "new_queue = the (createQueue new_memory_jobs None (\<lambda>attempt. DelayMs 10))"

lemma new_queue_created: "createQueue new_memory_jobs None (\<lambda>attempt. DelayMs 10) = Some new_queue"
  by (simp add: new_queue_def createQueue_def)

definition mails :: "nat queue_event list" where
  "mails =
     [Define (js ''mail'') Inr (Attempts (Some 2)) None,
      Start \<lparr> w_concurrency = Some 2, w_pollIntervalMs = None, w_leaseMs = Some 50 \<rparr>,
      Enqueue 0 (js ''mail'') 7 \<lparr> o_delayMs = NoTime, o_runAt = NoTime, o_traceparent = None \<rparr> None,
      Enqueue 0 (js ''mail'') 8 \<lparr> o_delayMs = NoTime, o_runAt = NoTime, o_traceparent = None \<rparr> None,
      Enqueue 0 (js ''mail'') 9 \<lparr> o_delayMs = NoTime, o_runAt = NoTime, o_traceparent = None \<rparr> None,
      Poll 10, Finish 20 (js ''job_1'') (HandlerFailed (js ''down'')), Poll 70]"

theorem jobs_run_once_within_slots_witness:
  "slots mails = 2 \<and> length (q_running (fold (queue_step memory_job_ops) mails new_queue)) = 2
   \<and> distinct (q_running (fold (queue_step memory_job_ops) mails new_queue))"
proof -
  have "slots mails = 2" by code_simp
  moreover have "length (q_running (fold (queue_step memory_job_ops) mails new_queue)) = 2" by code_simp
  ultimately show ?thesis
    using jobs_run_once_within_slots [OF new_queue_created, of mails] unfolding Let_def by blast
qed

text \<open>A job with two attempts whose backoff throws: three runs, and its two attempts are still to be made.\<close>

definition throwing :: "nat queue_event list" where
  "throwing =
     [Define (js ''mail'') Inr (Policy (Some 2) (Some (\<lambda>attempt. BackoffThrew (js ''no such key'')))) None,
      Start \<lparr> w_concurrency = None, w_pollIntervalMs = None, w_leaseMs = Some 50 \<rparr>,
      Enqueue 0 (js ''mail'') 7 \<lparr> o_delayMs = NoTime, o_runAt = NoTime, o_traceparent = None \<rparr> None,
      Poll 10, Finish 20 (js ''job_1'') (HandlerFailed (js ''down'')),
      Poll 70, Finish 80 (js ''job_1'') (HandlerFailed (js ''down'')),
      Poll 130, Finish 140 (js ''job_1'') (HandlerFailed (js ''down''))]"

lemma throwing_backoff_runs_on:
  "handler_runs memory_job_ops throwing new_queue = 3" "attempts_accepted memory_job_ops throwing new_queue = 2"
  "tries_left (q_store (fold (queue_step memory_job_ops) throwing new_queue)) = 2"
  by code_simp+

theorem runs_within_attempts_witness:
  "handler_runs memory_job_ops mails new_queue = 1 \<and> attempts_accepted memory_job_ops mails new_queue = 6
   \<and> rejected_runs memory_job_ops mails new_queue = 0
   \<and> tries_left (q_store (fold (queue_step memory_job_ops) mails new_queue)) \<le> 5"
proof -
  have "handler_runs memory_job_ops mails new_queue = 1" by code_simp
  moreover have "attempts_accepted memory_job_ops mails new_queue = 6" by code_simp
  moreover have "rejected_runs memory_job_ops mails new_queue = 0" by code_simp
  ultimately show ?thesis using runs_within_attempts [OF new_queue_created, of mails] by linarith
qed

lemma defs_kept:
  assumes "list_all (\<lambda>e. case e of Define name decode retries handler \<Rightarrow> False | _ \<Rightarrow> True) es"
  shows "q_defs (fold (queue_step S) es q) = q_defs q"
  using assms by (induction es arbitrary: q)
    (auto simp: or_same_def start_worker_def enqueue_def admit_def heartbeat_def finish_def Let_def
      split: queue_event.splits option.split prod.split sum.split)

lemma mails_backoff:
  "map_of (q_defs (fold (queue_step memory_job_ops) mails new_queue)) name = Some d \<Longrightarrow> df_backoff d a = DelayMs 10"
proof -
  have "q_defs (fold (queue_step memory_job_ops) (tl mails) q) = q_defs q" for q
    by (rule defs_kept) (simp add: mails_def)
  then have "q_defs (fold (queue_step memory_job_ops) mails new_queue) = q_defs (queue_step memory_job_ops (hd mails) new_queue)"
    by (simp add: mails_def)
  then show "map_of (q_defs (fold (queue_step memory_job_ops) mails new_queue)) name = Some d \<Longrightarrow> df_backoff d a = DelayMs 10"
    by (auto simp: mails_def or_same_def define_job_def new_queue_def createQueue_def normalizeRetries_def attemptCount_def Let_def
        split: if_splits)
qed

theorem drain_leaves_nothing_due_witness:
  "\<exists>count q' m. drain memory_job_ops (\<lambda>k. 1000 + 100 * int k) (\<lambda>k i. (1001 + 100 * int k, HandlerFailed (js ''down'')))
      6 0 (fold (queue_step memory_job_ops) mails new_queue) 0 = Some (Inr count, q') \<and> count \<le> 5 \<and> q_running q' = [] \<and> m \<le> 5
      \<and> (\<forall>i. case job_view (q_store q') i of None \<Rightarrow> True | Some r \<Rightarrow> \<not> due (1000 + 100 * int m) r)"
proof -
  have t: "tries_left (q_store (fold (queue_step memory_job_ops) mails new_queue)) = 5" by code_simp
  then have "tries_left (q_store (fold (queue_step memory_job_ops) mails new_queue)) < 6" by simp
  from drain_leaves_nothing_due [OF new_queue_created refl this, of "\<lambda>k. 1000 + 100 * int k"
      "\<lambda>k i. (1001 + 100 * int k, HandlerFailed (js ''down''))"]
  obtain m res q' where m: "m \<le> 5"
    and d: "drain memory_job_ops (\<lambda>k. 1000 + 100 * int k) (\<lambda>k i. (1001 + 100 * int k, HandlerFailed (js ''down'')))
      6 0 (fold (queue_step memory_job_ops) mails new_queue) 0 = Some (res, q')"
    and res: "case res of
         Inl e \<Rightarrow> \<exists>name d a. map_of (q_defs (fold (queue_step memory_job_ops) mails new_queue)) name = Some d \<and> df_backoff d a = BackoffThrew e
       | Inr count \<Rightarrow> count \<le> 5 \<and> q_running q' = []
           \<and> (\<forall>i. case job_view (q_store q') i of None \<Rightarrow> True | Some r \<Rightarrow> \<not> due (1000 + 100 * int m) r)"
    unfolding t by blast
  show ?thesis
  proof (cases res)
    case (Inl e)
    from res obtain name d a where
      "map_of (q_defs (fold (queue_step memory_job_ops) mails new_queue)) name = Some d" "df_backoff d a = BackoffThrew e"
      unfolding Inl sum.case by blast
    with mails_backoff [of name d a] show ?thesis by simp
  next
    case (Inr count)
    with m d res show ?thesis by auto
  qed
qed

theorem exponentialBackoff_bounds_witness:
  "\<exists>f x y. exponentialBackoff 1000 30000 (1 / 2) (1 / 4) = Some f \<and> f 3 = DelayMs x \<and> f 9 = DelayMs y \<and> 0 \<le> x \<and> x \<le> 30000 \<and> x \<le> y"
proof -
  obtain f where f: "exponentialBackoff 1000 30000 (1 / 2) (1 / 4) = Some f"
    by (simp add: exponentialBackoff_def delayMs_def)
  have "(0 :: real) \<le> 1 / 4" "(1 / 4 :: real) < 1" "1 \<le> (3 :: nat)" "(3 :: nat) \<le> 9" "(1000 :: int) \<noteq> 0 \<or> (9 :: nat) \<le> 1024" by simp_all
  from exponentialBackoff_bounds [OF f this] f show ?thesis by blast
qed

end
