(* ===== verification/CacheStore.thy ===== *)
theory CacheStore
  imports ParamConstraint
begin

text \<open>
  The in-process cache store, \<open>packages/cache/src/memory-cache.ts\<close>: rows in order of use, a tag index, an
  incremental sweep of expired rows, a bound with least-recently-used eviction, and the fence that refuses
  a write which something has overtaken.

  \<^item> A \<open>Map\<close> is an association list in insertion order, a \<open>Set\<close> of keys a list without repetition. The
    sweep's live iterator is the number of rows it has passed, \<open>None\<close> once it is exhausted: a deletion
    before it moves it back, an insertion goes behind all rows.
  \<^item> Times are whole milliseconds. A call of \<open>set\<close> reads the clock once, where the code reads it once per
    swept row.
  \<^item> The interface \<open>CacheStore\<close> of \<open>packages/cache/src/types.ts\<close> is the record \<open>cache_ops\<close> and the locale
    \<open>cache_store\<close> of its laws.
\<close>

section \<open>Data\<close>

record 'v stored_entry =
  e_value :: 'v
  e_expiresAt :: int
  e_staleAt :: int

record 'v cache_row =
  w_value :: 'v
  w_expiresAt :: int
  w_staleAt :: int
  w_tags :: "jstr list"

record 'v mem_cache =
  mc_rows :: "(jstr, 'v cache_row) jmap"
  mc_tagIndex :: "(jstr, jstr list) jmap"
  mc_sweep :: "nat option"
  mc_maxEntries :: nat
  mc_keyChanges :: "(jstr, nat) jmap"
  mc_tagChanges :: "(jstr, nat) jmap"
  mc_clearedAt :: nat
  mc_forgottenAt :: nat
  mc_epoch :: nat

definition MAX_TRACKED_CHANGES :: int where
  "MAX_TRACKED_CHANGES = 65536"

section \<open>Operations\<close>

definition new_cache :: "int option \<Rightarrow> 'v mem_cache option" where
  "new_cache maxEntries =
     (let m = (case maxEntries of None \<Rightarrow> 10000 | Some n \<Rightarrow> n) in
      if m > 9007199254740991 \<or> m < 0 then None
      else
        Some \<lparr> mc_rows = [], mc_tagIndex = [], mc_sweep = Some 0, mc_maxEntries = nat m, mc_keyChanges = [],
               mc_tagChanges = [], mc_clearedAt = 0, mc_forgottenAt = 0, mc_epoch = 0 \<rparr>)"

definition rows_delete :: "jstr \<Rightarrow> 'v mem_cache \<Rightarrow> 'v mem_cache" where
  "rows_delete k s =
     s\<lparr> mc_rows := AList.delete k (mc_rows s),
        mc_sweep :=
          (case mc_sweep s of
             None \<Rightarrow> None
           | Some p \<Rightarrow> Some (if k \<in> set (map fst (take p (mc_rows s))) then p - 1 else p)) \<rparr>"

definition unlink :: "jstr \<Rightarrow> jstr \<Rightarrow> (jstr, jstr list) jmap \<Rightarrow> (jstr, jstr list) jmap" where
  "unlink ck tag idx =
     (case map_of idx tag of
        None \<Rightarrow> idx
      | Some ks \<Rightarrow>
          (let ks' = removeAll ck ks in
           if ks' = [] then AList.delete tag idx else AList.update tag ks' idx))"

definition evict_row :: "jstr \<Rightarrow> 'v mem_cache \<Rightarrow> 'v mem_cache" where
  "evict_row ck s =
     (case map_of (mc_rows s) ck of
        None \<Rightarrow> s
      | Some r \<Rightarrow> (rows_delete ck s)\<lparr> mc_tagIndex := fold (unlink ck) (w_tags r) (mc_tagIndex s) \<rparr>)"

definition link :: "jstr \<Rightarrow> jstr \<Rightarrow> (jstr, jstr list) jmap \<Rightarrow> (jstr, jstr list) jmap" where
  "link ck tag idx =
     (case map_of idx tag of
        None \<Rightarrow> AList.update tag [ck] idx
      | Some ks \<Rightarrow> AList.update tag (if ck \<in> set ks then ks else ks @ [ck]) idx)"

definition get_entry :: "int \<Rightarrow> jstr \<Rightarrow> 'v mem_cache \<Rightarrow> 'v stored_entry option \<times> 'v mem_cache" where
  "get_entry now ck s =
     (case map_of (mc_rows s) ck of
        None \<Rightarrow> (None, s)
      | Some r \<Rightarrow>
          if now \<ge> w_expiresAt r then (None, evict_row ck s)
          else
            (let s1 = rows_delete ck s in
             (Some \<lparr> e_value = w_value r, e_expiresAt = w_expiresAt r, e_staleAt = w_staleAt r \<rparr>,
              s1\<lparr> mc_rows := AList.update ck r (mc_rows s1) \<rparr>)))"

text \<open>\<open>record\<close>: the change list, the epoch and the newest change forgotten.\<close>

definition note_change :: "jstr \<Rightarrow> (jstr, nat) jmap \<Rightarrow> nat \<Rightarrow> nat \<Rightarrow> (jstr, nat) jmap \<times> nat" where
  "note_change name changes epoch forgotten =
     (let ch = AList.update name (epoch + 1) (AList.delete name changes) in
      if int (length ch) \<le> MAX_TRACKED_CHANGES then (ch, forgotten)
      else
        (case ch of
           [] \<Rightarrow> (ch, forgotten)
         | (oldest, since) # rest \<Rightarrow> (AList.delete oldest ch, max forgotten since)))"

definition record_key :: "jstr \<Rightarrow> 'v mem_cache \<Rightarrow> 'v mem_cache" where
  "record_key ck s =
     (case note_change ck (mc_keyChanges s) (mc_epoch s) (mc_forgottenAt s) of
        (ch, fg) \<Rightarrow> s\<lparr> mc_keyChanges := ch, mc_epoch := mc_epoch s + 1, mc_forgottenAt := fg \<rparr>)"

definition record_tag :: "jstr \<Rightarrow> 'v mem_cache \<Rightarrow> 'v mem_cache" where
  "record_tag tag s =
     (case note_change tag (mc_tagChanges s) (mc_epoch s) (mc_forgottenAt s) of
        (ch, fg) \<Rightarrow> s\<lparr> mc_tagChanges := ch, mc_epoch := mc_epoch s + 1, mc_forgottenAt := fg \<rparr>)"

text \<open>The loop of \<open>sweepExpired\<close>: \<open>left\<close> rows are still to be scanned.\<close>

function sweep_expired :: "int \<Rightarrow> nat \<Rightarrow> bool \<Rightarrow> 'v mem_cache \<Rightarrow> 'v mem_cache" where
  "sweep_expired now left restarted s =
     (if left = 0 then s
      else
        (case (case mc_sweep s of None \<Rightarrow> None | Some p \<Rightarrow> if p < length (mc_rows s) then Some p else None) of
           None \<Rightarrow>
             if restarted then s\<lparr> mc_sweep := None \<rparr>
             else sweep_expired now left True (s\<lparr> mc_sweep := Some 0 \<rparr>)
         | Some p \<Rightarrow>
             (case mc_rows s ! p of
                (ck, r) \<Rightarrow>
                  (let s1 = s\<lparr> mc_sweep := Some (p + 1) \<rparr> in
                   sweep_expired now (left - 1) False
                     (if map_of (mc_rows s1) ck = Some r \<and> now \<ge> w_expiresAt r then evict_row ck s1 else s1)))))"
  by pat_completeness auto
termination
  by (relation "measure (\<lambda>(now, left, restarted, s). 2 * left + (if restarted then 0 else 1))")
    (auto split: if_splits)

declare sweep_expired.simps [simp del]

definition set_entry :: "int \<Rightarrow> jstr \<Rightarrow> 'v stored_entry \<Rightarrow> jstr list \<Rightarrow> 'v mem_cache \<Rightarrow> 'v mem_cache" where
  "set_entry now ck e tags s =
     (let s1 = evict_row ck (sweep_expired now 8 False (record_key ck s));
          r = \<lparr> w_value = e_value e, w_expiresAt = e_expiresAt e, w_staleAt = e_staleAt e, w_tags = tags \<rparr>;
          s2 = s1\<lparr> mc_rows := AList.update ck r (mc_rows s1), mc_tagIndex := fold (link ck) tags (mc_tagIndex s1) \<rparr> in
      if mc_maxEntries s2 > 0 \<and> length (mc_rows s2) > mc_maxEntries s2
      then (case mc_rows s2 of [] \<Rightarrow> s2 | (oldest, _) # _ \<Rightarrow> evict_row oldest s2)
      else s2)"

definition delete_entry :: "jstr \<Rightarrow> 'v mem_cache \<Rightarrow> 'v mem_cache" where
  "delete_entry ck s = evict_row ck (record_key ck s)"

definition invalidate_tag :: "jstr \<Rightarrow> 'v mem_cache \<Rightarrow> 'v mem_cache" where
  "invalidate_tag tag s =
     (let s1 = record_tag tag s in
      case map_of (mc_tagIndex s1) tag of None \<Rightarrow> s1 | Some ks \<Rightarrow> fold evict_row ks s1)"

definition clear_cache :: "'v mem_cache \<Rightarrow> 'v mem_cache" where
  "clear_cache s =
     s\<lparr> mc_epoch := mc_epoch s + 1, mc_clearedAt := mc_epoch s + 1, mc_keyChanges := [], mc_tagChanges := [],
        mc_rows := [], mc_tagIndex := [], mc_sweep := Some 0 \<rparr>"

definition fence :: "'v mem_cache \<Rightarrow> nat" where
  "fence s = mc_epoch s"

text \<open>A token that is no safe integer is \<open>None\<close>.\<close>

definition changed_after :: "(jstr, nat) jmap \<Rightarrow> int \<Rightarrow> jstr \<Rightarrow> bool" where
  "changed_after ch token name = (int (case map_of ch name of None \<Rightarrow> 0 | Some since \<Rightarrow> since) > token)"

definition fence_broken :: "jstr \<Rightarrow> jstr list \<Rightarrow> int option \<Rightarrow> 'v mem_cache \<Rightarrow> bool" where
  "fence_broken ck tags token s =
     (case token of
        None \<Rightarrow> True
      | Some t \<Rightarrow>
          t > int (mc_epoch s) \<or> t < int (mc_clearedAt s) \<or> t < int (mc_forgottenAt s)
          \<or> changed_after (mc_keyChanges s) t ck \<or> list_ex (changed_after (mc_tagChanges s) t) tags)"

definition set_if_fence ::
    "int \<Rightarrow> jstr \<Rightarrow> 'v stored_entry \<Rightarrow> jstr list \<Rightarrow> int option \<Rightarrow> 'v mem_cache \<Rightarrow> bool \<times> 'v mem_cache" where
  "set_if_fence now ck e tags token s =
     (if fence_broken ck tags token s then (False, s) else (True, set_entry now ck e tags s))"

definition cache_size :: "'v mem_cache \<Rightarrow> nat" where
  "cache_size s = length (mc_rows s)"

section \<open>The interface\<close>

record ('v, 't, 's) cache_ops =
  co_get :: "int \<Rightarrow> jstr \<Rightarrow> 's \<Rightarrow> 'v stored_entry option \<times> 's"
  co_set :: "int \<Rightarrow> jstr \<Rightarrow> 'v stored_entry \<Rightarrow> jstr list \<Rightarrow> 's \<Rightarrow> 's"
  co_delete :: "jstr \<Rightarrow> 's \<Rightarrow> 's"
  co_invalidate :: "jstr \<Rightarrow> 's \<Rightarrow> 's"
  co_clear :: "'s \<Rightarrow> 's"
  co_fence :: "'s \<Rightarrow> 't"
  co_set_if_fence :: "int \<Rightarrow> jstr \<Rightarrow> 'v stored_entry \<Rightarrow> jstr list \<Rightarrow> 't \<Rightarrow> 's \<Rightarrow> bool \<times> 's"

definition memory_cache_ops :: "('v, int option, 'v mem_cache) cache_ops" where
  "memory_cache_ops =
     \<lparr> co_get = get_entry, co_set = set_entry, co_delete = delete_entry, co_invalidate = invalidate_tag,
       co_clear = clear_cache, co_fence = (\<lambda>s. Some (int (fence s))), co_set_if_fence = set_if_fence \<rparr>"

datatype ('v, 't) cache_op =
    CacheGet int jstr
  | CacheSet int jstr "'v stored_entry" "jstr list"
  | CacheDelete jstr
  | CacheInvalidate jstr
  | CacheClear
  | CacheSetIf int jstr "'v stored_entry" "jstr list" 't

fun cache_step :: "('v, 't, 's) cache_ops \<Rightarrow> ('v, 't) cache_op \<Rightarrow> 's \<Rightarrow> 's" where
  "cache_step C (CacheGet now k) s = snd (co_get C now k s)"
| "cache_step C (CacheSet now k e tags) s = co_set C now k e tags s"
| "cache_step C (CacheDelete k) s = co_delete C k s"
| "cache_step C (CacheInvalidate t) s = co_invalidate C t s"
| "cache_step C CacheClear s = co_clear C s"
| "cache_step C (CacheSetIf now k e tags tok) s = snd (co_set_if_fence C now k e tags tok s)"

text \<open>
  The reference: a cache that keeps everything for ever, as a map from keys to the entry and tags last
  written. A conditional write counts when the store says it wrote.
\<close>

type_synonym 'v ideal = "jstr \<Rightarrow> ('v stored_entry \<times> jstr list) option"

definition without_tag :: "jstr \<Rightarrow> 'v ideal \<Rightarrow> 'v ideal" where
  "without_tag t m k = (case m k of None \<Rightarrow> None | Some (e, tags) \<Rightarrow> if t \<in> set tags then None else Some (e, tags))"

fun ideal_step :: "('v, 't, 's) cache_ops \<Rightarrow> ('v, 't) cache_op \<Rightarrow> 's \<Rightarrow> 'v ideal \<Rightarrow> 'v ideal" where
  "ideal_step C (CacheGet now k) s m = m"
| "ideal_step C (CacheSet now k e tags) s m = m(k \<mapsto> (e, tags))"
| "ideal_step C (CacheDelete k) s m = m(k := None)"
| "ideal_step C (CacheInvalidate t) s m = without_tag t m"
| "ideal_step C CacheClear s m = Map.empty"
| "ideal_step C (CacheSetIf now k e tags tok) s m = (if fst (co_set_if_fence C now k e tags tok s) then m(k \<mapsto> (e, tags)) else m)"

fun ideal_run :: "('v, 't, 's) cache_ops \<Rightarrow> ('v, 't) cache_op list \<Rightarrow> 's \<Rightarrow> 'v ideal \<Rightarrow> 'v ideal" where
  "ideal_run C [] s m = m"
| "ideal_run C (c # cs) s m = ideal_run C cs (cache_step C c s) (ideal_step C c s m)"

text \<open>What overtakes a load of a key with tags.\<close>

fun overtakes :: "('v, 't, 's) cache_ops \<Rightarrow> jstr \<Rightarrow> jstr list \<Rightarrow> ('v, 't) cache_op \<Rightarrow> 's \<Rightarrow> bool" where
  "overtakes C ck tags (CacheGet now k) s \<longleftrightarrow> False"
| "overtakes C ck tags (CacheSet now k e ts) s \<longleftrightarrow> k = ck"
| "overtakes C ck tags (CacheDelete k) s \<longleftrightarrow> k = ck"
| "overtakes C ck tags (CacheInvalidate t) s \<longleftrightarrow> t \<in> set tags"
| "overtakes C ck tags CacheClear s \<longleftrightarrow> True"
| "overtakes C ck tags (CacheSetIf now k e ts tok) s \<longleftrightarrow> k = ck \<and> fst (co_set_if_fence C now k e ts tok s)"

fun overtaken :: "('v, 't, 's) cache_ops \<Rightarrow> jstr \<Rightarrow> jstr list \<Rightarrow> ('v, 't) cache_op list \<Rightarrow> 's \<Rightarrow> bool" where
  "overtaken C ck tags [] s \<longleftrightarrow> False"
| "overtaken C ck tags (c # cs) s \<longleftrightarrow> overtakes C ck tags c s \<or> overtaken C ck tags cs (cache_step C c s)"

locale cache_store =
  fixes C :: "('v, 't, 's) cache_ops" and ok :: "'s \<Rightarrow> bool" and view :: "'s \<Rightarrow> 'v ideal"
    and broken :: "jstr \<Rightarrow> jstr list \<Rightarrow> 't \<Rightarrow> 's \<Rightarrow> bool" and issued :: "'t \<Rightarrow> 's \<Rightarrow> bool"
  assumes get_law: "ok s \<Longrightarrow> ok (snd (co_get C now k s)) \<and> view (snd (co_get C now k s)) \<subseteq>\<^sub>m view s"
    and get_hit: "ok s \<Longrightarrow> fst (co_get C now k s) = Some e \<Longrightarrow> \<exists>tags. view s k = Some (e, tags) \<and> now < e_expiresAt e"
    and set_law: "ok s \<Longrightarrow> ok (co_set C now k e tags s) \<and> view (co_set C now k e tags s) \<subseteq>\<^sub>m (view s)(k \<mapsto> (e, tags))"
    and delete_law: "ok s \<Longrightarrow> ok (co_delete C k s) \<and> view (co_delete C k s) \<subseteq>\<^sub>m (view s)(k := None)"
    and invalidate_law: "ok s \<Longrightarrow> ok (co_invalidate C t s) \<and> view (co_invalidate C t s) \<subseteq>\<^sub>m without_tag t (view s)"
    and clear_law: "ok s \<Longrightarrow> ok (co_clear C s) \<and> view (co_clear C s) = Map.empty"
    and set_if_law: "co_set_if_fence C now k e tags tok s
      = (if broken k tags tok s then (False, s) else (True, co_set C now k e tags s))"
    and fence_issued: "ok s \<Longrightarrow> issued (co_fence C s) s"
    and issued_step: "ok s \<Longrightarrow> issued tok s \<Longrightarrow> issued tok (cache_step C c s)"
    and broken_step: "ok s \<Longrightarrow> issued tok s \<Longrightarrow> overtakes C ck tags c s \<or> broken ck tags tok s \<Longrightarrow>
      broken ck tags tok (cache_step C c s)"
begin

lemma set_if_cases:
  "fst (co_set_if_fence C now k e tags tok s) = (\<not> broken k tags tok s)"
  "snd (co_set_if_fence C now k e tags tok s) = (if broken k tags tok s then s else co_set C now k e tags s)"
  by (simp_all add: set_if_law)

lemma step_ok: "ok s \<Longrightarrow> ok (cache_step C c s)"
  by (cases c) (simp_all add: get_law set_law delete_law invalidate_law clear_law set_if_cases)

lemma run_ok: "ok s \<Longrightarrow> ok (fold (cache_step C) cs s)"
  by (induction cs arbitrary: s) (simp_all add: step_ok)

lemma upd_le: "v \<subseteq>\<^sub>m m \<Longrightarrow> v(k \<mapsto> x) \<subseteq>\<^sub>m m(k \<mapsto> x)" "v \<subseteq>\<^sub>m m \<Longrightarrow> v(k := None) \<subseteq>\<^sub>m m(k := None)"
  by (auto simp: map_le_def)

lemma tag_le: "v \<subseteq>\<^sub>m m \<Longrightarrow> without_tag t v \<subseteq>\<^sub>m without_tag t m"
  by (auto simp: map_le_def without_tag_def dom_def split: option.splits)

lemma step_view: "ok s \<Longrightarrow> view s \<subseteq>\<^sub>m m \<Longrightarrow> view (cache_step C c s) \<subseteq>\<^sub>m ideal_step C c s m"
proof (cases c)
  case (CacheGet now k)
  then show "ok s \<Longrightarrow> view s \<subseteq>\<^sub>m m \<Longrightarrow> ?thesis" using get_law map_le_trans by fastforce
next
  case (CacheSet now k e tags)
  then show "ok s \<Longrightarrow> view s \<subseteq>\<^sub>m m \<Longrightarrow> ?thesis" using set_law upd_le(1) map_le_trans by fastforce
next
  case (CacheDelete k)
  then show "ok s \<Longrightarrow> view s \<subseteq>\<^sub>m m \<Longrightarrow> ?thesis" using delete_law upd_le(2) map_le_trans by fastforce
next
  case (CacheInvalidate t)
  then show "ok s \<Longrightarrow> view s \<subseteq>\<^sub>m m \<Longrightarrow> ?thesis" using invalidate_law tag_le map_le_trans by fastforce
next
  case CacheClear
  then show "ok s \<Longrightarrow> view s \<subseteq>\<^sub>m m \<Longrightarrow> ?thesis" using clear_law by simp
next
  case (CacheSetIf now k e tags tok)
  then show "ok s \<Longrightarrow> view s \<subseteq>\<^sub>m m \<Longrightarrow> ?thesis"
    using set_law [of s now k e tags] upd_le(1) [of "view s" m k "(e, tags)"]
    by (auto simp: set_if_cases intro: map_le_trans)
qed

lemma run_view: "ok s \<Longrightarrow> view s \<subseteq>\<^sub>m m \<Longrightarrow> view (fold (cache_step C) cs s) \<subseteq>\<^sub>m ideal_run C cs s m"
  by (induction cs arbitrary: s m) (simp_all add: step_ok step_view)

lemma run_issued: "ok s \<Longrightarrow> issued tok s \<Longrightarrow> issued tok (fold (cache_step C) cs s)"
  by (induction cs arbitrary: s) (simp_all add: step_ok issued_step)

lemma run_broken:
  "ok s \<Longrightarrow> issued tok s \<Longrightarrow> overtaken C ck tags cs s \<or> broken ck tags tok s \<Longrightarrow>
   broken ck tags tok (fold (cache_step C) cs s)"
proof (induction cs arbitrary: s)
  case (Cons c cs)
  then show ?case using step_ok issued_step broken_step by fastforce
qed simp

end

section \<open>Rows and the tag index\<close>

definition tagged :: "(jstr, jstr list) jmap \<Rightarrow> jstr \<Rightarrow> jstr set" where
  "tagged idx t = (case map_of idx t of None \<Rightarrow> {} | Some ks \<Rightarrow> set ks)"

definition index_wf :: "(jstr, jstr list) jmap \<Rightarrow> bool" where
  "index_wf idx \<longleftrightarrow> jm_wf idx \<and> (\<forall>t ks. map_of idx t = Some ks \<longrightarrow> ks \<noteq> [] \<and> distinct ks)"

lemma index_wfD: "index_wf idx \<Longrightarrow> jm_wf idx" "index_wf idx \<Longrightarrow> map_of idx t = Some ks \<Longrightarrow> ks \<noteq> [] \<and> distinct ks"
  by (simp_all add: index_wf_def)

lemma index_wfI:
  "jm_wf idx \<Longrightarrow> (\<And>t ks. map_of idx t = Some ks \<Longrightarrow> ks \<noteq> [] \<and> distinct ks) \<Longrightarrow> index_wf idx"
  unfolding index_wf_def by blast

lemma index_wf_delete:
  assumes "index_wf idx"
  shows "index_wf (AList.delete t idx)"
proof (rule index_wfI)
  show "ks \<noteq> [] \<and> distinct ks" if "map_of (AList.delete t idx) u = Some ks" for u ks
    using that index_wfD(2) [OF assms, of u ks] by (simp add: jm_get_delete split: if_splits)
qed (use index_wfD(1) [OF assms] in simp)

lemma index_wf_update:
  assumes "index_wf idx" and "ks \<noteq> []" and "distinct ks"
  shows "index_wf (AList.update t ks idx)"
proof (rule index_wfI)
  show "xs \<noteq> [] \<and> distinct xs" if "map_of (AList.update t ks idx) u = Some xs" for u xs
    using that assms(2,3) index_wfD(2) [OF assms(1), of u xs] by (auto simp: jm_get_set split: if_splits)
qed (use index_wfD(1) [OF assms(1)] in simp)

lemma tagged_delete: "tagged (AList.delete t idx) u = (if u = t then {} else tagged idx u)"
  by (simp add: tagged_def jm_get_delete)

lemma tagged_update: "tagged (AList.update t ks idx) u = (if u = t then set ks else tagged idx u)"
  by (simp add: tagged_def jm_get_set)

lemma unlink_spec:
  assumes "index_wf idx"
  shows "index_wf (unlink k t idx)" and "tagged (unlink k t idx) u = (if u = t then tagged idx t - {k} else tagged idx u)"
proof -
  have d: "distinct (removeAll k ks)" if "map_of idx t = Some ks" for ks
    using index_wfD(2) [OF assms that] by (simp add: distinct_removeAll)
  show "index_wf (unlink k t idx)"
    using assms d index_wf_delete index_wf_update by (simp add: unlink_def Let_def split: option.split)
  show "tagged (unlink k t idx) u = (if u = t then tagged idx t - {k} else tagged idx u)"
  proof (cases "map_of idx t")
    case (Some ks)
    then have t: "tagged idx t = set ks" by (simp add: tagged_def)
    have "set (removeAll k ks) = set ks - {k}" by simp
    moreover have "removeAll k ks = [] \<longleftrightarrow> set ks - {k} = {}" by (metis set_empty set_removeAll)
    ultimately show ?thesis
      using Some t by (simp add: unlink_def Let_def tagged_delete tagged_update del: set_removeAll)
  qed (simp add: unlink_def tagged_def)
qed

lemma unlinks_spec:
  "index_wf idx \<Longrightarrow> index_wf (fold (unlink k) ts idx)
   \<and> tagged (fold (unlink k) ts idx) u = (if u \<in> set ts then tagged idx u - {k} else tagged idx u)"
  by (induction ts arbitrary: idx) (auto simp: unlink_spec)

lemma link_spec:
  assumes "index_wf idx"
  shows "index_wf (link k t idx)" and "tagged (link k t idx) u = (if u = t then insert k (tagged idx t) else tagged idx u)"
proof -
  show "index_wf (link k t idx)"
  proof (cases "map_of idx t")
    case (Some ks)
    have "index_wf (AList.update t (if k \<in> set ks then ks else ks @ [k]) idx)"
      by (rule index_wf_update [OF assms]) (use index_wfD(2) [OF assms Some] in simp_all)
    with Some show ?thesis by (simp add: link_def)
  qed (simp add: link_def index_wf_update [OF assms])
  show "tagged (link k t idx) u = (if u = t then insert k (tagged idx t) else tagged idx u)"
  proof (cases "map_of idx t")
    case (Some ks)
    then have "tagged idx t = set ks" by (simp add: tagged_def)
    with Some show ?thesis by (auto simp: link_def tagged_update)
  next
    case None
    then have "tagged idx t = {}" by (simp add: tagged_def)
    with None show ?thesis by (simp add: link_def tagged_update)
  qed
qed

lemma links_spec:
  "index_wf idx \<Longrightarrow> index_wf (fold (link k) ts idx)
   \<and> tagged (fold (link k) ts idx) u = (if u \<in> set ts then insert k (tagged idx u) else tagged idx u)"
  by (induction ts arbitrary: idx) (auto simp: link_spec)

definition table_ok :: "'v mem_cache \<Rightarrow> bool" where
  "table_ok s \<longleftrightarrow>
     jm_wf (mc_rows s) \<and> index_wf (mc_tagIndex s)
     \<and> (\<forall>t k. k \<in> tagged (mc_tagIndex s) t \<longleftrightarrow> (\<exists>r. map_of (mc_rows s) k = Some r \<and> t \<in> set (w_tags r)))
     \<and> (\<forall>p. mc_sweep s = Some p \<longrightarrow> p \<le> length (mc_rows s))"

lemma table_okD:
  assumes "table_ok s"
  shows "jm_wf (mc_rows s)" and "index_wf (mc_tagIndex s)"
    and "k \<in> tagged (mc_tagIndex s) t \<longleftrightarrow> (\<exists>r. map_of (mc_rows s) k = Some r \<and> t \<in> set (w_tags r))"
    and "mc_sweep s = Some p \<Longrightarrow> p \<le> length (mc_rows s)"
  using assms unfolding table_ok_def by blast+

lemma rows_delete_simps [simp]:
  "mc_rows (rows_delete k s) = AList.delete k (mc_rows s)" "mc_tagIndex (rows_delete k s) = mc_tagIndex s"
  "mc_maxEntries (rows_delete k s) = mc_maxEntries s" "mc_keyChanges (rows_delete k s) = mc_keyChanges s"
  "mc_tagChanges (rows_delete k s) = mc_tagChanges s" "mc_clearedAt (rows_delete k s) = mc_clearedAt s"
  "mc_forgottenAt (rows_delete k s) = mc_forgottenAt s" "mc_epoch (rows_delete k s) = mc_epoch s"
  by (simp_all add: rows_delete_def)

lemma rows_delete_sweep:
  assumes "jm_wf (mc_rows s)" and "\<And>p. mc_sweep s = Some p \<Longrightarrow> p \<le> length (mc_rows s)" and "mc_sweep (rows_delete k s) = Some p"
  shows "p \<le> length (AList.delete k (mc_rows s))"
proof -
  from assms(3) obtain q where q: "mc_sweep s = Some q"
    and p: "p = (if k \<in> set (map fst (take q (mc_rows s))) then q - 1 else q)"
    by (auto simp: rows_delete_def split: option.splits)
  note le = assms(2) [OF q]
  show ?thesis
  proof (cases "map_of (mc_rows s) k")
    case None
    then have "AList.delete k (mc_rows s) = mc_rows s" by (simp add: dom_map_of_conv_image_fst map_of_eq_None_iff)
    with p le show ?thesis by (simp split: if_splits)
  next
    case (Some r)
    then have len: "length (mc_rows s) = Suc (length (AList.delete k (mc_rows s)))"
      by (rule jm_length_delete [OF assms(1)])
    show ?thesis
    proof (cases "k \<in> set (map fst (take q (mc_rows s)))")
      case False
      have "q \<noteq> length (mc_rows s)"
        using False map_of_SomeD [OF Some] by force
      with False p le len show ?thesis by simp
    qed (use p le len in simp)
  qed
qed

lemma evict_simps [simp]:
  "mc_maxEntries (evict_row k s) = mc_maxEntries s" "mc_keyChanges (evict_row k s) = mc_keyChanges s"
  "mc_tagChanges (evict_row k s) = mc_tagChanges s" "mc_clearedAt (evict_row k s) = mc_clearedAt s"
  "mc_forgottenAt (evict_row k s) = mc_forgottenAt s" "mc_epoch (evict_row k s) = mc_epoch s"
  "mc_rows (evict_row k s) = AList.delete k (mc_rows s)"
proof -
  have "AList.delete k (mc_rows s) = mc_rows s" if "map_of (mc_rows s) k = None"
    using that by (simp add: map_of_eq_None_iff)
  then show "mc_rows (evict_row k s) = AList.delete k (mc_rows s)"
    by (simp add: evict_row_def split: option.split)
qed (simp_all add: evict_row_def split: option.split)

lemma evict_ok:
  assumes "table_ok s"
  shows "table_ok (evict_row k s)"
proof (cases "map_of (mc_rows s) k")
  case (Some r)
  note d = table_okD [OF assms]
  let ?idx = "fold (unlink k) (w_tags r) (mc_tagIndex s)"
  have t: "i \<in> tagged ?idx u \<longleftrightarrow> (\<exists>x. map_of (AList.delete k (mc_rows s)) i = Some x \<and> u \<in> set (w_tags x))" for i u
    using conjunct2 [OF unlinks_spec [OF d(2), of k "w_tags r" u]] d(3) [of i u] Some
    by (auto simp: jm_get_delete)
  have "mc_sweep ((rows_delete k s)\<lparr> mc_tagIndex := ?idx \<rparr>) = mc_sweep (rows_delete k s)" by simp
  with rows_delete_sweep [OF d(1) d(4), of k] unlinks_spec [OF d(2)] d(1) t Some show ?thesis
    by (simp add: table_ok_def evict_row_def)
qed (use assms in \<open>simp add: evict_row_def\<close>)

text \<open>A sweep removes expired rows only, and keeps the others in their order.\<close>

definition keep_rows :: "int \<Rightarrow> jstr set \<Rightarrow> (jstr, 'v cache_row) jmap \<Rightarrow> bool" where
  "keep_rows now D rs \<longleftrightarrow> (\<forall>k \<in> D. \<exists>r. map_of rs k = Some r \<and> w_expiresAt r \<le> now)"

definition same_log :: "'v mem_cache \<Rightarrow> 'v mem_cache \<Rightarrow> bool" where
  "same_log s s' \<longleftrightarrow>
     mc_maxEntries s' = mc_maxEntries s \<and> mc_keyChanges s' = mc_keyChanges s \<and> mc_tagChanges s' = mc_tagChanges s
     \<and> mc_clearedAt s' = mc_clearedAt s \<and> mc_forgottenAt s' = mc_forgottenAt s \<and> mc_epoch s' = mc_epoch s"

lemma same_log_trans: "same_log a b \<Longrightarrow> same_log b c \<Longrightarrow> same_log a c"
  by (simp add: same_log_def)

lemma same_log_evict: "same_log s (evict_row k s)"
  by (simp add: same_log_def)

lemma delete_filter: "AList.delete k xs = filter (\<lambda>x. fst x \<noteq> k) xs"
  by (induction xs) auto

lemma sweep_spec:
  "table_ok s \<Longrightarrow> table_ok (sweep_expired now left rst s) \<and> same_log s (sweep_expired now left rst s)
   \<and> (\<exists>D. keep_rows now D (mc_rows s) \<and> mc_rows (sweep_expired now left rst s) = filter (\<lambda>x. fst x \<notin> D) (mc_rows s))"
proof (induction now left rst s rule: sweep_expired.induct)
  case (1 now left rst s)
  show ?case
  proof (cases "left = 0")
    case True
    moreover have "sweep_expired now left rst s = s" by (subst sweep_expired.simps) (simp add: True)
    ultimately show ?thesis using 1(3) by (auto simp: same_log_def keep_rows_def intro: exI [of _ "{}"])
  next
    case left: False
    let ?pos = "case mc_sweep s of None \<Rightarrow> None | Some p \<Rightarrow> if p < length (mc_rows s) then Some p else None"
    show ?thesis
    proof (cases ?pos)
      case None
      show ?thesis
      proof (cases rst)
        case True
        then have "sweep_expired now left rst s = s\<lparr> mc_sweep := None \<rparr>"
          by (subst sweep_expired.simps) (simp add: left None)
        with 1(3) show ?thesis
          by (auto simp: same_log_def keep_rows_def table_ok_def intro: exI [of _ "{}"])
      next
        case False
        then have e: "sweep_expired now left rst s = sweep_expired now left True (s\<lparr> mc_sweep := Some 0 \<rparr>)"
          by (subst sweep_expired.simps) (simp add: left None)
        have "table_ok (s\<lparr> mc_sweep := Some 0 \<rparr>)" using 1(3) by (simp add: table_ok_def)
        from 1(1) [OF left None False this] show ?thesis unfolding e by (simp add: same_log_def)
      qed
    next
      case (Some p)
      obtain k r where kr: "mc_rows s ! p = (k, r)" by (cases "mc_rows s ! p")
      from Some have p: "p < length (mc_rows s)" by (auto split: option.splits if_splits)
      let ?s1 = "s\<lparr> mc_sweep := Some (p + 1) \<rparr>"
      let ?s2 = "if map_of (mc_rows ?s1) k = Some r \<and> now \<ge> w_expiresAt r then evict_row k ?s1 else ?s1"
      have e: "sweep_expired now left rst s = sweep_expired now (left - 1) False ?s2"
        by (subst sweep_expired.simps) (simp add: left Some kr Let_def)
      have ok1: "table_ok ?s1" using 1(3) p by (auto simp: table_ok_def)
      then have ok2: "table_ok ?s2" by (simp add: evict_ok)
      have log: "same_log s ?s2" by (simp add: same_log_def)
      define E where "E = (if map_of (mc_rows ?s1) k = Some r \<and> now \<ge> w_expiresAt r then {k} else {})"
      have r2: "mc_rows ?s2 = filter (\<lambda>x. fst x \<notin> E) (mc_rows s)" by (simp add: E_def delete_filter)
      have kE: "keep_rows now E (mc_rows s)" by (auto simp: E_def keep_rows_def)
      have m2: "map_of (mc_rows ?s2) i = Some x \<Longrightarrow> map_of (mc_rows s) i = Some x" for i x
        by (auto simp: jm_get_delete split: if_splits)
      from 1(2) [OF left Some kr [symmetric] refl ok2] obtain D where
        D: "table_ok (sweep_expired now left rst s)" "same_log ?s2 (sweep_expired now left rst s)"
          "keep_rows now D (mc_rows ?s2)" "mc_rows (sweep_expired now left rst s) = filter (\<lambda>x. fst x \<notin> D) (mc_rows ?s2)"
        unfolding e by blast
      have "keep_rows now (D \<union> E) (mc_rows s)" using D(3) kE m2 unfolding keep_rows_def by blast
      moreover have "mc_rows (sweep_expired now left rst s) = filter (\<lambda>x. fst x \<notin> D \<union> E) (mc_rows s)"
        unfolding D(4) r2 filter_filter by (rule filter_cong) auto
      ultimately show ?thesis using D(1) same_log_trans [OF log D(2)] by blast
    qed
  qed
qed

section \<open>Writing a row\<close>

definition new_row :: "'v stored_entry \<Rightarrow> jstr list \<Rightarrow> 'v cache_row" where
  "new_row e tags = \<lparr> w_value = e_value e, w_expiresAt = e_expiresAt e, w_staleAt = e_staleAt e, w_tags = tags \<rparr>"

lemma record_key_simps [simp]:
  "mc_rows (record_key k s) = mc_rows s" "mc_tagIndex (record_key k s) = mc_tagIndex s"
  "mc_maxEntries (record_key k s) = mc_maxEntries s" "mc_sweep (record_key k s) = mc_sweep s"
  "mc_epoch (record_key k s) = mc_epoch s + 1" "mc_clearedAt (record_key k s) = mc_clearedAt s"
  "mc_tagChanges (record_key k s) = mc_tagChanges s"
  by (simp_all add: record_key_def split: prod.split)

lemma record_tag_simps [simp]:
  "mc_rows (record_tag t s) = mc_rows s" "mc_tagIndex (record_tag t s) = mc_tagIndex s"
  "mc_maxEntries (record_tag t s) = mc_maxEntries s" "mc_sweep (record_tag t s) = mc_sweep s"
  "mc_epoch (record_tag t s) = mc_epoch s + 1" "mc_clearedAt (record_tag t s) = mc_clearedAt s"
  "mc_keyChanges (record_tag t s) = mc_keyChanges s"
  by (simp_all add: record_tag_def split: prod.split)

lemma table_ok_record: "table_ok (record_key k s) = table_ok s" "table_ok (record_tag t s) = table_ok s"
  by (simp_all add: table_ok_def)

lemma add_row_ok:
  assumes "table_ok s" and "map_of (mc_rows s) k = None"
  shows "table_ok (s\<lparr> mc_rows := mc_rows s @ [(k, new_row e tags)], mc_tagIndex := fold (link k) tags (mc_tagIndex s) \<rparr>)"
proof -
  note d = table_okD [OF assms(1)]
  let ?rows = "mc_rows s @ [(k, new_row e tags)]" and ?idx = "fold (link k) tags (mc_tagIndex s)"
  have k: "k \<notin> fst ` set (mc_rows s)" using assms(2) by (simp add: map_of_eq_None_iff)
  have m: "map_of ?rows i = (if i = k then Some (new_row e tags) else map_of (mc_rows s) i)" for i
    using assms(2) by (simp add: map_add_def split: option.split)
  have none: "k \<notin> tagged (mc_tagIndex s) u" for u using d(3) [of k u] assms(2) by simp
  have t: "i \<in> tagged ?idx u \<longleftrightarrow> (\<exists>x. map_of ?rows i = Some x \<and> u \<in> set (w_tags x))" for i u
    using conjunct2 [OF links_spec [OF d(2), of k tags u]] d(3) [of i u] none [of u] unfolding m
    by (auto simp: new_row_def)
  have w: "jm_wf ?rows" using d(1) k by simp
  have sw: "p \<le> length ?rows" if "mc_sweep s = Some p" for p using d(4) [OF that] by simp
  show ?thesis
    unfolding table_ok_def using w t sw links_spec [OF d(2), of k tags] by (simp del: map_of_append)
qed

lemma evict_head:
  "mc_rows s = (k, r) # rs \<Longrightarrow> jm_wf (mc_rows s) \<Longrightarrow> mc_rows (evict_row k s) = rs"
  by (simp add: map_of_eq_None_iff)

lemma set_entry_spec:
  assumes "table_ok s"
  shows "table_ok (set_entry now k e tags s) \<and> same_log (record_key k s) (set_entry now k e tags s)
    \<and> (\<exists>D. keep_rows now D (mc_rows s)
        \<and> mc_rows (set_entry now k e tags s)
            = (let rs = filter (\<lambda>x. fst x \<notin> D \<and> fst x \<noteq> k) (mc_rows s) @ [(k, new_row e tags)] in
               if mc_maxEntries s > 0 \<and> length rs > mc_maxEntries s then tl rs else rs))"
proof -
  let ?s0 = "record_key k s"
  let ?s1 = "sweep_expired now 8 False ?s0"
  let ?s2 = "evict_row k ?s1"
  have ok0: "table_ok ?s0" using assms by (simp add: table_ok_record)
  from sweep_spec [OF ok0, of now 8 False] obtain D where
    s1: "table_ok ?s1" "same_log ?s0 ?s1" "keep_rows now D (mc_rows s)" "mc_rows ?s1 = filter (\<lambda>x. fst x \<notin> D) (mc_rows s)"
    by auto
  have ok2: "table_ok ?s2" by (rule evict_ok [OF s1(1)])
  have log2: "same_log ?s0 ?s2" by (rule same_log_trans [OF s1(2) same_log_evict])
  have rows2: "mc_rows ?s2 = filter (\<lambda>x. fst x \<notin> D \<and> fst x \<noteq> k) (mc_rows s)"
    by (auto simp: s1(4) delete_filter conj_commute intro: filter_cong)
  have no: "map_of (mc_rows ?s2) k = None" unfolding rows2 by (auto simp: map_of_eq_None_iff)
  then have upd: "AList.update k x (mc_rows ?s2) = mc_rows ?s2 @ [(k, x)]" for x
    unfolding map_of_eq_None_iff by (rule AList_update_new)
  let ?s3 = "?s2\<lparr> mc_rows := mc_rows ?s2 @ [(k, new_row e tags)], mc_tagIndex := fold (link k) tags (mc_tagIndex ?s2) \<rparr>"
  have ok3: "table_ok ?s3" by (rule add_row_ok [OF ok2 no])
  have log3: "same_log ?s0 ?s3" using log2 by (simp add: same_log_def)
  let ?rs = "filter (\<lambda>x. fst x \<notin> D \<and> fst x \<noteq> k) (mc_rows s) @ [(k, new_row e tags)]"
  have rows3: "mc_rows ?s3 = ?rs" using rows2 by simp
  have max: "mc_maxEntries ?s3 = mc_maxEntries s" using log3 by (simp add: same_log_def)
  have e: "set_entry now k e tags s
      = (if mc_maxEntries ?s3 > 0 \<and> length (mc_rows ?s3) > mc_maxEntries ?s3
         then (case mc_rows ?s3 of [] \<Rightarrow> ?s3 | (oldest, _) # _ \<Rightarrow> evict_row oldest ?s3) else ?s3)"
    unfolding set_entry_def Let_def upd new_row_def [symmetric] by (rule refl)
  show ?thesis
  proof (cases "mc_maxEntries s > 0 \<and> length ?rs > mc_maxEntries s")
    case False
    then have eq: "set_entry now k e tags s = ?s3" unfolding e max rows3 by (rule if_not_P)
    have rows: "mc_rows ?s3 = (let rs = ?rs in if mc_maxEntries s > 0 \<and> length rs > mc_maxEntries s then tl rs else rs)"
      unfolding Let_def rows3 using False by presburger
    show ?thesis unfolding eq by (intro conjI exI [of _ D]) (fact ok3 log3 s1(3) rows)+
  next
    case True
    obtain old r rs where rs: "?rs = (old, r) # rs" by (cases ?rs) auto
    have "set_entry now k e tags s = (case ?rs of [] \<Rightarrow> ?s3 | (oldest, _) # _ \<Rightarrow> evict_row oldest ?s3)"
      unfolding e max rows3 by (rule if_P [OF True])
    then have eq: "set_entry now k e tags s = evict_row old ?s3" unfolding rs by simp
    have tab: "table_ok (evict_row old ?s3)" by (rule evict_ok [OF ok3])
    have log: "same_log ?s0 (evict_row old ?s3)" by (rule same_log_trans [OF log3 same_log_evict])
    have "mc_rows (evict_row old ?s3) = rs"
      by (rule evict_head [OF _ table_okD(1) [OF ok3]]) (use rows3 rs in simp)
    also have "rs = (let rs = ?rs in if mc_maxEntries s > 0 \<and> length rs > mc_maxEntries s then tl rs else rs)"
      unfolding Let_def rs list.sel using True unfolding rs by presburger
    finally have rows: "mc_rows (evict_row old ?s3)
        = (let rs = ?rs in if mc_maxEntries s > 0 \<and> length rs > mc_maxEntries s then tl rs else rs)" .
    show ?thesis unfolding eq by (intro conjI exI [of _ D]) (fact tab log s1(3) rows)+
  qed
qed

section \<open>The change log\<close>

definition changes_ok :: "(jstr, nat) jmap \<Rightarrow> nat \<Rightarrow> bool" where
  "changes_ok ch ep \<longleftrightarrow>
     jm_wf ch \<and> sorted_wrt (<) (map snd ch) \<and> (\<forall>x \<in> set ch. 0 < snd x \<and> snd x \<le> ep)
     \<and> int (length ch) \<le> MAX_TRACKED_CHANGES"

lemma sorted_gap: "sorted_wrt (<) (a # xs) \<Longrightarrow> (\<forall>x \<in> set xs. x \<le> b) \<Longrightarrow> a \<le> b \<Longrightarrow> a + length xs \<le> (b :: nat)"
proof (induction xs arbitrary: a)
  case (Cons x xs)
  then have "x + length xs \<le> b" "a < x" by auto
  then show ?case by simp
qed simp

lemma note_change_spec:
  assumes ok: "changes_ok ch ep" and n: "note_change k ch ep fg = (ch', fg')"
  shows "changes_ok ch' (ep + 1)" and "fg \<le> fg'" and "fg' \<le> max fg (ep + 1)"
    and "fg' = fg \<or> int fg' + MAX_TRACKED_CHANGES \<le> int (ep + 1)"
    and "t \<le> int ep \<Longrightarrow> changed_after ch' t k \<or> t < int fg'"
    and "changed_after ch t m \<Longrightarrow> changed_after ch' t m \<or> t < int fg'"
    and "0 \<le> t \<Longrightarrow> changed_after ch' t m \<Longrightarrow> m = k \<or> changed_after ch t m"
proof -
  let ?b = "AList.delete k ch"
  let ?c = "?b @ [(k, ep + 1)]"
  have wf: "jm_wf ch" "sorted_wrt (<) (map snd ch)" "\<forall>x \<in> set ch. 0 < snd x \<and> snd x \<le> ep"
    using ok by (simp_all add: changes_ok_def)
  have no: "k \<notin> fst ` set ?b" by (auto simp: delete_filter)
  have c: "AList.update k (ep + 1) ?b = ?c" by (rule AList_update_new [OF no])
  have cwf: "jm_wf ?c" using wf(1) no by (simp add: delete_filter distinct_map_filter)
  have bs: "sorted_wrt (<) (map snd ?b)"
    using wf(2) by (simp add: delete_filter sorted_wrt_map sorted_wrt_filter)
  have bound: "\<forall>x \<in> set ?c. 0 < snd x \<and> snd x \<le> ep + 1" using wf(3) by (auto simp: delete_filter)
  have cs: "sorted_wrt (<) (map snd ?c)" using bs wf(3) by (auto simp: sorted_wrt_append delete_filter)
  have lenb: "length ?b \<le> length ch" by (simp add: delete_filter)
  have mc: "map_of ?c i = (if i = k then Some (ep + 1) else map_of ch i)" for i
    using no by (simp add: map_add_def map_of_eq_None_iff [symmetric] jm_get_delete split: option.split)
  have ch0: "changed_after ?c t m \<longleftrightarrow> (if m = k then int (ep + 1) > t else changed_after ch t m)" for t m
    unfolding changed_after_def mc by simp
  consider (keep) "int (length ?c) \<le> MAX_TRACKED_CHANGES" "ch' = ?c" "fg' = fg"
    | (drop) old z rest where "\<not> int (length ?c) \<le> MAX_TRACKED_CHANGES" "?c = (old, z) # rest" "ch' = AList.delete old ?c" "fg' = max fg z"
    using n unfolding note_change_def Let_def c by (cases ?c) (auto split: if_splits)
  then have "changes_ok ch' (ep + 1) \<and> fg \<le> fg' \<and> fg' \<le> max fg (ep + 1)
    \<and> (fg' = fg \<or> int fg' + MAX_TRACKED_CHANGES \<le> int (ep + 1))
    \<and> (\<forall>t m. changed_after ?c t m \<longrightarrow> changed_after ch' t m \<or> t < int fg')
    \<and> (\<forall>t m. 0 \<le> t \<longrightarrow> changed_after ch' t m \<longrightarrow> changed_after ?c t m)"
  proof cases
    case keep
    with cwf cs bound show ?thesis by (simp add: changes_ok_def)
  next
    case (drop old z rest)
    have wfr: "old \<notin> fst ` set rest" "jm_wf rest" using cwf unfolding drop(2) by simp_all
    then have ch': "ch' = rest" using drop(2,3) by (simp add: map_of_eq_None_iff)
    have z: "0 < z" "z \<le> ep + 1" using bound unfolding drop(2) by simp_all
    have len: "int (length rest) \<le> MAX_TRACKED_CHANGES"
    proof -
      have "length ?c = length ?b + 1" by simp
      then have "length rest = length ?b" unfolding drop(2) by simp
      with lenb ok show ?thesis by (simp add: changes_ok_def)
    qed
    have gap: "z + length rest \<le> ep + 1"
    proof -
      have "sorted_wrt (<) (z # map snd rest)" using cs unfolding drop(2) by simp
      moreover have "\<forall>x \<in> set (map snd rest). x \<le> ep + 1" using bound unfolding drop(2) by simp
      ultimately have "z + length (map snd rest) \<le> ep + 1" using z(2) by (rule sorted_gap)
      then show ?thesis by simp
    qed
    have big: "MAX_TRACKED_CHANGES \<le> int (length rest)"
      using drop(1) unfolding drop(2) by simp
    have r: "changes_ok rest (ep + 1)"
      using wfr(2) cs bound len unfolding drop(2) by (simp add: changes_ok_def)
    have m: "map_of ?c i = (if i = old then Some z else map_of rest i)" for i unfolding drop(2) by simp
    have old: "map_of rest old = None" using wfr(1) by (simp add: map_of_eq_None_iff)
    have "changed_after rest t i \<or> t < int (max fg z)" if "changed_after ?c t i" for t i
      using that unfolding changed_after_def m by (auto split: if_splits)
    moreover have "changed_after ?c t i" if "0 \<le> t" "changed_after rest t i" for t i
      using that old unfolding changed_after_def m by (auto split: if_splits)
    moreover have "fg \<le> max fg z" "max fg z \<le> max fg (ep + 1)"
        "max fg z = fg \<or> int (max fg z) + MAX_TRACKED_CHANGES \<le> int (ep + 1)"
      using z gap big by (auto simp: max_def)
    ultimately show ?thesis using r unfolding ch' drop(4) by blast
  qed
  note all = this
  show "changes_ok ch' (ep + 1)" "fg \<le> fg'" "fg' \<le> max fg (ep + 1)" "fg' = fg \<or> int fg' + MAX_TRACKED_CHANGES \<le> int (ep + 1)"
    using all by blast+
  show "changed_after ch' t k \<or> t < int fg'" if "t \<le> int ep"
    using all ch0 [of t k] that by fastforce
  show "changed_after ch' t m \<or> t < int fg'" if "changed_after ch t m"
  proof -
    have "t < int (ep + 1)"
      using that wf(3) by (auto simp: changed_after_def split: option.splits dest!: map_of_SomeD)
    with that ch0 [of t m] have "changed_after ?c t m" by simp
    with all show ?thesis by blast
  qed
  show "m = k \<or> changed_after ch t m" if "0 \<le> t" "changed_after ch' t m"
    using all that ch0 [of t m] by (auto split: if_splits)
qed

section \<open>The memory cache keeps the interface\<close>

definition log_ok :: "'v mem_cache \<Rightarrow> bool" where
  "log_ok s \<longleftrightarrow>
     changes_ok (mc_keyChanges s) (mc_epoch s) \<and> changes_ok (mc_tagChanges s) (mc_epoch s)
     \<and> mc_clearedAt s \<le> mc_epoch s \<and> mc_forgottenAt s \<le> mc_epoch s"

definition cache_inv :: "'v mem_cache \<Rightarrow> bool" where
  "cache_inv s \<longleftrightarrow> table_ok s \<and> log_ok s \<and> (0 < mc_maxEntries s \<longrightarrow> length (mc_rows s) \<le> mc_maxEntries s)"

definition cache_view :: "'v mem_cache \<Rightarrow> 'v ideal" where
  "cache_view s k =
     map_option (\<lambda>r. (\<lparr> e_value = w_value r, e_expiresAt = w_expiresAt r, e_staleAt = w_staleAt r \<rparr>, w_tags r)) (map_of (mc_rows s) k)"

lemma cache_invD:
  "cache_inv s \<Longrightarrow> table_ok s" "cache_inv s \<Longrightarrow> log_ok s" "cache_inv s \<Longrightarrow> jm_wf (mc_rows s)"
  "cache_inv s \<Longrightarrow> 0 < mc_maxEntries s \<Longrightarrow> length (mc_rows s) \<le> mc_maxEntries s"
  by (simp_all add: cache_inv_def table_ok_def)

lemma cache_invI:
  "table_ok s \<Longrightarrow> log_ok s \<Longrightarrow> (0 < mc_maxEntries s \<Longrightarrow> length (mc_rows s) \<le> mc_maxEntries s) \<Longrightarrow> cache_inv s"
  by (simp add: cache_inv_def)

lemma changes_ok_mono: "changes_ok ch ep \<Longrightarrow> ep \<le> ep' \<Longrightarrow> changes_ok ch ep'"
  unfolding changes_ok_def by (meson le_trans)

lemma log_ok_record_key: "log_ok s \<Longrightarrow> log_ok (record_key k s)"
proof -
  assume l: "log_ok s"
  obtain ch fg where n: "note_change k (mc_keyChanges s) (mc_epoch s) (mc_forgottenAt s) = (ch, fg)" by (cases "note_change k (mc_keyChanges s) (mc_epoch s) (mc_forgottenAt s)")
  have "changes_ok (mc_keyChanges s) (mc_epoch s)" using l by (simp add: log_ok_def)
  from note_change_spec(1,3) [OF this n] l changes_ok_mono [of "mc_tagChanges s" "mc_epoch s" "mc_epoch s + 1"]
  show ?thesis by (simp add: record_key_def n log_ok_def max_def split: if_splits)
qed

lemma log_ok_record_tag: "log_ok s \<Longrightarrow> log_ok (record_tag t s)"
proof -
  assume l: "log_ok s"
  obtain ch fg where n: "note_change t (mc_tagChanges s) (mc_epoch s) (mc_forgottenAt s) = (ch, fg)" by (cases "note_change t (mc_tagChanges s) (mc_epoch s) (mc_forgottenAt s)")
  have "changes_ok (mc_tagChanges s) (mc_epoch s)" using l by (simp add: log_ok_def)
  from note_change_spec(1,3) [OF this n] l changes_ok_mono [of "mc_keyChanges s" "mc_epoch s" "mc_epoch s + 1"]
  show ?thesis by (simp add: record_tag_def n log_ok_def max_def split: if_splits)
qed

lemma log_ok_same: "same_log s s' \<Longrightarrow> log_ok s \<Longrightarrow> log_ok s'"
  by (simp add: log_ok_def same_log_def)

lemma fence_broken_same: "same_log s s' \<Longrightarrow> fence_broken k tags tok s' = fence_broken k tags tok s"
  by (simp add: fence_broken_def same_log_def split: option.split)

text \<open>A change that matters breaks a fence, a broken one stays broken, and other changes leave it whole.\<close>

lemma broken_record_key:
  assumes "log_ok s" and "t \<le> int (mc_epoch s)"
  shows "k' = k \<or> fence_broken k tags (Some t) s \<Longrightarrow> fence_broken k tags (Some t) (record_key k' s)"
    and "0 \<le> t \<Longrightarrow> k' \<noteq> k \<Longrightarrow> \<not> fence_broken k tags (Some t) s \<Longrightarrow> int (mc_epoch s) + 1 \<le> t + MAX_TRACKED_CHANGES \<Longrightarrow>
      \<not> fence_broken k tags (Some t) (record_key k' s)"
proof -
  obtain ch fg where n: "note_change k' (mc_keyChanges s) (mc_epoch s) (mc_forgottenAt s) = (ch, fg)" by (cases "note_change k' (mc_keyChanges s) (mc_epoch s) (mc_forgottenAt s)")
  have "changes_ok (mc_keyChanges s) (mc_epoch s)" using assms(1) by (simp add: log_ok_def)
  note f = note_change_spec [OF this n]
  have b: "fence_broken k tags (Some t) (record_key k' s) \<longleftrightarrow>
      t < int (mc_clearedAt s) \<or> t < int fg \<or> changed_after ch t k \<or> list_ex (changed_after (mc_tagChanges s) t) tags"
    using assms(2) by (auto simp: fence_broken_def record_key_def n)
  have a: "fence_broken k tags (Some t) s \<longleftrightarrow>
      t < int (mc_clearedAt s) \<or> t < int (mc_forgottenAt s) \<or> changed_after (mc_keyChanges s) t k \<or> list_ex (changed_after (mc_tagChanges s) t) tags"
    using assms(2) by (auto simp: fence_broken_def)
  show "k' = k \<or> fence_broken k tags (Some t) s \<Longrightarrow> fence_broken k tags (Some t) (record_key k' s)"
    using f(5) [OF assms(2)] f(6) [of t k] f(2) unfolding a b by auto
  show "0 \<le> t \<Longrightarrow> k' \<noteq> k \<Longrightarrow> \<not> fence_broken k tags (Some t) s \<Longrightarrow> int (mc_epoch s) + 1 \<le> t + MAX_TRACKED_CHANGES \<Longrightarrow>
      \<not> fence_broken k tags (Some t) (record_key k' s)"
    using f(7) [of t k] f(4) unfolding a b by auto
qed

lemma broken_record_tag:
  assumes "log_ok s" and "t \<le> int (mc_epoch s)"
  shows "u \<in> set tags \<or> fence_broken k tags (Some t) s \<Longrightarrow> fence_broken k tags (Some t) (record_tag u s)"
    and "0 \<le> t \<Longrightarrow> u \<notin> set tags \<Longrightarrow> \<not> fence_broken k tags (Some t) s \<Longrightarrow> int (mc_epoch s) + 1 \<le> t + MAX_TRACKED_CHANGES \<Longrightarrow>
      \<not> fence_broken k tags (Some t) (record_tag u s)"
proof -
  obtain ch fg where n: "note_change u (mc_tagChanges s) (mc_epoch s) (mc_forgottenAt s) = (ch, fg)" by (cases "note_change u (mc_tagChanges s) (mc_epoch s) (mc_forgottenAt s)")
  have "changes_ok (mc_tagChanges s) (mc_epoch s)" using assms(1) by (simp add: log_ok_def)
  note f = note_change_spec [OF this n]
  have b: "fence_broken k tags (Some t) (record_tag u s) \<longleftrightarrow>
      t < int (mc_clearedAt s) \<or> t < int fg \<or> changed_after (mc_keyChanges s) t k \<or> list_ex (changed_after ch t) tags"
    using assms(2) by (auto simp: fence_broken_def record_tag_def n)
  have a: "fence_broken k tags (Some t) s \<longleftrightarrow>
      t < int (mc_clearedAt s) \<or> t < int (mc_forgottenAt s) \<or> changed_after (mc_keyChanges s) t k \<or> list_ex (changed_after (mc_tagChanges s) t) tags"
    using assms(2) by (auto simp: fence_broken_def)
  have "list_ex (changed_after ch t) tags \<or> t < int fg" if "list_ex (changed_after (mc_tagChanges s) t) tags"
    using that f(6) [of t] unfolding list_ex_iff by blast
  then show "u \<in> set tags \<or> fence_broken k tags (Some t) s \<Longrightarrow> fence_broken k tags (Some t) (record_tag u s)"
    using f(5) [OF assms(2)] f(2) unfolding a b list_ex_iff by auto
  show "0 \<le> t \<Longrightarrow> u \<notin> set tags \<Longrightarrow> \<not> fence_broken k tags (Some t) s \<Longrightarrow> int (mc_epoch s) + 1 \<le> t + MAX_TRACKED_CHANGES \<Longrightarrow>
      \<not> fence_broken k tags (Some t) (record_tag u s)"
    using f(7) [of t] f(4) unfolding a b list_ex_iff by auto
qed

definition entry_of_row :: "'v cache_row \<Rightarrow> 'v stored_entry" where
  "entry_of_row r = \<lparr> e_value = w_value r, e_expiresAt = w_expiresAt r, e_staleAt = w_staleAt r \<rparr>"

lemma entry_of_new_row [simp]: "entry_of_row (new_row e tags) = e" "w_tags (new_row e tags) = tags"
  by (simp_all add: entry_of_row_def new_row_def)

lemma cache_view_row: "cache_view s k = map_option (\<lambda>r. (entry_of_row r, w_tags r)) (map_of (mc_rows s) k)"
  by (simp add: cache_view_def entry_of_row_def)

lemma map_of_filter_key: "map_of (filter (\<lambda>x. fst x \<notin> D) rs) k = (if k \<in> D then None else map_of rs k)"
  by (induction rs) auto

lemma map_of_tl_le: "jm_wf rs \<Longrightarrow> map_of (tl rs) \<subseteq>\<^sub>m map_of rs"
proof (cases rs)
  case (Cons x ys)
  assume "jm_wf rs"
  then have "fst x \<notin> dom (map_of ys)" by (simp add: Cons dom_map_of_conv_image_fst)
  then show ?thesis by (auto simp: Cons map_le_def)
qed simp

lemma get_entry_spec:
  assumes "cache_inv s"
  shows "cache_inv (snd (get_entry now k s)) \<and> same_log s (snd (get_entry now k s))
    \<and> cache_view (snd (get_entry now k s)) \<subseteq>\<^sub>m cache_view s
    \<and> mc_rows (snd (get_entry now k s))
        = (case map_of (mc_rows s) k of
             None \<Rightarrow> mc_rows s
           | Some r \<Rightarrow> AList.delete k (mc_rows s) @ (if now < w_expiresAt r then [(k, r)] else []))
    \<and> fst (get_entry now k s)
        = (case cache_view s k of None \<Rightarrow> None | Some (e, _) \<Rightarrow> if now < e_expiresAt e then Some e else None)"
proof (cases "map_of (mc_rows s) k")
  case None
  with assms show ?thesis by (simp add: get_entry_def same_log_def cache_view_row)
next
  case (Some r)
  note d = table_okD [OF cache_invD(1) [OF assms]]
  have x: "e_expiresAt (entry_of_row r) = w_expiresAt r" by (simp add: entry_of_row_def)
  have len: "length (mc_rows s) = Suc (length (AList.delete k (mc_rows s)))" by (rule jm_length_delete [OF d(1) Some])
  show ?thesis
  proof (cases "now \<ge> w_expiresAt r")
    case True
    then have e: "get_entry now k s = (None, evict_row k s)" using Some by (simp add: get_entry_def)
    have "cache_inv (evict_row k s)"
      using evict_ok [OF cache_invD(1) [OF assms]] log_ok_same [OF same_log_evict cache_invD(2) [OF assms]]
        cache_invD(4) [OF assms] len by (auto intro!: cache_invI)
    moreover have "cache_view (evict_row k s) \<subseteq>\<^sub>m cache_view s"
      by (auto simp: map_le_def cache_view_row jm_get_delete split: if_splits)
    ultimately show ?thesis unfolding e using True Some x by (simp add: same_log_evict cache_view_row)
  next
    case False
    have no: "k \<notin> fst ` set (AList.delete k (mc_rows s))" by (auto simp: delete_filter)
    let ?s = "(rows_delete k s)\<lparr> mc_rows := AList.delete k (mc_rows s) @ [(k, r)] \<rparr>"
    have e: "get_entry now k s = (Some (entry_of_row r), ?s)"
      using Some False by (simp add: get_entry_def Let_def entry_of_row_def AList_update_new [OF no])
    have m: "map_of (AList.delete k (mc_rows s) @ [(k, r)]) = map_of (mc_rows s)"
    proof
      fix i show "map_of (AList.delete k (mc_rows s) @ [(k, r)]) i = map_of (mc_rows s) i"
        using Some by (simp add: map_add_def jm_get_delete split: option.split)
    qed
    have sw: "p \<le> length (AList.delete k (mc_rows s) @ [(k, r)])" if "mc_sweep (rows_delete k s) = Some p" for p
      using rows_delete_sweep [OF d(1) d(4) that] by simp
    have w: "jm_wf (AList.delete k (mc_rows s) @ [(k, r)])" using d(1) no by simp
    have "table_ok ?s"
      unfolding table_ok_def using w d(2,3) sw by (simp add: m del: map_of_append)
    moreover have "same_log s ?s" by (simp add: same_log_def)
    moreover have "cache_inv ?s"
      using calculation log_ok_same cache_invD(2,4) [OF assms] len by (intro cache_invI) auto
    moreover have "cache_view ?s = cache_view s" by (rule ext) (simp add: cache_view_row m del: map_of_append)
    ultimately show ?thesis unfolding e using False Some x by (simp add: cache_view_row)
  qed
qed

lemma set_entry_view:
  assumes "cache_inv s"
  shows "cache_inv (set_entry now k e tags s) \<and> cache_view (set_entry now k e tags s) \<subseteq>\<^sub>m (cache_view s)(k \<mapsto> (e, tags))"
proof -
  note f = set_entry_spec [OF cache_invD(1) [OF assms], of now k e tags]
  from f obtain D where D: "keep_rows now D (mc_rows s)"
    and rows: "mc_rows (set_entry now k e tags s) = (let rs = filter (\<lambda>x. fst x \<notin> D \<and> fst x \<noteq> k) (mc_rows s) @ [(k, new_row e tags)] in
               if mc_maxEntries s > 0 \<and> length rs > mc_maxEntries s then tl rs else rs)" by blast
  let ?rs = "filter (\<lambda>x. fst x \<notin> D \<and> fst x \<noteq> k) (mc_rows s) @ [(k, new_row e tags)]"
  have max: "mc_maxEntries (set_entry now k e tags s) = mc_maxEntries s" using f by (simp add: same_log_def)
  have "length (filter (\<lambda>x. fst x \<notin> D \<and> fst x \<noteq> k) (mc_rows s)) \<le> mc_maxEntries s" if "0 < mc_maxEntries s"
    by (rule le_trans [OF length_filter_le cache_invD(4) [OF assms that]])
  then have len: "length (mc_rows (set_entry now k e tags s)) \<le> mc_maxEntries s" if "0 < mc_maxEntries s"
    using that unfolding rows Let_def by auto
  have inv: "cache_inv (set_entry now k e tags s)"
    using f len log_ok_same log_ok_record_key [OF cache_invD(2) [OF assms]] unfolding max [symmetric] by (intro cache_invI) blast+
  have wf: "jm_wf ?rs" using cache_invD(3) [OF assms] by (auto simp: distinct_map_filter)
  have le: "map_of (mc_rows (set_entry now k e tags s)) \<subseteq>\<^sub>m map_of ?rs"
    unfolding rows Let_def using map_of_tl_le [OF wf] by simp
  have up: "map_of ?rs \<subseteq>\<^sub>m (map_of (mc_rows s))(k \<mapsto> new_row e tags)"
  proof -
    have "filter (\<lambda>x. fst x \<notin> D \<and> fst x \<noteq> k) (mc_rows s) = filter (\<lambda>x. fst x \<notin> insert k D) (mc_rows s)"
      by (rule filter_cong) auto
    then have "map_of ?rs i = (if i = k then Some (new_row e tags) else if i \<in> D then None else map_of (mc_rows s) i)" for i
      by (simp only: map_of_append map_add_def map_of_filter_key) (simp split: option.split)
    then show ?thesis by (simp add: map_le_def dom_def)
  qed
  have "cache_view (set_entry now k e tags s) i = ((cache_view s)(k \<mapsto> (e, tags))) i"
    if "i \<in> dom (cache_view (set_entry now k e tags s))" for i
  proof -
    from that obtain r where r: "map_of (mc_rows (set_entry now k e tags s)) i = Some r" by (auto simp: cache_view_row)
    with map_le_trans [OF le up] have "((map_of (mc_rows s))(k \<mapsto> new_row e tags)) i = Some r"
      by (metis domI map_le_def)
    with r show ?thesis by (auto simp: cache_view_row split: if_splits)
  qed
  with inv show ?thesis by (simp add: map_le_def)
qed

lemma evicts_spec:
  "table_ok s \<Longrightarrow> table_ok (fold evict_row ks s) \<and> same_log s (fold evict_row ks s)
   \<and> mc_rows (fold evict_row ks s) = filter (\<lambda>x. fst x \<notin> set ks) (mc_rows s)"
proof (induction ks arbitrary: s)
  case (Cons k ks)
  have "filter (\<lambda>x. fst x \<notin> set ks) (AList.delete k (mc_rows s)) = filter (\<lambda>x. fst x \<notin> set (k # ks)) (mc_rows s)"
    by (auto simp: delete_filter intro: filter_cong)
  with Cons.IH [OF evict_ok [OF Cons.prems]] same_log_trans [OF same_log_evict] show ?case by auto
qed (simp add: same_log_def)

lemma delete_entry_spec:
  assumes "cache_inv s"
  shows "cache_inv (delete_entry k s) \<and> cache_view (delete_entry k s) = (cache_view s)(k := None)
    \<and> same_log (record_key k s) (delete_entry k s) \<and> mc_rows (delete_entry k s) = AList.delete k (mc_rows s)"
proof -
  have log: "same_log (record_key k s) (delete_entry k s)" by (simp add: delete_entry_def same_log_evict)
  moreover have "table_ok (delete_entry k s)"
    using cache_invD(1) [OF assms] by (simp add: delete_entry_def evict_ok table_ok_record)
  moreover have rows: "mc_rows (delete_entry k s) = AList.delete k (mc_rows s)" by (simp add: delete_entry_def)
  moreover have "length (AList.delete k (mc_rows s)) \<le> length (mc_rows s)" by (simp add: delete_filter)
  moreover have "log_ok (delete_entry k s)" by (rule log_ok_same [OF log log_ok_record_key [OF cache_invD(2) [OF assms]]])
  moreover have "mc_maxEntries (delete_entry k s) = mc_maxEntries s" by (simp add: delete_entry_def)
  ultimately have "cache_inv (delete_entry k s)"
    using cache_invD(4) [OF assms] by (intro cache_invI) auto
  moreover have "cache_view (delete_entry k s) = (cache_view s)(k := None)"
    by (rule ext) (simp add: cache_view_row rows jm_get_delete)
  ultimately show ?thesis using log rows by blast
qed

lemma invalidate_tag_spec:
  assumes "cache_inv s"
  shows "cache_inv (invalidate_tag t s) \<and> cache_view (invalidate_tag t s) = without_tag t (cache_view s)
    \<and> same_log (record_tag t s) (invalidate_tag t s)
    \<and> mc_rows (invalidate_tag t s) = filter (\<lambda>x. fst x \<notin> tagged (mc_tagIndex s) t) (mc_rows s)"
proof -
  let ?s = "record_tag t s"
  let ?ks = "case map_of (mc_tagIndex s) t of None \<Rightarrow> [] | Some ks \<Rightarrow> ks"
  have e: "invalidate_tag t s = fold evict_row ?ks ?s" by (simp add: invalidate_tag_def Let_def split: option.split)
  have ks: "set ?ks = tagged (mc_tagIndex s) t" by (simp add: tagged_def split: option.split)
  have "table_ok ?s" using cache_invD(1) [OF assms] by (simp add: table_ok_record)
  from evicts_spec [OF this, of ?ks] have f: "table_ok (invalidate_tag t s)" "same_log ?s (invalidate_tag t s)"
      "mc_rows (invalidate_tag t s) = filter (\<lambda>x. fst x \<notin> tagged (mc_tagIndex s) t) (mc_rows s)"
    unfolding e ks [symmetric] by simp_all
  have max: "mc_maxEntries (invalidate_tag t s) = mc_maxEntries s" using f(2) by (simp add: same_log_def)
  have len: "length (mc_rows (invalidate_tag t s)) \<le> mc_maxEntries (invalidate_tag t s)" if "0 < mc_maxEntries (invalidate_tag t s)"
    unfolding f(3) max using cache_invD(4) [OF assms] that le_trans [OF length_filter_le] unfolding max by blast
  have "cache_inv (invalidate_tag t s)"
    by (rule cache_invI [OF f(1) log_ok_same [OF f(2) log_ok_record_tag [OF cache_invD(2) [OF assms]]] len])
  moreover have "cache_view (invalidate_tag t s) = without_tag t (cache_view s)"
  proof
    fix k
    show "cache_view (invalidate_tag t s) k = without_tag t (cache_view s) k"
      using table_okD(3) [OF cache_invD(1) [OF assms], of k t]
      by (auto simp: cache_view_row f(3) map_of_filter_key without_tag_def split: option.split)
  qed
  ultimately show ?thesis using f by blast
qed

lemma clear_spec: "cache_inv s \<Longrightarrow> cache_inv (clear_cache s) \<and> cache_view (clear_cache s) = Map.empty"
proof -
  assume inv: "cache_inv s"
  have "table_ok (clear_cache s)" by (simp add: table_ok_def clear_cache_def index_wf_def tagged_def)
  moreover have "log_ok (clear_cache s)"
    using cache_invD(2) [OF inv] by (simp add: log_ok_def clear_cache_def changes_ok_def MAX_TRACKED_CHANGES_def)
  ultimately have "cache_inv (clear_cache s)" by (rule cache_invI) (simp add: clear_cache_def)
  moreover have "cache_view (clear_cache s) = Map.empty" by (rule ext) (simp add: cache_view_row clear_cache_def)
  ultimately show ?thesis by blast
qed

definition memory_issued :: "int option \<Rightarrow> 'v mem_cache \<Rightarrow> bool" where
  "memory_issued tok s \<longleftrightarrow> (\<exists>t. tok = Some t \<and> 0 \<le> t \<and> t \<le> int (mc_epoch s))"

lemma memory_ops [simp]:
  "co_get memory_cache_ops = get_entry" "co_set memory_cache_ops = set_entry" "co_delete memory_cache_ops = delete_entry"
  "co_invalidate memory_cache_ops = invalidate_tag" "co_clear memory_cache_ops = clear_cache"
  "co_fence memory_cache_ops s = Some (int (fence s))" "co_set_if_fence memory_cache_ops = set_if_fence"
  by (simp_all add: memory_cache_ops_def)

lemma set_entry_log: "cache_inv s \<Longrightarrow> same_log (record_key k s) (set_entry now k e tags s)"
  using set_entry_spec cache_invD(1) by blast

text \<open>What an operation does to the log: nothing, one key or tag noted, or everything forgotten.\<close>

lemma step_log:
  assumes "cache_inv s"
  shows "same_log s (cache_step memory_cache_ops c s)
    \<or> (\<exists>k. same_log (record_key k s) (cache_step memory_cache_ops c s)
         \<and> (\<forall>ck tags. overtakes memory_cache_ops ck tags c s \<longleftrightarrow> k = ck))
    \<or> (\<exists>t. same_log (record_tag t s) (cache_step memory_cache_ops c s)
         \<and> (\<forall>ck tags. overtakes memory_cache_ops ck tags c s \<longleftrightarrow> t \<in> set tags))
    \<or> c = CacheClear"
proof (cases c)
  case (CacheSet now k e tags)
  with set_entry_log [OF assms] have "same_log (record_key k s) (cache_step memory_cache_ops c s)
      \<and> (\<forall>ck tags. overtakes memory_cache_ops ck tags c s \<longleftrightarrow> k = ck)" by simp
  then show ?thesis by blast
next
  case (CacheSetIf now k e tags tok)
  show ?thesis
  proof (cases "fence_broken k tags tok s")
    case False
    with set_entry_log [OF assms] CacheSetIf have "same_log (record_key k s) (cache_step memory_cache_ops c s)
        \<and> (\<forall>ck tags. overtakes memory_cache_ops ck tags c s \<longleftrightarrow> k = ck)" by (simp add: set_if_fence_def)
    then show ?thesis by blast
  qed (simp add: CacheSetIf set_if_fence_def same_log_def)
next
  case (CacheDelete k)
  with delete_entry_spec [OF assms, of k] have "same_log (record_key k s) (cache_step memory_cache_ops c s)
      \<and> (\<forall>ck tags. overtakes memory_cache_ops ck tags c s \<longleftrightarrow> k = ck)" by simp
  then show ?thesis by blast
next
  case (CacheInvalidate t)
  with invalidate_tag_spec [OF assms, of t] have "same_log (record_tag t s) (cache_step memory_cache_ops c s)
      \<and> (\<forall>ck tags. overtakes memory_cache_ops ck tags c s \<longleftrightarrow> t \<in> set tags)" by simp
  then show ?thesis by blast
qed (use get_entry_spec [OF assms] in simp_all)

lemma step_same_overtakes:
  "cache_inv s \<Longrightarrow> same_log s (cache_step memory_cache_ops c s) \<Longrightarrow> \<not> overtakes memory_cache_ops ck tags c s"
proof (cases c)
  case (CacheSet now k e ts)
  assume "cache_inv s" "same_log s (cache_step memory_cache_ops c s)"
  with set_entry_log [of s k now e ts] show ?thesis by (simp add: CacheSet same_log_def)
next
  case (CacheSetIf now k e ts tok)
  assume "cache_inv s" "same_log s (cache_step memory_cache_ops c s)"
  with set_entry_log [of s k now e ts] show ?thesis
    by (auto simp: CacheSetIf same_log_def set_if_fence_def split: if_splits)
next
  case (CacheDelete k)
  assume "cache_inv s" "same_log s (cache_step memory_cache_ops c s)"
  with delete_entry_spec [of s k] show ?thesis by (simp add: CacheDelete same_log_def)
next
  case (CacheInvalidate t)
  assume "cache_inv s" "same_log s (cache_step memory_cache_ops c s)"
  with invalidate_tag_spec [of s t] show ?thesis by (simp add: CacheInvalidate same_log_def)
qed (simp_all add: same_log_def clear_cache_def)

lemma step_epoch:
  assumes "cache_inv s"
  shows "mc_epoch s \<le> mc_epoch (cache_step memory_cache_ops c s) \<and> mc_epoch (cache_step memory_cache_ops c s) \<le> mc_epoch s + 1"
  using step_log [OF assms, of c] by (auto simp: same_log_def clear_cache_def)

lemma step_broken:
  assumes "cache_inv s" and "t \<le> int (mc_epoch s)"
    and "overtakes memory_cache_ops ck tags c s \<or> fence_broken ck tags (Some t) s"
  shows "fence_broken ck tags (Some t) (cache_step memory_cache_ops c s)"
proof -
  note log = cache_invD(2) [OF assms(1)]
  consider "same_log s (cache_step memory_cache_ops c s)"
    | k where "same_log (record_key k s) (cache_step memory_cache_ops c s)" "overtakes memory_cache_ops ck tags c s \<longleftrightarrow> k = ck"
    | u where "same_log (record_tag u s) (cache_step memory_cache_ops c s)" "overtakes memory_cache_ops ck tags c s \<longleftrightarrow> u \<in> set tags"
    | "c = CacheClear" using step_log [OF assms(1), of c] by blast
  then show ?thesis
  proof cases
    case 1
    with step_same_overtakes [OF assms(1) 1, of ck tags] assms(3) fence_broken_same [OF 1] show ?thesis by simp
  next
    case 2
    with broken_record_key(1) [OF log assms(2)] assms(3) show ?thesis by (auto simp: fence_broken_same)
  next
    case 3
    with broken_record_tag(1) [OF log assms(2)] assms(3) show ?thesis by (auto simp: fence_broken_same)
  next
    case 4
    with assms(2) show ?thesis by (simp add: fence_broken_def clear_cache_def)
  qed
qed

lemma step_unbroken:
  assumes "cache_inv s" and "0 \<le> t" and "t \<le> int (mc_epoch s)"
    and "\<not> overtakes memory_cache_ops ck tags c s" and "\<not> fence_broken ck tags (Some t) s"
    and "int (mc_epoch (cache_step memory_cache_ops c s)) \<le> t + MAX_TRACKED_CHANGES"
  shows "\<not> fence_broken ck tags (Some t) (cache_step memory_cache_ops c s)"
proof -
  note log = cache_invD(2) [OF assms(1)]
  consider "same_log s (cache_step memory_cache_ops c s)"
    | k where "same_log (record_key k s) (cache_step memory_cache_ops c s)" "overtakes memory_cache_ops ck tags c s \<longleftrightarrow> k = ck"
    | u where "same_log (record_tag u s) (cache_step memory_cache_ops c s)" "overtakes memory_cache_ops ck tags c s \<longleftrightarrow> u \<in> set tags"
    | "c = CacheClear" using step_log [OF assms(1), of c] by blast
  then show ?thesis
  proof cases
    case 1
    with assms(5) fence_broken_same [OF 1] show ?thesis by simp
  next
    case 2
    have "int (mc_epoch s) + 1 \<le> t + MAX_TRACKED_CHANGES" using 2(1) assms(6) by (simp add: same_log_def)
    with broken_record_key(2) [OF log assms(3,2)] assms(4,5) 2 show ?thesis by (simp add: fence_broken_same)
  next
    case 3
    have "int (mc_epoch s) + 1 \<le> t + MAX_TRACKED_CHANGES" using 3(1) assms(6) by (simp add: same_log_def)
    with broken_record_tag(2) [OF log assms(3,2)] assms(4,5) 3 show ?thesis by (simp add: fence_broken_same)
  qed (use assms(4) in simp)
qed

interpretation memory_cache: cache_store memory_cache_ops cache_inv cache_view fence_broken memory_issued
proof
  fix s :: "'a mem_cache" assume inv: "cache_inv s"
  show "cache_inv (snd (co_get memory_cache_ops now k s)) \<and> cache_view (snd (co_get memory_cache_ops now k s)) \<subseteq>\<^sub>m cache_view s"
    for now k using get_entry_spec [OF inv] by simp
  show "\<exists>tags. cache_view s k = Some (e, tags) \<and> now < e_expiresAt e" if "fst (co_get memory_cache_ops now k s) = Some e" for now k e
    using that get_entry_spec [OF inv, of now k] by (auto split: option.splits if_splits)
  show "cache_inv (co_set memory_cache_ops now k e tags s)
      \<and> cache_view (co_set memory_cache_ops now k e tags s) \<subseteq>\<^sub>m (cache_view s)(k \<mapsto> (e, tags))" for now k e tags
    using set_entry_view [OF inv] by simp
  show "cache_inv (co_delete memory_cache_ops k s) \<and> cache_view (co_delete memory_cache_ops k s) \<subseteq>\<^sub>m (cache_view s)(k := None)" for k
    using delete_entry_spec [OF inv] by simp
  show "cache_inv (co_invalidate memory_cache_ops t s) \<and> cache_view (co_invalidate memory_cache_ops t s) \<subseteq>\<^sub>m without_tag t (cache_view s)" for t
    using invalidate_tag_spec [OF inv] by simp
  show "cache_inv (co_clear memory_cache_ops s) \<and> cache_view (co_clear memory_cache_ops s) = Map.empty"
    using clear_spec [OF inv] by simp
  show "memory_issued (co_fence memory_cache_ops s) s" by (simp add: memory_issued_def fence_def)
  show "memory_issued tok (cache_step memory_cache_ops c s)" if "memory_issued tok s" for tok c
    using that step_epoch [OF inv, of c] by (auto simp: memory_issued_def)
  show "fence_broken ck tags tok (cache_step memory_cache_ops c s)"
    if "memory_issued tok s" "overtakes memory_cache_ops ck tags c s \<or> fence_broken ck tags tok s" for tok ck tags c
    using that step_broken [OF inv] by (auto simp: memory_issued_def)
qed (simp add: set_if_fence_def)

lemma new_cache_inv: "new_cache m = Some s \<Longrightarrow> cache_inv s"
  by (auto simp: new_cache_def Let_def cache_inv_def table_ok_def index_wf_def tagged_def log_ok_def changes_ok_def
      MAX_TRACKED_CHANGES_def split: if_splits)

section \<open>The order of use\<close>

definition in_use :: "jstr \<Rightarrow> 'v cache_row \<Rightarrow> jstr set \<Rightarrow> 'v mem_cache \<Rightarrow> bool" where
  "in_use k r U s \<longleftrightarrow> (\<exists>xs ys. mc_rows s = xs @ (k, r) # ys \<and> fst ` set ys \<subseteq> U)"

fun used_key :: "('v, 't) cache_op \<Rightarrow> jstr set" where
  "used_key (CacheGet now k) = {k}"
| "used_key (CacheSet now k e tags) = {k}"
| "used_key (CacheSetIf now k e tags tok) = {k}"
| "used_key _ = {}"

fun spares :: "jstr \<Rightarrow> jstr list \<Rightarrow> int \<Rightarrow> ('v, 't) cache_op \<Rightarrow> bool" where
  "spares ck tags until (CacheGet now k) \<longleftrightarrow> now < until"
| "spares ck tags until (CacheSet now k e ts) \<longleftrightarrow> k \<noteq> ck \<and> now < until"
| "spares ck tags until (CacheDelete k) \<longleftrightarrow> k \<noteq> ck"
| "spares ck tags until (CacheInvalidate t) \<longleftrightarrow> t \<notin> set tags"
| "spares ck tags until CacheClear \<longleftrightarrow> False"
| "spares ck tags until (CacheSetIf now k e ts tok) \<longleftrightarrow> k \<noteq> ck \<and> now < until"

lemma in_use_row: "cache_inv s \<Longrightarrow> in_use k r U s \<Longrightarrow> map_of (mc_rows s) k = Some r"
  using cache_invD(3) [of s] by (auto simp: in_use_def map_of_eq_Some_iff)

lemma in_use_filter:
  assumes "mc_rows s = xs @ (k, r) # ys" and "fst ` set ys \<subseteq> U" and "P (k, r)"
    and "mc_rows s' = filter P (mc_rows s) @ zs" and "fst ` set zs \<subseteq> U"
  shows "in_use k r U s'"
  unfolding in_use_def
  by (rule exI [of _ "filter P xs"], rule exI [of _ "filter P ys @ zs"]) (use assms in auto)

lemma set_in_use:
  assumes inv: "cache_inv s" and u: "in_use ck r U s" and k: "k \<noteq> ck" "k \<in> U" and now: "now < w_expiresAt r"
    and U: "finite U" "mc_maxEntries s = 0 \<or> card U < mc_maxEntries s"
  shows "in_use ck r U (set_entry now k e tags s)"
proof -
  from u obtain xs ys where rows: "mc_rows s = xs @ (ck, r) # ys" and ys: "fst ` set ys \<subseteq> U" by (auto simp: in_use_def)
  from set_entry_spec [OF cache_invD(1) [OF inv], of now k e tags] obtain D where D: "keep_rows now D (mc_rows s)"
    and r': "mc_rows (set_entry now k e tags s) = (let rs = filter (\<lambda>x. fst x \<notin> D \<and> fst x \<noteq> k) (mc_rows s) @ [(k, new_row e tags)] in
               if mc_maxEntries s > 0 \<and> length rs > mc_maxEntries s then tl rs else rs)" by blast
  let ?P = "\<lambda>x :: jstr \<times> 'a cache_row. fst x \<notin> D \<and> fst x \<noteq> k"
  have "ck \<notin> D"
  proof
    assume "ck \<in> D"
    with D in_use_row [OF inv u] have "w_expiresAt r \<le> now" by (auto simp: keep_rows_def)
    with now show False by simp
  qed
  with k have P: "?P (ck, r)" by simp
  let ?zs = "filter ?P ys @ [(k, new_row e tags)]"
  have rs: "filter ?P (mc_rows s) @ [(k, new_row e tags)] = filter ?P xs @ (ck, r) # ?zs"
    using P by (simp add: rows)
  have zs: "fst ` set ?zs \<subseteq> U" using ys k(2) by auto
  have "distinct (map fst ys)" using cache_invD(3) [OF inv] by (simp add: rows)
  then have "distinct (map fst ?zs)" by (auto simp: distinct_map_filter)
  then have "length ?zs = card (fst ` set ?zs)" using distinct_card [of "map fst ?zs"] by simp
  also have "\<dots> \<le> card U" by (rule card_mono [OF U(1) zs])
  finally have len: "length ?zs \<le> card U" .
  show ?thesis
  proof (cases "mc_maxEntries s > 0 \<and> length (filter ?P xs @ (ck, r) # ?zs) > mc_maxEntries s")
    case False
    then have "mc_rows (set_entry now k e tags s) = filter ?P xs @ (ck, r) # ?zs"
      unfolding r' Let_def rs by (rule if_not_P)
    with zs show ?thesis unfolding in_use_def by blast
  next
    case True
    then have e: "mc_rows (set_entry now k e tags s) = tl (filter ?P xs @ (ck, r) # ?zs)"
      unfolding r' Let_def rs by (rule if_P)
    have "filter ?P xs \<noteq> []"
    proof
      assume "filter ?P xs = []"
      with True len U(2) show False by auto
    qed
    then obtain x us where "filter ?P xs = x # us" by (cases "filter ?P xs") auto
    with e have "mc_rows (set_entry now k e tags s) = us @ (ck, r) # ?zs" by simp
    with zs show ?thesis unfolding in_use_def by blast
  qed
qed

lemma set_max: "cache_inv s \<Longrightarrow> mc_maxEntries (cache_step memory_cache_ops c s) = mc_maxEntries s"
  using step_log [of s c] by (auto simp: same_log_def clear_cache_def)

lemma step_in_use:
  assumes inv: "cache_inv s" and u: "in_use ck r U s" and c: "spares ck (w_tags r) (w_expiresAt r) c" "used_key c \<subseteq> insert ck U"
    and U: "finite U" "mc_maxEntries s = 0 \<or> card U < mc_maxEntries s"
  shows "in_use ck r U (cache_step memory_cache_ops c s)"
proof -
  from u obtain xs ys where rows: "mc_rows s = xs @ (ck, r) # ys" and ys: "fst ` set ys \<subseteq> U" by (auto simp: in_use_def)
  note row = in_use_row [OF inv u]
  show ?thesis
  proof (cases c)
    case (CacheGet now k)
    note g = get_entry_spec [OF inv, of now k]
    show ?thesis
    proof (cases "k = ck")
      case True
      with g row c CacheGet have "mc_rows (cache_step memory_cache_ops c s) = AList.delete ck (mc_rows s) @ [(ck, r)]" by simp
      then show ?thesis unfolding in_use_def by (intro exI [of _ "AList.delete ck (mc_rows s)"] exI [of _ "[]"]) simp
    next
      case False
      show ?thesis
      proof (cases "map_of (mc_rows s) k")
        case None
        with g u CacheGet show ?thesis by (simp add: in_use_def)
      next
        case (Some r2)
        with g CacheGet have "mc_rows (cache_step memory_cache_ops c s)
            = filter (\<lambda>x. fst x \<noteq> k) (mc_rows s) @ (if now < w_expiresAt r2 then [(k, r2)] else [])"
          by (simp add: delete_filter)
        then show ?thesis by (rule in_use_filter [OF rows ys, rotated]) (use False c CacheGet in auto)
      qed
    qed
  next
    case (CacheSet now k e tags)
    with set_in_use [OF inv u _ _ _ U, of k now e tags] c show ?thesis by auto
  next
    case (CacheDelete k)
    with delete_entry_spec [OF inv, of k] have "mc_rows (cache_step memory_cache_ops c s) = filter (\<lambda>x. fst x \<noteq> k) (mc_rows s) @ []"
      by (simp add: delete_filter)
    then show ?thesis by (rule in_use_filter [OF rows ys, rotated]) (use c CacheDelete in auto)
  next
    case (CacheInvalidate t)
    with invalidate_tag_spec [OF inv, of t]
    have r': "mc_rows (cache_step memory_cache_ops c s) = filter (\<lambda>x. fst x \<notin> tagged (mc_tagIndex s) t) (mc_rows s) @ []" by simp
    have "ck \<notin> tagged (mc_tagIndex s) t"
      using table_okD(3) [OF cache_invD(1) [OF inv], of ck t] row c CacheInvalidate by simp
    with r' show ?thesis by (intro in_use_filter [OF rows ys _ r']) auto
  next
    case CacheClear
    with c show ?thesis by simp
  next
    case (CacheSetIf now k e tags tok)
    with set_in_use [OF inv u _ _ _ U, of k now e tags] c u show ?thesis by (auto simp: set_if_fence_def)
  qed
qed

lemma run_in_use:
  "cache_inv s \<Longrightarrow> in_use ck r U s \<Longrightarrow> (\<forall>c \<in> set cs. spares ck (w_tags r) (w_expiresAt r) c \<and> used_key c \<subseteq> insert ck U) \<Longrightarrow>
   finite U \<Longrightarrow> mc_maxEntries s = 0 \<or> card U < mc_maxEntries s \<Longrightarrow> in_use ck r U (fold (cache_step memory_cache_ops) cs s)"
proof (induction cs arbitrary: s)
  case (Cons c cs)
  have "in_use ck r U (cache_step memory_cache_ops c s)"
    using Cons.prems by (intro step_in_use) auto
  with Cons.IH [OF memory_cache.step_ok [OF Cons.prems(1)] this] Cons.prems set_max [OF Cons.prems(1)] show ?case by simp
qed simp

lemma set_used:
  assumes "cache_inv s"
  shows "in_use k (new_row e tags) U (set_entry t0 k e tags s)"
proof -
  from set_entry_spec [OF cache_invD(1) [OF assms], of t0 k e tags] obtain D where
    r: "mc_rows (set_entry t0 k e tags s) = (let rs = filter (\<lambda>x. fst x \<notin> D \<and> fst x \<noteq> k) (mc_rows s) @ [(k, new_row e tags)] in
               if mc_maxEntries s > 0 \<and> length rs > mc_maxEntries s then tl rs else rs)" by blast
  let ?f = "filter (\<lambda>x. fst x \<notin> D \<and> fst x \<noteq> k) (mc_rows s)"
  have "mc_rows (set_entry t0 k e tags s) = ?f @ [(k, new_row e tags)]
      \<or> ?f \<noteq> [] \<and> mc_rows (set_entry t0 k e tags s) = tl ?f @ [(k, new_row e tags)]"
    unfolding r Let_def by (cases ?f) auto
  then consider "mc_rows (set_entry t0 k e tags s) = ?f @ (k, new_row e tags) # []"
    | "mc_rows (set_entry t0 k e tags s) = tl ?f @ (k, new_row e tags) # []" by blast
  then show ?thesis
  proof cases
    case 1
    show ?thesis unfolding in_use_def by (rule exI [of _ ?f], rule exI [of _ "[]"]) (simp add: 1)
  next
    case 2
    show ?thesis unfolding in_use_def by (rule exI [of _ "tl ?f"], rule exI [of _ "[]"]) (simp add: 2)
  qed
qed

lemma fence_fresh: "cache_inv s \<Longrightarrow> \<not> fence_broken k tags (Some (int (mc_epoch s))) s"
proof -
  assume inv: "cache_inv s"
  have "\<not> changed_after ch (int (mc_epoch s)) n" if "changes_ok ch (mc_epoch s)" for ch n
    using that by (auto simp: changes_ok_def changed_after_def split: option.splits dest!: map_of_SomeD)
  with cache_invD(2) [OF inv] show ?thesis by (simp add: fence_broken_def log_ok_def list_ex_iff)
qed

lemma run_unbroken:
  "cache_inv s \<Longrightarrow> 0 \<le> t \<Longrightarrow> t \<le> int (mc_epoch s) \<Longrightarrow> \<not> fence_broken ck tags (Some t) s \<Longrightarrow>
   \<not> overtaken memory_cache_ops ck tags cs s \<Longrightarrow> int (mc_epoch s) + int (length cs) \<le> t + MAX_TRACKED_CHANGES \<Longrightarrow>
   \<not> fence_broken ck tags (Some t) (fold (cache_step memory_cache_ops) cs s)"
proof (induction cs arbitrary: s)
  case (Cons c cs)
  note ep = step_epoch [OF Cons.prems(1), of c]
  have "\<not> fence_broken ck tags (Some t) (cache_step memory_cache_ops c s)"
    by (rule step_unbroken [OF Cons.prems(1-3) _ Cons.prems(4)]) (use Cons.prems(5,6) ep in auto)
  moreover have "t \<le> int (mc_epoch (cache_step memory_cache_ops c s))" using Cons.prems(3) ep by simp
  ultimately show ?case
    using Cons.IH [OF memory_cache.step_ok [OF Cons.prems(1), of c] Cons.prems(2)] Cons.prems(5,6) ep by simp
qed simp

section \<open>Properties\<close>

text \<open>
  C21: the cache answers with the latest value or not at all: whatever was set, deleted, invalidated, cleared,
  evicted or swept, in any order, a hit is the entry last written under its key in a cache that keeps
  everything for ever, not deleted, invalidated by tag or cleared since, and not past its expiry.
\<close>

theorem cache_serves_latest:
  assumes "new_cache m = Some s0" and "get_entry now k (fold (cache_step memory_cache_ops) ops s0) = (Some e, s')"
  shows "\<exists>tags. ideal_run memory_cache_ops ops s0 Map.empty k = Some (e, tags) \<and> now < e_expiresAt e"
proof -
  let ?s = "fold (cache_step memory_cache_ops) ops s0"
  have inv: "cache_inv s0" by (rule new_cache_inv [OF assms(1)])
  have "cache_view s0 \<subseteq>\<^sub>m Map.empty"
    using assms(1) by (auto simp: new_cache_def Let_def map_le_def cache_view_row split: if_splits)
  from memory_cache.run_view [OF inv this, of ops]
  have "cache_view ?s \<subseteq>\<^sub>m ideal_run memory_cache_ops ops s0 Map.empty" .
  moreover obtain tags where "cache_view ?s k = Some (e, tags)" "now < e_expiresAt e"
    using memory_cache.get_hit [OF memory_cache.run_ok [OF inv], of now k ops e] assms(2) by auto
  ultimately show ?thesis by (metis domI map_le_def)
qed

text \<open>
  C22: the store stays within its bounds and its index is exact: after any calls it holds no more entries than
  its bound (unless that is 0), the tag index names for each tag exactly the entries that carry it and keeps
  no empty tag, and each change list holds at most \<open>MAX_TRACKED_CHANGES\<close> names.
\<close>

theorem cache_bounded_and_indexed:
  assumes "new_cache m = Some s0"
  shows "let s = fold (cache_step memory_cache_ops) ops s0 in
    (mc_maxEntries s0 = 0 \<or> cache_size s \<le> mc_maxEntries s0)
    \<and> (\<forall>t k. k \<in> set (case map_of (mc_tagIndex s) t of None \<Rightarrow> [] | Some ks \<Rightarrow> ks)
          \<longleftrightarrow> (\<exists>r. map_of (mc_rows s) k = Some r \<and> t \<in> set (w_tags r)))
    \<and> [] \<notin> snd ` set (mc_tagIndex s)
    \<and> int (length (mc_keyChanges s)) \<le> MAX_TRACKED_CHANGES \<and> int (length (mc_tagChanges s)) \<le> MAX_TRACKED_CHANGES"
proof -
  let ?s = "fold (cache_step memory_cache_ops) ops s0"
  have inv0: "cache_inv s0" by (rule new_cache_inv [OF assms])
  have inv: "cache_inv ?s" by (rule memory_cache.run_ok [OF inv0])
  have "cache_inv s \<Longrightarrow> mc_maxEntries (fold (cache_step memory_cache_ops) ops s) = mc_maxEntries s" for s :: "'a mem_cache"
    by (induction ops arbitrary: s) (simp_all add: memory_cache.step_ok set_max)
  then have max: "mc_maxEntries ?s = mc_maxEntries s0" using inv0 .
  note d = table_okD [OF cache_invD(1) [OF inv]]
  have "ks \<noteq> []" if "(t, ks) \<in> set (mc_tagIndex ?s)" for t ks
    using index_wfD(2) [OF d(2), of t ks] index_wfD(1) [OF d(2)] that by (metis map_of_is_SomeI)
  then have "[] \<notin> snd ` set (mc_tagIndex ?s)" by force
  moreover have "k \<in> set (case map_of (mc_tagIndex ?s) t of None \<Rightarrow> [] | Some ks \<Rightarrow> ks)
          \<longleftrightarrow> (\<exists>r. map_of (mc_rows ?s) k = Some r \<and> t \<in> set (w_tags r))" for t k
  proof -
    have "set (case map_of (mc_tagIndex ?s) t of None \<Rightarrow> [] | Some ks \<Rightarrow> ks) = tagged (mc_tagIndex ?s) t"
      by (simp add: tagged_def split: option.split)
    with d(3) [of k t] show ?thesis by (simp only:)
  qed
  moreover have "mc_maxEntries s0 = 0 \<or> cache_size ?s \<le> mc_maxEntries s0"
    using cache_invD(4) [OF inv] max by (auto simp: cache_size_def)
  moreover have "int (length (mc_keyChanges ?s)) \<le> MAX_TRACKED_CHANGES \<and> int (length (mc_tagChanges ?s)) \<le> MAX_TRACKED_CHANGES"
    using cache_invD(2) [OF inv] by (simp add: log_ok_def changes_ok_def)
  ultimately show ?thesis unfolding Let_def by blast
qed

text \<open>
  C23: the fence refuses exactly the overtaken writes: a conditional write under a fence taken earlier goes
  through only if nothing it must not overwrite ran in between - a set or delete of its key, an invalidation
  of one of its tags, a clear - and it does go through when none did, up to \<open>MAX_TRACKED_CHANGES\<close> calls
  later, however many other keys and tags changed.
\<close>

theorem fence_exact:
  assumes "new_cache m = Some s0" and "s1 = fold (cache_step memory_cache_ops) before s0"
  shows "let s2 = fold (cache_step memory_cache_ops) ops s1; written = fst (set_if_fence now k e tags (Some (int (fence s1))) s2) in
    (written \<longrightarrow> \<not> overtaken memory_cache_ops k tags ops s1)
    \<and> (\<not> overtaken memory_cache_ops k tags ops s1 \<and> int (length ops) \<le> MAX_TRACKED_CHANGES \<longrightarrow> written)"
proof -
  have inv: "cache_inv s1" unfolding assms(2) by (rule memory_cache.run_ok [OF new_cache_inv [OF assms(1)]])
  have iss: "memory_issued (Some (int (fence s1))) s1" by (simp add: memory_issued_def fence_def)
  have "fence_broken k tags (Some (int (fence s1))) (fold (cache_step memory_cache_ops) ops s1)"
    if "overtaken memory_cache_ops k tags ops s1"
    using memory_cache.run_broken [OF inv iss] that by blast
  moreover have "\<not> fence_broken k tags (Some (int (fence s1))) (fold (cache_step memory_cache_ops) ops s1)"
    if "\<not> overtaken memory_cache_ops k tags ops s1" "int (length ops) \<le> MAX_TRACKED_CHANGES"
    by (rule run_unbroken [OF inv _ _ _ that(1)]) (use that(2) fence_fresh [OF inv] in \<open>simp_all add: fence_def\<close>)
  ultimately show ?thesis unfolding Let_def set_if_fence_def by auto
qed

text \<open>
  Eviction takes the least recently used: an entry just written is still served, up to its expiry, after
  any calls that do not remove it themselves, as long as fewer other keys were used since than the cache has
  room for (any number when it is unbounded); no sweep and no eviction takes it.
\<close>

theorem recently_used_entry_survives:
  assumes "cache_inv s" and "\<forall>c \<in> set ops. spares k tags (e_expiresAt e) c" and "now < e_expiresAt e"
    and "mc_maxEntries s = 0 \<or> card (\<Union> (used_key ` set ops) - {k}) < mc_maxEntries s"
  shows "fst (get_entry now k (fold (cache_step memory_cache_ops) ops (set_entry t0 k e tags s))) = Some e"
proof -
  let ?U = "\<Union> (used_key ` set ops) - {k}" and ?r = "new_row e tags" and ?s1 = "set_entry t0 k e tags s"
  have inv: "cache_inv ?s1" using set_entry_view [OF assms(1)] by blast
  have max: "mc_maxEntries ?s1 = mc_maxEntries s"
    using set_entry_log [OF assms(1), of k t0 e tags] by (simp add: same_log_def)
  have "finite (used_key c)" for c :: "('a, int option) cache_op" by (cases c) simp_all
  then have fin: "finite ?U" by simp
  have use: "in_use k ?r ?U ?s1" by (rule set_used [OF assms(1)])
  have x: "w_expiresAt ?r = e_expiresAt e" by (simp add: new_row_def)
  have "in_use k ?r ?U (fold (cache_step memory_cache_ops) ops ?s1)"
    by (rule run_in_use [OF inv use _ fin]) (use assms(2,4) max x in auto)
  from in_use_row [OF memory_cache.run_ok [OF inv] this]
  have "cache_view (fold (cache_step memory_cache_ops) ops ?s1) k = Some (e, tags)" by (simp add: cache_view_row)
  with get_entry_spec [OF memory_cache.run_ok [OF inv], of now k ops] assms(3) show ?thesis by simp
qed

section \<open>Witnesses\<close>

definition entry7 :: "nat stored_entry" where
  "entry7 = \<lparr> e_value = 7, e_expiresAt = 100, e_staleAt = 50 \<rparr>"

definition small_cache :: "nat mem_cache" where
  "small_cache = the (new_cache (Some 2))"

lemma small_cache_new: "new_cache (Some 2) = Some small_cache"
  by (simp add: small_cache_def new_cache_def)

definition busy :: "(nat, int option) cache_op list" where
  "busy = [CacheSet 1 (js ''a'') entry7 [js ''t''], CacheSet 2 (js ''b'') entry7 [js ''u''], CacheGet 3 (js ''a''),
           CacheSet 4 (js ''c'') entry7 [], CacheInvalidate (js ''u'')]"

theorem cache_serves_latest_witness:
  "fst (get_entry 9 (js ''a'') (fold (cache_step memory_cache_ops) busy small_cache)) = Some entry7
   \<and> (\<exists>tags. ideal_run memory_cache_ops busy small_cache Map.empty (js ''a'') = Some (entry7, tags))"
proof -
  let ?g = "get_entry 9 (js ''a'') (fold (cache_step memory_cache_ops) busy small_cache)"
  have f: "fst ?g = Some entry7" by code_simp
  then have "?g = (Some entry7, snd ?g)" by (metis prod.collapse)
  from cache_serves_latest [OF small_cache_new this] f show ?thesis by blast
qed

theorem cache_bounded_and_indexed_witness:
  "cache_size (fold (cache_step memory_cache_ops) busy small_cache) \<le> 2"
proof -
  have "mc_maxEntries small_cache = 2" by code_simp
  with cache_bounded_and_indexed [OF small_cache_new, of busy] show ?thesis by (simp add: Let_def)
qed

theorem fence_exact_witness:
  "let s1 = fold (cache_step memory_cache_ops) busy small_cache; tok = Some (int (fence s1)) in
   fst (set_if_fence 5 (js ''a'') entry7 [js ''t''] tok (fold (cache_step memory_cache_ops) [CacheDelete (js ''c'')] s1))
   \<and> \<not> fst (set_if_fence 5 (js ''a'') entry7 [js ''t''] tok (fold (cache_step memory_cache_ops) [CacheInvalidate (js ''t'')] s1))"
proof -
  let ?s1 = "fold (cache_step memory_cache_ops) busy small_cache"
  have "int (length [CacheDelete (js ''c'') :: (nat, int option) cache_op]) \<le> MAX_TRACKED_CHANGES" by (simp add: MAX_TRACKED_CHANGES_def)
  moreover have "\<not> overtaken memory_cache_ops (js ''a'') [js ''t''] [CacheDelete (js ''c'')] ?s1" by simp
  moreover have "overtaken memory_cache_ops (js ''a'') [js ''t''] [CacheInvalidate (js ''t'')] ?s1" by simp
  ultimately show ?thesis
    using fence_exact [OF small_cache_new refl, where before = busy and now = 5 and k = "js ''a''" and e = entry7
        and tags = "[js ''t'']"] unfolding Let_def by blast
qed

theorem recently_used_entry_survives_witness:
  "fst (get_entry 9 (js ''x'') (fold (cache_step memory_cache_ops) [CacheSet 8 (js ''y'') entry7 [], CacheSet 8 (js ''y'') entry7 []]
      (set_entry 7 (js ''x'') entry7 [] (fold (cache_step memory_cache_ops) busy small_cache)))) = Some entry7"
proof -
  let ?ops = "[CacheSet 8 (js ''y'') entry7 [], CacheSet 8 (js ''y'') entry7 []] :: (nat, int option) cache_op list"
  let ?s = "fold (cache_step memory_cache_ops) busy small_cache"
  have inv: "cache_inv ?s" by (rule memory_cache.run_ok [OF new_cache_inv [OF small_cache_new]])
  have "\<forall>c \<in> set ?ops. spares (js ''x'') [] (e_expiresAt entry7) c" by (simp add: entry7_def)
  moreover have "9 < e_expiresAt entry7" by (simp add: entry7_def)
  moreover have "mc_maxEntries ?s = 2" by code_simp
  then have "mc_maxEntries ?s = 0 \<or> card (\<Union> (used_key ` set ?ops) - {js ''x''}) < mc_maxEntries ?s" by simp
  ultimately show ?thesis by (rule recently_used_entry_survives [OF inv])
qed

end
