(* ===== verification/CacheFlow.thy ===== *)
theory CacheFlow
  imports CacheStore
begin

text \<open>
  The cache facade, \<open>packages/cache/src/cache.ts\<close>, over a store that answers synchronously: time to live and
  stale-while-revalidate, single-flight loads, and the withdrawal of a load that something overtook.

  \<^item> A load is its entry in \<open>c_loads\<close> under a number that stands for its promise; \<open>c_inflight\<close> maps a key to
    the load its callers share. A call is the stretches between its awaits: \<open>wrap\<close> reads, then answers or
    starts a load; a load ends when its loader settles, and \<open>finally\<close> runs later.
  \<^item> A store call that throws is an input of the stretch that makes it. Another cache on the same store is
    an event on the store alone.
  \<^item> A store that answers with promises, whose writes \<open>after\<close> waits for, and the observer's clock are left
    out.
\<close>

section \<open>Durations and entries\<close>

datatype duration = Ms int | NotFiniteMs

fun assertDuration :: "duration \<Rightarrow> bool" where
  "assertDuration (Ms n) = (0 \<le> n)"
| "assertDuration NotFiniteMs = False"

fun millis :: "duration \<Rightarrow> int" where
  "millis (Ms n) = n"
| "millis NotFiniteMs = 0"

record set_options =
  so_ttlMs :: "duration option"
  so_swrMs :: "duration option"
  so_tags :: "jstr list option"

datatype flow_error = BadDuration | LoaderThrew | Refused jstr

definition tags_of :: "set_options \<Rightarrow> jstr list" where
  "tags_of opts = (case so_tags opts of None \<Rightarrow> [] | Some ts \<Rightarrow> ts)"

definition entryOf :: "int \<Rightarrow> duration \<Rightarrow> 'v \<Rightarrow> set_options \<Rightarrow> flow_error + 'v stored_entry" where
  "entryOf now defaultTtl v opts =
     (let ttl = (case so_ttlMs opts of None \<Rightarrow> defaultTtl | Some d \<Rightarrow> d);
          swr = (case so_swrMs opts of None \<Rightarrow> Ms 0 | Some d \<Rightarrow> d) in
      if \<not> assertDuration ttl then Inl BadDuration
      else if \<not> assertDuration swr then Inl BadDuration
      else
        Inr \<lparr> e_value = v, e_expiresAt = now + millis ttl + millis swr, e_staleAt = now + millis ttl \<rparr>)"

section \<open>State\<close>

record 't load_run =
  ld_key :: jstr
  ld_opts :: set_options
  ld_fenced :: "'t option"
  ld_storable :: bool
  ld_withdrawn :: bool

record flight =
  fl_load :: nat
  fl_tags :: "jstr list"

record ('t, 's) cache =
  c_store :: 's
  c_defaultTtl :: duration
  c_fencing :: bool
  c_inflight :: "(jstr, flight) jmap"
  c_loads :: "(nat, 't load_run) jmap"
  c_next :: nat

definition createCache :: "'s \<Rightarrow> duration option \<Rightarrow> bool \<Rightarrow> flow_error + ('t, 's) cache" where
  "createCache store defaultTtlMs fencing =
     (let d = (case defaultTtlMs of None \<Rightarrow> Ms 60000 | Some d \<Rightarrow> d) in
      if \<not> assertDuration d then Inl BadDuration
      else Inr \<lparr> c_store = store, c_defaultTtl = d, c_fencing = fencing, c_inflight = [], c_loads = [], c_next = 0 \<rparr>)"

section \<open>Changes\<close>

definition withdraw_load :: "nat \<Rightarrow> ('t, 's) cache \<Rightarrow> ('t, 's) cache" where
  "withdraw_load i c =
     (case map_of (c_loads c) i of
        None \<Rightarrow> c
      | Some l \<Rightarrow> c\<lparr> c_loads := AList.update i (l\<lparr> ld_withdrawn := True \<rparr>) (c_loads c) \<rparr>)"

definition withdraw_flight :: "(jstr \<Rightarrow> jstr list \<Rightarrow> bool) \<Rightarrow> jstr \<times> flight \<Rightarrow> ('t, 's) cache \<Rightarrow> ('t, 's) cache" where
  "withdraw_flight P x c =
     (if P (fst x) (fl_tags (snd x))
      then (withdraw_load (fl_load (snd x)) c)\<lparr> c_inflight := AList.delete (fst x) (c_inflight c) \<rparr>
      else c)"

definition withdraw :: "(jstr \<Rightarrow> jstr list \<Rightarrow> bool) \<Rightarrow> ('t, 's) cache \<Rightarrow> ('t, 's) cache" where
  "withdraw P c = fold (withdraw_flight P) (c_inflight c) c"

definition cache_set ::
    "('v, 't, 's) cache_ops \<Rightarrow> int \<Rightarrow> jstr \<Rightarrow> 'v \<Rightarrow> set_options \<Rightarrow> ('t, 's) cache \<Rightarrow> (flow_error + unit) \<times> ('t, 's) cache" where
  "cache_set C now k v opts c =
     (let c1 = withdraw (\<lambda>k' ts. k' = k) c in
      case entryOf now (c_defaultTtl c) v opts of
        Inl err \<Rightarrow> (Inl err, c1)
      | Inr e \<Rightarrow> (Inr (), c1\<lparr> c_store := co_set C now k e (tags_of opts) (c_store c1) \<rparr>))"

definition cache_remove :: "('v, 't, 's) cache_ops \<Rightarrow> jstr \<Rightarrow> ('t, 's) cache \<Rightarrow> ('t, 's) cache" where
  "cache_remove C k c =
     (let c1 = withdraw (\<lambda>k' ts. k' = k) c in c1\<lparr> c_store := co_delete C k (c_store c1) \<rparr>)"

definition cache_invalidateTag :: "('v, 't, 's) cache_ops \<Rightarrow> jstr \<Rightarrow> ('t, 's) cache \<Rightarrow> ('t, 's) cache" where
  "cache_invalidateTag C t c =
     (let c1 = withdraw (\<lambda>k' ts. t \<in> set ts) c in c1\<lparr> c_store := co_invalidate C t (c_store c1) \<rparr>)"

definition cache_clear :: "('v, 't, 's) cache_ops \<Rightarrow> ('t, 's) cache \<Rightarrow> ('t, 's) cache" where
  "cache_clear C c =
     (let c1 = withdraw (\<lambda>k' ts. True) c in c1\<lparr> c_store := co_clear C (c_store c1) \<rparr>)"

section \<open>Reads and loads\<close>

definition cache_get :: "('v, 't, 's) cache_ops \<Rightarrow> int \<Rightarrow> jstr \<Rightarrow> ('t, 's) cache \<Rightarrow> 'v option \<times> ('t, 's) cache" where
  "cache_get C now k c =
     (case co_get C now k (c_store c) of (e, st) \<Rightarrow> (map_option e_value e, c\<lparr> c_store := st \<rparr>))"

definition cache_has :: "('v, 't, 's) cache_ops \<Rightarrow> int \<Rightarrow> jstr \<Rightarrow> ('t, 's) cache \<Rightarrow> bool \<times> ('t, 's) cache" where
  "cache_has C now k c =
     (case co_get C now k (c_store c) of (e, st) \<Rightarrow> (e \<noteq> None, c\<lparr> c_store := st \<rparr>))"

definition readEntry ::
    "('v, 't, 's) cache_ops \<Rightarrow> int \<Rightarrow> jstr \<Rightarrow> bool \<Rightarrow> ('t, 's) cache \<Rightarrow> 'v stored_entry option \<times> ('t, 's) cache" where
  "readEntry C now k throws c =
     (if throws then (None, c)
      else (case co_get C now k (c_store c) of (e, st) \<Rightarrow> (e, c\<lparr> c_store := st \<rparr>)))"

text \<open>The load of a key: the one in flight, or a new one with its fence; its loader starts.\<close>

definition load ::
    "('v, 't, 's) cache_ops \<Rightarrow> jstr \<Rightarrow> set_options \<Rightarrow> bool \<Rightarrow> ('t, 's) cache \<Rightarrow> nat \<times> ('t, 's) cache" where
  "load C k opts fenceThrows c =
     (case map_of (c_inflight c) k of
        Some fl \<Rightarrow> (fl_load fl, c)
      | None \<Rightarrow>
          (let i = c_next c;
               l = \<lparr> ld_key = k, ld_opts = opts,
                     ld_fenced = (if c_fencing c \<and> \<not> fenceThrows then Some (co_fence C (c_store c)) else None),
                     ld_storable = \<not> (c_fencing c \<and> fenceThrows), ld_withdrawn = False \<rparr> in
           (i, c\<lparr> c_inflight := AList.update k \<lparr> fl_load = i, fl_tags = tags_of opts \<rparr> (c_inflight c),
                  c_loads := AList.update i l (c_loads c), c_next := i + 1 \<rparr>)))"

definition revalidate ::
    "('v, 't, 's) cache_ops \<Rightarrow> jstr \<Rightarrow> set_options \<Rightarrow> bool \<Rightarrow> ('t, 's) cache \<Rightarrow> ('t, 's) cache" where
  "revalidate C k opts fenceThrows c =
     (if map_of (c_inflight c) k \<noteq> None then c else snd (load C k opts fenceThrows c))"

datatype 'v answer = Served 'v | Awaits nat

datatype outcome = Hit | Stale | Miss

definition readOutcome :: "int \<Rightarrow> 'v stored_entry option \<Rightarrow> outcome" where
  "readOutcome now e = (case e of None \<Rightarrow> Miss | Some x \<Rightarrow> if now < e_staleAt x then Hit else Stale)"

text \<open>The rest of \<open>wrap\<close>, after its read.\<close>

definition wrap_answer ::
    "('v, 't, 's) cache_ops \<Rightarrow> int \<Rightarrow> jstr \<Rightarrow> 'v stored_entry option \<Rightarrow> set_options \<Rightarrow> bool \<Rightarrow> ('t, 's) cache
     \<Rightarrow> 'v answer \<times> ('t, 's) cache" where
  "wrap_answer C now k e opts fenceThrows c =
     (case e of
        Some x \<Rightarrow>
          if now < e_staleAt x then (Served (e_value x), c)
          else (Served (e_value x), revalidate C k opts fenceThrows c)
      | None \<Rightarrow> (case load C k opts fenceThrows c of (i, c') \<Rightarrow> (Awaits i, c')))"

text \<open>The loader of a load settles: what its callers get, and the write unless the load was withdrawn.\<close>

definition load_put ::
    "('v, 't, 's) cache_ops \<Rightarrow> int \<Rightarrow> 't load_run \<Rightarrow> 'v stored_entry \<Rightarrow> 's \<Rightarrow> 's" where
  "load_put C now l e st =
     (case ld_fenced l of
        Some tok \<Rightarrow> snd (co_set_if_fence C now (ld_key l) e (tags_of (ld_opts l)) tok st)
      | None \<Rightarrow> co_set C now (ld_key l) e (tags_of (ld_opts l)) st)"

definition load_ends ::
    "('v, 't, 's) cache_ops \<Rightarrow> int \<Rightarrow> nat \<Rightarrow> 'v option \<Rightarrow> bool \<Rightarrow> ('t, 's) cache \<Rightarrow> (flow_error + 'v) option \<times> ('t, 's) cache" where
  "load_ends C now i loaded putThrows c =
     (case map_of (c_loads c) i of
        None \<Rightarrow> (None, c)
      | Some l \<Rightarrow>
          (let c1 = c\<lparr> c_loads := AList.delete i (c_loads c) \<rparr> in
           case loaded of
             None \<Rightarrow> (Some (Inl LoaderThrew), c1)
           | Some v \<Rightarrow>
               if \<not> ld_withdrawn l \<and> ld_storable l
               then
                 (case entryOf now (c_defaultTtl c) v (ld_opts l) of
                    Inl err \<Rightarrow> (Some (Inl err), c1)
                  | Inr e \<Rightarrow>
                      (Some (Inr v), if putThrows then c1 else c1\<lparr> c_store := load_put C now l e (c_store c1) \<rparr>))
               else (Some (Inr v), c1)))"

text \<open>The \<open>finally\<close> of a load.\<close>

definition load_cleanup :: "jstr \<Rightarrow> nat \<Rightarrow> ('t, 's) cache \<Rightarrow> ('t, 's) cache" where
  "load_cleanup k i c =
     (case map_of (c_inflight c) k of
        None \<Rightarrow> c
      | Some fl \<Rightarrow> if fl_load fl = i then c\<lparr> c_inflight := AList.delete k (c_inflight c) \<rparr> else c)"

section \<open>Bound views\<close>

datatype cache_method = GetM | HasM | SetM | WrapM | DeleteM | InvalidateM | ClearM

fun required :: "jstr \<Rightarrow> jstr \<Rightarrow> cache_method \<Rightarrow> jstr list" where
  "required rd wr GetM = [rd]"
| "required rd wr HasM = [rd]"
| "required rd wr SetM = [wr]"
| "required rd wr WrapM = [rd, wr]"
| "required rd wr DeleteM = [wr]"
| "required rd wr InvalidateM = [wr]"
| "required rd wr ClearM = [wr]"

text \<open>\<open>guard\<close>: the first capability the beacon refuses rejects the call before it runs.\<close>

definition guard :: "(jstr \<Rightarrow> bool) \<Rightarrow> jstr list \<Rightarrow> ('c \<Rightarrow> 'r \<times> 'c) \<Rightarrow> 'c \<Rightarrow> (flow_error + 'r) \<times> 'c" where
  "guard allows caps run c =
     (case find (\<lambda>cap. \<not> allows cap) caps of
        Some cap \<Rightarrow> (Inl (Refused cap), c)
      | None \<Rightarrow> (case run c of (r, c') \<Rightarrow> (Inr r, c')))"

section \<open>Histories\<close>

text \<open>A load's \<open>finally\<close> runs once its loader has settled.\<close>

datatype ('v, 't) flow_event =
    SetE int jstr 'v set_options
  | RemoveE jstr
  | InvalidateE jstr
  | ClearE
  | ReadE int jstr bool
  | WrapE int jstr "'v stored_entry option" set_options bool
  | LoadE int nat "'v option" bool
  | CleanupE jstr nat
  | OtherE "('v, 't) cache_op"

fun flow_step :: "('v, 't, 's) cache_ops \<Rightarrow> ('v, 't) flow_event \<Rightarrow> ('t, 's) cache \<Rightarrow> ('t, 's) cache" where
  "flow_step C (SetE now k v opts) c = snd (cache_set C now k v opts c)"
| "flow_step C (RemoveE k) c = cache_remove C k c"
| "flow_step C (InvalidateE t) c = cache_invalidateTag C t c"
| "flow_step C ClearE c = cache_clear C c"
| "flow_step C (ReadE now k throws) c = snd (readEntry C now k throws c)"
| "flow_step C (WrapE now k e opts throws) c = snd (wrap_answer C now k e opts throws c)"
| "flow_step C (LoadE now i v throws) c = snd (load_ends C now i v throws c)"
| "flow_step C (CleanupE k i) c = (if map_of (c_loads c) i = None then load_cleanup k i c else c)"
| "flow_step C (OtherE op) c = c\<lparr> c_store := cache_step C op (c_store c) \<rparr>"

text \<open>What overtakes a load, through this cache or through another one on its store.\<close>

fun flow_overtakes :: "('v, 't, 's) cache_ops \<Rightarrow> jstr \<Rightarrow> jstr list \<Rightarrow> ('v, 't) flow_event \<Rightarrow> ('t, 's) cache \<Rightarrow> bool" where
  "flow_overtakes C k tags (SetE now k' v opts) c \<longleftrightarrow> k' = k"
| "flow_overtakes C k tags (RemoveE k') c \<longleftrightarrow> k' = k"
| "flow_overtakes C k tags (InvalidateE t) c \<longleftrightarrow> t \<in> set tags"
| "flow_overtakes C k tags ClearE c \<longleftrightarrow> True"
| "flow_overtakes C k tags (OtherE op) c \<longleftrightarrow> overtakes C k tags op (c_store c)"
| "flow_overtakes C k tags _ c \<longleftrightarrow> False"

fun flow_overtaken :: "('v, 't, 's) cache_ops \<Rightarrow> jstr \<Rightarrow> jstr list \<Rightarrow> ('v, 't) flow_event list \<Rightarrow> ('t, 's) cache \<Rightarrow> bool" where
  "flow_overtaken C k tags [] c \<longleftrightarrow> False"
| "flow_overtaken C k tags (e # es) c \<longleftrightarrow> flow_overtakes C k tags e c \<or> flow_overtaken C k tags es (flow_step C e c)"

section \<open>Flights\<close>

definition flight_of :: "'t load_run \<Rightarrow> nat \<Rightarrow> flight" where
  "flight_of l i = \<lparr> fl_load = i, fl_tags = tags_of (ld_opts l) \<rparr>"

text \<open>Every load that may still write is the flight of its key, and a flight's load is one of those or done.\<close>

definition flow_inv :: "('t, 's) cache \<Rightarrow> bool" where
  "flow_inv c \<longleftrightarrow>
     (\<forall>i l. map_of (c_loads c) i = Some l \<longrightarrow> i < c_next c
        \<and> (\<not> ld_withdrawn l \<longrightarrow> map_of (c_inflight c) (ld_key l) = Some (flight_of l i))
        \<and> (c_fencing c \<longrightarrow> ld_storable l \<longrightarrow> ld_fenced l \<noteq> None))
     \<and> (\<forall>k fl. map_of (c_inflight c) k = Some fl \<longrightarrow> fl_load fl < c_next c)
     \<and> jm_wf (c_inflight c)"

lemma flow_invI:
  assumes "\<And>i l. map_of (c_loads c) i = Some l \<Longrightarrow> i < c_next c"
    and "\<And>i l. map_of (c_loads c) i = Some l \<Longrightarrow> \<not> ld_withdrawn l \<Longrightarrow> map_of (c_inflight c) (ld_key l) = Some (flight_of l i)"
    and "\<And>i l. map_of (c_loads c) i = Some l \<Longrightarrow> c_fencing c \<Longrightarrow> ld_storable l \<Longrightarrow> ld_fenced l \<noteq> None"
    and "\<And>k fl. map_of (c_inflight c) k = Some fl \<Longrightarrow> fl_load fl < c_next c"
    and "jm_wf (c_inflight c)"
  shows "flow_inv c"
  using assms unfolding flow_inv_def by blast

lemma flow_invD:
  assumes "flow_inv c"
  shows "map_of (c_loads c) i = Some l \<Longrightarrow> i < c_next c"
    and "map_of (c_loads c) i = Some l \<Longrightarrow> \<not> ld_withdrawn l \<Longrightarrow> map_of (c_inflight c) (ld_key l) = Some (flight_of l i)"
    and "map_of (c_loads c) i = Some l \<Longrightarrow> c_fencing c \<Longrightarrow> ld_storable l \<Longrightarrow> ld_fenced l \<noteq> None"
    and "map_of (c_inflight c) k = Some fl \<Longrightarrow> fl_load fl < c_next c"
    and "jm_wf (c_inflight c)"
  using assms unfolding flow_inv_def by blast+

lemma flow_inv_store: "flow_inv (c\<lparr> c_store := st \<rparr>) = flow_inv c"
  by (simp add: flow_inv_def)

definition withdrawn_by :: "(jstr \<Rightarrow> jstr list \<Rightarrow> bool) \<Rightarrow> (jstr \<times> flight) list \<Rightarrow> nat \<Rightarrow> bool" where
  "withdrawn_by P xs i \<longleftrightarrow> (\<exists>x \<in> set xs. P (fst x) (fl_tags (snd x)) \<and> fl_load (snd x) = i)"

definition mark_withdrawn :: "bool \<Rightarrow> 't load_run \<Rightarrow> 't load_run" where
  "mark_withdrawn b l = (if b then l\<lparr> ld_withdrawn := True \<rparr> else l)"

lemma mark_withdrawn_simps [simp]:
  "ld_key (mark_withdrawn b l) = ld_key l" "ld_opts (mark_withdrawn b l) = ld_opts l"
  "ld_fenced (mark_withdrawn b l) = ld_fenced l" "ld_storable (mark_withdrawn b l) = ld_storable l"
  "ld_withdrawn (mark_withdrawn b l) \<longleftrightarrow> b \<or> ld_withdrawn l" "flight_of (mark_withdrawn b l) = flight_of l"
  by (auto simp: mark_withdrawn_def flight_of_def)

lemma mark_False [simp]: "map_option (mark_withdrawn False) y = y"
  by (cases y) (simp_all add: mark_withdrawn_def)

lemma mark_mark: "map_option (mark_withdrawn a) (map_option (mark_withdrawn b) y) = map_option (mark_withdrawn (b \<or> a)) y"
  by (cases y) (simp_all add: mark_withdrawn_def)

lemma withdraw_load_spec:
  "c_store (withdraw_load i c) = c_store c \<and> c_next (withdraw_load i c) = c_next c
   \<and> c_fencing (withdraw_load i c) = c_fencing c \<and> c_defaultTtl (withdraw_load i c) = c_defaultTtl c
   \<and> c_inflight (withdraw_load i c) = c_inflight c
   \<and> map_of (c_loads (withdraw_load i c)) j = map_option (mark_withdrawn (i = j)) (map_of (c_loads c) j)"
  by (cases "map_of (c_loads c) j") (auto simp: withdraw_load_def mark_withdrawn_def jm_get_set split: option.splits)

lemma withdraw_flights:
  "c_store (fold (withdraw_flight P) xs c) = c_store c \<and> c_next (fold (withdraw_flight P) xs c) = c_next c
   \<and> c_fencing (fold (withdraw_flight P) xs c) = c_fencing c \<and> c_defaultTtl (fold (withdraw_flight P) xs c) = c_defaultTtl c
   \<and> map_of (c_loads (fold (withdraw_flight P) xs c)) i = map_option (mark_withdrawn (withdrawn_by P xs i)) (map_of (c_loads c) i)
   \<and> map_of (c_inflight (fold (withdraw_flight P) xs c)) k
       = (if \<exists>x \<in> set xs. fst x = k \<and> P (fst x) (fl_tags (snd x)) then None else map_of (c_inflight c) k)
   \<and> (jm_wf (c_inflight c) \<longrightarrow> jm_wf (c_inflight (fold (withdraw_flight P) xs c)))"
proof (induction xs arbitrary: c)
  case Nil
  then show ?case by (simp add: withdrawn_by_def)
next
  case (Cons x xs)
  let ?c = "withdraw_flight P x c"
  have e: "c_store ?c = c_store c" "c_next ?c = c_next c" "c_fencing ?c = c_fencing c" "c_defaultTtl ?c = c_defaultTtl c"
    "map_of (c_loads ?c) i = map_option (mark_withdrawn (P (fst x) (fl_tags (snd x)) \<and> fl_load (snd x) = i)) (map_of (c_loads c) i)"
    "map_of (c_inflight ?c) k = (if fst x = k \<and> P (fst x) (fl_tags (snd x)) then None else map_of (c_inflight c) k)"
    "jm_wf (c_inflight c) \<longrightarrow> jm_wf (c_inflight ?c)"
    using withdraw_load_spec [of "fl_load (snd x)" c i]
    by (simp_all add: withdraw_flight_def jm_get_delete)
  have w: "withdrawn_by P (x # xs) i \<longleftrightarrow> P (fst x) (fl_tags (snd x)) \<and> fl_load (snd x) = i \<or> withdrawn_by P xs i"
    by (auto simp: withdrawn_by_def)
  from Cons.IH [of ?c] e show ?case
    unfolding fold_Cons comp_apply w by (auto simp: mark_mark)
qed

lemma withdraw_spec:
  assumes "jm_wf (c_inflight c)"
  shows "c_store (withdraw P c) = c_store c" and "c_next (withdraw P c) = c_next c" and "c_fencing (withdraw P c) = c_fencing c"
    and "c_defaultTtl (withdraw P c) = c_defaultTtl c" and "jm_wf (c_inflight (withdraw P c))"
    and "map_of (c_loads (withdraw P c)) i = map_option (mark_withdrawn (withdrawn_by P (c_inflight c) i)) (map_of (c_loads c) i)"
    and "map_of (c_inflight (withdraw P c)) k
      = (case map_of (c_inflight c) k of None \<Rightarrow> None | Some fl \<Rightarrow> if P k (fl_tags fl) then None else Some fl)"
proof -
  note f = withdraw_flights [of P "c_inflight c" c i k]
  show "c_store (withdraw P c) = c_store c" "c_next (withdraw P c) = c_next c" "c_fencing (withdraw P c) = c_fencing c"
    "c_defaultTtl (withdraw P c) = c_defaultTtl c" "jm_wf (c_inflight (withdraw P c))"
    "map_of (c_loads (withdraw P c)) i = map_option (mark_withdrawn (withdrawn_by P (c_inflight c) i)) (map_of (c_loads c) i)"
    using f assms by (simp_all add: withdraw_def)
  have "(\<exists>x \<in> set (c_inflight c). fst x = k \<and> P (fst x) (fl_tags (snd x)))
      \<longleftrightarrow> (\<exists>fl. map_of (c_inflight c) k = Some fl \<and> P k (fl_tags fl))"
    unfolding jm_Some_iff [OF assms] by force
  with f show "map_of (c_inflight (withdraw P c)) k
      = (case map_of (c_inflight c) k of None \<Rightarrow> None | Some fl \<Rightarrow> if P k (fl_tags fl) then None else Some fl)"
    by (auto simp: withdraw_def split: option.split)
qed

lemma withdraw_inv:
  assumes "flow_inv c"
  shows "flow_inv (withdraw P c)"
proof -
  note d = flow_invD [OF assms] and w = withdraw_spec [OF flow_invD(5) [OF assms], of P]
  show ?thesis
  proof (rule flow_invI)
    show "i < c_next (withdraw P c)" if "map_of (c_loads (withdraw P c)) i = Some l" for i l
      using that d(1) unfolding w(2,6) by auto
    show "map_of (c_inflight (withdraw P c)) (ld_key l) = Some (flight_of l i)"
      if l: "map_of (c_loads (withdraw P c)) i = Some l" "\<not> ld_withdrawn l" for i l
    proof -
      from l obtain l0 where l0: "map_of (c_loads c) i = Some l0" "l = mark_withdrawn (withdrawn_by P (c_inflight c) i) l0"
        "\<not> withdrawn_by P (c_inflight c) i" "\<not> ld_withdrawn l0" unfolding w(6) by auto
      have f: "map_of (c_inflight c) (ld_key l0) = Some (flight_of l0 i)" by (rule d(2) [OF l0(1,4)])
      from map_of_SomeD [OF f] l0(3) have "\<not> P (ld_key l0) (fl_tags (flight_of l0 i))"
        by (auto simp: withdrawn_by_def flight_of_def)
      with f show ?thesis unfolding w(7) l0(2) by simp
    qed
    show "ld_fenced l \<noteq> None" if "map_of (c_loads (withdraw P c)) i = Some l" "c_fencing (withdraw P c)" "ld_storable l" for i l
      using that d(3) unfolding w(3,6) by auto
    show "fl_load fl < c_next (withdraw P c)" if "map_of (c_inflight (withdraw P c)) k = Some fl" for k fl
      using that d(4) unfolding w(2,7) by (auto split: option.splits if_splits)
  qed (rule w(5))
qed

text \<open>A withdrawal marks every load of a matching flight.\<close>

lemma withdraw_marks:
  assumes "flow_inv c" and "map_of (c_loads c) i = Some l" and "P (ld_key l) (tags_of (ld_opts l))"
  shows "\<exists>l'. map_of (c_loads (withdraw P c)) i = Some l' \<and> ld_withdrawn l'"
proof (cases "ld_withdrawn l")
  case True
  with assms(2) withdraw_spec(6) [OF flow_invD(5) [OF assms(1)], of P i] show ?thesis by simp
next
  case False
  from map_of_SomeD [OF flow_invD(2) [OF assms(1,2) False]] assms(3)
  have "withdrawn_by P (c_inflight c) i"
    unfolding withdrawn_by_def by (intro bexI [of _ "(ld_key l, flight_of l i)"]) (simp_all add: flight_of_def)
  with assms(2) withdraw_spec(6) [OF flow_invD(5) [OF assms(1)], of P i] show ?thesis by simp
qed

text \<open>The other operations keep the flights.\<close>

lemma load_inv:
  assumes "flow_inv c"
  shows "flow_inv (snd (load C k opts throws c))"
proof (cases "map_of (c_inflight c) k")
  case None
  note d = flow_invD [OF assms]
  let ?i = "c_next c" and ?c = "snd (load C k opts throws c)"
  let ?l = "\<lparr> ld_key = k, ld_opts = opts, ld_fenced = (if c_fencing c \<and> \<not> throws then Some (co_fence C (c_store c)) else None),
              ld_storable = \<not> (c_fencing c \<and> throws), ld_withdrawn = False \<rparr>"
  have c: "?c = c\<lparr> c_inflight := AList.update k (flight_of ?l ?i) (c_inflight c), c_loads := AList.update ?i ?l (c_loads c), c_next := ?i + 1 \<rparr>"
    using None by (simp add: load_def Let_def flight_of_def)
  have loads: "map_of (c_loads ?c) i = (if i = ?i then Some ?l else map_of (c_loads c) i)" for i
    by (simp add: c jm_get_set)
  have fly: "map_of (c_inflight ?c) k' = (if k' = k then Some (flight_of ?l ?i) else map_of (c_inflight c) k')" for k'
    by (simp add: c jm_get_set)
  show ?thesis
  proof (rule flow_invI)
    show "i < c_next ?c" if "map_of (c_loads ?c) i = Some l" for i l
      using that d(1) [of i l] unfolding loads by (auto simp: c split: if_splits)
    show "map_of (c_inflight ?c) (ld_key l) = Some (flight_of l i)" if l: "map_of (c_loads ?c) i = Some l" "\<not> ld_withdrawn l" for i l
    proof (cases "i = ?i")
      case True
      with l show ?thesis unfolding loads fly by auto
    next
      case False
      with l have o: "map_of (c_loads c) i = Some l" unfolding loads by simp
      from d(2) [OF o l(2)] None have "ld_key l \<noteq> k" by auto
      with d(2) [OF o l(2)] show ?thesis unfolding fly by simp
    qed
    show "ld_fenced l \<noteq> None" if "map_of (c_loads ?c) i = Some l" "c_fencing ?c" "ld_storable l" for i l
      using that d(3) [of i l] unfolding loads by (auto simp: c split: if_splits)
    show "fl_load fl < c_next ?c" if "map_of (c_inflight ?c) k' = Some fl" for k' fl
      using that d(4) [of k' fl] unfolding fly by (auto simp: c flight_of_def split: if_splits)
    show "jm_wf (c_inflight ?c)" using d(5) by (simp add: c)
  qed
qed (use assms in \<open>simp add: load_def\<close>)

lemma load_ends_inv:
  assumes "flow_inv c"
  shows "flow_inv (snd (load_ends C now i v throws c))"
proof (cases "map_of (c_loads c) i")
  case (Some l)
  note d = flow_invD [OF assms]
  have inv: "flow_inv (c\<lparr> c_loads := AList.delete i (c_loads c) \<rparr>)"
  proof (rule flow_invI)
    show "k < c_next (c\<lparr> c_loads := AList.delete i (c_loads c) \<rparr>)"
      if "map_of (c_loads (c\<lparr> c_loads := AList.delete i (c_loads c) \<rparr>)) k = Some x" for k x
      using that d(1) [of k x] by (simp add: jm_get_delete split: if_splits)
    show "map_of (c_inflight (c\<lparr> c_loads := AList.delete i (c_loads c) \<rparr>)) (ld_key x) = Some (flight_of x k)"
      if "map_of (c_loads (c\<lparr> c_loads := AList.delete i (c_loads c) \<rparr>)) k = Some x" "\<not> ld_withdrawn x" for k x
      using that d(2) [of k x] by (simp add: jm_get_delete split: if_splits)
    show "ld_fenced x \<noteq> None"
      if "map_of (c_loads (c\<lparr> c_loads := AList.delete i (c_loads c) \<rparr>)) k = Some x" "c_fencing (c\<lparr> c_loads := AList.delete i (c_loads c) \<rparr>)"
        "ld_storable x" for k x
      using that d(3) [of k x] by (simp add: jm_get_delete split: if_splits)
    show "fl_load fl < c_next (c\<lparr> c_loads := AList.delete i (c_loads c) \<rparr>)"
      if "map_of (c_inflight (c\<lparr> c_loads := AList.delete i (c_loads c) \<rparr>)) k = Some fl" for k fl
      using that d(4) [of k fl] by simp
  qed (use d(5) in simp)
  show ?thesis
    unfolding load_ends_def Some using inv
    by (simp add: Let_def flow_inv_store split: option.split sum.split)
qed (use assms in \<open>simp add: load_ends_def\<close>)

lemma load_cleanup_inv:
  assumes "flow_inv c" and "map_of (c_loads c) i = None"
  shows "flow_inv (load_cleanup k i c)"
proof (cases "\<exists>fl. map_of (c_inflight c) k = Some fl \<and> fl_load fl = i")
  case True
  note d = flow_invD [OF assms(1)]
  let ?c = "c\<lparr> c_inflight := AList.delete k (c_inflight c) \<rparr>"
  have "flow_inv ?c"
  proof (rule flow_invI)
    show "j < c_next ?c" if "map_of (c_loads ?c) j = Some l" for j l using that d(1) [of j l] by simp
    show "map_of (c_inflight ?c) (ld_key l) = Some (flight_of l j)" if l: "map_of (c_loads ?c) j = Some l" "\<not> ld_withdrawn l" for j l
    proof -
      from l d(2) [of j l] have f: "map_of (c_inflight c) (ld_key l) = Some (flight_of l j)" by simp
      have "ld_key l \<noteq> k"
      proof
        assume "ld_key l = k"
        with f True have "j = i" by (auto simp: flight_of_def)
        with l assms(2) show False by simp
      qed
      with f show ?thesis by (simp add: jm_get_delete)
    qed
    show "ld_fenced l \<noteq> None" if "map_of (c_loads ?c) j = Some l" "c_fencing ?c" "ld_storable l" for j l
      using that d(3) [of j l] by simp
    show "fl_load fl < c_next ?c" if "map_of (c_inflight ?c) k' = Some fl" for k' fl
      using that d(4) [of k' fl] by (simp add: jm_get_delete split: if_splits)
  qed (use d(5) in simp)
  with True show ?thesis by (auto simp: load_cleanup_def)
qed (use assms(1) in \<open>auto simp: load_cleanup_def split: option.split\<close>)

lemma readEntry_inv: "flow_inv (snd (readEntry C now k throws c)) = flow_inv c"
  by (simp add: readEntry_def flow_inv_store split: prod.split)

lemma wrap_answer_inv: "flow_inv c \<Longrightarrow> flow_inv (snd (wrap_answer C now k e opts throws c))"
  using load_inv [of c C k opts throws] by (auto simp: wrap_answer_def revalidate_def split: option.split prod.split)

lemma flow_step_inv:
  assumes "flow_inv c"
  shows "flow_inv (flow_step C e c)"
proof (cases e)
  case (SetE now k v opts)
  with withdraw_inv [OF assms] show ?thesis
    by (simp add: cache_set_def Let_def flow_inv_store split: sum.split)
next
  case (RemoveE k)
  with withdraw_inv [OF assms] show ?thesis by (simp add: cache_remove_def Let_def flow_inv_store)
next
  case (InvalidateE t)
  with withdraw_inv [OF assms] show ?thesis by (simp add: cache_invalidateTag_def Let_def flow_inv_store)
next
  case ClearE
  with withdraw_inv [OF assms] show ?thesis by (simp add: cache_clear_def Let_def flow_inv_store)
qed (use assms in \<open>simp_all add: readEntry_inv wrap_answer_inv load_ends_inv load_cleanup_inv flow_inv_store\<close>)

lemma run_flow_inv: "flow_inv c \<Longrightarrow> flow_inv (fold (flow_step C) es c)"
  by (induction es arbitrary: c) (simp_all add: flow_step_inv)

lemma createCache_inv: "createCache st d f = Inr c \<Longrightarrow> flow_inv c"
  by (auto simp: createCache_def Let_def flow_inv_def split: if_splits)

text \<open>An event does at most one thing to the store, and to a load at most a withdrawal.\<close>

lemma load_put_step:
  "\<exists>op. load_put C now l e st = cache_step C op st"
proof (cases "ld_fenced l")
  case None
  then have "load_put C now l e st = cache_step C (CacheSet now (ld_key l) e (tags_of (ld_opts l))) st"
    by (simp add: load_put_def)
  then show ?thesis by blast
next
  case (Some tok)
  then have "load_put C now l e st = cache_step C (CacheSetIf now (ld_key l) e (tags_of (ld_opts l)) tok) st"
    by (simp add: load_put_def)
  then show ?thesis by blast
qed

lemma load_fields:
  "load C k opts throws c = (i, c') \<Longrightarrow>
   c_store c' = c_store c \<and> c_fencing c' = c_fencing c \<and> c_defaultTtl c' = c_defaultTtl c \<and> c_next c \<le> c_next c'"
  by (auto simp: load_def Let_def split: option.splits)

lemma wrap_answer_fields:
  "wrap_answer C now k e opts throws c = (a, c') \<Longrightarrow>
   c_store c' = c_store c \<and> c_fencing c' = c_fencing c \<and> c_defaultTtl c' = c_defaultTtl c \<and> c_next c \<le> c_next c'"
  using load_fields [OF prod.collapse [symmetric], of C k opts throws c]
  by (auto simp: wrap_answer_def revalidate_def dest: load_fields split: option.splits prod.splits if_splits)

lemma load_store: "c_store (snd (load C k opts throws c)) = c_store c"
  by (simp add: load_def Let_def split: option.split)

lemma wrap_answer_store: "c_store (snd (wrap_answer C now k e opts throws c)) = c_store c"
  using wrap_answer_fields [OF prod.collapse [symmetric], of C now k e opts throws c] by simp

lemma load_ends_store:
  "c_store (snd (load_ends C now i v throws c)) = c_store c
   \<or> (\<exists>op. c_store (snd (load_ends C now i v throws c)) = cache_step C op (c_store c))"
proof -
  have "\<exists>op. load_put C now l x (c_store c) = cache_step C op (c_store c)" for l x by (rule load_put_step)
  then show ?thesis by (auto simp: load_ends_def Let_def split: option.split sum.split)
qed

lemma flow_store:
  assumes "flow_inv c"
  shows "c_store (flow_step C e c) = c_store c \<or> (\<exists>op. c_store (flow_step C e c) = cache_step C op (c_store c))"
proof -
  note w = withdraw_spec(1) [OF flow_invD(5) [OF assms]]
  show ?thesis
  proof (cases e)
    case (SetE now k v opts)
    show ?thesis
    proof (cases "entryOf now (c_defaultTtl c) v opts")
      case (Inr x)
      then have "c_store (flow_step C e c) = cache_step C (CacheSet now k x (tags_of opts)) (c_store c)"
        by (simp add: SetE cache_set_def Let_def w)
      then show ?thesis by blast
    qed (simp add: SetE cache_set_def Let_def w)
  next
    case (RemoveE k)
    then have "c_store (flow_step C e c) = cache_step C (CacheDelete k) (c_store c)" by (simp add: cache_remove_def Let_def w)
    then show ?thesis by blast
  next
    case (InvalidateE t)
    then have "c_store (flow_step C e c) = cache_step C (CacheInvalidate t) (c_store c)" by (simp add: cache_invalidateTag_def Let_def w)
    then show ?thesis by blast
  next
    case ClearE
    then have "c_store (flow_step C e c) = cache_step C CacheClear (c_store c)" by (simp add: cache_clear_def Let_def w)
    then show ?thesis by blast
  next
    case (ReadE now k throws)
    show ?thesis
    proof (cases throws)
      case False
      then have "c_store (flow_step C e c) = cache_step C (CacheGet now k) (c_store c)"
        by (simp add: ReadE readEntry_def split: prod.split)
      then show ?thesis by blast
    qed (simp add: ReadE readEntry_def)
  next
    case (WrapE now k e opts throws)
    then show ?thesis by (simp add: wrap_answer_store)
  next
    case (LoadE now i v throws)
    then show ?thesis using load_ends_store by simp
  next
    case (CleanupE k i)
    then show ?thesis by (simp add: load_cleanup_def split: option.split)
  next
    case (OtherE op)
    then show ?thesis by auto
  qed
qed

lemma load_loads:
  assumes "map_of (c_loads (snd (load C k opts throws c))) i = Some l'"
  shows "map_of (c_loads c) i = Some l' \<or> i = c_next c \<and> ld_fenced l' \<in> {None, Some (co_fence C (c_store c))}"
  using assms by (auto simp: load_def Let_def jm_get_set split: option.splits if_splits)

lemma flow_loads:
  assumes "flow_inv c" and "map_of (c_loads (flow_step C e c)) i = Some l'"
  shows "(\<exists>b l. map_of (c_loads c) i = Some l \<and> l' = mark_withdrawn b l)
    \<or> map_of (c_loads c) i = None \<and> i = c_next c \<and> c_store (flow_step C e c) = c_store c
      \<and> ld_fenced l' \<in> {None, Some (co_fence C (c_store c))}"
proof -
  have same: "\<exists>b l. map_of (c_loads c) i = Some l \<and> l' = mark_withdrawn b l" if "map_of (c_loads c) i = Some l'"
    using that by (intro exI [of _ False] exI [of _ l']) (simp add: mark_withdrawn_def)
  have w: "\<exists>b l. map_of (c_loads c) i = Some l \<and> l' = mark_withdrawn b l" if "map_of (c_loads (withdraw P c)) i = Some l'" for P
    using that unfolding withdraw_spec(6) [OF flow_invD(5) [OF assms(1)]] by auto
  have ld: "map_of (c_loads c) i = Some l' \<or> map_of (c_loads c) i = None \<and> i = c_next c \<and> ld_fenced l' \<in> {None, Some (co_fence C (c_store c))}"
    if "map_of (c_loads (snd (load C k opts throws c))) i = Some l'" for k opts throws
    using load_loads [OF that] flow_invD(1) [OF assms(1), of i] by (cases "map_of (c_loads c) i") auto
  show ?thesis
  proof (cases e)
    case (SetE now k v opts)
    with assms(2) show ?thesis using w by (auto simp: cache_set_def Let_def split: sum.splits)
  next
    case (RemoveE k)
    with assms(2) show ?thesis using w by (auto simp: cache_remove_def Let_def)
  next
    case (InvalidateE t)
    with assms(2) show ?thesis using w by (auto simp: cache_invalidateTag_def Let_def)
  next
    case ClearE
    with assms(2) show ?thesis using w by (auto simp: cache_clear_def Let_def)
  next
    case (ReadE now k throws)
    with assms(2) show ?thesis using same by (auto simp: readEntry_def split: prod.splits if_splits)
  next
    case (WrapE now k x opts throws)
    with assms(2) have "map_of (c_loads c) i = Some l' \<or> map_of (c_loads (snd (load C k opts throws c))) i = Some l'"
      by (auto simp: wrap_answer_def revalidate_def split: option.splits if_splits prod.splits)
    then have "map_of (c_loads c) i = Some l' \<or> map_of (c_loads c) i = None \<and> i = c_next c \<and> ld_fenced l' \<in> {None, Some (co_fence C (c_store c))}"
      using ld by blast
    moreover have "c_store (flow_step C e c) = c_store c" by (simp add: WrapE wrap_answer_store)
    ultimately show ?thesis using same by blast
  next
    case (LoadE now j v throws)
    with assms(2) have "map_of (c_loads c) i = Some l'"
      by (auto simp: load_ends_def Let_def jm_get_delete split: option.splits if_splits sum.splits)
    with same show ?thesis by blast
  next
    case (CleanupE k j)
    with assms(2) show ?thesis using same by (auto simp: load_cleanup_def split: option.splits if_splits)
  next
    case (OtherE op)
    with assms(2) same show ?thesis by simp
  qed
qed

lemma flow_fencing: "flow_inv c \<Longrightarrow> c_fencing (flow_step C e c) = c_fencing c"
proof -
  assume inv: "flow_inv c"
  note w = withdraw_spec(3) [OF flow_invD(5) [OF inv]]
  have "c_fencing (snd (wrap_answer C now k x opts throws c)) = c_fencing c" for now k x opts throws
    using wrap_answer_fields [OF prod.collapse [symmetric], of C now k x opts throws c] by simp
  then show ?thesis
    by (cases e) (auto simp: cache_set_def cache_remove_def cache_invalidateTag_def cache_clear_def readEntry_def
        load_ends_def load_cleanup_def Let_def w split: option.splits sum.splits prod.splits if_splits)
qed

text \<open>The number of a load is never used again.\<close>

lemma flow_next:
  assumes "flow_inv c"
  shows "c_next c \<le> c_next (flow_step C e c)"
proof -
  note w = withdraw_spec(2) [OF flow_invD(5) [OF assms]]
  have "c_next c \<le> c_next (snd (wrap_answer C now k x opts throws c))" for now k x opts throws
    using wrap_answer_fields [OF prod.collapse [symmetric], of C now k x opts throws c] by simp
  then show ?thesis
    by (cases e) (auto simp: cache_set_def cache_remove_def cache_invalidateTag_def cache_clear_def readEntry_def
        load_ends_def load_cleanup_def Let_def w split: option.splits sum.splits prod.splits if_splits)
qed

lemma gone_step:
  assumes "flow_inv c" and "map_of (c_loads c) i = None" and "i < c_next c"
  shows "map_of (c_loads (flow_step C e c)) i = None"
proof (rule ccontr)
  assume "map_of (c_loads (flow_step C e c)) i \<noteq> None"
  then obtain l' where l': "map_of (c_loads (flow_step C e c)) i = Some l'" by blast
  from flow_loads [OF assms(1) l'] assms(2,3) show False by simp
qed

lemma gone_stays:
  "flow_inv c \<Longrightarrow> map_of (c_loads c) i = None \<Longrightarrow> i < c_next c \<Longrightarrow> map_of (c_loads (fold (flow_step C) es c)) i = None"
proof (induction es arbitrary: c)
  case (Cons e es)
  have "i < c_next (flow_step C e c)" using flow_next [OF Cons.prems(1), of C e] Cons.prems(3) by simp
  from Cons.IH [OF flow_step_inv [OF Cons.prems(1)] gone_step [OF Cons.prems] this] show ?case by simp
qed simp

context cache_store
begin

definition dead_load :: "'t load_run \<Rightarrow> 's \<Rightarrow> bool" where
  "dead_load l s \<longleftrightarrow>
     ld_withdrawn l \<or> \<not> ld_storable l
     \<or> (\<exists>tok. ld_fenced l = Some tok \<and> broken (ld_key l) (tags_of (ld_opts l)) tok s)"

definition loads_issued :: "('t, 's) cache \<Rightarrow> bool" where
  "loads_issued c \<longleftrightarrow>
     ok (c_store c) \<and> (\<forall>i l tok. map_of (c_loads c) i = Some l \<longrightarrow> ld_fenced l = Some tok \<longrightarrow> issued tok (c_store c))"

lemma loads_issuedD:
  "loads_issued c \<Longrightarrow> ok (c_store c)"
  "loads_issued c \<Longrightarrow> map_of (c_loads c) i = Some l \<Longrightarrow> ld_fenced l = Some tok \<Longrightarrow> issued tok (c_store c)"
  unfolding loads_issued_def by blast+

lemma step_issued_loads:
  assumes inv: "flow_inv c" and iss: "loads_issued c"
  shows "loads_issued (flow_step C e c)"
proof -
  have st: "ok (c_store (flow_step C e c)) \<and> (\<forall>tok. issued tok (c_store c) \<longrightarrow> issued tok (c_store (flow_step C e c)))"
    using flow_store [OF inv, of C e] step_ok issued_step loads_issuedD(1) [OF iss] by auto
  have "issued tok (c_store (flow_step C e c))"
    if l: "map_of (c_loads (flow_step C e c)) i = Some l" and f: "ld_fenced l = Some tok" for i l tok
    using flow_loads [OF inv l]
  proof
    assume "\<exists>b l0. map_of (c_loads c) i = Some l0 \<and> l = mark_withdrawn b l0"
    then obtain b l0 where "map_of (c_loads c) i = Some l0" "l = mark_withdrawn b l0" by blast
    with f st loads_issuedD(2) [OF iss] show ?thesis by auto
  next
    assume "map_of (c_loads c) i = None \<and> i = c_next c \<and> c_store (flow_step C e c) = c_store c \<and> ld_fenced l \<in> {None, Some (co_fence C (c_store c))}"
    with f st fence_issued [OF loads_issuedD(1) [OF iss]] show ?thesis by auto
  qed
  with st show ?thesis unfolding loads_issued_def by blast
qed

lemma step_dead:
  assumes inv: "flow_inv c" and iss: "loads_issued c" and l: "map_of (c_loads c) i = Some l"
    and fencing: "c_fencing c"
    and cause: "dead_load l (c_store c) \<or> flow_overtakes C (ld_key l) (tags_of (ld_opts l)) e c"
    and l': "map_of (c_loads (flow_step C e c)) i = Some l'"
  shows "dead_load l' (c_store (flow_step C e c))"
proof -
  from flow_loads [OF inv l'] l obtain b where b: "l' = mark_withdrawn b l" by auto
  show ?thesis
  proof (cases "dead_load l (c_store c)")
    case True
    have "broken (ld_key l) (tags_of (ld_opts l)) tok (c_store (flow_step C e c))"
      if "ld_fenced l = Some tok" "broken (ld_key l) (tags_of (ld_opts l)) tok (c_store c)" for tok
      using flow_store [OF inv, of C e] that broken_step [OF loads_issuedD(1) [OF iss] loads_issuedD(2) [OF iss l that(1)]]
      by auto
    with True show ?thesis unfolding dead_load_def b by auto
  next
    case False
    then have live: "\<not> ld_withdrawn l" "ld_storable l" by (simp_all add: dead_load_def)
    from flow_invD(3) [OF inv l fencing live(2)] obtain tok where tok: "ld_fenced l = Some tok" by blast
    note marks = withdraw_marks [OF inv l]
    show ?thesis
    proof (cases e)
      case (SetE now k v opts)
      with False cause marks [of "\<lambda>k' ts. k' = k"] l' show ?thesis
        by (auto simp: dead_load_def cache_set_def Let_def split: sum.splits)
    next
      case (RemoveE k)
      with False cause marks [of "\<lambda>k' ts. k' = k"] l' show ?thesis
        by (auto simp: dead_load_def cache_remove_def Let_def)
    next
      case (InvalidateE t)
      with False cause marks [of "\<lambda>k' ts. t \<in> set ts"] l' show ?thesis
        by (auto simp: dead_load_def cache_invalidateTag_def Let_def)
    next
      case ClearE
      with marks [of "\<lambda>k' ts. True"] l' show ?thesis
        by (auto simp: dead_load_def cache_clear_def Let_def)
    next
      case (OtherE op)
      with False cause broken_step [OF loads_issuedD(1) [OF iss] loads_issuedD(2) [OF iss l tok]] tok
      show ?thesis unfolding dead_load_def b by auto
    qed (use False cause in auto)
  qed
qed

lemma run_dead:
  "flow_inv c \<Longrightarrow> loads_issued c \<Longrightarrow> c_fencing c \<Longrightarrow> map_of (c_loads c) i = Some l \<Longrightarrow>
   dead_load l (c_store c) \<or> flow_overtaken C (ld_key l) (tags_of (ld_opts l)) es c \<Longrightarrow>
   map_of (c_loads (fold (flow_step C) es c)) i = Some l' \<Longrightarrow> dead_load l' (c_store (fold (flow_step C) es c))"
proof (induction es arbitrary: c l)
  case (Cons e es)
  note inv = Cons.prems(1)
  show ?case
  proof (cases "map_of (c_loads (flow_step C e c)) i")
    case None
    have "i < c_next (flow_step C e c)"
      using flow_next [OF inv, of C e] flow_invD(1) [OF inv Cons.prems(4)] by simp
    from gone_stays [OF flow_step_inv [OF inv] None this, of C es] Cons.prems(6) show ?thesis by simp
  next
    case (Some l1)
    from flow_loads [OF inv Some] Cons.prems(4) obtain b where b: "l1 = mark_withdrawn b l" by auto
    have "dead_load l1 (c_store (flow_step C e c)) \<or> flow_overtaken C (ld_key l1) (tags_of (ld_opts l1)) es (flow_step C e c)"
      using step_dead [OF inv Cons.prems(2,4,3) _ Some] Cons.prems(5) b by auto
    from Cons.IH [OF flow_step_inv [OF inv] step_issued_loads [OF inv Cons.prems(2)] _ Some this] Cons.prems(3,6) flow_fencing [OF inv, of C e]
    show ?thesis by simp
  qed
qed simp

lemma dead_load_writes_nothing:
  assumes "map_of (c_loads c) i = Some l" and "dead_load l (c_store c)"
  shows "c_store (snd (load_ends C now i v throws c)) = c_store c"
  using assms
  by (auto simp: load_ends_def Let_def dead_load_def load_put_def set_if_law split: option.splits sum.splits)

end

section \<open>Properties\<close>

lemma run_facts:
  assumes "new_cache m = Some s0" and "createCache s0 d True = Inr c0"
  shows "flow_inv (fold (flow_step memory_cache_ops) es c0)" and "memory_cache.loads_issued (fold (flow_step memory_cache_ops) es c0)"
    and "c_fencing (fold (flow_step memory_cache_ops) es c0)"
proof -
  from assms(2) have c0: "c_store c0 = s0" "c_loads c0 = []" "c_fencing c0" by (auto simp: createCache_def Let_def split: if_splits)
  have "flow_inv c \<Longrightarrow> memory_cache.loads_issued c \<Longrightarrow> c_fencing c \<Longrightarrow>
      memory_cache.loads_issued (fold (flow_step memory_cache_ops) es c) \<and> c_fencing (fold (flow_step memory_cache_ops) es c)"
    for c :: "(int option, 'a mem_cache) cache"
  proof (induction es arbitrary: c)
    case (Cons e es)
    from Cons.IH [OF flow_step_inv [OF Cons.prems(1)] memory_cache.step_issued_loads [OF Cons.prems(1,2)]]
      flow_fencing [OF Cons.prems(1), of memory_cache_ops e] Cons.prems(3) show ?case by simp
  qed simp
  moreover have "memory_cache.loads_issued c0"
    using c0 new_cache_inv [OF assms(1)] by (simp add: memory_cache.loads_issued_def)
  moreover note createCache_inv [OF assms(2)] c0(3)
  ultimately show "memory_cache.loads_issued (fold (flow_step memory_cache_ops) es c0)" "c_fencing (fold (flow_step memory_cache_ops) es c0)"
    by blast+
  show "flow_inv (fold (flow_step memory_cache_ops) es c0)" by (rule run_flow_inv [OF createCache_inv [OF assms(2)]])
qed

text \<open>
  C24: an overtaken load never writes its value back: when, after a load of a key started, the key was set or
  removed, one of the load's tags was invalidated or the cache was cleared - through this cache or by
  another one that shares its store - the load's end leaves the store as it is, however late it comes and
  whatever ran in between.
\<close>

theorem overtaken_load_never_written:
  assumes "new_cache m = Some s0" and "createCache s0 d True = Inr c0" and "c1 = fold (flow_step memory_cache_ops) earlier c0"
    and "map_of (c_loads c1) i = Some l" and "flow_overtaken memory_cache_ops (ld_key l) (tags_of (ld_opts l)) es c1"
  shows "let c2 = fold (flow_step memory_cache_ops) es c1 in
    c_store (snd (load_ends memory_cache_ops now i loaded throws c2)) = c_store c2"
proof -
  let ?c2 = "fold (flow_step memory_cache_ops) es c1"
  note f = run_facts [OF assms(1,2), of earlier, folded assms(3)]
  show ?thesis
  proof (cases "map_of (c_loads ?c2) i")
    case (Some l')
    from memory_cache.run_dead [OF f assms(4) disjI2 [OF assms(5)] Some]
    show ?thesis unfolding Let_def by (rule memory_cache.dead_load_writes_nothing [OF Some])
  qed (simp add: load_ends_def Let_def)
qed

text \<open>
  C25: single flight: of the loads still entitled to write there is at most one per key, whatever calls, ends
  and withdrawals interleave, and while one runs a \<open>wrap\<close> of its key joins it: it starts no second loader
  and leaves the cache as it is, on a miss and on a stale hit.
\<close>

theorem one_load_per_key:
  assumes "createCache s0 d f = Inr c0" and "c = fold (flow_step C) es c0"
    and "map_of (c_loads c) i = Some l" and "\<not> ld_withdrawn l"
  shows "(case map_of (c_loads c) j of None \<Rightarrow> True | Some l' \<Rightarrow> ld_withdrawn l' \<or> ld_key l' \<noteq> ld_key l \<or> i = j)
    \<and> wrap_answer C now (ld_key l) None opts throws c = (Awaits i, c)
    \<and> snd (wrap_answer C now (ld_key l) (Some e) opts throws c) = c"
proof -
  have inv: "flow_inv c" unfolding assms(2) by (rule run_flow_inv [OF createCache_inv [OF assms(1)]])
  have fl: "map_of (c_inflight c) (ld_key l) = Some (flight_of l i)" by (rule flow_invD(2) [OF inv assms(3,4)])
  have "i = j" if "map_of (c_loads c) j = Some l'" "\<not> ld_withdrawn l'" "ld_key l' = ld_key l" for l'
    using flow_invD(2) [OF inv that(1,2)] that(3) fl by (simp add: flight_of_def)
  moreover have "wrap_answer C now (ld_key l) None opts throws c = (Awaits i, c)"
    using fl by (simp add: wrap_answer_def load_def flight_of_def)
  moreover have "snd (wrap_answer C now (ld_key l) (Some e) opts throws c) = c"
    using fl by (simp add: wrap_answer_def revalidate_def)
  ultimately show ?thesis by (auto split: option.split)
qed

text \<open>
  The windows of an entry: after a \<open>set\<close> that is accepted, a \<open>wrap\<close> of the key serves the value without
  a load until the time to live has passed, then serves it while a refresh is in flight until the
  stale-while-revalidate window has passed too, and from then on waits for a load; \<open>get\<close> finds the value
  exactly as long as \<open>wrap\<close> serves it.
\<close>

theorem entry_windows:
  assumes "cache_inv (c_store c)" and "flow_inv c" and "cache_set memory_cache_ops t0 k v opts c = (Inr (), c1)"
    and "ttl = millis (case so_ttlMs opts of None \<Rightarrow> c_defaultTtl c | Some d \<Rightarrow> d)"
    and "swr = millis (case so_swrMs opts of None \<Rightarrow> Ms 0 | Some d \<Rightarrow> d)"
    and "readEntry memory_cache_ops t k False c1 = (e, c2)" and "wrap_answer memory_cache_ops t k e wopts throws c2 = (a, c3)"
  shows "fst (cache_get memory_cache_ops t k c1) = (if t < t0 + ttl + swr then Some v else None)
    \<and> readOutcome t e = (if t < t0 + ttl then Hit else if t < t0 + ttl + swr then Stale else Miss)
    \<and> (if t < t0 + ttl then a = Served v \<and> c3 = c2
       else if t < t0 + ttl + swr then a = Served v \<and> map_of (c_inflight c3) k \<noteq> None
       else a = Awaits (c_next c2) \<and> map_of (c_inflight c3) k \<noteq> None)"
proof -
  define x where "x = \<lparr> e_value = v, e_expiresAt = t0 + ttl + swr, e_staleAt = t0 + ttl \<rparr>"
  note w = withdraw_spec [OF flow_invD(5) [OF assms(2)], of "\<lambda>k' ts. k' = k"]
  let ?st = "set_entry t0 k x (tags_of opts) (c_store c)"
  from assms(3) obtain y where y: "entryOf t0 (c_defaultTtl c) v opts = Inr y"
    by (auto simp: cache_set_def Let_def split: sum.splits)
  then have yx: "y = x" and pos: "0 \<le> ttl" "0 \<le> swr" and c1: "c1 = (withdraw (\<lambda>k' ts. k' = k) c)\<lparr> c_store := ?st \<rparr>"
  proof -
    from y have "assertDuration (case so_ttlMs opts of None \<Rightarrow> c_defaultTtl c | Some d \<Rightarrow> d)"
      "assertDuration (case so_swrMs opts of None \<Rightarrow> Ms 0 | Some d \<Rightarrow> d)" and e: "y = x"
      by (auto simp: entryOf_def Let_def x_def assms(4,5) split: if_splits)
    then show "0 \<le> ttl" "0 \<le> swr" unfolding assms(4,5) by (metis assertDuration.elims(2) millis.simps(1))+
    show "y = x" by (rule e)
    show "c1 = (withdraw (\<lambda>k' ts. k' = k) c)\<lparr> c_store := ?st \<rparr>"
      using assms(3) y e by (simp add: cache_set_def Let_def w(1))
  qed
  have inv: "cache_inv ?st" using set_entry_view [OF assms(1)] by blast
  from in_use_row [OF inv set_used [OF assms(1)]]
  have view: "cache_view ?st k = Some (x, tags_of opts)" by (simp add: cache_view_row)
  have get: "fst (get_entry t k ?st) = (if t < t0 + ttl + swr then Some x else None)"
    using get_entry_spec [OF inv, of t k] view by (simp add: x_def)
  have free: "map_of (c_inflight c1) k = None" unfolding c1 using w(7) [of k] by (simp split: option.split)
  have e: "e = (if t < t0 + ttl + swr then Some x else None)" and c2: "c_inflight c2 = c_inflight c1"
    using assms(6) get by (auto simp: readEntry_def c1 split: prod.splits)
  have load: "map_of (c_inflight (snd (load memory_cache_ops k wopts throws c2))) k \<noteq> None
      \<and> fst (load memory_cache_ops k wopts throws c2) = c_next c2"
    using free c2 by (simp add: load_def Let_def jm_get_set)
  have "fst (cache_get memory_cache_ops t k c1) = map_option e_value e"
    using e get by (simp add: cache_get_def c1 split: prod.split) (metis fst_conv)
  moreover have "readOutcome t e = (if t < t0 + ttl then Hit else if t < t0 + ttl + swr then Stale else Miss)"
    using e pos by (simp add: readOutcome_def x_def)
  moreover have "if t < t0 + ttl then a = Served v \<and> c3 = c2
       else if t < t0 + ttl + swr then a = Served v \<and> map_of (c_inflight c3) k \<noteq> None
       else a = Awaits (c_next c2) \<and> map_of (c_inflight c3) k \<noteq> None"
    using assms(7) e pos load free c2 by (auto simp: wrap_answer_def revalidate_def x_def split: prod.splits if_splits)
  ultimately show ?thesis using e by (simp add: x_def)
qed

section \<open>Witnesses\<close>

definition flow0 :: "(int option, nat mem_cache) cache" where
  "flow0 = \<lparr> c_store = small_cache, c_defaultTtl = Ms 60000, c_fencing = True, c_inflight = [], c_loads = [], c_next = 0 \<rparr>"

lemma flow0_created: "createCache small_cache None True = Inr flow0"
  by (simp add: createCache_def flow0_def)

definition with_tag :: "jstr \<Rightarrow> set_options" where
  "with_tag t = \<lparr> so_ttlMs = None, so_swrMs = Some (Ms 50), so_tags = Some [t] \<rparr>"

definition misses :: "(nat, int option) flow_event list" where
  "misses = [WrapE 1 (js ''user'') None (with_tag (js ''u'')) False]"

theorem overtaken_load_never_written_witness:
  "let c2 = fold (flow_step memory_cache_ops) [OtherE (CacheInvalidate (js ''u''))] (fold (flow_step memory_cache_ops) misses flow0) in
   map_of (c_loads c2) 0 \<noteq> None \<and> c_store (snd (load_ends memory_cache_ops 5 0 (Some 7) False c2)) = c_store c2"
proof -
  let ?c1 = "fold (flow_step memory_cache_ops) misses flow0"
  let ?l = "the (map_of (c_loads ?c1) 0)"
  have l: "map_of (c_loads ?c1) 0 = Some ?l" by code_simp
  have o: "flow_overtaken memory_cache_ops (ld_key ?l) (tags_of (ld_opts ?l)) [OtherE (CacheInvalidate (js ''u''))] ?c1" by code_simp
  have "map_of (c_loads (fold (flow_step memory_cache_ops) [OtherE (CacheInvalidate (js ''u''))] ?c1)) 0 \<noteq> None" by code_simp
  with overtaken_load_never_written [OF small_cache_new flow0_created refl l o, of 5 "Some 7" False]
  show ?thesis unfolding Let_def by blast
qed

theorem one_load_per_key_witness:
  "let c1 = fold (flow_step memory_cache_ops) misses flow0 in
   wrap_answer memory_cache_ops 3 (js ''user'') None (with_tag (js ''u'')) False c1 = (Awaits 0, c1)"
proof -
  let ?c1 = "fold (flow_step memory_cache_ops) misses flow0"
  let ?l = "the (map_of (c_loads ?c1) 0)"
  have l: "map_of (c_loads ?c1) 0 = Some ?l" by code_simp
  have n: "\<not> ld_withdrawn ?l" by code_simp
  have k: "ld_key ?l = js ''user''" by code_simp
  from one_load_per_key [OF flow0_created refl l n, of 0 3 "with_tag (js ''u'')" False entry7] k show ?thesis
    unfolding Let_def k by blast
qed

theorem entry_windows_witness:
  "let c1 = snd (cache_set memory_cache_ops 10 (js ''user'') 7 (with_tag (js ''u'')) flow0) in
   fst (cache_get memory_cache_ops 60049 (js ''user'') c1) = Some 7
   \<and> fst (cache_get memory_cache_ops 60060 (js ''user'') c1) = None"
proof -
  let ?s = "cache_set memory_cache_ops 10 (js ''user'') 7 (with_tag (js ''u'')) flow0"
  have inv: "cache_inv (c_store flow0)" by (simp add: flow0_def new_cache_inv [OF small_cache_new])
  have finv: "flow_inv flow0" by (rule createCache_inv [OF flow0_created])
  have "fst ?s = Inr ()" by code_simp
  then have s: "?s = (Inr (), snd ?s)" by (metis prod.collapse)
  have t: "60000 = millis (case so_ttlMs (with_tag (js ''u'')) of None \<Rightarrow> c_defaultTtl flow0 | Some d \<Rightarrow> d)"
    "50 = millis (case so_swrMs (with_tag (js ''u'')) of None \<Rightarrow> Ms 0 | Some d \<Rightarrow> d)" by code_simp+
  note w = entry_windows [OF inv finv s t prod.collapse [symmetric] prod.collapse [symmetric], of _ "with_tag (js ''u'')" False]
  from conjunct1 [OF w [of 60049]] conjunct1 [OF w [of 60060]] show ?thesis by (simp add: Let_def)
qed

end
