(* ===== verification/Cron.thy ===== *)
theory Cron
  imports ParamConstraint
begin

text \<open>
  Cron expressions and the scheduler: \<open>packages/cron/src/parse.ts\<close> and \<open>packages/cron/src/scheduler.ts\<close>.

  \<^item> The regular expression \<open>CRON_TERM\<close> is a split at the slash and at the dash; a \<open>Set\<close> of values is a list
    without repetition in the order of insertion.
  \<^item> What \<open>Date\<close> knows of the host's time zone are parameters: local time from an instant, an instant from
    local time, and the calendar fields of a local time, all in milliseconds.
  \<^item> The interval timer is left out; a handler is how its call returns, and the end of its promise is an event.
\<close>

section \<open>Terms and fields\<close>

datatype cron_error =
    FieldCount nat | EmptyTerm | InvalidTerm jstr | InvalidStep | OutOfRange jstr | NotText

record cron_range =
  cr_min :: nat
  cr_max :: nat
  cr_last :: nat

definition RANGES :: "cron_range list" where
  "RANGES =
     [\<lparr> cr_min = 0, cr_max = 59, cr_last = 59 \<rparr>, \<lparr> cr_min = 0, cr_max = 23, cr_last = 23 \<rparr>,
      \<lparr> cr_min = 1, cr_max = 31, cr_last = 31 \<rparr>, \<lparr> cr_min = 1, cr_max = 12, cr_last = 12 \<rparr>,
      \<lparr> cr_min = 0, cr_max = 7, cr_last = 6 \<rparr>]"

definition one_or_two_digits :: "jstr \<Rightarrow> nat option" where
  "one_or_two_digits s = (if 1 \<le> length s \<and> length s \<le> 2 \<and> list_all is_digit s then Some (number_of s) else None)"

definition term_body :: "jstr \<Rightarrow> (nat option \<times> nat option) option" where
  "term_body s =
     (if s = js ''*'' then Some (None, None)
      else
        (case split_on 45 s of
           [a] \<Rightarrow> map_option (\<lambda>m. (Some m, None)) (one_or_two_digits a)
         | [a, b] \<Rightarrow>
             (case (one_or_two_digits a, one_or_two_digits b) of
                (Some m, Some n) \<Rightarrow> Some (Some m, Some n) | _ \<Rightarrow> None)
         | _ \<Rightarrow> None))"

definition cron_term :: "jstr \<Rightarrow> (nat option \<times> nat option \<times> nat option) option" where
  "cron_term part =
     (case split_on 47 part of
        [body] \<Rightarrow> map_option (\<lambda>(m, n). (m, n, None)) (term_body body)
      | [body, st] \<Rightarrow>
          (case (term_body body, one_or_two_digits st) of
             (Some (m, n), Some k) \<Rightarrow> Some (m, n, Some k) | _ \<Rightarrow> None)
      | _ \<Rightarrow> None)"

text \<open>\<open>for (let v = lo; v <= hi; v += step)\<close>; a step below 1 never gets here.\<close>

function step_values :: "nat \<Rightarrow> nat \<Rightarrow> nat \<Rightarrow> nat list" where
  "step_values lo hi st = (if lo > hi \<or> st = 0 then [] else lo # step_values (lo + st) hi st)"
  by pat_completeness auto
termination
  by (relation "measure (\<lambda>(lo, hi, st). Suc hi - lo)") auto

declare step_values.simps [simp del]

definition add_all :: "nat list \<Rightarrow> nat list \<Rightarrow> nat list" where
  "add_all vs out = fold (\<lambda>v xs. if v \<in> set xs then xs else xs @ [v]) vs out"

definition parse_part :: "cron_range \<Rightarrow> jstr \<Rightarrow> cron_error + nat list" where
  "parse_part rg part =
     (if part = [] then Inl EmptyTerm
      else
        (case cron_term part of
           None \<Rightarrow> Inl (InvalidTerm part)
         | Some (start, stop, stepText) \<Rightarrow>
             (let st = (case stepText of None \<Rightarrow> 1 | Some n \<Rightarrow> n) in
              if st < 1 then Inl InvalidStep
              else
                (let lo = (case start of None \<Rightarrow> cr_min rg | Some n \<Rightarrow> n);
                     hi = (case stop of
                             Some n \<Rightarrow> n
                           | None \<Rightarrow>
                               (case start of
                                  None \<Rightarrow> cr_last rg
                                | Some _ \<Rightarrow> if stepText \<noteq> None then max lo (cr_last rg) else lo)) in
                 if lo < cr_min rg \<or> hi > cr_max rg \<or> lo > hi then Inl (OutOfRange part)
                 else Inr (step_values lo hi st)))))"

fun parse_parts :: "cron_range \<Rightarrow> jstr list \<Rightarrow> nat list \<Rightarrow> cron_error + nat list" where
  "parse_parts rg [] out = Inr out"
| "parse_parts rg (p # ps) out =
     (case parse_part rg p of Inl e \<Rightarrow> Inl e | Inr vs \<Rightarrow> parse_parts rg ps (add_all vs out))"

definition parseField :: "cron_range \<Rightarrow> jstr \<Rightarrow> cron_error + nat list" where
  "parseField rg raw = parse_parts rg (split_on 44 raw) []"

section \<open>Expressions\<close>

definition MACROS :: "(jstr, jstr) jmap" where
  "MACROS =
     [(js ''@yearly'', js ''0 0 1 1 *''), (js ''@annually'', js ''0 0 1 1 *''), (js ''@monthly'', js ''0 0 1 * *''),
      (js ''@weekly'', js ''0 0 * * 0''), (js ''@daily'', js ''0 0 * * *''), (js ''@midnight'', js ''0 0 * * *''),
      (js ''@hourly'', js ''0 * * * *'')]"

text \<open>\<open>MACROS[expr]\<close> also finds what every object inherits, and those values are no texts.\<close>

definition INHERITED :: "jstr list" where
  "INHERITED =
     [js ''constructor'', js ''__defineGetter__'', js ''__defineSetter__'', js ''hasOwnProperty'', js ''__lookupGetter__'',
      js ''__lookupSetter__'', js ''isPrototypeOf'', js ''propertyIsEnumerable'', js ''toString'', js ''valueOf'',
      js ''__proto__'', js ''toLocaleString'']"

text \<open>\<open>s.split(/\s+/)\<close>.\<close>

function split_spaces :: "jstr \<Rightarrow> jstr list" where
  "split_spaces [] = [[]]"
| "split_spaces (c # cs) =
     (if is_space c then [] # split_spaces (dropWhile is_space cs)
      else (case split_spaces cs of [] \<Rightarrow> [[c]] | p # ps \<Rightarrow> (c # p) # ps))"
  by pat_completeness auto
termination
  by (relation "measure length") (auto simp: le_imp_less_Suc length_dropWhile_le)

record cron_fields =
  cf_minute :: "nat list"
  cf_hour :: "nat list"
  cf_dom :: "nat list"
  cf_month :: "nat list"
  cf_dow :: "nat list"
  cf_domRestricted :: bool
  cf_dowRestricted :: bool

fun parse_fields :: "cron_range list \<Rightarrow> jstr list \<Rightarrow> cron_error + nat list list" where
  "parse_fields [] parts = Inr []"
| "parse_fields (rg # rgs) [] = Inr []"
| "parse_fields (rg # rgs) (p # ps) =
     (case parseField rg p of
        Inl e \<Rightarrow> Inl e
      | Inr vs \<Rightarrow> (case parse_fields rgs ps of Inl e \<Rightarrow> Inl e | Inr vss \<Rightarrow> Inr (vs # vss)))"

definition sunday :: "nat list \<Rightarrow> nat list" where
  "sunday dow = (if 7 \<in> set dow then add_all [0] (removeAll 7 dow) else dow)"

definition starred :: "jstr \<Rightarrow> bool" where
  "starred s \<longleftrightarrow> prefix (js ''*'') s"

definition parseCron :: "jstr \<Rightarrow> cron_error + cron_fields" where
  "parseCron expression =
     (let expr = trim expression in
      if expr \<in> set INHERITED then Inl NotText
      else
        (let parts = split_spaces (case map_of MACROS expr of None \<Rightarrow> expr | Some m \<Rightarrow> m) in
         if length parts \<noteq> 5 then Inl (FieldCount (length parts))
         else
           (case parse_fields RANGES parts of
              Inl e \<Rightarrow> Inl e
            | Inr fs \<Rightarrow>
                Inr \<lparr> cf_minute = fs ! 0, cf_hour = fs ! 1, cf_dom = fs ! 2, cf_month = fs ! 3, cf_dow = sunday (fs ! 4),
                      cf_domRestricted = \<not> starred (parts ! 2), cf_dowRestricted = \<not> starred (parts ! 4) \<rparr>)))"

section \<open>Matching\<close>

record local_time =
  lt_year :: nat
  lt_month :: nat
  lt_day :: nat
  lt_hour :: nat
  lt_minute :: nat
  lt_weekday :: nat

definition matches :: "cron_fields \<Rightarrow> local_time \<Rightarrow> bool" where
  "matches f d =
     (if lt_minute d \<notin> set (cf_minute f) then False
      else if lt_hour d \<notin> set (cf_hour f) then False
      else if lt_month d + 1 \<notin> set (cf_month f) then False
      else
        (let domOk = lt_day d \<in> set (cf_dom f); dowOk = lt_weekday d \<in> set (cf_dow f) in
         if cf_domRestricted f \<and> cf_dowRestricted f then domOk \<or> dowOk else domOk \<and> dowOk))"

definition CAP :: nat where
  "CAP = 5 * 366 * 24 * 60"

function scan_minutes :: "(int \<Rightarrow> bool) \<Rightarrow> (int \<Rightarrow> int) \<Rightarrow> nat \<Rightarrow> int \<Rightarrow> int option" where
  "scan_minutes ok next_minute n d =
     (if n = 0 then None else if ok d then Some d else scan_minutes ok next_minute (n - 1) (next_minute d))"
  by pat_completeness auto
termination
  by (relation "measure (\<lambda>(ok, nx, n, d). n)") auto

declare scan_minutes.simps [simp del]

text \<open>\<open>setSeconds(0, 0)\<close> and \<open>setMinutes(getMinutes() + 1)\<close> go through local time and back.\<close>

definition floor_minute :: "(int \<Rightarrow> int) \<Rightarrow> (int \<Rightarrow> int) \<Rightarrow> int \<Rightarrow> int" where
  "floor_minute toLocal toInstant t = toInstant (toLocal t - toLocal t mod 60000)"

definition next_minute :: "(int \<Rightarrow> int) \<Rightarrow> (int \<Rightarrow> int) \<Rightarrow> int \<Rightarrow> int" where
  "next_minute toLocal toInstant t = toInstant (toLocal t + 60000)"

definition nextRun :: "(int \<Rightarrow> int) \<Rightarrow> (int \<Rightarrow> int) \<Rightarrow> (int \<Rightarrow> local_time) \<Rightarrow> cron_fields \<Rightarrow> int \<Rightarrow> int option" where
  "nextRun toLocal toInstant calendar f since =
     scan_minutes (\<lambda>t. matches f (calendar (toLocal t))) (next_minute toLocal toInstant) CAP
       (next_minute toLocal toInstant (floor_minute toLocal toInstant since))"

section \<open>The scheduler\<close>

record cron_job =
  cj_fields :: cron_fields
  cj_expr :: jstr
  cj_running :: bool
  cj_lastFiredMinute :: jstr

type_synonym scheduler = "(jstr, cron_job) jmap"

datatype handler_start = Throws | Returns | Promises

datatype run_log = Started jstr | Ended jstr

definition minuteKey :: "local_time \<Rightarrow> jstr" where
  "minuteKey d =
     dec (lt_year d) @ js ''-'' @ dec (lt_month d) @ js ''-'' @ dec (lt_day d) @ js ''-'' @ dec (lt_hour d) @ js ''-''
     @ dec (lt_minute d)"

definition fire :: "handler_start \<Rightarrow> jstr \<Rightarrow> cron_job \<Rightarrow> run_log list \<times> cron_job" where
  "fire h name job =
     (if cj_running job then ([], job)
      else
        (case h of
           Throws \<Rightarrow> ([Started name, Ended name], job\<lparr> cj_running := False \<rparr>)
         | Returns \<Rightarrow> ([Started name, Ended name], job\<lparr> cj_running := False \<rparr>)
         | Promises \<Rightarrow> ([Started name], job\<lparr> cj_running := True \<rparr>)))"

datatype add_error = DuplicateName | BadExpression cron_error

definition add_job :: "jstr \<Rightarrow> jstr \<Rightarrow> scheduler \<Rightarrow> add_error + scheduler" where
  "add_job name expression s =
     (if map_of s name \<noteq> None then Inl DuplicateName
      else
        (case parseCron expression of
           Inl e \<Rightarrow> Inl (BadExpression e)
         | Inr f \<Rightarrow>
             Inr (AList.update name \<lparr> cj_fields = f, cj_expr = expression, cj_running = False, cj_lastFiredMinute = [] \<rparr> s)))"

fun tick :: "local_time \<Rightarrow> (jstr \<Rightarrow> handler_start) \<Rightarrow> scheduler \<Rightarrow> run_log list \<times> scheduler" where
  "tick d h [] = ([], [])"
| "tick d h ((name, job) # s) =
     (case tick d h s of
        (lg, s') \<Rightarrow>
          if cj_lastFiredMinute job = minuteKey d then (lg, (name, job) # s')
          else if matches (cj_fields job) d
          then (case fire (h name) name (job\<lparr> cj_lastFiredMinute := minuteKey d \<rparr>) of
                  (l, job') \<Rightarrow> (l @ lg, (name, job') # s'))
          else (lg, (name, job) # s'))"

definition runNow :: "jstr \<Rightarrow> handler_start \<Rightarrow> scheduler \<Rightarrow> run_log list \<times> scheduler" where
  "runNow name h s =
     (case map_of s name of
        None \<Rightarrow> ([], s)
      | Some job \<Rightarrow> (case fire h name job of (l, job') \<Rightarrow> (l, AList.update name job' s)))"

text \<open>The promise of a handler settles.\<close>

definition settle :: "jstr \<Rightarrow> scheduler \<Rightarrow> run_log list \<times> scheduler" where
  "settle name s =
     (case map_of s name of
        None \<Rightarrow> ([], s)
      | Some job \<Rightarrow> if cj_running job then ([Ended name], AList.update name (job\<lparr> cj_running := False \<rparr>) s) else ([], s))"

definition jobNames :: "scheduler \<Rightarrow> jstr list" where
  "jobNames s = map fst s"

datatype cron_event = Add jstr jstr | Tick local_time "jstr \<Rightarrow> handler_start" | RunNow jstr handler_start | Settle jstr

fun cron_step :: "cron_event \<Rightarrow> scheduler \<Rightarrow> run_log list \<times> scheduler" where
  "cron_step (Add name expression) s = ([], case add_job name expression s of Inl e \<Rightarrow> s | Inr s' \<Rightarrow> s')"
| "cron_step (Tick d h) s = tick d h s"
| "cron_step (RunNow name h) s = runNow name h s"
| "cron_step (Settle name) s = settle name s"

fun cron_run :: "cron_event list \<Rightarrow> scheduler \<Rightarrow> run_log list \<times> scheduler" where
  "cron_run [] s = ([], s)"
| "cron_run (e # es) s = (case cron_step e s of (l, s') \<Rightarrow> (case cron_run es s' of (ls, s'') \<Rightarrow> (l @ ls, s'')))"

section \<open>What a field holds\<close>

lemma step_values_set: "0 < st \<Longrightarrow> set (step_values lo hi st) = {v. lo \<le> v \<and> v \<le> hi \<and> st dvd (v - lo)}"
proof (induction lo hi st rule: step_values.induct)
  case (1 lo hi st)
  show ?case
  proof (cases "lo > hi")
    case True
    then show ?thesis by (auto simp: step_values.simps [of lo])
  next
    case False
    then have "set (step_values lo hi st) = insert lo {v. lo + st \<le> v \<and> v \<le> hi \<and> st dvd (v - (lo + st))}"
      using 1 by (simp add: step_values.simps [of lo])
    also have "\<dots> = {v. lo \<le> v \<and> v \<le> hi \<and> st dvd (v - lo)}"
    proof (intro set_eqI iffI)
      fix v assume "v \<in> insert lo {v. lo + st \<le> v \<and> v \<le> hi \<and> st dvd (v - (lo + st))}"
      moreover have "st dvd v - lo" if "lo + st \<le> v" "st dvd (v - (lo + st))"
      proof -
        have "v - lo = (v - (lo + st)) + st" using that(1) by simp
        then show ?thesis using that(2) by (metis dvd_add_triv_right_iff)
      qed
      ultimately show "v \<in> {v. lo \<le> v \<and> v \<le> hi \<and> st dvd (v - lo)}"
        using False by auto
    next
      fix v assume v: "v \<in> {v. lo \<le> v \<and> v \<le> hi \<and> st dvd (v - lo)}"
      show "v \<in> insert lo {v. lo + st \<le> v \<and> v \<le> hi \<and> st dvd (v - (lo + st))}"
      proof (cases "v = lo")
        case False
        with v have "st \<le> v - lo" by (intro dvd_imp_le) auto
        moreover have "v - (lo + st) = (v - lo) - st" by simp
        moreover have "st dvd (v - lo) - st" by (rule dvd_diff_nat) (use v in blast, simp)
        ultimately show ?thesis using v False by auto
      qed simp
    qed
    finally show ?thesis .
  qed
qed

lemma add_all_set [simp]: "set (add_all vs out) = set out \<union> set vs"
  unfolding add_all_def by (induction vs arbitrary: out) auto

lemma add_all_distinct: "distinct out \<Longrightarrow> distinct (add_all vs out)"
  unfolding add_all_def by (induction vs arbitrary: out) auto

lemma add_all_nonempty: "vs \<noteq> [] \<Longrightarrow> add_all vs out \<noteq> []"
  using add_all_set [of vs out] by (metis sup_eq_bot_iff set_empty)

lemma parse_part_sound:
  assumes "parse_part rg p = Inr vs"
  shows "vs \<noteq> [] \<and> (\<forall>v \<in> set vs. cr_min rg \<le> v \<and> v \<le> cr_max rg)"
proof -
  from assms obtain start stop tx where t: "cron_term p = Some (start, stop, tx)"
    by (auto simp: parse_part_def split: if_splits option.splits prod.splits)
  define st where "st = (case tx of None \<Rightarrow> 1 | Some n \<Rightarrow> n)"
  define lo where "lo = (case start of None \<Rightarrow> cr_min rg | Some n \<Rightarrow> n)"
  define hi where "hi = (case stop of Some n \<Rightarrow> n | None \<Rightarrow>
      (case start of None \<Rightarrow> cr_last rg | Some _ \<Rightarrow> if tx \<noteq> None then max lo (cr_last rg) else lo))"
  from assms have v: "vs = step_values lo hi st" "0 < st" "cr_min rg \<le> lo" "hi \<le> cr_max rg" "lo \<le> hi"
    unfolding parse_part_def t option.case prod.case Let_def st_def [symmetric] lo_def [symmetric] hi_def [symmetric]
    by (auto split: if_splits)
  then have "lo \<in> set vs" by (simp add: step_values_set)
  moreover from this have "vs \<noteq> []" by auto
  moreover have "cr_min rg \<le> x \<and> x \<le> cr_max rg" if "x \<in> set vs" for x
    using that v by (simp add: step_values_set)
  ultimately show ?thesis by blast
qed

lemma parse_parts_sound:
  "parse_parts rg ps out = Inr vs \<Longrightarrow> distinct out \<Longrightarrow> \<forall>v \<in> set out. cr_min rg \<le> v \<and> v \<le> cr_max rg \<Longrightarrow>
   distinct vs \<and> (\<forall>v \<in> set vs. cr_min rg \<le> v \<and> v \<le> cr_max rg) \<and> set out \<subseteq> set vs \<and> (ps \<noteq> [] \<longrightarrow> vs \<noteq> [])"
proof (induction ps arbitrary: out)
  case (Cons p ps)
  then obtain us where us: "parse_part rg p = Inr us" "parse_parts rg ps (add_all us out) = Inr vs"
    by (auto split: sum.splits)
  have "\<forall>v \<in> set (add_all us out). cr_min rg \<le> v \<and> v \<le> cr_max rg"
    using parse_part_sound [OF us(1)] Cons.prems(3) by auto
  from Cons.IH [OF us(2) add_all_distinct [OF Cons.prems(2)] this]
  have f: "distinct vs" "\<forall>v \<in> set vs. cr_min rg \<le> v \<and> v \<le> cr_max rg" "set out \<union> set us \<subseteq> set vs" by simp_all
  moreover have "vs \<noteq> []" using f(3) parse_part_sound [OF us(1)] by (cases us) auto
  ultimately show ?case by simp
qed simp

lemma parseField_sound:
  "parseField rg raw = Inr vs \<Longrightarrow> distinct vs \<and> vs \<noteq> [] \<and> (\<forall>v \<in> set vs. cr_min rg \<le> v \<and> v \<le> cr_max rg)"
  using parse_parts_sound [of rg "split_on 44 raw" "[]" vs] by (simp add: parseField_def)

lemma parse_fields_sound:
  "parse_fields rgs ps = Inr vss \<Longrightarrow> length ps = length rgs \<Longrightarrow>
   length vss = length rgs \<and> (\<forall>i < length rgs. parseField (rgs ! i) (ps ! i) = Inr (vss ! i))"
proof (induction rgs ps arbitrary: vss rule: parse_fields.induct)
  case (3 rg rgs p ps)
  from 3(2) obtain vs us where v: "parseField rg p = Inr vs" "parse_fields rgs ps = Inr us" "vss = vs # us"
    by (auto split: sum.splits)
  with 3(1) [OF v(1,2)] 3(3) show ?case by (auto simp: nth_Cons split: nat.split)
qed simp_all

section \<open>Writing a field\<close>

definition field_text :: "nat list \<Rightarrow> jstr" where
  "field_text vs = join_with [44] (map dec vs)"

definition cron_text :: "nat list list \<Rightarrow> jstr" where
  "cron_text fs = join_with [32] (map field_text fs)"

lemma dec_short: "n < 100 \<Longrightarrow> 1 \<le> length (dec n) \<and> length (dec n) \<le> 2"
  by (simp add: dec.simps [of n] dec.simps [of "n div 10"])

lemma dec_free: "\<not> is_digit c \<Longrightarrow> c \<notin> set (dec n)"
  using dec_digits by blast

lemma dec_digits_only: "n < 100 \<Longrightarrow> one_or_two_digits (dec n) = Some n"
  using dec_short [of n] dec_digits [of _ n] number_of_dec [of n]
  by (auto simp: one_or_two_digits_def list_all_iff)

lemma no_digit [simp]: "\<not> is_digit 42" "\<not> is_digit 44" "\<not> is_digit 45" "\<not> is_digit 47" "\<not> is_digit 32"
  by (simp_all add: is_digit_def)

lemma parse_value:
  assumes "cr_min rg \<le> v" and "v \<le> cr_max rg" and "cr_max rg < 100"
  shows "parse_part rg (dec v) = Inr [v]"
proof -
  have n: "dec v \<noteq> []" using dec_short [of v] assms by auto
  have s: "dec v \<noteq> js ''*''" using dec_free [of 42 v] by auto
  have "term_body (dec v) = Some (Some v, None)"
    using s dec_digits_only [of v] assms dec_free [of 45 v] by (simp add: term_body_def del: js_Cons)
  then have "cron_term (dec v) = Some (Some v, None, None)"
    using dec_free [of 47 v] by (simp add: cron_term_def)
  then show ?thesis
    using n assms by (simp add: parse_part_def Let_def step_values.simps [of v] step_values.simps [of "Suc v"])
qed

lemma parse_values_all:
  "\<forall>v \<in> set vs. cr_min rg \<le> v \<and> v \<le> cr_max rg \<Longrightarrow> cr_max rg < 100 \<Longrightarrow>
   \<exists>us. parse_parts rg (map dec vs) out = Inr us \<and> set us = set out \<union> set vs"
proof (induction vs arbitrary: out)
  case (Cons v vs)
  have "\<forall>v \<in> set vs. cr_min rg \<le> v \<and> v \<le> cr_max rg" using Cons.prems(1) by simp
  from Cons.IH [OF this Cons.prems(2), of "add_all [v] out"] obtain us where
    "parse_parts rg (map dec vs) (add_all [v] out) = Inr us" "set us = set (add_all [v] out) \<union> set vs" by blast
  with Cons.prems show ?case by (simp add: parse_value)
qed simp

lemma parse_field_text:
  assumes "vs \<noteq> []" and "\<forall>v \<in> set vs. cr_min rg \<le> v \<and> v \<le> cr_max rg" and "cr_max rg < 100"
  shows "\<exists>us. parseField rg (field_text vs) = Inr us \<and> set us = set vs"
proof -
  have "split_on 44 (field_text vs) = map dec vs"
    unfolding field_text_def using assms(1) dec_free [of 44] by (intro split_join) auto
  with parse_values_all [OF assms(2,3), of "[]"] show ?thesis by (simp add: parseField_def)
qed

text \<open>Texts of digits and commas have no spaces.\<close>

lemma digit_no_space: "is_digit c \<or> c = 44 \<Longrightarrow> \<not> is_space c"
  by (auto simp: is_digit_def is_space_def)

lemma field_text_chars: "vs \<noteq> [] \<Longrightarrow> field_text vs \<noteq> [] \<and> (\<forall>c \<in> set (field_text vs). is_digit c \<or> c = 44)"
proof
  assume "vs \<noteq> []"
  then obtain v ws where v: "vs = v # ws" by (cases vs) auto
  have "dec v \<noteq> []" by (simp add: dec.simps [of v])
  then show "field_text vs \<noteq> []" by (cases ws) (auto simp: field_text_def v)
  show "\<forall>c \<in> set (field_text vs). is_digit c \<or> c = 44"
    using set_join_with [of "[44]" "map dec vs"] dec_digits by (auto simp: field_text_def)
qed

lemma split_spaces_word: "\<forall>c \<in> set p. \<not> is_space c \<Longrightarrow> split_spaces p = [p]"
  by (induction p) simp_all

lemma split_spaces_head:
  "\<forall>c \<in> set p. \<not> is_space c \<Longrightarrow> s \<noteq> [] \<Longrightarrow> \<not> is_space (hd s) \<Longrightarrow> split_spaces (p @ 32 # s) = p # split_spaces s"
proof (induction p)
  case Nil
  then have "dropWhile is_space s = s" by (cases s) simp_all
  moreover have "is_space 32" by (simp add: is_space_def)
  ultimately show ?case by simp
qed simp

lemma split_spaces_join:
  "ps \<noteq> [] \<Longrightarrow> \<forall>p \<in> set ps. p \<noteq> [] \<and> (\<forall>c \<in> set p. \<not> is_space c) \<Longrightarrow> split_spaces (join_with [32] ps) = ps"
proof (induction "[32 :: nat]" ps rule: join_with.induct)
  case (2 p)
  then show ?case by (simp add: split_spaces_word)
next
  case (3 p q ps)
  have ne: "join_with [32] (q # ps) \<noteq> [] \<and> \<not> is_space (hd (join_with [32] (q # ps)))"
  proof -
    have "q \<noteq> []" "\<not> is_space (hd q)" using 3(3) by auto
    then show ?thesis by (cases ps) auto
  qed
  show ?case using 3 ne by (simp add: split_spaces_head)
qed simp

section \<open>Searching\<close>

lemma scan_minutes_spec:
  "case scan_minutes P nx n d of
     None \<Rightarrow> \<forall>k < n. \<not> P ((nx ^^ k) d)
   | Some r \<Rightarrow> \<exists>k < n. r = (nx ^^ k) d \<and> P r \<and> (\<forall>j < k. \<not> P ((nx ^^ j) d))"
proof (induction n arbitrary: d)
  case (Suc n)
  show ?case
  proof (cases "P d")
    case True
    then have "scan_minutes P nx (Suc n) d = Some d" by (simp add: scan_minutes.simps [of P nx "Suc n"])
    with True show ?thesis by (simp add: exI [of _ 0])
  next
    case False
    then have e: "scan_minutes P nx (Suc n) d = scan_minutes P nx n (nx d)" by (simp add: scan_minutes.simps [of P nx "Suc n"])
    have sh: "(nx ^^ Suc k) d = (nx ^^ k) (nx d)" for k by (simp add: funpow_swap1)
    show ?thesis
    proof (cases "scan_minutes P nx n (nx d)")
      case None
      with Suc.IH [of "nx d"] have "\<forall>k < n. \<not> P ((nx ^^ k) (nx d))" by simp
      then have "\<not> P ((nx ^^ k) d)" if "k < Suc n" for k
        using that False sh by (cases k) auto
      with None e show ?thesis by simp
    next
      case (Some r)
      with Suc.IH [of "nx d"] obtain k where k: "k < n" "r = (nx ^^ k) (nx d)" "P r" "\<forall>j < k. \<not> P ((nx ^^ j) (nx d))"
        by auto
      have "\<not> P ((nx ^^ j) d)" if "j < Suc k" for j
        using that False k(4) sh by (cases j) auto
      with k sh Some e show ?thesis by (auto intro!: exI [of _ "Suc k"])
    qed
  qed
qed (simp add: scan_minutes.simps)

lemma steps_add: "((\<lambda>t. t + m) ^^ k) (d :: int) = d + int k * m"
  by (induction k) (simp_all add: algebra_simps)

section \<open>Overlap\<close>

fun in_flight :: "jstr \<Rightarrow> run_log list \<Rightarrow> bool \<Rightarrow> bool option" where
  "in_flight n [] b = Some b"
| "in_flight n (Started m # ls) b = (if m \<noteq> n then in_flight n ls b else if b then None else in_flight n ls True)"
| "in_flight n (Ended m # ls) b = (if m \<noteq> n then in_flight n ls b else if b then in_flight n ls False else None)"

definition running :: "jstr \<Rightarrow> scheduler \<Rightarrow> bool" where
  "running n s = (case map_of s n of None \<Rightarrow> False | Some j \<Rightarrow> cj_running j)"

lemma in_flight_append: "in_flight n (l @ l') b = Option.bind (in_flight n l b) (in_flight n l')"
  by (induction n l b rule: in_flight.induct) simp_all

lemma fire_flight:
  assumes "fire h name job = (l, job')"
  shows "in_flight n l b = (if n \<noteq> name then Some b else if b = cj_running job then Some (cj_running job') else in_flight n l b)"
    and "cj_lastFiredMinute job' = cj_lastFiredMinute job" and "cj_fields job' = cj_fields job"
  using assms by (auto simp: fire_def split: if_splits handler_start.splits)

lemma tick_keys: "map fst (snd (tick d h s)) = map fst s"
  by (induction d h s rule: tick.induct) (auto split: prod.split)

fun log_name :: "run_log \<Rightarrow> jstr" where
  "log_name (Started m) = m"
| "log_name (Ended m) = m"

lemma in_flight_other: "n \<notin> log_name ` set l \<Longrightarrow> in_flight n l b = Some b"
  by (induction n l b rule: in_flight.induct) auto

lemma fire_names: "fire h name job = (l, job') \<Longrightarrow> log_name ` set l \<subseteq> {name}"
  by (auto simp: fire_def split: if_splits handler_start.splits)

lemma tick_names: "log_name ` set (fst (tick d h s)) \<subseteq> fst ` set s"
proof (induction s)
  case (Cons x s)
  obtain name job where x: "x = (name, job)" by (cases x)
  show ?case
    using Cons fire_names [OF prod.collapse [symmetric], of "h name" name "job\<lparr> cj_lastFiredMinute := minuteKey d \<rparr>"]
    by (auto simp: x split: prod.splits) blast+
qed simp

lemma tick_flight:
  "jm_wf s \<Longrightarrow> in_flight n (fst (tick d h s)) (running n s) = Some (running n (snd (tick d h s)))"
proof (induction s)
  case (Cons x s)
  obtain name job where x: "x = (name, job)" by (cases x)
  obtain ls s' where t: "tick d h s = (ls, s')" by (cases "tick d h s")
  have no: "name \<notin> fst ` set s" and wf: "jm_wf s" using Cons.prems by (simp_all add: x)
  then have no': "name \<notin> fst ` set s'"
    using tick_keys [of d h s] unfolding t by (metis image_set snd_conv)
  have nr: "running name s = False" "running name s' = False"
    using no no' by (simp_all add: running_def map_of_eq_None_iff [THEN iffD2])
  have ih: "in_flight n ls (running n s) = Some (running n s')" using Cons.IH [OF wf] by (simp add: t)
  have skip: "in_flight n ls (running n ((name, job) # s)) = Some (running n ((name, job') # s'))"
    if "cj_running job' = cj_running job" for job'
  proof (cases "n = name")
    case True
    have "in_flight name ls b = Some b" for b
      using tick_names [of d h s] no unfolding t by (intro in_flight_other) force
    with True that show ?thesis by (simp add: running_def)
  next
    case False
    with ih show ?thesis by (simp add: running_def)
  qed
  show ?case
  proof (cases "cj_lastFiredMinute job = minuteKey d \<or> \<not> matches (cj_fields job) d")
    case True
    then show ?thesis using skip [of job] by (auto simp: x t)
  next
    case False
    obtain l job' where f: "fire (h name) name (job\<lparr> cj_lastFiredMinute := minuteKey d \<rparr>) = (l, job')"
      by (cases "fire (h name) name (job\<lparr> cj_lastFiredMinute := minuteKey d \<rparr>)")
    have e: "tick d h (x # s) = (l @ ls, (name, job') # s')" using False by (simp add: x t f)
    show ?thesis
    proof (cases "n = name")
      case True
      have "in_flight name ls b = Some b" for b
        using tick_names [of d h s] no unfolding t by (intro in_flight_other) force
      moreover have "in_flight name l (cj_running job) = Some (cj_running job')"
        using fire_flight(1) [OF f, of name "cj_running job"] by simp
      ultimately show ?thesis using True unfolding e by (simp add: x running_def in_flight_append)
    next
      case False
      then show ?thesis using ih fire_flight(1) [OF f, of n] unfolding e by (simp add: x running_def in_flight_append)
    qed
  qed
qed (simp add: running_def)

lemma step_flight:
  assumes "jm_wf s"
  shows "in_flight n (fst (cron_step e s)) (running n s) = Some (running n (snd (cron_step e s))) \<and> jm_wf (snd (cron_step e s))"
proof (cases e)
  case (Add name expression)
  show ?thesis
  proof (cases "map_of s name = None")
    case None: True
    show ?thesis
    proof (cases "parseCron expression")
      case (Inr f)
      define j where "j = \<lparr> cj_fields = f, cj_expr = expression, cj_running = False, cj_lastFiredMinute = [] \<rparr>"
      have "running n (AList.update name j s) = running n s"
        using None by (simp add: running_def jm_get_set j_def)
      with assms None show ?thesis unfolding Add by (simp add: add_job_def Inr j_def)
    qed (use assms None in \<open>simp add: Add add_job_def\<close>)
  qed (use assms in \<open>simp add: Add add_job_def\<close>)
next
  case (Tick d h)
  with tick_flight [OF assms] tick_keys [of d h s] assms show ?thesis by simp
next
  case (RunNow name h)
  show ?thesis
  proof (cases "map_of s name")
    case (Some job)
    obtain l job' where f: "fire h name job = (l, job')" by (cases "fire h name job")
    have "in_flight n l (running n s) = Some (running n (AList.update name job' s))"
      using fire_flight(1) [OF f, of n "cj_running job"] fire_flight(1) [OF f, of n "running n s"] Some
      by (auto simp: running_def jm_get_set)
    with assms show ?thesis by (simp add: RunNow runNow_def Some f)
  qed (use assms in \<open>simp add: RunNow runNow_def\<close>)
next
  case (Settle name)
  show ?thesis
  proof (cases "map_of s name")
    case (Some job)
    show ?thesis
    proof (cases "cj_running job")
      case True
      have "in_flight n [Ended name] (running n s) = Some (running n (AList.update name (job\<lparr> cj_running := False \<rparr>) s))"
        using Some True by (auto simp: running_def jm_get_set)
      with assms show ?thesis by (simp add: Settle settle_def Some True)
    qed (use assms in \<open>simp add: Settle settle_def Some\<close>)
  qed (use assms in \<open>simp add: Settle settle_def\<close>)
qed

lemma run_flight:
  "jm_wf s \<Longrightarrow> cron_run es s = (l, s') \<Longrightarrow> in_flight n l (running n s) = Some (running n s') \<and> jm_wf s'"
proof (induction es arbitrary: s l)
  case (Cons e es)
  obtain l1 s1 where e: "cron_step e s = (l1, s1)" by (cases "cron_step e s")
  obtain l2 where l2: "cron_run es s1 = (l2, s')" "l = l1 @ l2"
    using Cons.prems(2) by (auto simp: e split: prod.splits)
  from step_flight [OF Cons.prems(1), of n e] have s1: "in_flight n l1 (running n s) = Some (running n s1)" "jm_wf s1"
    by (simp_all add: e)
  from Cons.IH [OF s1(2) l2(1)] s1(1) show ?case by (simp add: l2(2) in_flight_append)
qed simp

text \<open>After a tick, no job is due again in the same minute.\<close>

definition quiet_job :: "local_time \<Rightarrow> cron_job \<Rightarrow> bool" where
  "quiet_job d job \<longleftrightarrow> cj_lastFiredMinute job = minuteKey d \<or> \<not> matches (cj_fields job) d"

fun same_minute :: "local_time \<Rightarrow> cron_event \<Rightarrow> bool" where
  "same_minute d (Tick d' h) \<longleftrightarrow> d' = d"
| "same_minute d (Add name expression) \<longleftrightarrow> False"
| "same_minute d _ \<longleftrightarrow> True"

lemma tick_quiet: "\<forall>x \<in> set (snd (tick d h s)). quiet_job d (snd x)"
proof (induction s)
  case (Cons x s)
  obtain name job where x: "x = (name, job)" by (cases x)
  obtain ls s' where t: "tick d h s = (ls, s')" by (cases "tick d h s")
  obtain l job' where f: "fire (h name) name (job\<lparr> cj_lastFiredMinute := minuteKey d \<rparr>) = (l, job')"
    by (cases "fire (h name) name (job\<lparr> cj_lastFiredMinute := minuteKey d \<rparr>)")
  show ?case using Cons fire_flight(2,3) [OF f] by (auto simp: x t f quiet_job_def)
qed simp

lemma quiet_tick: "\<forall>x \<in> set s. quiet_job d (snd x) \<Longrightarrow> tick d h s = ([], s)"
  by (induction s) (auto simp: quiet_job_def)

lemma in_update: "x \<in> set (AList.update k v s) \<Longrightarrow> x = (k, v) \<or> x \<in> set s"
  by (induction s) (auto split: if_splits)

lemma step_quiet:
  assumes "\<forall>x \<in> set s. quiet_job d (snd x)" and "same_minute d e"
  shows "\<forall>x \<in> set (snd (cron_step e s)). quiet_job d (snd x)"
proof (cases e)
  case (Tick d' h)
  with assms quiet_tick [OF assms(1)] show ?thesis by simp
next
  case (RunNow name h)
  show ?thesis
  proof (cases "map_of s name")
    case (Some job)
    obtain l job' where f: "fire h name job = (l, job')" by (cases "fire h name job")
    have "quiet_job d job" using assms(1) map_of_SomeD [OF Some] by fastforce
    then have "quiet_job d job'" using fire_flight(2,3) [OF f] by (simp add: quiet_job_def)
    with assms(1) show ?thesis by (auto simp: RunNow runNow_def Some f dest!: in_update)
  qed (use assms in \<open>simp add: RunNow runNow_def\<close>)
next
  case (Settle name)
  show ?thesis
  proof (cases "map_of s name")
    case (Some job)
    have "quiet_job d job" using assms(1) map_of_SomeD [OF Some] by fastforce
    then have "quiet_job d (job\<lparr> cj_running := False \<rparr>)" by (simp add: quiet_job_def)
    with assms(1) show ?thesis by (auto simp: Settle settle_def Some dest!: in_update split: if_splits)
  qed (use assms in \<open>simp add: Settle settle_def\<close>)
qed (use assms in simp)

lemma run_quiet:
  "\<forall>x \<in> set s. quiet_job d (snd x) \<Longrightarrow> \<forall>e \<in> set es. same_minute d e \<Longrightarrow> cron_run es s = (l, s') \<Longrightarrow>
   \<forall>x \<in> set s'. quiet_job d (snd x)"
proof (induction es arbitrary: s l)
  case (Cons e es)
  obtain l1 s1 where e: "cron_step e s = (l1, s1)" by (cases "cron_step e s")
  obtain l2 where l2: "cron_run es s1 = (l2, s')" using Cons.prems(3) by (auto simp: e split: prod.splits)
  from step_quiet [OF Cons.prems(1), of e] Cons.prems(2) e have "\<forall>x \<in> set s1. quiet_job d (snd x)" by simp
  from Cons.IH [OF this _ l2] Cons.prems(2) show ?case by simp
qed simp

lemma tick_fires:
  "(name, job) \<in> set s \<Longrightarrow> \<not> quiet_job d job \<Longrightarrow> \<not> cj_running job \<Longrightarrow> Started name \<in> set (fst (tick d h s))"
proof (induction s)
  case (Cons x s)
  obtain n j where x: "x = (n, j)" by (cases x)
  obtain ls s' where t: "tick d h s = (ls, s')" by (cases "tick d h s")
  obtain l job' where f: "fire (h n) n (j\<lparr> cj_lastFiredMinute := minuteKey d \<rparr>) = (l, job')"
    by (cases "fire (h n) n (j\<lparr> cj_lastFiredMinute := minuteKey d \<rparr>)")
  show ?case
  proof (cases "x = (name, job)")
    case True
    with f Cons.prems(3) have "Started name \<in> set l" by (auto simp: x fire_def split: handler_start.splits)
    with True Cons.prems(2) f t show ?thesis by (auto simp: x quiet_job_def)
  next
    case False
    with Cons t f show ?thesis by (auto simp: x)
  qed
qed simp

section \<open>Properties\<close>

text \<open>A list of values for each field.\<close>

definition values_for :: "cron_range list \<Rightarrow> nat list list \<Rightarrow> bool" where
  "values_for rgs fs \<longleftrightarrow>
     list_all2 (\<lambda>rg vs. vs \<noteq> [] \<and> (\<forall>v \<in> set vs. cr_min rg \<le> v \<and> v \<le> cr_max rg)) rgs fs"

lemma parse_fields_text:
  "values_for rgs fs \<Longrightarrow> \<forall>rg \<in> set rgs. cr_max rg < 100 \<Longrightarrow>
   \<exists>us. parse_fields rgs (map field_text fs) = Inr us \<and> map set us = map set fs"
proof (induction rgs arbitrary: fs)
  case (Cons rg rgs)
  from Cons.prems(1) obtain vs fs' where f: "fs = vs # fs'" "values_for rgs fs'" "vs \<noteq> []"
      "\<forall>v \<in> set vs. cr_min rg \<le> v \<and> v \<le> cr_max rg"
    by (auto simp: values_for_def list_all2_Cons1)
  from parse_field_text [OF f(3,4)] Cons.prems(2) obtain us where u: "parseField rg (field_text vs) = Inr us" "set us = set vs"
    by auto
  from Cons.IH [OF f(2)] Cons.prems(2) obtain uss where "parse_fields rgs (map field_text fs') = Inr uss"
      "map set uss = map set fs'" by auto
  with f(1) u show ?case by simp
qed (simp add: values_for_def)

lemma ranges_small: "\<forall>rg \<in> set RANGES. cr_max rg < 100"
  by (simp add: RANGES_def)

lemma sunday_set: "set (sunday w) = (\<lambda>v. if v = 7 then 0 else v) ` set w"
  by (auto simp: sunday_def)

text \<open>A written expression splits into its five fields, and is neither a macro nor an inherited name.\<close>

lemma written_parts:
  assumes "fs \<noteq> []" and "\<forall>vs \<in> set fs. vs \<noteq> []"
  shows "trim (cron_text fs) = cron_text fs" and "split_spaces (cron_text fs) = map field_text fs"
    and "cron_text fs \<noteq> []" and "is_digit (hd (cron_text fs)) \<or> hd (cron_text fs) = 44"
proof -
  have ch: "field_text vs \<noteq> [] \<and> (\<forall>c \<in> set (field_text vs). is_digit c \<or> c = 44)" if "vs \<in> set fs" for vs
    using field_text_chars assms(2) that by blast
  then have parts: "\<forall>p \<in> set (map field_text fs). p \<noteq> [] \<and> (\<forall>c \<in> set p. \<not> is_space c)"
    using digit_no_space by auto
  show "split_spaces (cron_text fs) = map field_text fs"
    unfolding cron_text_def using assms(1) parts by (intro split_spaces_join) auto
  obtain vs rest where f: "fs = vs # rest" using assms(1) by (cases fs) auto
  have "field_text vs \<noteq> []" using ch [of vs] f by simp
  then obtain c cs where c: "field_text vs = c # cs" by (cases "field_text vs") auto
  show ne: "cron_text fs \<noteq> []" using c by (cases rest) (auto simp: cron_text_def f)
  have h: "hd (cron_text fs) = c" using c by (cases rest) (auto simp: cron_text_def f)
  show hd: "is_digit (hd (cron_text fs)) \<or> hd (cron_text fs) = 44"
    using ch [of vs] c f h by auto
  have l: "last (join_with [32] ps) = last (last ps)" if "ps \<noteq> []" "\<forall>p \<in> set ps. p \<noteq> []" for ps
    using that
  proof (induction "[32 :: nat]" ps rule: join_with.induct)
    case (3 p q ps)
    moreover have "join_with [32] (q # ps) \<noteq> []" using 3(3) by (cases ps) auto
    ultimately show ?case by simp
  qed simp_all
  have "last (cron_text fs) = last (field_text (last fs))"
    unfolding cron_text_def using assms(1) ch by (subst l) (auto simp: last_map)
  moreover have "last (field_text (last fs)) \<in> set (field_text (last fs))" using ch [of "last fs"] assms(1) by simp
  ultimately have "\<not> is_space (last (cron_text fs))"
    using ch [of "last fs"] assms(1) digit_no_space by auto
  with ne hd digit_no_space show "trim (cron_text fs) = cron_text fs" by (intro trim_id) blast+
qed

lemma written_is_plain:
  assumes "s \<noteq> []" and "is_digit (hd s) \<or> hd s = 44"
  shows "s \<notin> set INHERITED" and "map_of MACROS s = None"
proof -
  have "\<forall>t \<in> set INHERITED. \<not> is_digit (hd t) \<and> hd t \<noteq> 44"
    by (simp add: INHERITED_def is_digit_def)
  with assms show "s \<notin> set INHERITED" by blast
  have "\<forall>t \<in> fst ` set MACROS. \<not> is_digit (hd t) \<and> hd t \<noteq> 44"
    by (simp add: MACROS_def is_digit_def)
  with assms show "map_of MACROS s = None" unfolding map_of_eq_None_iff by blast
qed

lemma parse_cron_fields:
  assumes "parseCron expr = Inr f"
  obtains ps fs where "length ps = 5" and "parse_fields RANGES ps = Inr fs"
    and "f = \<lparr> cf_minute = fs ! 0, cf_hour = fs ! 1, cf_dom = fs ! 2, cf_month = fs ! 3, cf_dow = sunday (fs ! 4),
               cf_domRestricted = \<not> starred (ps ! 2), cf_dowRestricted = \<not> starred (ps ! 4) \<rparr>"
  using assms unfolding parseCron_def Let_def by (auto split: if_splits sum.splits)

definition field_within :: "nat \<Rightarrow> nat \<Rightarrow> nat list \<Rightarrow> bool" where
  "field_within lo hi vs \<longleftrightarrow> distinct vs \<and> vs \<noteq> [] \<and> (\<forall>v \<in> set vs. lo \<le> v \<and> v \<le> hi)"

text \<open>
  From whatever \<open>parseCron\<close> accepts, the fields it returns are sets of values, none of them empty, that a
  clock can show: minutes to 59, hours to 23, days 1 to 31, months 1 to 12, weekdays 0 to 6 (a 7 is a Sunday).
\<close>

theorem parseCron_sound:
  assumes "parseCron expression = Inr f"
  shows "field_within 0 59 (cf_minute f) \<and> field_within 0 23 (cf_hour f) \<and> field_within 1 31 (cf_dom f)
    \<and> field_within 1 12 (cf_month f) \<and> field_within 0 6 (cf_dow f)"
proof -
  from parse_cron_fields [OF assms] obtain ps fs where p: "length ps = 5" "parse_fields RANGES ps = Inr fs"
    and f: "f = \<lparr> cf_minute = fs ! 0, cf_hour = fs ! 1, cf_dom = fs ! 2, cf_month = fs ! 3, cf_dow = sunday (fs ! 4),
               cf_domRestricted = \<not> starred (ps ! 2), cf_dowRestricted = \<not> starred (ps ! 4) \<rparr>" .
  have "length ps = length RANGES" using p(1) by (simp add: RANGES_def)
  from parse_fields_sound [OF p(2) this] have "\<forall>i < 5. parseField (RANGES ! i) (ps ! i) = Inr (fs ! i)"
    by (simp add: RANGES_def)
  then have w: "field_within (cr_min (RANGES ! i)) (cr_max (RANGES ! i)) (fs ! i)" if "i < 5" for i
    using parseField_sound that unfolding field_within_def by blast
  have "field_within 0 7 (fs ! 4)" using w [of 4] by (simp add: RANGES_def)
  then have "field_within 0 6 (sunday (fs ! 4))"
    using add_all_nonempty [of "[0]"]
    by (auto simp: field_within_def sunday_def add_all_distinct distinct_removeAll order_le_less)
  with w [of 0] w [of 1] w [of 2] w [of 3] show ?thesis by (simp add: f RANGES_def)
qed

theorem parseCron_sound_witness:
  "\<exists>f. parseCron (js ''5 9-17/4 1 6 1,7'') = Inr f \<and> field_within 0 6 (cf_dow f)"
proof -
  obtain f where f: "parseCron (js ''5 9-17/4 1 6 1,7'') = Inr f"
  proof -
    have "\<not> isl (parseCron (js ''5 9-17/4 1 6 1,7''))"
      by (simp add: parseCron_def trim_def is_space_def INHERITED_def MACROS_def RANGES_def parseField_def parse_part_def
          cron_term_def term_body_def one_or_two_digits_def is_digit_def number_of_def split_on.simps)
    with that show thesis by (cases "parseCron (js ''5 9-17/4 1 6 1,7'')") simp_all
  qed
  with parseCron_sound [OF f] show ?thesis by blast
qed

text \<open>
  An expression written as lists of values in range, the values apart by commas and the fields by spaces, is
  parsed to exactly the sets that were written, with 7 taken as 0 among the weekdays and both days restricted.
\<close>

theorem cron_text_roundtrip:
  assumes "values_for RANGES [ms, hs, ds, mos, ws]"
  shows "\<exists>f. parseCron (cron_text [ms, hs, ds, mos, ws]) = Inr f
    \<and> set (cf_minute f) = set ms \<and> set (cf_hour f) = set hs \<and> set (cf_dom f) = set ds \<and> set (cf_month f) = set mos
    \<and> set (cf_dow f) = (\<lambda>v. if v = 7 then 0 else v) ` set ws \<and> cf_domRestricted f \<and> cf_dowRestricted f"
proof -
  let ?fs = "[ms, hs, ds, mos, ws]"
  have ne: "\<forall>vs \<in> set ?fs. vs \<noteq> []" using assms by (simp add: values_for_def RANGES_def)
  note w = written_parts [of ?fs, simplified, OF ne [simplified]]
  note plain = written_is_plain [OF w(3,4)]
  from parse_fields_text [OF assms ranges_small] obtain us where
    u: "parse_fields RANGES (map field_text ?fs) = Inr us" "map set us = map set ?fs" by blast
  have s: "\<not> starred (field_text vs)" if "vs \<noteq> []" for vs
    using field_text_chars [OF that] by (cases "field_text vs") (auto simp: starred_def is_digit_def)
  from u(2) obtain a b c d e where us: "us = [a, b, c, d, e]" "set a = set ms" "set b = set hs" "set c = set ds"
    "set d = set mos" "set e = set ws" by (auto simp: map_eq_Cons_conv)
  have "parseCron (cron_text ?fs) = Inr \<lparr> cf_minute = a, cf_hour = b, cf_dom = c, cf_month = d, cf_dow = sunday e,
                      cf_domRestricted = \<not> starred (field_text ds), cf_dowRestricted = \<not> starred (field_text ws) \<rparr>"
    using plain u(1) by (simp add: parseCron_def Let_def w(1,2) us(1))
  with us ne s show ?thesis by (simp add: sunday_set)
qed

theorem cron_text_roundtrip_witness:
  "\<exists>f. parseCron (cron_text [[0, 30], [9], [1, 15], [6], [7, 5]]) = Inr f \<and> set (cf_dow f) = {0, 5}"
proof -
  have "values_for RANGES [[0, 30], [9], [1, 15], [6], [7, 5]]" by (simp add: values_for_def RANGES_def)
  from cron_text_roundtrip [OF this] show ?thesis by auto
qed

text \<open>The minutes after an instant, counted from the last whole minute.\<close>

lemma minute_after:
  fixes base since u off :: int
  assumes "base \<le> since" and "since < u" and "(base + off) mod 60000 = 0" and "(u + off) mod 60000 = 0"
  shows "\<exists>k. u = base + 60000 + int k * 60000"
proof -
  have "(u - base) mod 60000 = 0"
    using assms(3,4) by (metis add_diff_cancel_right mod_diff_eq diff_self mod_0)
  then obtain j where j: "u - base = 60000 * j" by auto
  with assms(1,2) have "0 < j" by simp
  with j show ?thesis by (intro exI [of _ "nat (j - 1)"]) simp
qed

lemma scan_whole_minutes:
  fixes base since off :: int
  assumes base: "base \<le> since" "since < base + 60000" "(base + off) mod 60000 = 0"
  shows "case scan_minutes due (\<lambda>t. t + 60000) n (base + 60000) of
     Some t \<Rightarrow> since < t \<and> (t + off) mod 60000 = 0 \<and> due t \<and> (\<forall>u. since < u \<and> u < t \<and> (u + off) mod 60000 = 0 \<longrightarrow> \<not> due u)
   | None \<Rightarrow> \<forall>u. since < u \<and> u \<le> since + int n * 60000 \<and> (u + off) mod 60000 = 0 \<longrightarrow> \<not> due u"
proof -
  have spec: "case scan_minutes due (\<lambda>t. t + 60000) n (base + 60000) of
     None \<Rightarrow> \<forall>k < n. \<not> due (base + 60000 + int k * 60000)
   | Some r \<Rightarrow> \<exists>k < n. r = base + 60000 + int k * 60000 \<and> due r \<and> (\<forall>j < k. \<not> due (base + 60000 + int j * 60000))"
    using scan_minutes_spec [where P = due and nx = "\<lambda>t. t + 60000" and n = n and d = "base + 60000"] by (simp only: steps_add)
  show ?thesis
  proof (cases "scan_minutes due (\<lambda>t. t + 60000) n (base + 60000)")
    case None
    have "\<not> due u" if "since < u" "u \<le> since + int n * 60000" "(u + off) mod 60000 = 0" for u
    proof -
      from minute_after [OF base(1) that(1) base(3) that(3)] obtain k where k: "u = base + 60000 + int k * 60000" by blast
      with that(2) base(2) have "k < n" by simp
      with spec None k show ?thesis by simp
    qed
    with None show ?thesis by simp
  next
    case (Some t)
    with spec obtain k where k: "t = base + 60000 + int k * 60000" "due t" "\<forall>j < k. \<not> due (base + 60000 + int j * 60000)"
      by auto
    have "\<not> due u" if "since < u" "u < t" "(u + off) mod 60000 = 0" for u
    proof -
      from minute_after [OF base(1) that(1) base(3) that(3)] obtain j where j: "u = base + 60000 + int j * 60000" by blast
      with that(2) k(1) have "j < k" by simp
      with k(3) j show ?thesis by simp
    qed
    moreover have "since < t" using k(1) base(2) by simp
    moreover have "(t + off) mod 60000 = (base + off + (1 + int k) * 60000) mod 60000" using k(1) by (simp add: algebra_simps)
    then have "(t + off) mod 60000 = 0" using base(3) by (simp only: mod_mult_self1)
    ultimately show ?thesis using Some k(2) by simp
  qed
qed

text \<open>
  C26: Where local time is a fixed distance from universal time, \<open>nextRun\<close> returns the first whole minute after
  \<open>since\<close> that matches, and returns nothing only when none of the next \<open>CAP\<close> minutes matches.
\<close>

theorem nextRun_first:
  "case nextRun (\<lambda>t. t + off) (\<lambda>l. l - off) calendar f since of
     Some t \<Rightarrow> since < t \<and> (t + off) mod 60000 = 0 \<and> matches f (calendar (t + off))
       \<and> (\<forall>u. since < u \<and> u < t \<and> (u + off) mod 60000 = 0 \<longrightarrow> \<not> matches f (calendar (u + off)))
   | None \<Rightarrow> \<forall>u. since < u \<and> u \<le> since + int CAP * 60000 \<and> (u + off) mod 60000 = 0
       \<longrightarrow> \<not> matches f (calendar (u + off))"
proof -
  define base where "base = since - (since + off) mod 60000"
  have base: "base \<le> since" "since < base + 60000" "(base + off) mod 60000 = 0"
    unfolding base_def by (simp_all add: mod_diff_left_eq algebra_simps)
  have nx: "next_minute (\<lambda>t. t + off) (\<lambda>l. l - off) = (\<lambda>t. t + 60000)"
    by (simp add: next_minute_def fun_eq_iff)
  have fl: "floor_minute (\<lambda>t. t + off) (\<lambda>l. l - off) since = base"
    by (simp add: floor_minute_def base_def)
  show ?thesis
    unfolding nextRun_def nx fl by (rule scan_whole_minutes [OF base])
qed

theorem nextRun_first_witness:
  "\<exists>t. nextRun (\<lambda>t. t + 0) (\<lambda>l. l - 0)
      (\<lambda>l. \<lparr> lt_year = 1970, lt_month = 0, lt_day = 1, lt_hour = 0, lt_minute = nat (l div 60000), lt_weekday = 4 \<rparr>)
      \<lparr> cf_minute = [2], cf_hour = [0], cf_dom = [1], cf_month = [1], cf_dow = [4], cf_domRestricted = True, cf_dowRestricted = True \<rparr>
      61000 = Some t \<and> 61000 < t"
proof -
  define cal where "cal l =
      \<lparr> lt_year = 1970, lt_month = 0, lt_day = 1, lt_hour = 0, lt_minute = nat (l div 60000), lt_weekday = 4 \<rparr>" for l :: int
  define f where "f =
      \<lparr> cf_minute = [2], cf_hour = [0], cf_dom = [1], cf_month = [1], cf_dow = [4], cf_domRestricted = True, cf_dowRestricted = True \<rparr>"
  have "CAP \<noteq> 0" by (simp add: CAP_def)
  then have "nextRun (\<lambda>t. t + 0) (\<lambda>l. l - 0) cal f 61000 = Some 120000"
    unfolding nextRun_def floor_minute_def next_minute_def
    by (subst scan_minutes.simps) (simp add: matches_def cal_def f_def)
  with nextRun_first [where off = 0 and calendar = cal and f = f and since = 61000] show ?thesis by (simp add: cal_def [abs_def] f_def)
qed

text \<open>
  Clocks that go back. Where local time falls back by an hour at the instant \<open>T\<close>, a local time that occurs twice
  is taken as the first of the two, so the steps of \<open>nextRun\<close> go into the hour before.
\<close>

definition fall_local :: "int \<Rightarrow> int \<Rightarrow> int" where
  "fall_local T t = (if t < T then t + 3600000 else t)"

definition fall_instant :: "int \<Rightarrow> int \<Rightarrow> int" where
  "fall_instant T l = (if l < T + 3600000 then l - 3600000 else l)"

lemma fall_inverse:
  "fall_local T (fall_instant T l) = l \<or> T + 3600000 \<le> l"
  by (simp add: fall_local_def fall_instant_def)

lemma nextRun_goes_back:
  assumes "T mod 60000 = 0" and "0 \<le> m" and "m < 59" and "matches f (calendar (T + m * 60000 + 60000))"
  shows "nextRun (fall_local T) (fall_instant T) calendar f (T + m * 60000) = Some (T + m * 60000 - 3540000)"
proof -
  have fl: "floor_minute (fall_local T) (fall_instant T) (T + m * 60000) = T + m * 60000 - 3600000"
    using assms by (simp add: floor_minute_def fall_local_def fall_instant_def)
  have nx: "next_minute (fall_local T) (fall_instant T) (T + m * 60000 - 3600000) = T + m * 60000 - 3540000"
    using assms by (simp add: next_minute_def fall_local_def fall_instant_def)
  have "fall_local T (T + m * 60000 - 3540000) = T + m * 60000 + 60000"
    using assms by (simp add: fall_local_def)
  moreover have "CAP \<noteq> 0" by (simp add: CAP_def)
  ultimately show ?thesis
    using assms(4) unfolding nextRun_def fl nx by (simp add: scan_minutes.simps [of _ _ CAP])
qed

text \<open>
  C27: In every history of a scheduler the log of each job alternates between a start and an end, and a start without
  its end is a job marked as running: no job ever runs twice at the same time.
\<close>

theorem scheduler_never_overlaps:
  assumes "cron_run es [] = (lg, s)"
  shows "in_flight n lg False = Some (running n s)"
  using run_flight [of "[]" es lg s n] assms by (simp add: running_def)

text \<open>A schedule and a minute to evaluate at.\<close>

lemmas cron_eval = parseCron_def trim_def is_space_def INHERITED_def MACROS_def RANGES_def parseField_def parse_part_def
  cron_term_def term_body_def one_or_two_digits_def is_digit_def number_of_def split_on.simps step_values.simps add_all_def
  sunday_def starred_def

definition monday_nine :: cron_fields where
  "monday_nine = \<lparr> cf_minute = [0], cf_hour = [9], cf_dom = [1], cf_month = [6], cf_dow = [1],
     cf_domRestricted = True, cf_dowRestricted = True \<rparr>"

lemma parse_monday_nine: "parseCron (js ''0 9 1 6 1'') = Inr monday_nine"
  by (simp add: cron_eval monday_nine_def)

definition june_first :: local_time where
  "june_first = \<lparr> lt_year = 2026, lt_month = 5, lt_day = 1, lt_hour = 9, lt_minute = 0, lt_weekday = 1 \<rparr>"

lemma june_first_due: "matches monday_nine june_first"
  by (simp add: matches_def monday_nine_def june_first_def)

lemma minuteKey_nonempty [simp]: "minuteKey d \<noteq> []" "[] \<noteq> minuteKey d"
  by (simp_all add: minuteKey_def)

lemmas scheduler_eval = add_job_def parse_monday_nine june_first_due fire_def runNow_def settle_def running_def

theorem scheduler_never_overlaps_witness:
  "\<exists>lg s. cron_run [Add [97] (js ''0 9 1 6 1''), Tick june_first (\<lambda>n. Promises), RunNow [97] Returns] [] = (lg, s)
     \<and> lg = [Started [97]] \<and> running [97] s \<and> in_flight [97] lg False = Some (running [97] s)"
proof -
  obtain lg s where r: "cron_run [Add [97] (js ''0 9 1 6 1''), Tick june_first (\<lambda>n. Promises), RunNow [97] Returns] [] = (lg, s)"
    by (metis surj_pair)
  moreover have "lg = [Started [97]]" "running [97] s" using r by (auto simp: scheduler_eval simp del: js_Cons)
  ultimately show ?thesis using scheduler_never_overlaps [OF r, of "[97]"] by blast
qed

text \<open>
  A tick starts every idle job that is due and did not fire in this minute, and a later tick in the same
  minute starts nothing, whatever manual runs and ends of handlers came between.
\<close>

theorem one_run_per_minute:
  assumes "cron_run es [] = (lg, s)" and "tick d h s = (l1, s1)"
    and "\<forall>e \<in> set between. same_minute d e" and "cron_run between s1 = (l2, s2)"
  shows "(\<forall>(name, job) \<in> set s. matches (cj_fields job) d \<and> cj_lastFiredMinute job \<noteq> minuteKey d \<and> \<not> cj_running job
            \<longrightarrow> Started name \<in> set l1)
    \<and> tick d h' s2 = ([], s2)"
proof -
  have "\<forall>x \<in> set s1. quiet_job d (snd x)" using tick_quiet [of d h s] assms(2) by simp
  from run_quiet [OF this assms(3,4)] have "tick d h' s2 = ([], s2)" by (rule quiet_tick)
  moreover have "Started name \<in> set l1"
    if "(name, job) \<in> set s" "matches (cj_fields job) d" "cj_lastFiredMinute job \<noteq> minuteKey d" "\<not> cj_running job"
    for name job
    using tick_fires [OF that(1), of d h] that(2,3,4) assms(2) by (simp add: quiet_job_def)
  ultimately show ?thesis by blast
qed

theorem one_run_per_minute_witness:
  "\<exists>lg s l1 s1 l2 s2. cron_run [Add [97] (js ''0 9 1 6 1'')] [] = (lg, s) \<and> tick june_first (\<lambda>n. Promises) s = (l1, s1)
     \<and> cron_run [Settle [97], RunNow [97] Returns] s1 = (l2, s2) \<and> l1 = [Started [97]]
     \<and> l2 = [Ended [97], Started [97], Ended [97]] \<and> tick june_first (\<lambda>n. Returns) s2 = ([], s2)"
proof -
  obtain lg s where r: "cron_run [Add [97] (js ''0 9 1 6 1'')] [] = (lg, s)" by (metis surj_pair)
  obtain l1 s1 where t: "tick june_first (\<lambda>n. Promises) s = (l1, s1)" by (metis surj_pair)
  obtain l2 s2 where b: "cron_run [Settle [97], RunNow [97] Returns] s1 = (l2, s2)" by (metis surj_pair)
  have "\<forall>e \<in> set [Settle [97], RunNow [97] Returns]. same_minute june_first e" by simp
  from one_run_per_minute [OF r t this b, of "\<lambda>n. Returns"] have q: "tick june_first (\<lambda>n. Returns) s2 = ([], s2)" by blast
  have s: "s = [([97], \<lparr> cj_fields = monday_nine, cj_expr = js ''0 9 1 6 1'', cj_running = False, cj_lastFiredMinute = [] \<rparr>)]"
    using r by (simp add: scheduler_eval del: js_Cons)
  have s1: "l1 = [Started [97]]"
      "s1 = [([97], \<lparr> cj_fields = monday_nine, cj_expr = js ''0 9 1 6 1'', cj_running = True, cj_lastFiredMinute = minuteKey june_first \<rparr>)]"
    using t by (simp_all add: s scheduler_eval del: js_Cons)
  have "l2 = [Ended [97], Started [97], Ended [97]]"
    using b by (simp add: s1 scheduler_eval del: js_Cons)
  with r t b q s1(1) show ?thesis by blast
qed

end
