(* ===== verification/ByteRange.thy ===== *)
theory ByteRange
  imports ParamConstraint
begin

text \<open>
  The \<open>Range\<close> header: \<open>packages/core/src/range.ts\<close>, the parser behind \<open>rangeResponse\<close> and the static file
  handler.

  \<^item> A position is an \<open>int\<close>. \<open>Number\<close> of a text of digits is exact up to \<open>2^53\<close>, and both sides of each
    comparison in the src then stay on the same side of \<open>size\<close>, a safe integer, so the exact number serves.
  \<^item> The regular expression is written out: the letters in either case, white space, the equals sign, white
    space, and a rest without line terminators.
\<close>

section \<open>Ranges\<close>

datatype byte_range = Byte_Range (br_start: int) (br_end: int)

text \<open>The order of \<open>ranges.sort\<close>: by start, then by end.\<close>

instantiation byte_range :: linorder
begin

definition less_eq_byte_range :: "byte_range \<Rightarrow> byte_range \<Rightarrow> bool" where
  "less_eq_byte_range a b \<longleftrightarrow> br_start a < br_start b \<or> br_start a = br_start b \<and> br_end a \<le> br_end b"

definition less_byte_range :: "byte_range \<Rightarrow> byte_range \<Rightarrow> bool" where
  "less_byte_range a b \<longleftrightarrow> br_start a < br_start b \<or> br_start a = br_start b \<and> br_end a < br_end b"

instance
  by standard (auto simp: less_eq_byte_range_def less_byte_range_def intro: byte_range.expand)

end

datatype range_result = NoRange | Unsatisfiable | Satisfiable "byte_range list"

definition MAX_RANGE_HEADER_LENGTH :: nat where
  "MAX_RANGE_HEADER_LENGTH = 16 * 1024"

definition MAX_RANGE_SPECIFIERS :: nat where
  "MAX_RANGE_SPECIFIERS = 16"

definition validSize :: "int \<Rightarrow> bool" where
  "validSize sz \<longleftrightarrow> 0 \<le> sz \<and> sz \<le> 2 ^ 53 - 1"

text \<open>\<open>INTEGER.test\<close>\<close>

definition INTEGER :: "jstr \<Rightarrow> bool" where
  "INTEGER s \<longleftrightarrow> s = [48] \<or> (s \<noteq> [] \<and> list_all is_digit s \<and> hd s \<noteq> 48)"

section \<open>One range\<close>

fun scan_dash :: "jstr \<Rightarrow> nat \<Rightarrow> nat option \<Rightarrow> nat option option" where
  "scan_dash [] index dash = Some dash"
| "scan_dash (code # cs) index dash =
     (if code = 45 then (if dash \<noteq> None then None else scan_dash cs (index + 1) (Some index))
      else if code < 48 \<or> code > 57 then None
      else scan_dash cs (index + 1) dash)"

definition bounds_of :: "jstr \<Rightarrow> jstr \<Rightarrow> int \<Rightarrow> int \<times> int" where
  "bounds_of left right sz =
     (if left = [] then
        (let suffix = int (number_of right) in (if suffix \<ge> sz then 0 else sz - suffix, sz - 1))
      else
        (int (number_of left), if right = [] then sz - 1 else min (int (number_of right)) (sz - 1)))"

definition parseSingleRange :: "jstr \<Rightarrow> int \<Rightarrow> range_result option" where
  "parseSingleRange hdr sz =
     (if length hdr < 7 \<or> hdr ! 5 \<noteq> 61 \<or> or (hdr ! 0) 32 \<noteq> 98 \<or> or (hdr ! 1) 32 \<noteq> 121
        \<or> or (hdr ! 2) 32 \<noteq> 116 \<or> or (hdr ! 3) 32 \<noteq> 101 \<or> or (hdr ! 4) 32 \<noteq> 115
      then None
      else
        (case scan_dash (drop 6 hdr) 6 None of
           None \<Rightarrow> None
         | Some None \<Rightarrow> None
         | Some (Some dash) \<Rightarrow>
             (let leftDigits = dash - 6; rightDigits = length hdr - dash - 1 in
              if leftDigits > 1 \<and> hdr ! 6 = 48 \<or> rightDigits > 1 \<and> hdr ! (dash + 1) = 48 then Some NoRange
              else if leftDigits = 0 \<and> (rightDigits = 0 \<or> rightDigits = 1 \<and> hdr ! (dash + 1) = 48) then Some NoRange
              else
                (let (start, stop) = bounds_of (slice hdr 6 dash) (drop (dash + 1) hdr) sz in
                 if start > stop \<or> start \<ge> sz \<or> sz = 0 then Some Unsatisfiable
                 else Some (Satisfiable [Byte_Range start stop])))))"

section \<open>The general path\<close>

definition line_end :: "nat \<Rightarrow> bool" where
  "line_end c \<longleftrightarrow> c = 10 \<or> c = 13 \<or> c = 8232 \<or> c = 8233"

definition lower_ascii :: "nat \<Rightarrow> nat" where
  "lower_ascii c = (if 65 \<le> c \<and> c \<le> 90 then c + 32 else c)"

text \<open>Group 1 of \<open>/^bytes\s*=\s*(\S.*)$/i\<close>.\<close>

definition range_source :: "jstr \<Rightarrow> jstr option" where
  "range_source hdr =
     (if length hdr < 5 \<or> map lower_ascii (take 5 hdr) \<noteq> js ''bytes'' then None
      else
        (case dropWhile is_space (drop 5 hdr) of
           c # cs \<Rightarrow>
             (let src = dropWhile is_space cs in
              if c = 61 \<and> src \<noteq> [] \<and> \<not> list_ex line_end src then Some src else None)
         | [] \<Rightarrow> None))"

text \<open>One specifier: whether it is valid, and the range it selects.\<close>

definition specifier :: "int \<Rightarrow> jstr \<Rightarrow> byte_range option option" where
  "specifier sz raw =
     (let item = trim raw in
      case index_of item (js ''-'') 0 of
        None \<Rightarrow> None
      | Some dash \<Rightarrow>
          (let left = trim (take dash item); right = trim (drop (dash + 1) item) in
           if left = [] \<and> (\<not> INTEGER right \<or> right = js ''0'') then None
           else if left \<noteq> [] \<and> \<not> INTEGER left then None
           else if right \<noteq> [] \<and> \<not> INTEGER right then None
           else
             (let (start, stop) = bounds_of left right sz in
              if start > stop \<or> start \<ge> sz \<or> sz = 0 then Some None else Some (Some (Byte_Range start stop)))))"

fun collect_ranges :: "int \<Rightarrow> jstr list \<Rightarrow> byte_range list \<Rightarrow> bool \<Rightarrow> byte_range list \<times> bool" where
  "collect_ranges sz [] ranges valid = (ranges, valid)"
| "collect_ranges sz (raw # raws) ranges valid =
     (case specifier sz raw of
        None \<Rightarrow> collect_ranges sz raws ranges valid
      | Some None \<Rightarrow> collect_ranges sz raws ranges True
      | Some (Some r) \<Rightarrow> collect_ranges sz raws (ranges @ [r]) True)"

fun merge_ranges :: "byte_range list \<Rightarrow> byte_range list \<Rightarrow> byte_range list" where
  "merge_ranges merged [] = merged"
| "merge_ranges merged (r # rs) =
     (if merged \<noteq> [] \<and> br_start r \<le> br_end (last merged) + 1
      then merge_ranges (butlast merged @ [Byte_Range (br_start (last merged)) (max (br_end (last merged)) (br_end r))]) rs
      else merge_ranges (merged @ [r]) rs)"

definition parse_general :: "jstr \<Rightarrow> int \<Rightarrow> range_result" where
  "parse_general hdr sz =
     (case range_source hdr of
        None \<Rightarrow> NoRange
      | Some src \<Rightarrow>
          if length (filter (\<lambda>c. c = 44) src) \<ge> MAX_RANGE_SPECIFIERS then NoRange
          else
            (let (ranges, valid) = collect_ranges sz (split_on 44 src) [] False in
             if ranges = [] then (if valid then Unsatisfiable else NoRange)
             else Satisfiable (merge_ranges [] (sort ranges))))"

text \<open>\<open>None\<close> is the \<open>RangeError\<close> of \<open>validSize\<close>.\<close>

definition parseByteRange :: "jstr option \<Rightarrow> int \<Rightarrow> range_result option" where
  "parseByteRange hdr sz =
     (if \<not> validSize sz then None
      else
        (case hdr of
           None \<Rightarrow> Some NoRange
         | Some v \<Rightarrow>
             if length v > MAX_RANGE_HEADER_LENGTH then Some NoRange
             else
               (case parseSingleRange v sz of
                  Some single \<Rightarrow> Some single
                | None \<Rightarrow> Some (parse_general v sz))))"

section \<open>The scan of the fast path\<close>

lemma lower_letter: "or c 32 = n \<Longrightarrow> 96 \<le> n \<Longrightarrow> n < 128 \<Longrightarrow> c = n \<or> c = n - 32" for c n :: nat
proof -
  assume a: "or c 32 = n" "96 \<le> n" "n < 128"
  have "int c \<le> or (int c) 32" by (rule or_greater_eq) simp
  then have "c \<le> or c 32" unfolding or_nat_def by simp
  then have c: "c < 128" using a by simp
  have "list_all (\<lambda>c. or c 32 = c \<or> or c 32 = c + 32) [0..<128]" by code_simp
  with c have "or c 32 = c \<or> or c 32 = c + 32" by (simp add: list_all_iff)
  with a show ?thesis by auto
qed

lemma lower_folded: "or c 32 = n \<Longrightarrow> 97 \<le> n \<Longrightarrow> n \<le> 122 \<Longrightarrow> lower_ascii c = n"
  using lower_letter [of c n] by (auto simp: lower_ascii_def)

lemma scan_dash_digits: "scan_dash s i (Some d) = Some r \<Longrightarrow> r = Some d \<and> list_all is_digit s"
  by (induction s arbitrary: i) (auto simp: is_digit_def split: if_splits)

lemma scan_dash_spec:
  "scan_dash s i None = Some (Some r) \<Longrightarrow>
     \<exists>l rt. s = l @ 45 # rt \<and> list_all is_digit l \<and> list_all is_digit rt \<and> r = i + length l"
proof (induction s arbitrary: i)
  case (Cons code cs)
  show ?case
  proof (cases "code = 45")
    case True
    with Cons.prems scan_dash_digits [of cs "i + 1" i "Some r"] have "code # cs = [] @ 45 # cs" "list_all is_digit cs" "r = i" by simp_all
    then show ?thesis by (intro exI [of _ "[]"] exI [of _ cs]) simp
  next
    case False
    with Cons.prems have dig: "is_digit code" "scan_dash cs (i + 1) None = Some (Some r)"
      by (auto simp: is_digit_def split: if_splits)
    from Cons.IH [OF dig(2)] obtain l rt where "cs = l @ 45 # rt" "list_all is_digit l" "list_all is_digit rt" "r = i + 1 + length l"
      by blast
    with dig(1) show ?thesis by (intro exI [of _ "code # l"] exI [of _ rt]) simp
  qed
qed simp

text \<open>What the fast path answers, in terms of the texts on both sides of the dash.\<close>

definition one_range :: "jstr \<Rightarrow> jstr \<Rightarrow> int \<Rightarrow> range_result" where
  "one_range l rt sz =
     (case specifier sz (l @ 45 # rt) of
        None \<Rightarrow> NoRange | Some None \<Rightarrow> Unsatisfiable | Some (Some r) \<Rightarrow> Satisfiable [r])"

lemma digits_trim: "list_all is_digit s \<Longrightarrow> trim s = s"
proof (cases "s = []")
  case False
  assume "list_all is_digit s"
  then have "is_digit (hd s)" "is_digit (last s)" using False by (simp_all add: list_all_iff)
  then show ?thesis by (intro trim_id False) (auto simp: is_digit_def is_space_def)
qed (simp add: trim_def)

lemma range_trim:
  assumes "list_all is_digit l" and "list_all is_digit rt"
  shows "trim (l @ 45 # rt) = l @ 45 # rt"
proof (rule trim_id)
  have h: "is_digit (hd (l @ 45 # rt)) \<or> hd (l @ 45 # rt) = 45" using assms(1) by (cases l) auto
  have t: "is_digit (last (l @ 45 # rt)) \<or> last (l @ 45 # rt) = 45"
    using assms(2) by (cases rt rule: rev_cases) (auto simp: list_all_iff)
  show "\<not> is_space (hd (l @ 45 # rt))" using h by (auto simp: is_digit_def is_space_def)
  show "\<not> is_space (last (l @ 45 # rt))" using t by (auto simp: is_digit_def is_space_def)
qed simp

lemma find_dash: "list_all is_digit l \<Longrightarrow> index_of (l @ 45 # rt) (js ''-'') 0 = Some (length l)"
proof -
  have "find_sub [45] (l @ 45 # rt) = Some (length l)" if "list_all is_digit l" for l
    using that by (induction l) (auto simp: is_digit_def)
  then show "list_all is_digit l \<Longrightarrow> index_of (l @ 45 # rt) (js ''-'') 0 = Some (length l)"
    by (simp add: index_of_def)
qed

lemma specifier_digits:
  assumes "list_all is_digit l" and "list_all is_digit rt"
  shows "specifier sz (l @ 45 # rt) =
     (if l = [] \<and> (\<not> INTEGER rt \<or> rt = js ''0'') then None
      else if l \<noteq> [] \<and> \<not> INTEGER l then None
      else if rt \<noteq> [] \<and> \<not> INTEGER rt then None
      else
        (let (start, stop) = bounds_of l rt sz in
         if start > stop \<or> start \<ge> sz \<or> sz = 0 then Some None else Some (Some (Byte_Range start stop))))"
proof -
  have cut: "take (length l) (l @ 45 # rt) = l" "drop (length l + 1) (l @ 45 # rt) = rt" by simp_all
  show ?thesis
    unfolding specifier_def Let_def range_trim [OF assms] find_dash [OF assms(1)] option.case cut digits_trim [OF assms(1)]
      digits_trim [OF assms(2)] by (rule refl)
qed

lemma INTEGER_digits:
  "list_all is_digit s \<Longrightarrow> INTEGER s \<longleftrightarrow> s \<noteq> [] \<and> \<not> (length s > 1 \<and> hd s = 48)"
  by (cases s; cases "tl s") (auto simp: INTEGER_def)

lemma single_text:
  assumes "parseSingleRange hdr sz = Some res"
  obtains p l rt where "hdr = p @ l @ 45 # rt" and "map lower_ascii (take 5 p) = js ''bytes''"
    and "length p = 6" and "p ! 5 = 61" and "list_all is_digit l" and "list_all is_digit rt" and "res = one_range l rt sz"
proof -
  have len: "7 \<le> length hdr" and eq: "hdr ! 5 = 61"
    and b: "or (hdr ! 0) 32 = 98" "or (hdr ! 1) 32 = 121" "or (hdr ! 2) 32 = 116" "or (hdr ! 3) 32 = 101" "or (hdr ! 4) 32 = 115"
    using assms by (auto simp: parseSingleRange_def split: if_splits)
  obtain dash where d: "scan_dash (drop 6 hdr) 6 None = Some (Some dash)"
    using assms by (auto simp: parseSingleRange_def split: if_splits option.splits)
  from scan_dash_spec [OF d] obtain l rt where s: "drop 6 hdr = l @ 45 # rt" "list_all is_digit l" "list_all is_digit rt"
    "dash = 6 + length l" by blast
  define p where "p = take 6 hdr"
  have v: "hdr = p @ l @ 45 # rt" using s(1) by (metis append_take_drop_id p_def)
  have p: "length p = 6" "p ! 5 = 61" using len eq by (simp_all add: p_def)
  have low: "map lower_ascii (take 5 p) = js ''bytes''"
  proof -
    from len obtain a b c d e r where "hdr = a # b # c # d # e # r"
      by (auto simp: numeral_eq_Suc Suc_le_length_iff)
    then have "take 5 p = [hdr ! 0, hdr ! 1, hdr ! 2, hdr ! 3, hdr ! 4]"
      by (simp add: p_def)
    then show ?thesis using b by (simp add: lower_folded)
  qed
  have "res = one_range l rt sz"
  proof -
    have idx: "hdr ! 6 = hd l" if "l \<noteq> []" using that p(1) by (cases l) (simp_all add: v nth_append)
    have idr: "hdr ! (dash + 1) = hd rt" if "rt \<noteq> []" using that p(1) by (cases rt) (simp_all add: v nth_append s(4))
    have sl: "slice hdr 6 dash = l" "drop (dash + 1) hdr = rt" "dash - 6 = length l" "length hdr - dash - 1 = length rt"
      using p(1) by (simp_all add: v s(4) slice_def)
    have guard: "\<not> (length hdr < 7 \<or> hdr ! 5 \<noteq> 61 \<or> or (hdr ! 0) 32 \<noteq> 98 \<or> or (hdr ! 1) 32 \<noteq> 121
        \<or> or (hdr ! 2) 32 \<noteq> 116 \<or> or (hdr ! 3) 32 \<noteq> 101 \<or> or (hdr ! 4) 32 \<noteq> 115)"
      using len eq b by simp
    from assms have "Some res =
       (if length l > 1 \<and> hdr ! 6 = 48 \<or> length rt > 1 \<and> hdr ! (dash + 1) = 48 then Some NoRange
        else if length l = 0 \<and> (length rt = 0 \<or> length rt = 1 \<and> hdr ! (dash + 1) = 48) then Some NoRange
        else
          (let (start, stop) = bounds_of l rt sz in
           if start > stop \<or> start \<ge> sz \<or> sz = 0 then Some Unsatisfiable else Some (Satisfiable [Byte_Range start stop])))"
      unfolding parseSingleRange_def if_not_P [OF guard] d option.case Let_def sl by (rule sym)
    moreover have "length l > 1 \<and> hdr ! 6 = 48 \<longleftrightarrow> l \<noteq> [] \<and> \<not> INTEGER l"
      using idx INTEGER_digits [OF s(2)] by auto
    moreover have "length rt > 1 \<and> hdr ! (dash + 1) = 48 \<longleftrightarrow> rt \<noteq> [] \<and> \<not> INTEGER rt"
      using idr INTEGER_digits [OF s(3)] by auto
    moreover have "length rt = 1 \<and> hdr ! (dash + 1) = 48 \<longleftrightarrow> rt = js ''0''"
      using idr by (cases rt) auto
    moreover have "\<not> INTEGER []" by (simp add: INTEGER_def)
    moreover obtain a b where "bounds_of l rt sz = (a, b)" by (cases "bounds_of l rt sz")
    ultimately show ?thesis
      unfolding one_range_def specifier_digits [OF s(2,3)]
      by (cases "l = []"; cases "rt = []"; cases "INTEGER l"; cases "INTEGER rt") (auto simp del: js_Cons split: if_splits)
  qed
  from that [OF v low p s(2,3) this] show thesis .
qed

text \<open>On such a text the general path reads one specifier.\<close>

lemma general_text:
  assumes "map lower_ascii (take 5 p) = js ''bytes''" and "length p = 6" and "p ! 5 = 61"
    and "list_all is_digit l" and "list_all is_digit rt"
  shows "parse_general (p @ l @ 45 # rt) sz = one_range l rt sz"
proof -
  let ?src = "l @ 45 # rt"
  have p: "drop 5 p = [61]" using Cons_nth_drop_Suc [of 5 p] assms(2,3) by simp
  have ch: "\<forall>c \<in> set ?src. is_digit c \<or> c = 45" using assms(4,5) by (auto simp: list_all_iff)
  have sp: "\<not> is_space c" "\<not> line_end c" "c \<noteq> 44" if "c \<in> set ?src" for c
  proof -
    from ch that have "is_digit c \<or> c = 45" by blast
    then show "\<not> is_space c" "\<not> line_end c" "c \<noteq> 44" by (auto simp: is_digit_def is_space_def line_end_def)
  qed
  have nosp: "dropWhile is_space ?src = ?src" using sp(1) [of "hd ?src"] by (cases ?src) auto
  have src: "range_source (p @ ?src) = Some ?src"
    using assms(1,2) p nosp sp(2) by (auto simp: range_source_def is_space_def list_ex_iff Let_def)
  have "filter (\<lambda>c. c = 44) ?src = []" using sp(3) by (auto simp: filter_empty_conv)
  moreover have "split_on 44 ?src = [?src]" using sp(3) by (intro split_on_free) blast
  ultimately show ?thesis
    unfolding parse_general_def src option.case one_range_def
    by (auto simp: MAX_RANGE_SPECIFIERS_def split: option.split)
qed

section \<open>Merging\<close>

definition covers :: "byte_range list \<Rightarrow> int \<Rightarrow> bool" where
  "covers rs n \<longleftrightarrow> (\<exists>r \<in> set rs. br_start r \<le> n \<and> n \<le> br_end r)"

lemma covers_simps [simp]:
  "covers [] n \<longleftrightarrow> False" "covers (r # rs) n \<longleftrightarrow> br_start r \<le> n \<and> n \<le> br_end r \<or> covers rs n"
  "covers (rs @ ss) n \<longleftrightarrow> covers rs n \<or> covers ss n" "covers (sort rs) n \<longleftrightarrow> covers rs n"
  by (auto simp: covers_def)

definition separated :: "byte_range list \<Rightarrow> bool" where
  "separated rs \<longleftrightarrow> sorted_wrt (\<lambda>a b. br_end a + 1 < br_start b) rs"

definition inside :: "int \<Rightarrow> byte_range \<Rightarrow> bool" where
  "inside sz r \<longleftrightarrow> 0 \<le> br_start r \<and> br_start r \<le> br_end r \<and> br_end r < sz"

lemma separated_snoc:
  "separated (rs @ [r]) \<longleftrightarrow> separated rs \<and> (\<forall>a \<in> set rs. br_end a + 1 < br_start r)"
  by (auto simp: separated_def sorted_wrt_append)

lemma separated_far:
  assumes "separated (M @ [p])" and "\<forall>a \<in> set (M @ [p]). inside sz a" and "br_end p + 1 < b"
  shows "\<forall>a \<in> set (M @ [p]). br_end a + 1 < b"
  using assms by (fastforce simp: separated_snoc inside_def)

lemma merge_spec:
  assumes "separated M" and "\<forall>r \<in> set (M @ rs). inside sz r" and "sorted rs"
    and "M \<noteq> [] \<Longrightarrow> \<forall>r \<in> set rs. br_start (last M) \<le> br_start r"
  shows "separated (merge_ranges M rs) \<and> (\<forall>r \<in> set (merge_ranges M rs). inside sz r)
    \<and> length (merge_ranges M rs) \<le> length M + length rs
    \<and> (M \<noteq> [] \<or> rs \<noteq> [] \<longrightarrow> merge_ranges M rs \<noteq> []) \<and> (\<forall>n. covers (merge_ranges M rs) n \<longleftrightarrow> covers (M @ rs) n)"
  using assms
proof (induction rs arbitrary: M)
  case (Cons r rs)
  have tl: "sorted rs" using Cons.prems(3) by simp
  have hd: "\<forall>q \<in> set rs. br_start r \<le> br_start q"
    using Cons.prems(3) by (auto simp: less_eq_byte_range_def)
  show ?case
  proof (cases "M \<noteq> [] \<and> br_start r \<le> br_end (last M) + 1")
    case True
    define p N where "p = last M" and "N = butlast M"
    define q where "q = Byte_Range (br_start p) (max (br_end p) (br_end r))"
    have M: "M = N @ [p]" using True by (simp add: p_def N_def)
    have sp: "br_start p \<le> br_start r" using Cons.prems(4) True by (simp add: p_def)
    have sep: "separated (N @ [q])" using Cons.prems(1) by (simp add: M separated_snoc q_def)
    have ins: "\<forall>x \<in> set ((N @ [q]) @ rs). inside sz x"
      using Cons.prems(2) by (auto simp: M inside_def q_def)
    have le: "\<forall>x \<in> set rs. br_start (last (N @ [q])) \<le> br_start x"
      using sp hd by (auto simp: q_def)
    have cov: "covers ((N @ [q]) @ rs) n \<longleftrightarrow> covers (M @ r # rs) n" for n
    proof -
      have "br_start r \<le> br_end p + 1" using True by (simp add: p_def)
      with sp have "br_start q \<le> n \<and> n \<le> br_end q \<longleftrightarrow>
          (br_start p \<le> n \<and> n \<le> br_end p) \<or> (br_start r \<le> n \<and> n \<le> br_end r)"
        unfolding q_def byte_range.sel by linarith
      then show ?thesis unfolding M by (simp only: covers_simps append.simps append_assoc) blast
    qed
    have e: "merge_ranges M (r # rs) = merge_ranges (N @ [q]) rs"
      unfolding merge_ranges.simps if_P [OF True] q_def p_def N_def by (rule refl)
    have "length (N @ [q]) + length rs \<le> length M + length (r # rs)" by (simp add: M)
    with Cons.IH [OF sep ins tl le] show ?thesis unfolding e cov by auto
  next
    case False
    have "separated (M @ [r])"
    proof (cases M rule: rev_cases)
      case (snoc N p)
      have "\<forall>a \<in> set (N @ [p]). br_end a + 1 < br_start r"
        by (rule separated_far [where sz = sz]) (use False Cons.prems(1,2) in \<open>auto simp: snoc\<close>)
      with Cons.prems(1) show ?thesis unfolding snoc separated_snoc [of "N @ [p]"] by blast
    qed (simp add: separated_def)
    moreover have "merge_ranges M (r # rs) = merge_ranges (M @ [r]) rs" using False by auto
    ultimately show ?thesis using Cons.IH [of "M @ [r]"] Cons.prems(2) tl hd by simp
  qed
qed simp

section \<open>What a specifier asks for\<close>

datatype range_spec = From nat | Between nat nat | Suffix nat

definition spec_of :: "jstr \<Rightarrow> range_spec option" where
  "spec_of raw =
     (let item = trim raw in
      case index_of item (js ''-'') 0 of
        None \<Rightarrow> None
      | Some dash \<Rightarrow>
          (let left = trim (take dash item); right = trim (drop (dash + 1) item) in
           if left = [] then (if INTEGER right \<and> right \<noteq> js ''0'' then Some (Suffix (number_of right)) else None)
           else if INTEGER left \<and> right = [] then Some (From (number_of left))
           else if INTEGER left \<and> INTEGER right then Some (Between (number_of left) (number_of right))
           else None))"

fun selects :: "range_spec \<Rightarrow> int \<Rightarrow> int \<Rightarrow> bool" where
  "selects (From a) sz n \<longleftrightarrow> int a \<le> n \<and> n < sz"
| "selects (Between a b) sz n \<longleftrightarrow> int a \<le> n \<and> n \<le> int b \<and> n < sz"
| "selects (Suffix k) sz n \<longleftrightarrow> sz - int k \<le> n \<and> 0 \<le> n \<and> n < sz"

lemma number_zero: "list_all is_digit s \<Longrightarrow> number_of s = 0 \<Longrightarrow> s \<noteq> [] \<Longrightarrow> hd s = 48"
proof (induction s rule: rev_induct)
  case (snoc d s)
  then show ?case
    by (cases "s = []") (auto simp: number_of_snoc is_digit_def number_of_def)
qed simp

lemma INTEGER_zero: "INTEGER s \<Longrightarrow> s \<noteq> js ''0'' \<Longrightarrow> 0 < number_of s"
  using number_zero [of s] by (cases "number_of s") (auto simp: INTEGER_def)

lemma specifier_spec:
  assumes "0 \<le> sz"
  shows "case specifier sz raw of
     None \<Rightarrow> spec_of raw = None
   | Some None \<Rightarrow> (\<exists>sp. spec_of raw = Some sp \<and> (\<forall>n. \<not> selects sp sz n))
   | Some (Some r) \<Rightarrow> inside sz r \<and> (\<exists>sp. spec_of raw = Some sp \<and> (\<forall>n. selects sp sz n \<longleftrightarrow> br_start r \<le> n \<and> n \<le> br_end r))"
proof (cases "index_of (trim raw) (js ''-'') 0")
  case (Some dash)
  define l where "l = trim (take dash (trim raw))"
  define r where "r = trim (drop (dash + 1) (trim raw))"
  have e: "\<not> INTEGER []" by (simp add: INTEGER_def)
  have sp: "spec_of raw = (if l = [] then (if INTEGER r \<and> r \<noteq> js ''0'' then Some (Suffix (number_of r)) else None)
           else if INTEGER l \<and> r = [] then Some (From (number_of l))
           else if INTEGER l \<and> INTEGER r then Some (Between (number_of l) (number_of r)) else None)"
    unfolding spec_of_def Let_def Some option.case l_def r_def by (rule refl)
  have sf: "specifier sz raw = (if l = [] \<and> (\<not> INTEGER r \<or> r = js ''0'') then None
           else if l \<noteq> [] \<and> \<not> INTEGER l then None else if r \<noteq> [] \<and> \<not> INTEGER r then None
           else (let (start, stop) = bounds_of l r sz in
             if start > stop \<or> start \<ge> sz \<or> sz = 0 then Some None else Some (Some (Byte_Range start stop))))"
    unfolding specifier_def Let_def Some option.case l_def r_def by (rule refl)
  show ?thesis
  proof (cases "l = []")
    case True
    show ?thesis
    proof (cases "INTEGER r \<and> r \<noteq> js ''0''")
      case i: True
      with INTEGER_zero [of r] have "0 < number_of r" by blast
      with True i e assms show ?thesis unfolding sp sf by (auto simp: bounds_of_def Let_def inside_def simp del: js_Cons)
    qed (use True in \<open>simp add: sp sf\<close>)
  next
    case False
    show ?thesis
    proof (cases "INTEGER l \<and> (r = [] \<or> INTEGER r)")
      case True
      with False e show ?thesis unfolding sp sf by (auto simp: bounds_of_def Let_def inside_def not_le not_less)
    qed (use False in \<open>auto simp: sp sf\<close>)
  qed
qed (simp add: specifier_def spec_of_def)

lemma collect_spec:
  assumes "0 \<le> sz" and "collect_ranges sz raws R v = (R', v')" and "\<forall>r \<in> set R. inside sz r"
  shows "(\<forall>r \<in> set R'. inside sz r) \<and> (v' \<longleftrightarrow> v \<or> List.map_filter spec_of raws \<noteq> [])
    \<and> length R' \<le> length R + length raws
    \<and> (\<forall>n. covers R' n \<longleftrightarrow> covers R n \<or> (\<exists>sp \<in> set (List.map_filter spec_of raws). selects sp sz n))"
  using assms(2,3)
proof (induction raws arbitrary: R v)
  case (Cons raw raws)
  note sp = specifier_spec [OF assms(1), of raw]
  consider (none) "specifier sz raw = None" | (empty) "specifier sz raw = Some None"
    | (range) r where "specifier sz raw = Some (Some r)" by (metis option.exhaust)
  then show ?case
  proof cases
    case none
    with sp Cons.IH [of R v] Cons.prems show ?thesis by (simp add: map_filter_simps le_SucI)
  next
    case empty
    with sp obtain s where s: "spec_of raw = Some s" "\<forall>n. \<not> selects s sz n" by auto
    with empty Cons.IH [of R True] Cons.prems show ?thesis by (auto simp: map_filter_simps)
  next
    case range
    with sp obtain s where s: "spec_of raw = Some s" "\<forall>n. selects s sz n \<longleftrightarrow> br_start r \<le> n \<and> n \<le> br_end r" "inside sz r"
      by auto
    with range Cons.IH [of "R @ [r]" True] Cons.prems show ?thesis by (auto simp: map_filter_simps)
  qed
qed (simp add: map_filter_simps)

lemma split_on_length: "length (split_on k s) = Suc (length (filter (\<lambda>c. c = k) s))"
  by (induction s) (auto split: list.split simp: split_on_not_Nil)

section \<open>Properties\<close>

text \<open>The specifiers a header is read as: none when the header is no range set, is too long or lists too many.\<close>

definition range_specs :: "jstr \<Rightarrow> range_spec list" where
  "range_specs hdr =
     (if length hdr > MAX_RANGE_HEADER_LENGTH then []
      else
        (case range_source hdr of
           None \<Rightarrow> []
         | Some src \<Rightarrow>
             if length (filter (\<lambda>c. c = 44) src) \<ge> MAX_RANGE_SPECIFIERS then []
             else List.map_filter spec_of (split_on 44 src)))"

lemma parse_is_general:
  "parseByteRange (Some hdr) sz =
     (if \<not> validSize sz then None else Some (if length hdr > MAX_RANGE_HEADER_LENGTH then NoRange else parse_general hdr sz))"
proof (cases "parseSingleRange hdr sz")
  case (Some res)
  from single_text [OF Some] obtain p l rt where
    v: "hdr = p @ l @ 45 # rt" "map lower_ascii (take 5 p) = js ''bytes''" "length p = 6" "p ! 5 = 61"
       "list_all is_digit l" "list_all is_digit rt" "res = one_range l rt sz" by metis
  from general_text [OF v(2-6)] v(1,7) have "parse_general hdr sz = res" by simp
  with Some show ?thesis by (simp add: parseByteRange_def)
qed (simp add: parseByteRange_def)

lemma parse_general_spec:
  assumes "0 \<le> sz"
  shows "case parse_general hdr sz of
     NoRange \<Rightarrow> length hdr \<le> MAX_RANGE_HEADER_LENGTH \<longrightarrow> range_specs hdr = []
   | Unsatisfiable \<Rightarrow> length hdr \<le> MAX_RANGE_HEADER_LENGTH \<longrightarrow>
       range_specs hdr \<noteq> [] \<and> (\<forall>sp \<in> set (range_specs hdr). \<forall>n. \<not> selects sp sz n)
   | Satisfiable rs \<Rightarrow> rs \<noteq> [] \<and> separated rs \<and> (\<forall>r \<in> set rs. inside sz r) \<and> length rs \<le> MAX_RANGE_SPECIFIERS
       \<and> (length hdr \<le> MAX_RANGE_HEADER_LENGTH \<longrightarrow>
           (\<forall>n. covers rs n \<longleftrightarrow> (\<exists>sp \<in> set (range_specs hdr). selects sp sz n)))"
proof (cases "range_source hdr")
  case None
  then show ?thesis by (simp add: parse_general_def range_specs_def)
next
  case (Some src)
  show ?thesis
  proof (cases "length (filter (\<lambda>c. c = 44) src) \<ge> MAX_RANGE_SPECIFIERS")
    case True
    with Some show ?thesis by (simp add: parse_general_def range_specs_def)
  next
    case few: False
    let ?specs = "List.map_filter spec_of (split_on 44 src)"
    obtain R v where c: "collect_ranges sz (split_on 44 src) [] False = (R, v)" by force
    from collect_spec [OF assms c] have R: "\<forall>r \<in> set R. inside sz r" "v \<longleftrightarrow> ?specs \<noteq> []" "length R \<le> length (split_on 44 src)"
      "\<And>n. covers R n \<longleftrightarrow> (\<exists>sp \<in> set ?specs. selects sp sz n)" by auto
    have specs: "range_specs hdr = ?specs" if "length hdr \<le> MAX_RANGE_HEADER_LENGTH"
      using that few by (simp add: range_specs_def Some)
    have g: "parse_general hdr sz = (if R = [] then if v then Unsatisfiable else NoRange else Satisfiable (merge_ranges [] (sort R)))"
      using few by (simp add: parse_general_def Some c)
    show ?thesis
    proof (cases "R = []")
      case True
      then have "\<not> selects sp sz n" if "sp \<in> set ?specs" for sp n using R(4) [of n] that by auto
      with True R(2) specs show ?thesis by (simp add: g)
    next
      case False
      have "length (split_on 44 src) = Suc (length (filter (\<lambda>c. c = 44) src))"
        by (rule split_on_length)
      with R(3) few have len: "length R \<le> MAX_RANGE_SPECIFIERS" by simp
      from merge_spec [of "[]" "sort R" sz] R(1) have m: "separated (merge_ranges [] (sort R))"
        "\<forall>r \<in> set (merge_ranges [] (sort R)). inside sz r" "length (merge_ranges [] (sort R)) \<le> length R"
        "merge_ranges [] (sort R) \<noteq> []" "\<And>n. covers (merge_ranges [] (sort R)) n \<longleftrightarrow> covers R n"
        using False by (simp_all add: separated_def flip: set_empty)
      with False R(4) len specs show ?thesis by (simp add: g)
    qed
  qed
qed

text \<open>
  C28: Where the scan for the one common form answers at all, it answers what the general path answers, so the
  header is read alike on both, leading zeros, empty sides and huge numbers included.
\<close>

theorem single_range_agrees:
  assumes "parseSingleRange hdr sz = Some res"
  shows "parse_general hdr sz = res"
proof -
  from single_text [OF assms] obtain p l rt where
    v: "hdr = p @ l @ 45 # rt" "map lower_ascii (take 5 p) = js ''bytes''" "length p = 6" "p ! 5 = 61"
       "list_all is_digit l" "list_all is_digit rt" "res = one_range l rt sz" by metis
  from general_text [OF v(2-6)] v(1,7) show ?thesis by simp
qed

theorem single_range_agrees_witness:
  "parseSingleRange (js ''Bytes=2-90'') 40 = Some (Satisfiable [Byte_Range 2 39])
   \<and> parse_general (js ''Bytes=2-90'') 40 = Satisfiable [Byte_Range 2 39]"
proof -
  have p: "parseSingleRange (js ''Bytes=2-90'') 40 = Some (Satisfiable [Byte_Range 2 39])"
    by code_simp
  from single_range_agrees [OF this] p show ?thesis by blast
qed

text \<open>
  The ranges of a satisfiable header are in canonical form: at least one and at most sixteen, each within the
  representation, in order, and with a gap between any two, so no byte is sent twice.
\<close>

lemma ranges_canonical:
  assumes "parseByteRange (Some hdr) sz = Some (Satisfiable rs)"
  shows "rs \<noteq> [] \<and> length rs \<le> 16 \<and> (\<forall>r \<in> set rs. 0 \<le> br_start r \<and> br_start r \<le> br_end r \<and> br_end r < sz)
    \<and> sorted_wrt (\<lambda>a b. br_end a + 1 < br_start b) rs"
proof -
  from assms have "0 \<le> sz" and g: "parse_general hdr sz = Satisfiable rs"
    by (auto simp: parse_is_general validSize_def split: if_splits)
  from parse_general_spec [OF this(1), of hdr] show ?thesis
    by (simp add: g inside_def separated_def MAX_RANGE_SPECIFIERS_def)
qed

text \<open>
  C29: A header selects exactly the bytes its valid specifiers name. When the answer is satisfiable they are the bytes
  of the ranges, and the ranges are in canonical form: at least one and at most sixteen, each inside the
  representation, in order, and with a gap between any two. There is no such byte when the answer is unsatisfiable, and
  the header is ignored exactly when it has no valid specifier.
\<close>

theorem ranges_select_exactly:
  assumes "validSize sz" and "parseByteRange (Some hdr) sz = Some res"
  shows "case res of
     NoRange \<Rightarrow> range_specs hdr = []
   | Unsatisfiable \<Rightarrow> range_specs hdr \<noteq> [] \<and> (\<forall>sp \<in> set (range_specs hdr). \<forall>n. \<not> selects sp sz n)
   | Satisfiable rs \<Rightarrow>
       (\<forall>n. covers rs n \<longleftrightarrow> (\<exists>sp \<in> set (range_specs hdr). selects sp sz n))
       \<and> rs \<noteq> [] \<and> length rs \<le> 16 \<and> (\<forall>r \<in> set rs. 0 \<le> br_start r \<and> br_start r \<le> br_end r \<and> br_end r < sz)
       \<and> sorted_wrt (\<lambda>a b. br_end a + 1 < br_start b) rs"
proof (cases "length hdr > MAX_RANGE_HEADER_LENGTH")
  case True
  with assms show ?thesis by (auto simp: parse_is_general range_specs_def)
next
  case False
  with assms have "parse_general hdr sz = res" by (simp add: parse_is_general)
  moreover have "0 \<le> sz" using assms(1) by (simp add: validSize_def)
  ultimately show ?thesis using parse_general_spec [of sz hdr] ranges_canonical [of hdr sz] assms(2) False by (cases res) auto
qed

text \<open>A header to evaluate at.\<close>

lemma three_ranges:
  "parseByteRange (Some (js ''bytes=0-1, -2,2-3'')) 10 = Some (Satisfiable [Byte_Range 0 3, Byte_Range 8 9])"
proof -
  have "parseSingleRange (js ''bytes=0-1, -2,2-3'') 10 = None" by code_simp
  moreover have "parse_general (js ''bytes=0-1, -2,2-3'') 10 = Satisfiable [Byte_Range 0 3, Byte_Range 8 9]"
    by (simp add: parse_general_def range_source_def lower_ascii_def is_space_def line_end_def MAX_RANGE_SPECIFIERS_def
        specifier_def trim_def index_of_def INTEGER_def is_digit_def number_of_def bounds_of_def less_eq_byte_range_def)
  ultimately show ?thesis
    by (simp add: parseByteRange_def validSize_def MAX_RANGE_HEADER_LENGTH_def)
qed

theorem ranges_select_exactly_witness:
  "validSize 10 \<and> (\<forall>n. covers [Byte_Range 0 3, Byte_Range 8 9] n
      \<longleftrightarrow> (\<exists>sp \<in> set (range_specs (js ''bytes=0-1, -2,2-3'')). selects sp 10 n))
   \<and> sorted_wrt (\<lambda>a b. br_end a + 1 < br_start b) [Byte_Range 0 3, Byte_Range 8 9]"
proof -
  have "validSize 10" by (simp add: validSize_def)
  with ranges_select_exactly [OF this three_ranges] show ?thesis by simp
qed

end
