(* ===== verification/Admission.thy ===== *)
theory Admission
  imports Prelude Complex_Main
begin

text \<open>
  Capacity admission: \<open>packages/middleware/src/admission.ts\<close>, the gate that admits, queues or sheds requests.

  \<^item> A request is the number of its arrival. A call of \<open>admit\<close>, a handle's \<open>release\<close>, the timer of a waiter and
    the abort of its request are events; the answers they give are the log.
  \<^item> The measured lag and the verdict of the policy are inputs of an arrival. A number is a rational, an infinity
    or \<open>NaN\<close>.
  \<^item> Texts and headers of the responses other than the reason and \<open>Retry-After\<close> are left out, and so is the
    sampler of the event loop.
\<close>

section \<open>Numbers\<close>

datatype js_number = Fin rat | Inf | NegInf | NaN

fun is_finite :: "js_number \<Rightarrow> bool" where
  "is_finite (Fin r) = True"
| "is_finite _ = False"

fun is_integer :: "js_number \<Rightarrow> bool" where
  "is_integer (Fin r) = (of_int \<lfloor>r\<rfloor> = r)"
| "is_integer _ = False"

fun js_less :: "js_number \<Rightarrow> js_number \<Rightarrow> bool" where
  "js_less NaN b = False"
| "js_less a NaN = False"
| "js_less (Fin a) (Fin b) = (a < b)"
| "js_less (Fin a) b = (b = Inf)"
| "js_less NegInf b = (b \<noteq> NegInf)"
| "js_less Inf b = False"

fun fin_of :: "js_number \<Rightarrow> rat" where
  "fin_of (Fin r) = r"
| "fin_of _ = 0"

section \<open>Options\<close>

datatype shed_reason = Inflight | LoopLag | QueueTimeout | Policy

record admission_options =
  ao_maxInFlight :: js_number
  ao_maxLagMs :: "js_number option"
  ao_maxQueue :: "js_number option"
  ao_queueTimeoutMs :: "js_number option"
  ao_reservedForPolicy :: "js_number option"
  ao_baseRetryAfterSec :: "js_number option"

record admission_config =
  ac_maxInFlight :: int
  ac_maxLagMs :: js_number
  ac_maxQueue :: int
  ac_queueTimeoutMs :: rat
  ac_reserved :: int
  ac_baseRetryAfterSec :: rat

datatype option_error = BadMaxInFlight | BadMaxLag | BadMaxQueue | BadQueueTimeout | BadReserved | BadRetryAfter

definition given :: "'a option \<Rightarrow> 'a \<Rightarrow> 'a" where
  "given v d = (case v of None \<Rightarrow> d | Some x \<Rightarrow> x)"

definition createAdmissionController :: "admission_options \<Rightarrow> option_error + admission_config" where
  "createAdmissionController opts =
     (let maxInFlight = ao_maxInFlight opts;
          maxLagMs = given (ao_maxLagMs opts) Inf;
          maxQueue = given (ao_maxQueue opts) (Fin 0);
          queueTimeoutMs = given (ao_queueTimeoutMs opts) (Fin 50);
          reserved = given (ao_reservedForPolicy opts) (Fin 0);
          baseRetryAfterSec = given (ao_baseRetryAfterSec opts) (Fin 1) in
      if \<not> is_integer maxInFlight \<or> js_less maxInFlight (Fin 1) then Inl BadMaxInFlight
      else if maxLagMs = NaN \<or> js_less maxLagMs (Fin 0) then Inl BadMaxLag
      else if \<not> is_integer maxQueue \<or> js_less maxQueue (Fin 0) then Inl BadMaxQueue
      else if \<not> is_finite queueTimeoutMs \<or> js_less queueTimeoutMs (Fin 0) then Inl BadQueueTimeout
      else if \<not> is_integer reserved \<or> js_less reserved (Fin 0) then Inl BadReserved
      else if \<not> is_finite baseRetryAfterSec \<or> \<not> js_less (Fin 0) baseRetryAfterSec then Inl BadRetryAfter
      else
        Inr \<lparr> ac_maxInFlight = \<lfloor>fin_of maxInFlight\<rfloor>, ac_maxLagMs = maxLagMs, ac_maxQueue = \<lfloor>fin_of maxQueue\<rfloor>,
              ac_queueTimeoutMs = fin_of queueTimeoutMs, ac_reserved = \<lfloor>fin_of reserved\<rfloor>,
              ac_baseRetryAfterSec = fin_of baseRetryAfterSec \<rparr>)"

section \<open>State\<close>

text \<open>\<open>ad_settled\<close> holds the \<open>settled\<close> flag of each waiter, \<open>ad_released\<close> the \<open>released\<close> flag of each handle.\<close>

record admission =
  ad_inFlight :: int
  ad_queue :: "nat list"
  ad_settled :: "(nat, bool) jmap"
  ad_released :: "(nat, bool) jmap"
  ad_next :: nat
  ad_fastPathAdmits :: nat
  ad_slowPathEntries :: nat
  ad_everQueued :: nat
  ad_shed :: nat

definition new_admission :: admission where
  "new_admission =
     \<lparr> ad_inFlight = 0, ad_queue = [], ad_settled = [], ad_released = [], ad_next = 0, ad_fastPathAdmits = 0,
       ad_slowPathEntries = 0, ad_everQueued = 0, ad_shed = 0 \<rparr>"

record admission_evidence =
  ev_inFlight :: int
  ev_maxInFlight :: int
  ev_lagMs :: js_number
  ev_maxLagMs :: js_number
  ev_queued :: nat

datatype verdict = Defer | PolicyAdmit | PolicyShed "js_number option"

datatype decision = Admitted | Shed shed_reason int | Cancelled

type_synonym answers = "(nat \<times> decision) list"

section \<open>Operations\<close>

definition shedResponse :: "admission_config \<Rightarrow> nat \<Rightarrow> shed_reason \<Rightarrow> js_number \<Rightarrow> admission \<Rightarrow> answers \<times> admission" where
  "shedResponse C i reason retryAfterSec s =
     (let retry = (if is_finite retryAfterSec \<and> \<not> js_less retryAfterSec (Fin 0) then fin_of retryAfterSec
                   else ac_baseRetryAfterSec C) in
      ([(i, Shed reason (max 1 \<lceil>retry\<rceil>))], s\<lparr> ad_shed := ad_shed s + 1 \<rparr>))"

definition base_retry :: "admission_config \<Rightarrow> js_number" where
  "base_retry C = Fin (ac_baseRetryAfterSec C)"

definition makeHandle :: "nat \<Rightarrow> admission \<Rightarrow> admission" where
  "makeHandle i s = s\<lparr> ad_released := AList.update i False (ad_released s) \<rparr>"

definition occupy :: "nat \<Rightarrow> admission \<Rightarrow> answers \<times> admission" where
  "occupy i s = ([(i, Admitted)], makeHandle i (s\<lparr> ad_inFlight := ad_inFlight s + 1 \<rparr>))"

definition settle_waiter :: "nat \<Rightarrow> admission \<Rightarrow> admission" where
  "settle_waiter w s = s\<lparr> ad_settled := AList.update w True (ad_settled s) \<rparr>"

definition is_settled :: "nat \<Rightarrow> admission \<Rightarrow> bool" where
  "is_settled w s = (case map_of (ad_settled s) w of None \<Rightarrow> True | Some b \<Rightarrow> b)"

fun hand_over :: "admission_config \<Rightarrow> nat list \<Rightarrow> admission \<Rightarrow> answers \<times> admission" where
  "hand_over C [] s = ([], s\<lparr> ad_queue := [] \<rparr>)"
| "hand_over C (w # q) s =
     (if \<not> ad_inFlight s < ac_maxInFlight C then ([], s\<lparr> ad_queue := w # q \<rparr>)
      else if is_settled w s then hand_over C q s
      else
        ([(w, Admitted)],
         makeHandle w ((settle_waiter w s)\<lparr> ad_queue := q, ad_inFlight := ad_inFlight s + 1 \<rparr>)))"

definition release :: "admission_config \<Rightarrow> nat \<Rightarrow> admission \<Rightarrow> answers \<times> admission" where
  "release C i s =
     (if map_of (ad_released s) i \<noteq> Some False then ([], s)
      else
        hand_over C (ad_queue s)
          (s\<lparr> ad_released := AList.update i True (ad_released s), ad_inFlight := ad_inFlight s - 1 \<rparr>))"

definition remove_waiter :: "nat \<Rightarrow> admission \<Rightarrow> admission" where
  "remove_waiter w s = s\<lparr> ad_queue := remove1 w (ad_queue s) \<rparr>"

definition onTimeout :: "admission_config \<Rightarrow> nat \<Rightarrow> admission \<Rightarrow> answers \<times> admission" where
  "onTimeout C w s =
     (if is_settled w s then ([], s)
      else shedResponse C w QueueTimeout (base_retry C) (remove_waiter w (settle_waiter w s)))"

definition onAbort :: "nat \<Rightarrow> admission \<Rightarrow> answers \<times> admission" where
  "onAbort w s =
     (if is_settled w s then ([], s)
      else ([(w, Cancelled)], remove_waiter w (settle_waiter w s)))"

definition enqueue_waiter :: "nat \<Rightarrow> bool \<Rightarrow> admission \<Rightarrow> answers \<times> admission" where
  "enqueue_waiter i aborted s =
     (let s1 = s\<lparr> ad_settled := AList.update i False (ad_settled s), ad_queue := ad_queue s @ [i] \<rparr> in
      if aborted then onAbort i s1 else ([], s1))"

definition admit_default :: "admission_config \<Rightarrow> nat \<Rightarrow> js_number \<Rightarrow> bool \<Rightarrow> admission \<Rightarrow> answers \<times> admission" where
  "admit_default C i lag aborted s =
     (if js_less (ac_maxLagMs C) lag then shedResponse C i LoopLag (base_retry C) s
      else if ad_inFlight s < ac_maxInFlight C then occupy i (s\<lparr> ad_fastPathAdmits := ad_fastPathAdmits s + 1 \<rparr>)
      else
        (let s1 = s\<lparr> ad_slowPathEntries := ad_slowPathEntries s + 1 \<rparr> in
         if ac_maxQueue C \<le> 0 \<or> int (length (ad_queue s)) \<ge> ac_maxQueue C
         then shedResponse C i Inflight (base_retry C) s1
         else enqueue_waiter i aborted (s1\<lparr> ad_everQueued := ad_everQueued s + 1 \<rparr>)))"

definition admit ::
    "admission_config \<Rightarrow> js_number \<Rightarrow> (admission_evidence \<Rightarrow> verdict) \<Rightarrow> bool \<Rightarrow> admission \<Rightarrow> answers \<times> admission" where
  "admit C measuredLag policy aborted s0 =
     (let i = ad_next s0;
          s = s0\<lparr> ad_next := i + 1 \<rparr>;
          lag = (if is_finite measuredLag \<and> \<not> js_less measuredLag (Fin 0) then measuredLag else Inf);
          evidence = \<lparr> ev_inFlight = ad_inFlight s, ev_maxInFlight = ac_maxInFlight C, ev_lagMs = lag,
                       ev_maxLagMs = ac_maxLagMs C, ev_queued = length (ad_queue s) \<rparr> in
      case policy evidence of
        PolicyShed retryAfterSec \<Rightarrow> shedResponse C i Policy (given retryAfterSec (base_retry C)) s
      | PolicyAdmit \<Rightarrow>
          if ad_inFlight s < ac_maxInFlight C + ac_reserved C then occupy i s
          else shedResponse C i Policy (base_retry C) s
      | Defer \<Rightarrow> admit_default C i lag aborted s)"

section \<open>Histories\<close>

datatype admission_event =
    Arrive js_number "admission_evidence \<Rightarrow> verdict" bool | Release nat | Timeout nat | Abort nat

fun admission_step :: "admission_config \<Rightarrow> admission_event \<Rightarrow> admission \<Rightarrow> answers \<times> admission" where
  "admission_step C (Arrive lag policy aborted) s = admit C lag policy aborted s"
| "admission_step C (Release i) s = release C i s"
| "admission_step C (Timeout w) s = onTimeout C w s"
| "admission_step C (Abort w) s = onAbort w s"

fun admission_run :: "admission_config \<Rightarrow> admission_event list \<Rightarrow> admission \<Rightarrow> answers \<times> admission" where
  "admission_run C [] s = ([], s)"
| "admission_run C (e # es) s =
     (case admission_step C e s of (l, s1) \<Rightarrow> (case admission_run C es s1 of (ls, s2) \<Rightarrow> (l @ ls, s2)))"

section \<open>The invariant\<close>

declare map_of_eq_Some_iff [simp del]

definition open_handles :: "admission \<Rightarrow> nat" where
  "open_handles s = length (filter (\<lambda>x. \<not> snd x) (ad_released s))"

definition config_ok :: "admission_config \<Rightarrow> bool" where
  "config_ok C \<longleftrightarrow> 1 \<le> ac_maxInFlight C \<and> 0 \<le> ac_maxQueue C \<and> 0 \<le> ac_reserved C \<and> 0 < ac_baseRetryAfterSec C"

definition is_shed :: "decision \<Rightarrow> bool" where
  "is_shed d = (case d of Shed reason retry \<Rightarrow> True | _ \<Rightarrow> False)"

definition slots_ok :: "admission_config \<Rightarrow> admission \<Rightarrow> bool" where
  "slots_ok C s \<longleftrightarrow>
     jm_wf (ad_released s) \<and> ad_inFlight s = int (open_handles s) \<and> ad_inFlight s \<le> ac_maxInFlight C + ac_reserved C
     \<and> int (length (ad_queue s)) \<le> ac_maxQueue C \<and> (ad_queue s \<noteq> [] \<longrightarrow> ac_maxInFlight C \<le> ad_inFlight s)"

text \<open>
  The book of requests: \<open>P\<close> holds those a step is working on; every other one is answered once or waits.
\<close>

definition book :: "nat set \<Rightarrow> answers \<Rightarrow> admission \<Rightarrow> bool" where
  "book P lg s \<longleftrightarrow>
     jm_wf (ad_settled s) \<and> sorted (ad_queue s) \<and> distinct (ad_queue s)
     \<and> (\<forall>w. w \<in> set (ad_queue s) \<longleftrightarrow> map_of (ad_settled s) w = Some False)
     \<and> distinct (map fst lg) \<and> fst ` set lg \<inter> set (ad_queue s) = {} \<and> P \<subseteq> {..<ad_next s}
     \<and> fst ` set lg \<union> set (ad_queue s) = {..<ad_next s} - P
     \<and> ad_shed s = length (filter (\<lambda>x. is_shed (snd x)) lg)
     \<and> (\<forall>i. (i, Admitted) \<in> set lg \<longleftrightarrow> map_of (ad_released s) i \<noteq> None)"

definition admission_inv :: "admission_config \<Rightarrow> answers \<Rightarrow> admission \<Rightarrow> bool" where
  "admission_inv C lg s \<longleftrightarrow> slots_ok C s \<and> book {} lg s"

lemmas state_defs = shedResponse_def occupy_def makeHandle_def settle_waiter_def remove_waiter_def Let_def

lemma book_released: "book P lg s \<Longrightarrow> i \<in> P \<union> set (ad_queue s) \<Longrightarrow> map_of (ad_released s) i = None"
proof -
  assume b: "book P lg s" and i: "i \<in> P \<union> set (ad_queue s)"
  have "i \<notin> fst ` set lg"
    using b i unfolding book_def by blast
  then have "(i, Admitted) \<notin> set lg" by force
  then show ?thesis using b unfolding book_def by blast
qed

lemma book_new:
  assumes "book P lg s" and "i \<in> P"
  shows "i \<notin> fst ` set lg" and "i \<notin> set (ad_queue s)"
  using assms unfolding book_def by blast+

lemma bookD:
  assumes "book P lg s"
  shows "jm_wf (ad_settled s)" and "sorted (ad_queue s)" and "distinct (ad_queue s)"
    and "w \<in> set (ad_queue s) \<longleftrightarrow> map_of (ad_settled s) w = Some False"
    and "distinct (map fst lg)" and "fst ` set lg \<inter> set (ad_queue s) = {}" and "P \<subseteq> {..<ad_next s}"
    and "fst ` set lg \<union> set (ad_queue s) = {..<ad_next s} - P"
    and "ad_shed s = length (filter (\<lambda>x. is_shed (snd x)) lg)"
    and "(i, Admitted) \<in> set lg \<longleftrightarrow> map_of (ad_released s) i \<noteq> None"
  using assms unfolding book_def by blast+

lemma book_answer:
  assumes "book {i} lg s" and "ad_queue s' = ad_queue s" and "ad_settled s' = ad_settled s" and "ad_next s' = ad_next s"
    and "ad_shed s' = ad_shed s + (if is_shed d then 1 else 0)"
    and "\<And>j. map_of (ad_released s') j \<noteq> None \<longleftrightarrow> map_of (ad_released s) j \<noteq> None \<or> (d = Admitted \<and> j = i)"
  shows "book {} (lg @ [(i, d)]) s'"
  unfolding book_def assms(2-4)
proof (intro conjI)
  note D = bookD [OF assms(1)]
  note new = book_new [OF assms(1), of i, simplified]
  show "jm_wf (ad_settled s)" "sorted (ad_queue s)" "distinct (ad_queue s)" by (rule D)+
  show "\<forall>w. w \<in> set (ad_queue s) \<longleftrightarrow> map_of (ad_settled s) w = Some False" using D(4) by blast
  show "distinct (map fst (lg @ [(i, d)]))" using D(5) new(1) by simp
  show "fst ` set (lg @ [(i, d)]) \<inter> set (ad_queue s) = {}" using D(6) new(2) by auto
  have "i < ad_next s" using D(7) by simp
  then show "fst ` set (lg @ [(i, d)]) \<union> set (ad_queue s) = {..<ad_next s} - {}" using D(8) by auto
  show "ad_shed s' = length (filter (\<lambda>x. is_shed (snd x)) (lg @ [(i, d)]))" using D(9) assms(5) by simp
  show "\<forall>j. (j, Admitted) \<in> set (lg @ [(i, d)]) \<longleftrightarrow> map_of (ad_released s') j \<noteq> None"
    unfolding assms(6) using D(10) by auto
qed simp

lemma book_shed:
  "book {i} lg s \<Longrightarrow> shedResponse C i reason r s = (l, s') \<Longrightarrow> book {} (lg @ l) s'"
  using book_answer [of i lg s s'] by (auto simp: shedResponse_def Let_def is_shed_def)

lemma book_cancel: "book {i} lg s \<Longrightarrow> book {} (lg @ [(i, Cancelled)]) s"
  using book_answer [of i lg s s Cancelled] by (simp add: is_shed_def)

lemma book_occupy: "book {i} lg s \<Longrightarrow> occupy i s = (l, s') \<Longrightarrow> book {} (lg @ l) s'"
proof -
  assume b: "book {i} lg s" and e: "occupy i s = (l, s')"
  have "book {} (lg @ [(i, Admitted)]) s'"
    by (rule book_answer [OF b]) (use e in \<open>auto simp: state_defs is_shed_def jm_get_set\<close>)
  with e show ?thesis by (simp add: occupy_def)
qed

lemma book_take:
  assumes "book {} lg s" and "w \<in> set (ad_queue s)"
  shows "book {w} lg (remove_waiter w (settle_waiter w s))"
proof -
  note D = bookD [OF assms(1)]
  have q: "set (remove1 w (ad_queue s)) = set (ad_queue s) - {w}" using D(3) by simp
  have n: "w \<notin> fst ` set lg" "w < ad_next s" using D(6,8) assms(2) by blast+
  show ?thesis
    unfolding book_def state_defs
    using D(1-3,5,7,9) assms(2) n q
    by (simp add: sorted_remove1 jm_get_set D(4) [symmetric] D(10)) (use D(6,8) in blast)
qed

lemma book_enqueue:
  assumes "book {i} lg s" and "\<forall>w \<in> set (ad_queue s). w < i"
  shows "book {} lg (s\<lparr> ad_settled := AList.update i False (ad_settled s), ad_queue := ad_queue s @ [i] \<rparr>)"
proof -
  note D = bookD [OF assms(1)]
  have n: "i \<notin> fst ` set lg" "i < ad_next s" "i \<notin> set (ad_queue s)" using D(7,8) by blast+
  have "fst ` set lg \<union> insert i (set (ad_queue s)) = {..<ad_next s}" using D(8) n(2) by blast
  moreover have "fst ` set lg \<inter> insert i (set (ad_queue s)) = {}" using D(6) n(1) by blast
  ultimately show ?thesis
    unfolding book_def
    using D(1-3,5,9) n assms(2) by (simp add: sorted_append jm_get_set D(4) [symmetric] D(10) less_imp_le)
qed

lemma book_unsettled: "book P lg s \<Longrightarrow> is_settled w s \<longleftrightarrow> w \<notin> set (ad_queue s)"
  by (auto simp: book_def is_settled_def split: option.split)

lemma book_cong:
  "book P lg s \<Longrightarrow> ad_queue s' = ad_queue s \<Longrightarrow> ad_settled s' = ad_settled s \<Longrightarrow> ad_next s' = ad_next s \<Longrightarrow>
   ad_shed s' = ad_shed s \<Longrightarrow> (\<And>i. map_of (ad_released s') i = None \<longleftrightarrow> map_of (ad_released s) i = None) \<Longrightarrow> book P lg s'"
  by (simp add: book_def)

section \<open>Slots\<close>

lemma open_new: "map_of m i = None \<Longrightarrow>
    length (filter (\<lambda>x. \<not> snd x) (AList.update i False m)) = Suc (length (filter (\<lambda>x. \<not> snd x) m))"
  by (simp add: AList_update_new map_of_eq_None_iff)

lemma open_close: "map_of m i = Some False \<Longrightarrow>
    Suc (length (filter (\<lambda>x. \<not> snd x) (AList.update i True m))) = length (filter (\<lambda>x. \<not> snd x) m)"
  by (induction m) auto

lemma hand_over_eq:
  assumes "\<forall>w \<in> set q. \<not> is_settled w s"
  shows "hand_over C q s =
    (case q of
       [] \<Rightarrow> ([], s\<lparr> ad_queue := [] \<rparr>)
     | w # q' \<Rightarrow>
         if ad_inFlight s < ac_maxInFlight C
         then ([(w, Admitted)], makeHandle w ((settle_waiter w s)\<lparr> ad_queue := q', ad_inFlight := ad_inFlight s + 1 \<rparr>))
         else ([], s\<lparr> ad_queue := q \<rparr>))"
  using assms by (cases q) simp_all

lemma slots_occupy:
  assumes "slots_ok C s" and "map_of (ad_released s) i = None" and "ad_inFlight s < ac_maxInFlight C + ac_reserved C"
    and "ad_queue s' = ad_queue s" and "ad_inFlight s' = ad_inFlight s + 1"
    and "ad_released s' = AList.update i False (ad_released s)"
  shows "slots_ok C s'"
  using assms open_new [OF assms(2)] by (auto simp: slots_ok_def open_handles_def)

lemma slots_cong:
  "slots_ok C s \<Longrightarrow> ad_inFlight s' = ad_inFlight s \<Longrightarrow> ad_released s' = ad_released s \<Longrightarrow>
   int (length (ad_queue s')) \<le> ac_maxQueue C \<Longrightarrow> (ad_queue s' \<noteq> [] \<longrightarrow> ac_maxInFlight C \<le> ad_inFlight s) \<Longrightarrow> slots_ok C s'"
  by (simp add: slots_ok_def open_handles_def)

lemma slots_same:
  "slots_ok C s \<Longrightarrow> ad_inFlight s' = ad_inFlight s \<Longrightarrow> ad_released s' = ad_released s \<Longrightarrow> ad_queue s' = ad_queue s \<Longrightarrow>
   slots_ok C s'"
  by (auto simp: slots_ok_def open_handles_def)

lemma release_inv:
  assumes "admission_inv C lg s" and "release C i s = (l, s')"
  shows "admission_inv C (lg @ l) s'"
proof (cases "map_of (ad_released s) i = Some False")
  case True
  define s1 where "s1 = s\<lparr> ad_released := AList.update i True (ad_released s), ad_inFlight := ad_inFlight s - 1 \<rparr>"
  have sl: "slots_ok C s" and bk: "book {} lg s" using assms(1) by (simp_all add: admission_inv_def)
  have b1: "book {} lg s1" by (rule book_cong [OF bk]) (simp_all add: s1_def jm_get_set True)
  have o1: "ad_inFlight s1 = int (open_handles s1)" "jm_wf (ad_released s1)"
    using sl open_close [OF True] by (simp_all add: slots_ok_def s1_def open_handles_def)
  have r: "(l, s') = hand_over C (ad_queue s) s1"
    using assms(2) True by (simp add: release_def s1_def)
  have un: "\<forall>w \<in> set (ad_queue s). \<not> is_settled w s1"
    using book_unsettled [OF b1] by (simp add: s1_def)
  show ?thesis
  proof (cases "ad_queue s \<noteq> [] \<and> ad_inFlight s1 < ac_maxInFlight C")
    case hand: True
    then obtain w q where q: "ad_queue s = w # q" by (cases "ad_queue s") auto
    define s2 where "s2 = (settle_waiter w s1)\<lparr> ad_queue := q \<rparr>"
    have s2: "s2 = remove_waiter w (settle_waiter w s1)"
      by (simp add: s2_def state_defs s1_def q)
    have b2: "book {w} lg s2" unfolding s2 by (rule book_take [OF b1]) (simp add: s1_def q)
    have e: "(l, s') = occupy w s2"
      using r hand unfolding hand_over_eq [OF un] by (simp add: q s2_def state_defs s1_def)
    have "book {} (lg @ l) s'" by (rule book_occupy [OF b2 e [symmetric]])
    moreover have "slots_ok C s'"
    proof -
      have n: "map_of (ad_released s1) w = None" by (rule book_released [OF b1]) (simp add: s1_def q)
      have "ad_inFlight s' = ad_inFlight s1 + 1" "ad_released s' = AList.update w False (ad_released s1)" "ad_queue s' = q"
        using e by (simp_all add: s2_def state_defs)
      then show ?thesis
        using sl o1 open_new [OF n] hand by (auto simp: slots_ok_def open_handles_def s1_def q)
    qed
    ultimately show ?thesis by (simp add: admission_inv_def)
  next
    case False
    then have "s' = s1" "l = []" using r unfolding hand_over_eq [OF un] by (auto simp: s1_def split: list.splits)
    moreover have "slots_ok C s1" using sl o1 False by (auto simp: slots_ok_def s1_def)
    ultimately show ?thesis using b1 by (simp add: admission_inv_def)
  qed
qed (use assms in \<open>simp add: release_def\<close>)

lemma waiter_out:
  assumes "admission_inv C lg s" and "\<not> is_settled w s"
  shows "book {w} lg (remove_waiter w (settle_waiter w s))" and "slots_ok C (remove_waiter w (settle_waiter w s))"
proof -
  have sl: "slots_ok C s" and b: "book {} lg s" using assms(1) by (simp_all add: admission_inv_def)
  have w: "w \<in> set (ad_queue s)" using assms(2) book_unsettled [OF b] by blast
  show "book {w} lg (remove_waiter w (settle_waiter w s))" by (rule book_take [OF b w])
  show "slots_ok C (remove_waiter w (settle_waiter w s))"
    using sl w by (intro slots_cong [OF sl]) (auto simp: slots_ok_def state_defs length_remove1)
qed

lemma shed_slots: "shedResponse C i reason r s = (l, s') \<Longrightarrow> slots_ok C s \<Longrightarrow> slots_ok C s'"
  by (auto simp: shedResponse_def Let_def slots_ok_def open_handles_def)

lemma shed_inv:
  "book {i} lg s \<Longrightarrow> slots_ok C s \<Longrightarrow> shedResponse C i reason r s = (l, s') \<Longrightarrow> admission_inv C (lg @ l) s'"
  unfolding admission_inv_def using book_shed shed_slots by blast

lemma onTimeout_inv: "admission_inv C lg s \<Longrightarrow> onTimeout C w s = (l, s') \<Longrightarrow> admission_inv C (lg @ l) s'"
  using waiter_out [of C lg s w] shed_inv [of w lg "remove_waiter w (settle_waiter w s)" C QueueTimeout "base_retry C" l s']
  by (auto simp: onTimeout_def split: if_splits)

lemma onAbort_inv: "admission_inv C lg s \<Longrightarrow> onAbort w s = (l, s') \<Longrightarrow> admission_inv C (lg @ l) s'"
  using waiter_out [of C lg s w] book_cancel [of w lg "remove_waiter w (settle_waiter w s)"]
  by (auto simp: onAbort_def admission_inv_def split: if_splits)

lemma occupy_inv:
  assumes "book {i} lg s" and "slots_ok C s" and "ad_inFlight s < ac_maxInFlight C + ac_reserved C" and "occupy i s = (l, s')"
  shows "admission_inv C (lg @ l) s'"
  unfolding admission_inv_def
proof
  have n: "map_of (ad_released s) i = None" by (rule book_released [OF assms(1)]) simp
  show "slots_ok C s'"
    by (rule slots_occupy [OF assms(2) n assms(3)]) (use assms(4) in \<open>auto simp: state_defs\<close>)
  show "book {} (lg @ l) s'" by (rule book_occupy [OF assms(1,4)])
qed

lemma enqueue_inv:
  assumes "book {i} lg s" and "slots_ok C s" and "\<forall>w \<in> set (ad_queue s). w < i"
    and "ac_maxInFlight C \<le> ad_inFlight s" and "int (length (ad_queue s)) < ac_maxQueue C" and "enqueue_waiter i aborted s = (l, s')"
  shows "admission_inv C (lg @ l) s'"
proof -
  define s1 where "s1 = s\<lparr> ad_settled := AList.update i False (ad_settled s), ad_queue := ad_queue s @ [i] \<rparr>"
  have "admission_inv C lg s1"
    unfolding admission_inv_def
  proof
    show "book {} lg s1" unfolding s1_def by (rule book_enqueue [OF assms(1,3)])
    show "slots_ok C s1" by (rule slots_cong [OF assms(2)]) (use assms(4,5) in \<open>simp_all add: s1_def\<close>)
  qed
  with onAbort_inv [OF this] assms(6) show ?thesis
    by (cases aborted) (auto simp: enqueue_waiter_def Let_def s1_def [symmetric])
qed

lemma book_arrives:
  assumes "book {} lg s"
  shows "book {ad_next s} lg (s\<lparr> ad_next := ad_next s + 1 \<rparr>)"
    and "\<forall>w \<in> set (ad_queue s). w < ad_next s"
proof -
  note D = bookD [OF assms]
  have u: "fst ` set lg \<union> set (ad_queue s) = {..<ad_next s}" using D(8) by simp
  then show "\<forall>w \<in> set (ad_queue s). w < ad_next s" by blast
  have "{..<Suc (ad_next s)} - {ad_next s} = {..<ad_next s}" by auto
  with u show "book {ad_next s} lg (s\<lparr> ad_next := ad_next s + 1 \<rparr>)"
    unfolding book_def using D(1-3,5,6,9) by (simp add: D(4) [symmetric] D(10))
qed

lemma admit_inv:
  assumes ok: "config_ok C" and inv: "admission_inv C lg s" and e: "admit C measured policy aborted s = (l, s')"
  shows "admission_inv C (lg @ l) s'"
proof -
  define i s1 where "i = ad_next s" and "s1 = s\<lparr> ad_next := ad_next s + 1 \<rparr>"
  have sl: "slots_ok C s" and b: "book {} lg s" using inv by (simp_all add: admission_inv_def)
  have b1: "book {i} lg s1" and lt: "\<forall>w \<in> set (ad_queue s1). w < i"
    using book_arrives [OF b] by (simp_all add: i_def s1_def)
  have sl1: "slots_ok C s1" by (rule slots_same [OF sl]) (simp_all add: s1_def)
  define lag where "lag = (if is_finite measured \<and> \<not> js_less measured (Fin 0) then measured else Inf)"
  define ev where "ev = \<lparr> ev_inFlight = ad_inFlight s1, ev_maxInFlight = ac_maxInFlight C, ev_lagMs = lag,
                       ev_maxLagMs = ac_maxLagMs C, ev_queued = length (ad_queue s1) \<rparr>"
  have e': "(case policy ev of
        PolicyShed retryAfterSec \<Rightarrow> shedResponse C i Policy (given retryAfterSec (base_retry C)) s1
      | PolicyAdmit \<Rightarrow>
          if ad_inFlight s1 < ac_maxInFlight C + ac_reserved C then occupy i s1
          else shedResponse C i Policy (base_retry C) s1
      | Defer \<Rightarrow> admit_default C i lag aborted s1) = (l, s')"
    using e unfolding admit_def Let_def ev_def lag_def i_def s1_def .
  show ?thesis
  proof (cases "policy ev")
    case (PolicyShed r)
    with e' shed_inv [OF b1 sl1] show ?thesis by simp
  next
    case PolicyAdmit
    with e' shed_inv [OF b1 sl1] occupy_inv [OF b1 sl1] show ?thesis by (simp split: if_splits)
  next
    case Defer
    with e' have d: "admit_default C i lag aborted s1 = (l, s')" by simp
    show ?thesis
    proof (cases "js_less (ac_maxLagMs C) lag")
      case True
      with d shed_inv [OF b1 sl1] show ?thesis by (simp add: admit_default_def)
    next
      case calm: False
      show ?thesis
      proof (cases "ad_inFlight s1 < ac_maxInFlight C")
        case True
        define s2 where "s2 = s1\<lparr> ad_fastPathAdmits := ad_fastPathAdmits s1 + 1 \<rparr>"
        have "book {i} lg s2" by (rule book_cong [OF b1]) (simp_all add: s2_def)
        moreover have "slots_ok C s2" by (rule slots_same [OF sl1]) (simp_all add: s2_def)
        moreover have "ad_inFlight s2 < ac_maxInFlight C + ac_reserved C" using True ok by (simp add: s2_def config_ok_def)
        moreover have "occupy i s2 = (l, s')" using d calm True by (simp add: admit_default_def s2_def)
        ultimately show ?thesis by (rule occupy_inv)
      next
        case full: False
        define s2 where "s2 = s1\<lparr> ad_slowPathEntries := ad_slowPathEntries s1 + 1 \<rparr>"
        have b2: "book {i} lg s2" by (rule book_cong [OF b1]) (simp_all add: s2_def)
        have sl2: "slots_ok C s2" by (rule slots_same [OF sl1]) (simp_all add: s2_def)
        have d2: "(if ac_maxQueue C \<le> 0 \<or> int (length (ad_queue s1)) \<ge> ac_maxQueue C
            then shedResponse C i Inflight (base_retry C) s2
            else enqueue_waiter i aborted (s2\<lparr> ad_everQueued := ad_everQueued s1 + 1 \<rparr>)) = (l, s')"
          using d unfolding admit_default_def if_not_P [OF calm] if_not_P [OF full] Let_def s2_def by simp
        show ?thesis
        proof (cases "ac_maxQueue C \<le> 0 \<or> int (length (ad_queue s1)) \<ge> ac_maxQueue C")
          case True
          with d2 shed_inv [OF b2 sl2] show ?thesis by simp
        next
          case False
          define s3 where "s3 = s2\<lparr> ad_everQueued := ad_everQueued s1 + 1 \<rparr>"
          have "book {i} lg s3" by (rule book_cong [OF b2]) (simp_all add: s3_def)
          moreover have "slots_ok C s3" by (rule slots_same [OF sl2]) (simp_all add: s3_def)
          moreover have "\<forall>w \<in> set (ad_queue s3). w < i" "ac_maxInFlight C \<le> ad_inFlight s3"
            "int (length (ad_queue s3)) < ac_maxQueue C" using lt full False by (simp_all add: s3_def s2_def)
          moreover have "enqueue_waiter i aborted s3 = (l, s')" using d2 False by (simp add: s3_def)
          ultimately show ?thesis by (rule enqueue_inv)
        qed
      qed
    qed
  qed
qed

lemma admission_step_inv:
  assumes "config_ok C" and "admission_inv C lg s" and "admission_step C e s = (l, s')"
  shows "admission_inv C (lg @ l) s'"
  using assms admit_inv release_inv onTimeout_inv onAbort_inv by (cases e) auto

lemma admission_run_inv:
  "config_ok C \<Longrightarrow> admission_inv C lg s \<Longrightarrow> admission_run C es s = (l, s') \<Longrightarrow> admission_inv C (lg @ l) s'"
proof (induction es arbitrary: lg s l)
  case (Cons e es)
  obtain l1 s1 where e: "admission_step C e s = (l1, s1)" by (cases "admission_step C e s")
  obtain l2 where r: "admission_run C es s1 = (l2, s')" "l = l1 @ l2" using Cons.prems(3) by (auto simp: e split: prod.splits)
  from Cons.IH [OF Cons.prems(1) admission_step_inv [OF Cons.prems(1,2) e] r(1)] show ?case by (simp add: r(2))
qed simp

lemma new_admission_inv: "config_ok C \<Longrightarrow> admission_inv C [] new_admission"
  by (simp add: admission_inv_def slots_ok_def book_def new_admission_def open_handles_def config_ok_def)

lemma integer_at_least: "is_integer n \<Longrightarrow> \<not> js_less n (Fin (of_int k)) \<Longrightarrow> k \<le> \<lfloor>fin_of n\<rfloor>"
  by (cases n) (auto simp: le_floor_iff not_less)

lemma created_ok: "createAdmissionController opts = Inr C \<Longrightarrow> config_ok C"
proof -
  assume c: "createAdmissionController opts = Inr C"
  define q r b where "q = given (ao_maxQueue opts) (Fin 0)" and "r = given (ao_reservedForPolicy opts) (Fin 0)"
    and "b = given (ao_baseRetryAfterSec opts) (Fin 1)"
  have m: "is_integer (ao_maxInFlight opts)" "\<not> js_less (ao_maxInFlight opts) (Fin 1)"
    and q: "is_integer q" "\<not> js_less q (Fin 0)" and r: "is_integer r" "\<not> js_less r (Fin 0)" and b: "is_finite b" "js_less (Fin 0) b"
    and C: "ac_maxInFlight C = \<lfloor>fin_of (ao_maxInFlight opts)\<rfloor>" "ac_maxQueue C = \<lfloor>fin_of q\<rfloor>" "ac_reserved C = \<lfloor>fin_of r\<rfloor>"
      "ac_baseRetryAfterSec C = fin_of b"
    using c unfolding createAdmissionController_def Let_def q_def [symmetric] r_def [symmetric] b_def [symmetric]
    by (auto split: if_splits)
  have "0 < fin_of b" using b by (cases b) simp_all
  moreover have "1 \<le> ac_maxInFlight C" "0 \<le> ac_maxQueue C" "0 \<le> ac_reserved C"
    using integer_at_least [of _ 1] integer_at_least [of _ 0] m q r by (simp_all add: C)
  ultimately show ?thesis by (simp add: config_ok_def C)
qed

section \<open>Turns\<close>

fun frees :: "admission_event \<Rightarrow> admission \<Rightarrow> bool" where
  "frees (Release i) s = (map_of (ad_released s) i = Some False)"
| "frees _ s = False"

fun freed :: "admission_config \<Rightarrow> admission_event list \<Rightarrow> admission \<Rightarrow> nat" where
  "freed C [] s = 0"
| "freed C (e # es) s = (if frees e s then 1 else 0) + freed C es (snd (admission_step C e s))"

fun lets_wait :: "nat \<Rightarrow> admission_event \<Rightarrow> bool" where
  "lets_wait n (Arrive lag policy aborted) = (\<forall>ev. policy ev \<noteq> PolicyAdmit)"
| "lets_wait n (Release i) = True"
| "lets_wait n (Timeout w) = (w \<noteq> n)"
| "lets_wait n (Abort w) = (w \<noteq> n)"

definition ahead :: "nat \<Rightarrow> nat list \<Rightarrow> nat" where
  "ahead n q = length (takeWhile (\<lambda>w. w \<noteq> n) q)"

lemma ahead_append: "n \<in> set q \<Longrightarrow> ahead n (q @ r) = ahead n q"
  by (simp add: ahead_def takeWhile_append1 [where x = n])

lemma ahead_remove: "w \<noteq> n \<Longrightarrow> ahead n (remove1 w q) \<le> ahead n q"
  by (induction q) (auto simp: ahead_def)

lemma ahead_Cons: "ahead n (w # q) = (if w = n then 0 else Suc (ahead n q))"
  by (simp add: ahead_def)

text \<open>Nothing moved: the state has the same waiters and slots.\<close>

definition same_line :: "nat \<Rightarrow> admission \<Rightarrow> admission \<Rightarrow> bool" where
  "same_line n s s' \<longleftrightarrow> n \<in> set (ad_queue s') \<and> ad_inFlight s' = ad_inFlight s \<and> ahead n (ad_queue s') \<le> ahead n (ad_queue s)"

lemma same_line_shed:
  "shedResponse C i reason r t = (l, s') \<Longrightarrow> same_line n s t \<Longrightarrow> same_line n s s'"
  by (auto simp: shedResponse_def Let_def same_line_def)

lemma same_line_remove:
  "w \<noteq> n \<Longrightarrow> n \<in> set (ad_queue s) \<Longrightarrow> same_line n s (remove_waiter w (settle_waiter w s))"
  by (simp add: same_line_def state_defs ahead_remove in_set_remove1)

lemma timeout_line: "w \<noteq> n \<Longrightarrow> n \<in> set (ad_queue s) \<Longrightarrow> onTimeout C w s = (l, s') \<Longrightarrow> same_line n s s'"
  using same_line_shed [OF _ same_line_remove] by (auto simp: onTimeout_def same_line_def split: if_splits)

lemma abort_line: "w \<noteq> n \<Longrightarrow> n \<in> set (ad_queue s) \<Longrightarrow> onAbort w s = (l, s') \<Longrightarrow> same_line n s s'"
  using same_line_remove [of w n s] by (auto simp: onAbort_def same_line_def split: if_splits)

lemma enqueue_line:
  assumes "n \<in> set (ad_queue s)" and "i \<noteq> n" and "enqueue_waiter i aborted s = (l, s')"
  shows "same_line n s s'"
proof -
  define s1 where "s1 = s\<lparr> ad_settled := AList.update i False (ad_settled s), ad_queue := ad_queue s @ [i] \<rparr>"
  have s1: "same_line n s s1" using assms(1) by (simp add: same_line_def s1_def ahead_append)
  show ?thesis
  proof (cases aborted)
    case True
    with assms(3) have "onAbort i s1 = (l, s')" by (simp add: enqueue_waiter_def Let_def s1_def)
    from abort_line [OF assms(2) _ this] s1 show ?thesis by (auto simp: same_line_def)
  qed (use assms(3) s1 in \<open>simp add: enqueue_waiter_def Let_def s1_def\<close>)
qed

lemma admit_line:
  assumes "n \<in> set (ad_queue s)" and "n < ad_next s" and "ac_maxInFlight C \<le> ad_inFlight s" and "\<forall>ev. policy ev \<noteq> PolicyAdmit"
    and "admit C measured policy aborted s = (l, s')"
  shows "same_line n s s'"
proof -
  have sh: "same_line n s t'" if "shedResponse C i reason r t = (l', t')" "ad_queue t = ad_queue s" "ad_inFlight t = ad_inFlight s" for i reason r t l' t'
    using that assms(1) by (intro same_line_shed [OF that(1)]) (simp add: same_line_def)
  have en: "same_line n s t'" if "enqueue_waiter (ad_next s) aborted t = (l', t')" "ad_queue t = ad_queue s" "ad_inFlight t = ad_inFlight s" for t l' t'
    using enqueue_line [of n t "ad_next s" aborted l' t'] that assms(1,2) by (simp add: same_line_def)
  show ?thesis
    using assms(3-5) unfolding admit_def Let_def admit_default_def
    by (auto split: verdict.splits if_splits intro: sh en)
qed

lemma release_line:
  assumes "admission_inv C lg s" and "n \<in> set (ad_queue s)" and "ad_inFlight s \<le> ac_maxInFlight C"
    and "map_of (ad_released s) i = Some False" and "release C i s = (l, s')"
  shows "(n, Admitted) \<in> set l \<or> (n \<in> set (ad_queue s') \<and> ad_inFlight s' = ad_inFlight s \<and> ahead n (ad_queue s') + 1 = ahead n (ad_queue s))"
proof -
  define s1 where "s1 = s\<lparr> ad_released := AList.update i True (ad_released s), ad_inFlight := ad_inFlight s - 1 \<rparr>"
  have bk: "book {} lg s" using assms(1) by (simp add: admission_inv_def)
  have b1: "book {} lg s1" by (rule book_cong [OF bk]) (simp_all add: s1_def jm_get_set assms(4))
  have un: "\<forall>w \<in> set (ad_queue s). \<not> is_settled w s1" using book_unsettled [OF b1] by (simp add: s1_def)
  have r: "(l, s') = hand_over C (ad_queue s) s1" using assms(4,5) by (simp add: release_def s1_def)
  obtain w q where q: "ad_queue s = w # q" using assms(2) by (cases "ad_queue s") auto
  have "ad_inFlight s1 < ac_maxInFlight C" using assms(3) by (simp add: s1_def)
  with r have "l = [(w, Admitted)]" "ad_queue s' = q" "ad_inFlight s' = ad_inFlight s"
    unfolding hand_over_eq [OF un] by (simp_all add: q state_defs s1_def)
  with assms(2) show ?thesis by (auto simp: q ahead_Cons)
qed

lemma step_line:
  assumes "admission_inv C lg s" and "n \<in> set (ad_queue s)" and "ad_inFlight s \<le> ac_maxInFlight C"
    and "lets_wait n e" and "admission_step C e s = (l, s')"
  shows "(n, Admitted) \<in> set l \<or> (n \<in> set (ad_queue s') \<and> ad_inFlight s' \<le> ac_maxInFlight C
    \<and> ahead n (ad_queue s') + (if frees e s then 1 else 0) \<le> ahead n (ad_queue s))"
proof -
  have sl: "slots_ok C s" and bk: "book {} lg s" using assms(1) by (simp_all add: admission_inv_def)
  have full: "ac_maxInFlight C \<le> ad_inFlight s" using sl assms(2) by (auto simp: slots_ok_def)
  have lt: "n < ad_next s" using book_arrives(2) [OF bk] assms(2) by blast
  show ?thesis
  proof (cases e)
    case (Arrive lag policy aborted)
    with admit_line [OF assms(2) lt full, of policy lag aborted l s'] assms(3,4,5) show ?thesis by (simp add: same_line_def)
  next
    case (Release i)
    show ?thesis
    proof (cases "map_of (ad_released s) i = Some False")
      case True
      with release_line [OF assms(1,2,3) True, of l s'] assms(3,5) Release show ?thesis by auto
    qed (use assms Release in \<open>auto simp: release_def\<close>)
  next
    case (Timeout w)
    with timeout_line [of w n s C l s'] assms(2-5) show ?thesis by (simp add: same_line_def)
  next
    case (Abort w)
    with abort_line [of w n s l s'] assms(2-5) show ?thesis by (simp add: same_line_def)
  qed
qed

lemma run_line:
  "config_ok C \<Longrightarrow> admission_inv C lg s \<Longrightarrow> n \<in> set (ad_queue s) \<Longrightarrow> ad_inFlight s \<le> ac_maxInFlight C \<Longrightarrow>
   \<forall>e \<in> set es. lets_wait n e \<Longrightarrow> admission_run C es s = (l, s') \<Longrightarrow> ahead n (ad_queue s) < freed C es s \<Longrightarrow>
   (n, Admitted) \<in> set l"
proof (induction es arbitrary: lg s l)
  case (Cons e es)
  obtain l1 s1 where e: "admission_step C e s = (l1, s1)" by (cases "admission_step C e s")
  obtain l2 where r: "admission_run C es s1 = (l2, s')" "l = l1 @ l2" using Cons.prems(6) by (auto simp: e split: prod.splits)
  have w: "lets_wait n e" and ws: "\<forall>e \<in> set es. lets_wait n e" using Cons.prems(5) by simp_all
  show ?case
  proof (cases "(n, Admitted) \<in> set l1")
    case False
    with step_line [OF Cons.prems(2,3,4) w e] have s1: "n \<in> set (ad_queue s1)" "ad_inFlight s1 \<le> ac_maxInFlight C"
      "ahead n (ad_queue s1) + (if frees e s then 1 else 0) \<le> ahead n (ad_queue s)" by simp_all
    have "ahead n (ad_queue s1) < freed C es s1" using s1(3) Cons.prems(7) by (auto simp: e split: if_splits)
    from Cons.IH [OF Cons.prems(1) admission_step_inv [OF Cons.prems(1,2) e] s1(1,2) ws r(1) this] show ?thesis by (simp add: r(2))
  qed (simp add: r(2))
qed simp

section \<open>Properties\<close>

text \<open>
  C30: Capacity holds after every history: the count in flight is exactly the handles given out and not released, a
  handle released twice included, never above the limit plus the reserve; the queue keeps its bound, and nobody
  waits while a slot is free.
\<close>

theorem admission_bounded:
  assumes "createAdmissionController opts = Inr C" and "admission_run C es new_admission = (lg, s)"
  shows "ad_inFlight s = int (card {i. (i, Admitted) \<in> set lg \<and> map_of (ad_released s) i = Some False})
    \<and> ad_inFlight s \<le> ac_maxInFlight C + ac_reserved C \<and> int (length (ad_queue s)) \<le> ac_maxQueue C
    \<and> (ad_queue s = [] \<or> ac_maxInFlight C \<le> ad_inFlight s)"
proof -
  from admission_run_inv [OF created_ok [OF assms(1)] new_admission_inv [OF created_ok [OF assms(1)]] assms(2)]
  have sl: "slots_ok C s" and b: "book {} lg s" by (simp_all add: admission_inv_def)
  have wf: "jm_wf (ad_released s)" using sl by (simp add: slots_ok_def)
  have "{i. (i, Admitted) \<in> set lg \<and> map_of (ad_released s) i = Some False} = fst ` set (filter (\<lambda>x. \<not> snd x) (ad_released s))"
    using bookD(10) [OF b] wf by (force simp: jm_Some_iff)
  moreover have "distinct (map fst (filter (\<lambda>x. \<not> snd x) (ad_released s)))" using wf by (rule distinct_map_filter)
  then have "card (fst ` set (filter (\<lambda>x. \<not> snd x) (ad_released s))) = open_handles s"
    unfolding open_handles_def by (metis distinct_card length_map set_map)
  ultimately show ?thesis using sl by (auto simp: slots_ok_def)
qed

text \<open>
  C31: Every request is answered once or still waits: no request gets two answers, none is forgotten, and the count of
  shed requests is the number of answers that shed one.
\<close>

theorem every_request_answered_once:
  assumes "createAdmissionController opts = Inr C" and "admission_run C es new_admission = (lg, s)"
  shows "distinct (map fst lg) \<and> fst ` set lg \<inter> set (ad_queue s) = {} \<and> fst ` set lg \<union> set (ad_queue s) = {..<ad_next s}
    \<and> distinct (ad_queue s) \<and> ad_shed s = length (filter (\<lambda>x. is_shed (snd x)) lg)"
proof -
  from admission_run_inv [OF created_ok [OF assms(1)] new_admission_inv [OF created_ok [OF assms(1)]] assms(2)]
  have b: "book {} lg s" by (simp add: admission_inv_def)
  show ?thesis using bookD(3,5,6,8,9) [OF b] by simp
qed

text \<open>
  The queue is fair: with no reserved slot in use, a request with \<open>k\<close> others before it is admitted by the time
  \<open>k + 1\<close> slots are given back, whoever arrives or gives up meanwhile, as long as the policy admits nobody past the
  queue and the request itself neither times out nor aborts.
\<close>

theorem waiting_request_gets_its_turn:
  assumes "createAdmissionController opts = Inr C" and "admission_run C es new_admission = (lg, s)"
    and "ad_queue s = before @ n # later" and "ad_inFlight s \<le> ac_maxInFlight C"
    and "\<forall>e \<in> set es'. lets_wait n e" and "admission_run C es' s = (lg', s')" and "length before < freed C es' s"
  shows "(n, Admitted) \<in> set lg'"
proof -
  note ok = created_ok [OF assms(1)]
  note inv = admission_run_inv [OF ok new_admission_inv [OF ok] assms(2), simplified]
  have "distinct (ad_queue s)" using inv bookD(3) by (auto simp: admission_inv_def)
  then have "n \<notin> set before" using assms(3) by simp
  then have "takeWhile (\<lambda>w. w \<noteq> n) (before @ n # later) = before" by (subst takeWhile_append2) auto
  then have "ahead n (ad_queue s) = length before" by (simp add: ahead_def assms(3))
  with run_line [OF ok inv _ assms(4,5,6)] assms(3,7) show ?thesis by simp
qed

text \<open>One slot, two places in the queue.\<close>

definition one_slot_options :: admission_options where
  "one_slot_options =
     \<lparr> ao_maxInFlight = Fin 1, ao_maxLagMs = None, ao_maxQueue = Some (Fin 2), ao_queueTimeoutMs = None,
       ao_reservedForPolicy = None, ao_baseRetryAfterSec = None \<rparr>"

definition one_slot :: admission_config where
  "one_slot = \<lparr> ac_maxInFlight = 1, ac_maxLagMs = Inf, ac_maxQueue = 2, ac_queueTimeoutMs = 50, ac_reserved = 0, ac_baseRetryAfterSec = 1 \<rparr>"

lemma one_slot_created: "createAdmissionController one_slot_options = Inr one_slot"
  by (simp add: createAdmissionController_def one_slot_options_def one_slot_def given_def)

definition arrival :: admission_event where
  "arrival = Arrive (Fin 0) (\<lambda>ev. Defer) False"

lemmas admission_eval = new_admission_def one_slot_def arrival_def admit_def admit_default_def occupy_def makeHandle_def
  enqueue_waiter_def shedResponse_def base_retry_def release_def is_settled_def settle_waiter_def

definition busy_gate :: admission where
  "busy_gate = snd (admission_run one_slot [arrival, arrival, arrival, arrival] new_admission)"

lemma busy_gate_run:
  "admission_run one_slot [arrival, arrival, arrival, arrival] new_admission = ([(0, Admitted), (3, Shed Inflight 1)], busy_gate)"
  by (simp add: admission_eval busy_gate_def)

lemma busy_gate_state: "ad_queue busy_gate = [1, 2]" "ad_inFlight busy_gate = 1"
  by (simp_all add: admission_eval busy_gate_def)

theorem admission_bounded_witness:
  "ad_inFlight busy_gate = 1 \<and> ad_inFlight busy_gate \<le> 1 + 0 \<and> length (ad_queue busy_gate) = 2"
  using admission_bounded [OF one_slot_created busy_gate_run] busy_gate_state by (simp add: one_slot_def)

theorem every_request_answered_once_witness:
  "fst ` set [(0 :: nat, Admitted), (3, Shed Inflight 1)] \<union> set (ad_queue busy_gate) = {..<ad_next busy_gate} \<and> ad_shed busy_gate = 1"
  using every_request_answered_once [OF one_slot_created busy_gate_run] by (simp add: is_shed_def)

theorem waiting_request_gets_its_turn_witness:
  "\<exists>lg' s'. admission_run one_slot [Release 0, Release 0, Timeout 9, Release 1] busy_gate = (lg', s') \<and> (2, Admitted) \<in> set lg'"
proof -
  let ?es = "[Release 0, Release 0, Timeout 9, Release 1]"
  obtain lg' s' where r: "admission_run one_slot ?es busy_gate = (lg', s')" by (metis surj_pair)
  have q: "ad_queue busy_gate = [1] @ 2 # []" by (simp add: busy_gate_state)
  have w: "\<forall>e \<in> set ?es. lets_wait 2 e" by simp
  have f: "length [1 :: nat] < freed one_slot ?es busy_gate"
    by (simp add: admission_eval busy_gate_def onTimeout_def)
  have "ad_inFlight busy_gate \<le> ac_maxInFlight one_slot" by (simp add: busy_gate_state one_slot_def)
  from waiting_request_gets_its_turn [OF one_slot_created busy_gate_run q this w r f] r show ?thesis by blast
qed

end
