(* ===== verification/IpAddress.thy ===== *)
theory IpAddress
  imports ParamConstraint
begin

unbundle bit_operations_syntax

text \<open>
  Client addresses: \<open>packages/middleware/src/_ip.ts\<close> (parsing, rate-limit buckets),
  \<open>packages/core/src/server/client-ip.ts\<close> (the caller behind trusted proxies) and
  \<open>packages/middleware/src/ip-restriction.ts\<close> (allow and deny lists).

  \<^item> A \<open>bigint\<close> is a \<open>nat\<close>; shifts and masks are the bit operations of the library.
  \<^item> \<open>toLowerCase\<close> is written for ASCII: no other character has a hexadecimal digit, a colon, a dot or a percent
    sign as its lower case.
  \<^item> Headers are a function of their name; what custom extraction and matcher functions return is an input.
\<close>

section \<open>Parsing\<close>

datatype ip_version = V4 | V6

record parsed_ip =
  ip_version :: ip_version
  ip_value :: nat

fun octets :: "jstr list \<Rightarrow> nat \<Rightarrow> nat option" where
  "octets [] out = Some out"
| "octets (part # parts) out =
     (if \<not> (1 \<le> length part \<and> length part \<le> 3 \<and> list_all is_digit part) then None
      else if number_of part > 255 then None
      else octets parts (push_bit 8 out OR number_of part))"

definition parseIPv4 :: "jstr \<Rightarrow> nat option" where
  "parseIPv4 input =
     (let parts = split_on 46 input in if length parts \<noteq> 4 then None else octets parts 0)"

definition lower :: "jstr \<Rightarrow> jstr" where
  "lower s = map (\<lambda>c. if 65 \<le> c \<and> c \<le> 90 then c + 32 else c) s"

definition hex_digit :: "nat \<Rightarrow> nat" where
  "hex_digit d = (if d < 10 then 48 + d else 87 + d)"

text \<open>\<open>n.toString(16)\<close>\<close>

fun hex :: "nat \<Rightarrow> jstr" where
  "hex n = (if n < 16 then [hex_digit n] else hex (n div 16) @ [hex_digit (n mod 16)])"

declare hex.simps [simp del]

definition is_hex :: "nat \<Rightarrow> bool" where
  "is_hex c \<longleftrightarrow> is_digit c \<or> 97 \<le> c \<and> c \<le> 102"

definition hex_value :: "nat \<Rightarrow> nat" where
  "hex_value c = (if is_digit c then c - 48 else c - 87)"

definition parse_hex :: "jstr \<Rightarrow> nat" where
  "parse_hex s = fold (\<lambda>c n. 16 * n + hex_value c) s 0"

text \<open>\<open>s.split("::")\<close>\<close>

fun split_pairs :: "jstr \<Rightarrow> jstr list" where
  "split_pairs [] = [[]]"
| "split_pairs [c] = [[c]]"
| "split_pairs (c # d # cs) =
     (if c = 58 \<and> d = 58 then [] # split_pairs cs
      else (case split_pairs (d # cs) of [] \<Rightarrow> [[c]] | p # ps \<Rightarrow> (c # p) # ps))"

definition last_colon :: "jstr \<Rightarrow> nat option" where
  "last_colon s = (if 58 \<in> set s then Some (length s - 1 - length (takeWhile (\<lambda>c. c \<noteq> 58) (rev s))) else None)"

text \<open>An address that ends in dotted form becomes one of groups only.\<close>

definition undot :: "jstr \<Rightarrow> jstr option" where
  "undot src =
     (if 46 \<notin> set src then Some src
      else
        (case last_colon src of
           None \<Rightarrow> None
         | Some lastColon \<Rightarrow>
             (case parseIPv4 (drop (lastColon + 1) src) of
                None \<Rightarrow> None
              | Some ipv4 \<Rightarrow>
                  (let hi = hex (drop_bit 16 ipv4 AND 65535); lo = hex (ipv4 AND 65535) in
                   Some (take lastColon src @ [58] @ hi @ [58] @ lo)))))"

definition groups_of :: "jstr \<Rightarrow> jstr list" where
  "groups_of half = (if half = [] then [] else split_on 58 half)"

definition is_group :: "jstr \<Rightarrow> bool" where
  "is_group g \<longleftrightarrow> 1 \<le> length g \<and> length g \<le> 4 \<and> list_all is_hex g"

definition join_groups :: "jstr list \<Rightarrow> nat" where
  "join_groups gs = fold (\<lambda>g out. push_bit 16 out OR parse_hex g) gs 0"

definition parseIPv6 :: "jstr \<Rightarrow> nat option" where
  "parseIPv6 input =
     (if 37 \<in> set input then None
      else
        (case undot (lower input) of
           None \<Rightarrow> None
         | Some src \<Rightarrow>
             (let halves = split_pairs src in
              if length halves > 2 then None
              else
                (let left = groups_of (halves ! 0);
                     right = (if length halves = 1 then [] else groups_of (halves ! 1));
                     groups = left @ right in
                 if \<not> list_all is_group groups then None
                 else if length halves = 1
                 then (if length groups \<noteq> 8 then None else Some (join_groups groups))
                 else if 8 < length groups + 1 then None
                 else Some (join_groups (left @ replicate (8 - length groups) (js ''0'') @ right))))))"

definition parseIp :: "jstr \<Rightarrow> parsed_ip option" where
  "parseIp input =
     (let trimmed = trim input;
          unbracketed = (if prefix [91] trimmed \<and> suffix [93] trimmed then butlast (tl trimmed) else trimmed) in
      case parseIPv4 unbracketed of
        Some v4 \<Rightarrow> Some \<lparr> ip_version = V4, ip_value = v4 \<rparr>
      | None \<Rightarrow>
          (case parseIPv6 unbracketed of
             None \<Rightarrow> None
           | Some v6 \<Rightarrow>
               Some (if drop_bit 32 v6 = 65535 then \<lparr> ip_version = V4, ip_value = v6 AND 4294967295 \<rparr>
                     else \<lparr> ip_version = V6, ip_value = v6 \<rparr>)))"

section \<open>Buckets\<close>

definition pad_start :: "nat \<Rightarrow> nat \<Rightarrow> jstr \<Rightarrow> jstr" where
  "pad_start n c s = replicate (n - length s) c @ s"

definition bucketParsedIp :: "parsed_ip \<Rightarrow> jstr" where
  "bucketParsedIp p =
     (let v = ip_value p in
      if ip_version p = V4
      then dec (drop_bit 24 v AND 255) @ [46] @ dec (drop_bit 16 v AND 255) @ [46] @ dec (drop_bit 8 v AND 255) @ [46] @ dec (v AND 255)
      else
        (let pre = pad_start 16 48 (hex (drop_bit 64 v)) in
         slice pre 0 4 @ [58] @ slice pre 4 8 @ [58] @ slice pre 8 12 @ [58] @ drop 12 pre @ js ''::/64''))"

text \<open>\<open>canonicalIPv4Literal\<close>: the octets ended so far, the digits of the present one, its value, its first digit.\<close>

fun canonical_scan :: "jstr \<Rightarrow> nat \<Rightarrow> nat \<Rightarrow> nat \<Rightarrow> nat \<Rightarrow> bool" where
  "canonical_scan [] ended digits v firstDigit \<longleftrightarrow> \<not> (ended \<noteq> 3 \<or> digits = 0 \<or> digits > 1 \<and> firstDigit = 48)"
| "canonical_scan (code # cs) ended digits v firstDigit =
     (if code = 46 then
        (if digits = 0 \<or> digits > 1 \<and> firstDigit = 48 \<or> ended = 3 then False
         else canonical_scan cs (ended + 1) 0 0 0)
      else if code < 48 \<or> code > 57 \<or> digits = 3 then False
      else if digits = 1 \<and> firstDigit = 48 then False
      else
        (let v' = v * 10 + code - 48 in
         if v' > 255 then False
         else canonical_scan cs ended (digits + 1) v' (if digits = 0 then code else firstDigit)))"

definition canonicalIPv4Literal :: "jstr \<Rightarrow> jstr option" where
  "canonicalIPv4Literal input = (if canonical_scan input 0 0 0 0 then Some input else None)"

definition ipBucketForAddress :: "jstr \<Rightarrow> jstr option" where
  "ipBucketForAddress ip =
     (case canonicalIPv4Literal ip of Some v4 \<Rightarrow> Some v4 | None \<Rightarrow> map_option bucketParsedIp (parseIp ip))"

definition ipBucket :: "jstr \<Rightarrow> jstr" where
  "ipBucket ip =
     (if 58 \<notin> set ip then ip
      else if prefix (js ''::ffff:'') ip \<and> 46 \<in> set (drop 7 ip) \<and> 58 \<notin> set (drop 7 ip) then drop 7 ip
      else (case parseIp ip of None \<Rightarrow> ip | Some p \<Rightarrow> bucketParsedIp p))"

section \<open>The caller behind trusted proxies\<close>

datatype client_trust = TrustedHops nat | TrustedHeader jstr

definition firstHeaderValue :: "(jstr \<Rightarrow> jstr option) \<Rightarrow> jstr \<Rightarrow> jstr option" where
  "firstHeaderValue headers name =
     (case headers name of
        None \<Rightarrow> None
      | Some raw \<Rightarrow> (let first = trim (hd (split_on 44 raw)) in if first = [] then None else Some first))"

definition xff :: jstr where
  "xff = js ''x-forwarded-for''"

definition resolveClientIp :: "jstr option \<Rightarrow> (jstr \<Rightarrow> jstr option) \<Rightarrow> client_trust option \<Rightarrow> jstr option" where
  "resolveClientIp peer headers trust =
     (case trust of
        None \<Rightarrow> peer
      | Some (TrustedHeader name) \<Rightarrow> firstHeaderValue headers name
      | Some (TrustedHops n) \<Rightarrow>
          if n = 0 then peer
          else
            (let forwarded = (case headers xff of
                                None \<Rightarrow> []
                              | Some v \<Rightarrow> filter (\<lambda>e. e \<noteq> []) (map trim (split_on 44 v))) in
             if n \<le> length forwarded then Some (forwarded ! (length forwarded - n)) else None))"

section \<open>Allow and deny lists\<close>

record ip_range =
  rg_version :: ip_version
  rg_network :: nat
  rg_mask :: nat

definition bits_of :: "ip_version \<Rightarrow> nat" where
  "bits_of v = (if v = V4 then 32 else 128)"

definition parseRange :: "jstr \<Rightarrow> ip_range option" where
  "parseRange input =
     (let slash = index_of input (js ''/'') 0;
          address = (case slash of None \<Rightarrow> input | Some i \<Rightarrow> take i input) in
      case parseIp address of
        None \<Rightarrow> None
      | Some ip \<Rightarrow>
          (let bits = bits_of (ip_version ip);
               mapped = (if ip_version ip = V4 \<and> 58 \<in> set address then 96 else 0);
               pre = (case slash of
                        None \<Rightarrow> int bits
                      | Some i \<Rightarrow>
                          (let t = drop (i + 1) input in
                           if t \<noteq> [] \<and> list_all is_digit t then int (number_of t) - mapped else -1)) in
           if pre < 0 \<or> pre > int bits then None
           else
             (let full = push_bit bits 1 - 1;
                  msk = (if pre = 0 then 0 else full XOR (push_bit (bits - nat pre) 1 - 1)) in
              Some \<lparr> rg_version = ip_version ip, rg_network = ip_value ip AND msk, rg_mask = msk \<rparr>)))"

definition matchRange :: "parsed_ip \<Rightarrow> ip_range \<Rightarrow> bool" where
  "matchRange ip rg \<longleftrightarrow> ip_version ip = rg_version rg \<and> ip_value ip AND rg_mask rg = rg_network rg"

text \<open>\<open>nth_last\<close>: \<open>parts[parts.length - n]?.trim()\<close>, of which an empty text counts as none.\<close>

definition nth_last :: "nat \<Rightarrow> jstr list \<Rightarrow> jstr option" where
  "nth_last n parts =
     (if 1 \<le> n \<and> n \<le> length parts then (let v = trim (parts ! (length parts - n)) in if v = [] then None else Some v) else None)"

definition xForwardedClient :: "(jstr \<Rightarrow> jstr option) \<Rightarrow> nat \<Rightarrow> jstr option" where
  "xForwardedClient headers trustedProxies =
     (if trustedProxies = 0 then None
      else (case headers xff of None \<Rightarrow> None | Some v \<Rightarrow> nth_last trustedProxies (split_on 44 v)))"

record restriction_options =
  ro_allow :: "ip_range list"
  ro_allowFns :: bool
  ro_deny :: "ip_range list"
  ro_clientIp :: "jstr option option"
  ro_trustedProxies :: nat
  ro_header :: "jstr option"

text \<open>\<open>ro_clientIp\<close>: none when there is no custom extraction, else what it returned.\<close>

definition restricted_client :: "(jstr \<Rightarrow> jstr option) \<Rightarrow> jstr option \<Rightarrow> restriction_options \<Rightarrow> jstr option" where
  "restricted_client headers platformIp opts =
     (case ro_clientIp opts of
        Some (Some custom) \<Rightarrow> Some custom
      | custom \<Rightarrow>
          if custom = None \<and> ro_trustedProxies opts = 0 \<and> ro_header opts = None
          then (case platformIp of None \<Rightarrow> None | Some p \<Rightarrow> if p = [] then None else Some p)
          else
            (case xForwardedClient headers (ro_trustedProxies opts) of
               Some ip \<Rightarrow> Some ip
             | None \<Rightarrow>
                 (case ro_header opts of
                    None \<Rightarrow> None
                  | Some name \<Rightarrow>
                      (case headers name of
                         None \<Rightarrow> None
                       | Some v \<Rightarrow> if 44 \<in> set v then None else Some (trim v)))))"

text \<open>\<open>fnMatch\<close>: whether one of the custom functions of a list matches. \<open>True\<close> means that the request is let through.\<close>

definition restriction_allows ::
    "restriction_options \<Rightarrow> (jstr \<Rightarrow> bool) \<Rightarrow> (jstr \<Rightarrow> bool) \<Rightarrow> (jstr \<Rightarrow> jstr option) \<Rightarrow> jstr option \<Rightarrow> bool" where
  "restriction_allows opts denyFn allowFn headers platformIp =
     (case restricted_client headers platformIp opts of
        None \<Rightarrow> False
      | Some ipText \<Rightarrow>
          (case parseIp ipText of
             None \<Rightarrow> False
           | Some ip \<Rightarrow>
               if list_ex (matchRange ip) (ro_deny opts) \<or> denyFn ipText then False
               else if (ro_allow opts \<noteq> [] \<or> ro_allowFns opts) \<and> \<not> (list_ex (matchRange ip) (ro_allow opts) \<or> allowFn ipText)
               then False
               else True))"

section \<open>Bits\<close>

lemma or_low: "n < 2 ^ k \<Longrightarrow> push_bit k a OR n = a * 2 ^ k + n" for a n :: nat
proof -
  assume "n < 2 ^ k"
  then have n: "take_bit k n = n" by (simp add: take_bit_nat_eq_self)
  have "push_bit k a AND take_bit k n = 0"
    by (auto simp: bit_eq_iff bit_simps)
  then show ?thesis
    using disjunctive_add_eq_or [of "push_bit k a" n] by (simp add: n push_bit_eq_mult)
qed

lemma and_low: "n AND (2 ^ k - 1) = n mod 2 ^ k" for n :: nat
  unfolding mask_eq_exp_minus_1 [symmetric] take_bit_eq_mask [symmetric] take_bit_eq_mod by (rule refl)

lemmas and_255 = and_low [of _ 8, simplified]
lemmas and_65535 = and_low [of _ 16, simplified]
lemmas and_32 = and_low [of _ 32, simplified]

lemma high_mask: "k \<le> b \<Longrightarrow> v < 2 ^ b \<Longrightarrow> v AND ((push_bit b 1 - 1) XOR (push_bit k 1 - 1)) = v div 2 ^ k * 2 ^ k" for v :: nat
proof -
  assume a: "k \<le> b" "v < 2 ^ b"
  have m: "bit (push_bit n 1 - 1 :: nat) i \<longleftrightarrow> i < n" for n i
    unfolding push_bit_eq_mult mult_1 mask_eq_exp_minus_1 [symmetric] by (simp add: bit_mask_iff)
  have hi: "bit v i \<longleftrightarrow> i < b \<and> bit v i" for i
    using a(2) by (metis bit_take_bit_iff take_bit_nat_eq_self)
  have "v AND ((push_bit b 1 - 1) XOR (push_bit k 1 - 1)) = push_bit k (drop_bit k v)"
  proof (rule bit_eqI)
    fix i
    show "bit (v AND ((push_bit b 1 - 1) XOR (push_bit k 1 - 1))) i \<longleftrightarrow> bit (push_bit k (drop_bit k v)) i"
      unfolding bit_and_iff bit_xor_iff m using hi [of i] a(1) by (auto simp: bit_simps)
  qed
  then show ?thesis by (simp add: push_bit_eq_mult drop_bit_eq_div)
qed

section \<open>Octets\<close>

definition dotted :: "nat \<Rightarrow> nat \<Rightarrow> nat \<Rightarrow> nat \<Rightarrow> jstr" where
  "dotted a b c d = join_with [46] [dec a, dec b, dec c, dec d]"

lemma octets_bound: "octets parts out = Some v \<Longrightarrow> v < (out + 1) * 256 ^ length parts"
proof (induction parts arbitrary: out)
  case (Cons part parts)
  then have n: "number_of part < 2 ^ 8" and r: "octets parts (push_bit 8 out OR number_of part) = Some v"
    by (auto split: if_splits)
  from Cons.IH [OF r] have "v < (out * 256 + number_of part + 1) * 256 ^ length parts" by (simp add: or_low [OF n])
  also have "\<dots> \<le> ((out + 1) * 256) * 256 ^ length parts" using n by (intro mult_right_mono) auto
  finally show ?case by (simp add: algebra_simps)
qed simp

lemma parseIPv4_bound: "parseIPv4 s = Some v \<Longrightarrow> v < 2 ^ 32"
  using octets_bound [of "split_on 46 s" 0 v] by (auto simp: parseIPv4_def Let_def split: if_splits)

lemma dec_len: "n \<le> 255 \<Longrightarrow> 1 \<le> length (dec n) \<and> length (dec n) \<le> 3"
  by (simp add: dec.simps [of n] dec.simps [of "n div 10"] dec.simps [of "n div 10 div 10"])

lemma dec_all_digits: "list_all is_digit (dec n)"
  using dec_digits by (simp add: list_all_iff)

lemma dec_no: "\<not> is_digit c \<Longrightarrow> c \<notin> set (dec n)"
  using dec_digits by blast

lemma dec_nonempty [simp]: "dec n \<noteq> []" "[] \<noteq> dec n"
  by (simp_all add: dec.simps [of n])

lemma parse_dotted:
  assumes "a \<le> 255" "b \<le> 255" "c \<le> 255" "d \<le> 255"
  shows "parseIPv4 (dotted a b c d) = Some (((a * 256 + b) * 256 + c) * 256 + d)"
proof -
  have "split_on 46 (dotted a b c d) = [dec a, dec b, dec c, dec d]"
    unfolding dotted_def using dec_no [of 46] by (intro split_join) (auto simp: is_digit_def)
  moreover have "octets [dec a, dec b, dec c, dec d] 0 = Some (((a * 256 + b) * 256 + c) * 256 + d)"
    using assms dec_len dec_all_digits or_low [of _ 8] by (simp add: number_of_dec)
  ultimately show ?thesis by (simp add: parseIPv4_def)
qed

lemma bucket_dotted:
  assumes "a \<le> 255" "b \<le> 255" "c \<le> 255" "d \<le> 255"
  shows "bucketParsedIp \<lparr> ip_version = V4, ip_value = ((a * 256 + b) * 256 + c) * 256 + d \<rparr> = dotted a b c d"
proof -
  define q r v where "q = a * 256 + b" and "r = q * 256 + c" and "v = r * 256 + d"
  have step: "(x * 256 + y) div 256 = x" "(x * 256 + y) mod 256 = y" if "y \<le> 255" for x y :: nat
    using that by simp_all
  have d: "v div 256 = r" "v mod 256 = d" "r div 256 = q" "r mod 256 = c" "q div 256 = a" "q mod 256 = b"
    unfolding v_def r_def q_def using step assms by blast+
  have "v div 65536 = v div 256 div 256" "v div 16777216 = v div 256 div 256 div 256"
    by (simp_all only: div_mult2_eq [symmetric] numeral_times_numeral semiring_norm)
  with d assms(1) have "drop_bit 24 v AND 255 = a" "drop_bit 16 v AND 255 = b" "drop_bit 8 v AND 255 = c" "v AND 255 = d"
    by (simp_all add: drop_bit_eq_div and_255)
  then have "bucketParsedIp \<lparr> ip_version = V4, ip_value = v \<rparr> = dotted a b c d"
    by (simp add: bucketParsedIp_def Let_def dotted_def)
  then show ?thesis unfolding v_def r_def q_def .
qed

lemma dotted_chars: "x \<in> set (dotted a b c d) \<Longrightarrow> is_digit x \<or> x = 46"
  using dec_digits by (auto simp: dotted_def)

lemma trim_dotted: "trim (dotted a b c d) = dotted a b c d"
proof (rule trim_id)
  have n: "dec a \<noteq> []" "dec d \<noteq> []" using number_of_dec by (simp_all add: dec.simps [of a] dec.simps [of d])
  then show "dotted a b c d \<noteq> []" by (simp add: dotted_def)
  then have "hd (dotted a b c d) \<in> set (dotted a b c d)" "last (dotted a b c d) \<in> set (dotted a b c d)" by simp_all
  then have "is_digit (hd (dotted a b c d)) \<or> hd (dotted a b c d) = 46" "is_digit (last (dotted a b c d)) \<or> last (dotted a b c d) = 46"
    using dotted_chars by blast+
  then show "\<not> is_space (hd (dotted a b c d))" "\<not> is_space (last (dotted a b c d))"
    by (auto simp: is_digit_def is_space_def)
qed

lemma parseIp_dotted:
  assumes "a \<le> 255" "b \<le> 255" "c \<le> 255" "d \<le> 255"
  shows "parseIp (dotted a b c d) = Some \<lparr> ip_version = V4, ip_value = ((a * 256 + b) * 256 + c) * 256 + d \<rparr>"
proof -
  have "\<not> prefix [91] (dotted a b c d)"
    using dotted_chars [of 91 a b c d] by (auto simp: prefix_def is_digit_def)
  then show ?thesis using parse_dotted [OF assms] by (simp add: parseIp_def trim_dotted)
qed

section \<open>Canonical literals\<close>

text \<open>The digits of the present octet, \<open>g\<close>, are canonical as far as they go.\<close>

definition partial_octet :: "jstr \<Rightarrow> nat \<Rightarrow> nat \<Rightarrow> nat \<Rightarrow> bool" where
  "partial_octet g digits v f \<longleftrightarrow>
     digits = length g \<and> (g = [] \<and> v = 0 \<or> g = dec v \<and> v \<le> 255 \<and> f = hd g)"

lemma dec_step: "0 < v \<Longrightarrow> k < 10 \<Longrightarrow> dec (v * 10 + k) = dec v @ [48 + k]"
  by (subst dec.simps) simp

lemma dec_hd_zero: "hd (dec v) = 48 \<Longrightarrow> v = 0"
proof (induction v rule: dec.induct)
  case (1 n)
  have ne: "dec (n div 10) \<noteq> []" by (simp add: dec.simps [of "n div 10"])
  show ?case
  proof (cases "n < 10")
    case False
    then have "hd (dec n) = hd (dec (n div 10))" using ne by (simp add: dec.simps [of n])
    with 1 False show ?thesis by simp
  qed (use 1(2) in \<open>simp add: dec.simps [of n]\<close>)
qed

lemma canonical_scan_spec:
  "canonical_scan s e digits v f \<Longrightarrow> partial_octet g digits v f \<Longrightarrow> e \<le> 3 \<Longrightarrow>
   \<exists>ns. length ns = 4 - e \<and> (\<forall>n \<in> set ns. n \<le> 255) \<and> g @ s = join_with [46] (map dec ns)"
proof (induction s e digits v f arbitrary: g rule: canonical_scan.induct)
  case (1 e digits v f)
  then have "e = 3" "g = dec v" "v \<le> 255" by (auto simp: partial_octet_def)
  then show ?case by (intro exI [of _ "[v]"]) simp
next
  case (2 code cs e digits v f)
  show ?case
  proof (cases "code = 46")
    case True
    with 2(3,4) have c: "canonical_scan cs (e + 1) 0 0 0" and e: "e + 1 \<le> 3" and g: "g = dec v" "v \<le> 255"
      using 2(5) by (auto simp: partial_octet_def split: if_splits)
    have cond: "\<not> (digits = 0 \<or> digits > 1 \<and> f = 48 \<or> e = 3)" using True 2(3) by (auto split: if_splits)
    have "partial_octet [] 0 0 0" by (simp add: partial_octet_def)
    from 2(1) [OF True cond c this e] obtain ns where ns: "length ns = 4 - (e + 1)" "\<forall>n \<in> set ns. n \<le> 255"
      "cs = join_with [46] (map dec ns)" by auto
    then have "ns \<noteq> []" using e by auto
    then have "g @ code # cs = join_with [46] (map dec (v # ns))" using ns(3) by (cases ns) (simp_all add: True g(1))
    moreover have "length (v # ns) = 4 - e" using ns(1) e by simp
    ultimately show ?thesis using g(2) ns(2) by (intro exI [of _ "v # ns"]) simp
  next
    case False
    define v' where "v' = v * 10 + code - 48"
    have c: "\<not> (code < 48 \<or> code > 57 \<or> digits = 3)" "\<not> (digits = 1 \<and> f = 48)" "\<not> v' > 255"
      "canonical_scan cs e (digits + 1) v' (if digits = 0 then code else f)"
      using False 2(3) by (auto simp: v'_def Let_def split: if_splits)
    have k: "code = 48 + (code - 48)" "code - 48 < 10" using c(1) by auto
    have "partial_octet (g @ [code]) (digits + 1) v' (if digits = 0 then code else f)"
    proof (cases "g = []")
      case True
      then have "v' = code - 48" "digits = 0" using 2(4) by (simp_all add: partial_octet_def v'_def)
      then show ?thesis using c(3) k True by (simp add: partial_octet_def dec.simps [of "code - 48"])
    next
      case g: False
      then have gv: "g = dec v" "digits = length g" "f = hd g" using 2(4) by (simp_all add: partial_octet_def)
      have "0 < v"
      proof (rule ccontr)
        assume "\<not> 0 < v"
        then have "g = [48]" using gv(1) by (simp add: dec.simps [of 0])
        with c(2) gv(2,3) show False by simp
      qed
      from dec_step [OF this k(2)] k have "dec v' = g @ [code]" by (simp add: v'_def gv(1))
      then show ?thesis using c(3) gv g by (simp add: partial_octet_def)
    qed
    from 2(2) [OF False c(1,2) v'_def c(3) c(4) this 2(5)] show ?thesis by simp
  qed
qed

lemma canonical_dotted:
  assumes "canonicalIPv4Literal ip = Some s"
  obtains a b c d where "ip = dotted a b c d" "s = ip" "a \<le> 255" "b \<le> 255" "c \<le> 255" "d \<le> 255"
proof -
  have c: "canonical_scan ip 0 0 0 0" and s: "s = ip"
    using assms by (auto simp: canonicalIPv4Literal_def split: if_splits)
  have "partial_octet [] 0 0 0" by (simp add: partial_octet_def)
  from canonical_scan_spec [OF c this] obtain ns where ns: "length ns = 4" "\<forall>n \<in> set ns. n \<le> 255" "ip = join_with [46] (map dec ns)"
    by auto
  then obtain a b c d where "ns = [a, b, c, d]" by (auto simp: numeral_eq_Suc length_Suc_conv)
  with ns s that [of a b c d] show thesis by (simp add: dotted_def)
qed

section \<open>Groups\<close>

lemma parse_hex_snoc: "parse_hex (s @ [c]) = 16 * parse_hex s + hex_value c"
  by (simp add: parse_hex_def)

lemma hex_digit_value: "d < 16 \<Longrightarrow> hex_value (hex_digit d) = d \<and> is_hex (hex_digit d)"
  by (auto simp: hex_digit_def hex_value_def is_hex_def is_digit_def)

lemma parse_hex_hex: "parse_hex (hex n) = n"
proof (induction n rule: hex.induct)
  case (1 n)
  have "parse_hex [hex_digit n] = n" if "n < 16"
    using that hex_digit_value [of n] by (simp add: parse_hex_def)
  with 1 hex_digit_value [of "n mod 16"] show ?case by (simp add: hex.simps [of n] parse_hex_snoc)
qed

lemma hex_chars: "list_all is_hex (hex n)"
proof (induction n rule: hex.induct)
  case (1 n)
  then show ?case using hex_digit_value [of n] hex_digit_value [of "n mod 16"] by (simp add: hex.simps [of n])
qed

lemma hex_length: "n < 16 ^ k \<Longrightarrow> 0 < k \<Longrightarrow> length (hex n) \<le> k"
proof (induction k arbitrary: n)
  case (Suc k)
  show ?case
  proof (cases "n < 16")
    case False
    then have "n div 16 < 16 ^ k" "0 < k" using Suc.prems(1) by (auto simp: less_mult_imp_div_less mult.commute intro!: Nat.gr0I)
    with Suc.IH [of "n div 16"] False show ?thesis by (simp add: hex.simps [of n])
  qed (simp add: hex.simps [of n])
qed simp

lemma parse_hex_pad: "parse_hex (pad_start n 48 s) = parse_hex s"
proof -
  have "fold (\<lambda>c n. 16 * n + hex_value c) (replicate m 48) 0 = 0" for m
    by (induction m) (simp_all add: hex_value_def is_digit_def)
  then show ?thesis by (simp add: parse_hex_def pad_start_def)
qed

lemma parse_hex_bound: "list_all is_hex s \<Longrightarrow> parse_hex s < 16 ^ length s"
proof (induction s rule: rev_induct)
  case (snoc c s)
  then have "hex_value c < 16" by (auto simp: is_hex_def hex_value_def is_digit_def)
  with snoc show ?case by (simp add: parse_hex_snoc)
qed (simp add: parse_hex_def)

lemma group_bound: "is_group g \<Longrightarrow> parse_hex g < 2 ^ 16"
proof -
  assume g: "is_group g"
  then have "parse_hex g < 16 ^ length g" by (intro parse_hex_bound) (simp add: is_group_def)
  also have "\<dots> \<le> 16 ^ 4" using g by (intro power_increasing) (simp_all add: is_group_def)
  finally show ?thesis by simp
qed

lemma join_groups_bound: "list_all is_group gs \<Longrightarrow> join_groups gs < 2 ^ (16 * length gs)"
proof (induction gs rule: rev_induct)
  case (snoc g gs)
  then have g: "parse_hex g < 2 ^ 16" "join_groups gs < 2 ^ (16 * length gs)" using group_bound by simp_all
  have "join_groups (gs @ [g]) = join_groups gs * 2 ^ 16 + parse_hex g"
    using or_low [OF g(1)] by (simp add: join_groups_def)
  also have "\<dots> < (join_groups gs + 1) * 2 ^ 16" using g(1) by simp
  also have "\<dots> \<le> 2 ^ (16 * length gs) * 2 ^ 16" using g(2) by (intro mult_right_mono) simp_all
  finally show ?case by (simp add: power_add)
qed (simp add: join_groups_def)

lemma parseIPv6_bound: "parseIPv6 s = Some v \<Longrightarrow> v < 2 ^ 128"
proof -
  assume a: "parseIPv6 s = Some v"
  then obtain src where src: "undot (lower s) = Some src" by (auto simp: parseIPv6_def split: if_splits option.splits)
  have z: "is_group (js ''0'')" by (simp add: is_group_def is_hex_def is_digit_def)
  define halves left right where "halves = split_pairs src" and "left = groups_of (halves ! 0)"
    and "right = (if length halves = 1 then [] else groups_of (halves ! 1))"
  have all: "list_all is_group left" "list_all is_group right"
    and v: "length (left @ right) = 8 \<and> v = join_groups (left @ right)
      \<or> length (left @ right) < 8 \<and> v = join_groups (left @ replicate (8 - length (left @ right)) (js ''0'') @ right)"
    using a unfolding parseIPv6_def src option.case Let_def halves_def [symmetric] left_def [symmetric] right_def [symmetric]
    by (auto simp del: js_Cons split: if_splits)
  have "list_all is_group (left @ right)" "list_all is_group (left @ replicate (8 - length (left @ right)) (js ''0'') @ right)"
    using all z by (auto simp del: js_Cons simp: list_all_iff)
  moreover have "join_groups gs < 2 ^ 128" if "list_all is_group gs" "length gs = 8" for gs
    using join_groups_bound [OF that(1)] that(2) by simp
  moreover have "length (left @ replicate (8 - length (left @ right)) (js ''0'') @ right) = 8" if "length (left @ right) < 8"
    using that by simp
  ultimately show ?thesis using v by blast
qed

definition ip_ok :: "parsed_ip \<Rightarrow> bool" where
  "ip_ok p \<longleftrightarrow> ip_value p < 2 ^ bits_of (ip_version p)"

lemma parseIp_ok: "parseIp s = Some p \<Longrightarrow> ip_ok p \<and> (ip_version p = V6 \<longrightarrow> ip_value p div 2 ^ 32 \<noteq> 65535)"
  using parseIPv4_bound parseIPv6_bound
  by (fastforce simp: parseIp_def Let_def ip_ok_def bits_of_def and_32 drop_bit_eq_div split: option.splits if_splits)

section \<open>Buckets\<close>

lemma octets_of: "v < 2 ^ 32 \<Longrightarrow> \<exists>a b c d. a \<le> 255 \<and> b \<le> 255 \<and> c \<le> 255 \<and> d \<le> 255 \<and> v = ((a * 256 + b) * 256 + c) * 256 + (d :: nat)"
proof (intro exI conjI)
  assume v: "v < 2 ^ 32"
  show "v = ((v div 256 div 256 div 256 * 256 + v div 256 div 256 mod 256) * 256 + v div 256 mod 256) * 256 + v mod 256"
    by (simp only: div_mult_mod_eq)
  have "v div 256 div 256 div 256 = v div 16777216" by (simp only: div_mult2_eq [symmetric] numeral_times_numeral semiring_norm)
  moreover have "v div 16777216 < 256" using v by (simp add: less_mult_imp_div_less)
  ultimately show "v div 256 div 256 div 256 \<le> 255" by simp
qed (simp_all add: less_Suc_eq_le [symmetric])

lemma dotted_inj: "dotted a b c d = dotted a' b' c' d' \<longleftrightarrow> a = a' \<and> b = b' \<and> c = c' \<and> d = d'"
proof
  have sp: "split_on 46 (dotted a b c d) = [dec a, dec b, dec c, dec d]" for a b c d
    unfolding dotted_def using dec_no [of 46] by (intro split_join) (auto simp: is_digit_def)
  assume "dotted a b c d = dotted a' b' c' d'"
  then have "[dec a, dec b, dec c, dec d] = [dec a', dec b', dec c', dec d']" using sp by metis
  then show "a = a' \<and> b = b' \<and> c = c' \<and> d = d'" by (simp add: dec_inj)
qed simp

lemma pad_length: "n < 2 ^ 64 \<Longrightarrow> length (pad_start 16 48 (hex n)) = 16"
  using hex_length [of n 16] by (simp add: pad_start_def)

lemma v6_bucket_inj:
  assumes "m < 2 ^ 64" and "n < 2 ^ 64"
    and "slice (pad_start 16 48 (hex m)) 0 4 @ [58] @ slice (pad_start 16 48 (hex m)) 4 8 @ [58] @ slice (pad_start 16 48 (hex m)) 8 12
         @ [58] @ drop 12 (pad_start 16 48 (hex m)) @ t
       = slice (pad_start 16 48 (hex n)) 0 4 @ [58] @ slice (pad_start 16 48 (hex n)) 4 8 @ [58] @ slice (pad_start 16 48 (hex n)) 8 12
         @ [58] @ drop 12 (pad_start 16 48 (hex n)) @ t"
  shows "m = n"
proof -
  define x y where "x = pad_start 16 48 (hex m)" and "y = pad_start 16 48 (hex n)"
  have l: "length x = 16" "length y = 16" using pad_length assms(1,2) by (simp_all add: x_def y_def)
  have "slice x 0 4 = slice y 0 4" "slice x 4 8 = slice y 4 8" "slice x 8 12 = slice y 8 12" "drop 12 x = drop 12 y"
    using assms(3) l unfolding x_def [symmetric] y_def [symmetric] by simp_all
  then have "slice x 0 4 @ slice x 4 8 @ slice x 8 12 @ drop 12 x = slice y 0 4 @ slice y 4 8 @ slice y 8 12 @ drop 12 y" by simp
  moreover have "slice z 0 4 @ slice z 4 8 @ slice z 8 12 @ drop 12 z = z" for z :: jstr
    by (simp add: slice_append_drop)
  ultimately have "x = y" by metis
  then show ?thesis unfolding x_def y_def using parse_hex_pad parse_hex_hex by metis
qed

lemma bucket_V6_shape:
  "bucketParsedIp \<lparr> ip_version = V6, ip_value = v \<rparr> =
     slice (pad_start 16 48 (hex (v div 2 ^ 64))) 0 4 @ [58] @ slice (pad_start 16 48 (hex (v div 2 ^ 64))) 4 8 @ [58]
     @ slice (pad_start 16 48 (hex (v div 2 ^ 64))) 8 12 @ [58] @ drop 12 (pad_start 16 48 (hex (v div 2 ^ 64))) @ js ''::/64''"
  by (simp add: bucketParsedIp_def Let_def drop_bit_eq_div)

lemma bucket_V4_chars: "v < 2 ^ 32 \<Longrightarrow> 58 \<notin> set (bucketParsedIp \<lparr> ip_version = V4, ip_value = v \<rparr>)"
proof -
  assume "v < 2 ^ 32"
  then obtain a b c d where o: "a \<le> 255" "b \<le> 255" "c \<le> 255" "d \<le> 255" and v: "v = ((a * 256 + b) * 256 + c) * 256 + d"
    using octets_of by blast
  show ?thesis unfolding v bucket_dotted [OF o] using dotted_chars [of 58 a b c d] by (auto simp: is_digit_def)
qed

lemma bucket_groups:
  assumes "ip_ok p" and "ip_ok q"
  shows "bucketParsedIp p = bucketParsedIp q \<longleftrightarrow> ip_version p = ip_version q
    \<and> (if ip_version p = V4 then ip_value p = ip_value q else ip_value p div 2 ^ 64 = ip_value q div 2 ^ 64)"
proof -
  obtain vp m where p: "p = \<lparr> ip_version = vp, ip_value = m \<rparr>" by (cases p)
  obtain vq n where q: "q = \<lparr> ip_version = vq, ip_value = n \<rparr>" by (cases q)
  have col: "58 \<in> set (bucketParsedIp \<lparr> ip_version = V6, ip_value = v \<rparr>)" for v
    unfolding bucket_V6_shape by simp
  consider "vp = V4 \<and> vq = V4" | "vp = V6 \<and> vq = V6" | "vp \<noteq> vq" by (cases vp; cases vq) auto
  then show ?thesis
  proof cases
    case 1
    with assms have b: "m < 2 ^ 32" "n < 2 ^ 32" by (simp_all add: p q ip_ok_def bits_of_def)
    from octets_of [OF b(1)] obtain a b' c d where o: "a \<le> 255" "b' \<le> 255" "c \<le> 255" "d \<le> 255"
      "m = ((a * 256 + b') * 256 + c) * 256 + d" by blast
    from octets_of [OF b(2)] obtain e f g h where o': "e \<le> 255" "f \<le> 255" "g \<le> 255" "h \<le> 255"
      "n = ((e * 256 + f) * 256 + g) * 256 + h" by blast
    show ?thesis
      using 1 bucket_dotted [OF o(1-4)] bucket_dotted [OF o'(1-4)] dotted_inj [of a b' c d e f g h]
      by (auto simp: p q o(5) o'(5))
  next
    case 2
    with assms have "m div 2 ^ 64 < 2 ^ 64" "n div 2 ^ 64 < 2 ^ 64"
      by (simp_all add: p q ip_ok_def bits_of_def less_mult_imp_div_less)
    from v6_bucket_inj [OF this, of "js ''::/64''"] 2 show ?thesis
      by (auto simp: p q bucket_V6_shape simp del: js_Cons)
  next
    case 3
    have "bucketParsedIp p \<noteq> bucketParsedIp q"
    proof (cases vp)
      case V4
      then have "58 \<notin> set (bucketParsedIp p)" "58 \<in> set (bucketParsedIp q)"
        using 3 assms(1) bucket_V4_chars [of m] col [of n] by (cases vq; simp add: p q ip_ok_def bits_of_def)+
      then show ?thesis by metis
    next
      case V6
      then have "58 \<in> set (bucketParsedIp p)" "58 \<notin> set (bucketParsedIp q)"
        using 3 assms(2) bucket_V4_chars [of n] col [of m] by (cases vq; simp add: p q ip_ok_def bits_of_def)+
      then show ?thesis by metis
    qed
    with 3 show ?thesis by (simp add: p q)
  qed
qed

section \<open>Hops\<close>

lemma split_on_forged: "split_on k (fake @ k # v) = split_on k fake @ split_on k v"
  by (induction fake) (auto split: list.split simp: split_on_not_Nil)

lemma nth_from_end: "1 \<le> n \<Longrightarrow> n \<le> length ys \<Longrightarrow> (xs @ ys) ! (length (xs @ ys) - n) = ys ! (length ys - n)"
proof -
  assume n: "1 \<le> n" "n \<le> length ys"
  then have "length (xs @ ys) - n = length xs + (length ys - n)" by simp
  then show ?thesis by (simp only: nth_append_length_plus)
qed

section \<open>Properties\<close>

lemma bucket_is_parsed: "ipBucketForAddress ip = map_option bucketParsedIp (parseIp ip)"
proof (cases "canonicalIPv4Literal ip")
  case (Some s)
  from canonical_dotted [OF Some] obtain a b c d where
    o: "ip = dotted a b c d" "s = ip" "a \<le> 255" "b \<le> 255" "c \<le> 255" "d \<le> 255" .
  from parseIp_dotted [OF o(3-6)] bucket_dotted [OF o(3-6)] Some show ?thesis by (simp add: ipBucketForAddress_def o(1,2))
qed (simp add: ipBucketForAddress_def)

text \<open>
  C34: The scan that keeps the common address cheap is not observable: on any input, \<open>ipBucketForAddress\<close> gives what
  the full parser and the printer give.
\<close>

theorem canonical_literal_agrees: "ipBucketForAddress ip = map_option bucketParsedIp (parseIp ip)"
  by (rule bucket_is_parsed)

text \<open>
  Two addresses share a rate-limit bucket exactly when they are the same IPv4 address, in whatever spelling and
  mapped into IPv6 or not, or IPv6 addresses of the same /64.
\<close>

theorem buckets_group_subscribers:
  assumes "parseIp s = Some p" and "parseIp t = Some q"
  shows "ipBucketForAddress s = ipBucketForAddress t \<longleftrightarrow> ip_version p = ip_version q
    \<and> (if ip_version p = V4 then ip_value p = ip_value q else ip_value p div 2 ^ 64 = ip_value q div 2 ^ 64)"
  unfolding bucket_is_parsed [of s] bucket_is_parsed [of t]
  using bucket_groups [of p q] parseIp_ok [OF assms(1)] parseIp_ok [OF assms(2)] assms by simp

text \<open>
  C35: A range written with a prefix length matches exactly the addresses of its version whose leading bits are those
  of the address it was written with; the prefix of a mapped address counts past the mapping.
\<close>

theorem cidr_matches_leading_bits:
  assumes "parseIp addr = Some ip" and "47 \<notin> set addr" and "n \<le> bits_of (ip_version ip)"
    and "m = n + (if ip_version ip = V4 \<and> 58 \<in> set addr then 96 else 0)"
  shows "\<exists>rg. parseRange (addr @ js ''/'' @ dec m) = Some rg
    \<and> (\<forall>q. ip_ok q \<longrightarrow> (matchRange q rg \<longleftrightarrow> ip_version q = ip_version ip
         \<and> ip_value q div 2 ^ (bits_of (ip_version ip) - n) = ip_value ip div 2 ^ (bits_of (ip_version ip) - n)))"
proof -
  let ?b = "bits_of (ip_version ip)"
  define msk where "msk = (if n = 0 then 0 else (push_bit ?b 1 - 1) XOR (push_bit (?b - n) 1 - 1) :: nat)"
  have slash: "index_of (addr @ js ''/'' @ dec m) (js ''/'') 0 = Some (length addr)"
  proof -
    have "find_sub [47] (addr @ 47 # r) = Some (length addr)" for r
      using assms(2) by (induction addr) auto
    then show ?thesis by (simp add: index_of_def)
  qed
  have rg: "parseRange (addr @ js ''/'' @ dec m) = Some \<lparr> rg_version = ip_version ip, rg_network = ip_value ip AND msk, rg_mask = msk \<rparr>"
  proof -
    have cut: "take (length addr) (addr @ js ''/'' @ dec m) = addr" "drop (length addr + 1) (addr @ js ''/'' @ dec m) = dec m"
      by simp_all
    have pre: "int (number_of (dec m)) - (if ip_version ip = V4 \<and> 58 \<in> set addr then 96 else 0) = int n"
      unfolding number_of_dec assms(4) by simp
    show ?thesis
      unfolding parseRange_def Let_def slash option.case cut assms(1) pre
      using assms(3) dec_all_digits [of m] by (simp add: msk_def)
  qed
  have high: "v AND msk = v div 2 ^ (?b - n) * 2 ^ (?b - n)" if "v < 2 ^ ?b" for v
  proof (cases "n = 0")
    case False
    with high_mask [of "?b - n" ?b v] that show ?thesis by (simp add: msk_def)
  qed (use that in \<open>simp add: msk_def\<close>)
  have ok: "ip_value ip < 2 ^ ?b" using parseIp_ok [OF assms(1)] by (simp add: ip_ok_def)
  have "matchRange q \<lparr> rg_version = ip_version ip, rg_network = ip_value ip AND msk, rg_mask = msk \<rparr> \<longleftrightarrow>
      ip_version q = ip_version ip \<and> ip_value q div 2 ^ (?b - n) = ip_value ip div 2 ^ (?b - n)" if "ip_ok q" for q
    using that high [OF ok] high [of "ip_value q"] by (auto simp: matchRange_def ip_ok_def)
  with rg show ?thesis by blast
qed

text \<open>
  C36: A client cannot choose its address by sending forwarding headers: whatever it writes before what the trusted
  proxies append, the caller of the server and the caller the restriction sees stay the ones the proxies reported.
\<close>

theorem forged_hops_ignored:
  assumes "headers xff = Some v" and "forged xff = Some (fake @ 44 # v)"
    and "1 \<le> n" and "n \<le> length (filter (\<lambda>e. e \<noteq> []) (map trim (split_on 44 v)))"
  shows "resolveClientIp peer forged (Some (TrustedHops n)) = resolveClientIp peer headers (Some (TrustedHops n))
    \<and> xForwardedClient forged n = xForwardedClient headers n"
proof
  let ?good = "filter (\<lambda>e. e \<noteq> []) (map trim (split_on 44 v))"
  let ?bad = "filter (\<lambda>e. e \<noteq> []) (map trim (split_on 44 fake))"
  have "filter (\<lambda>e. e \<noteq> []) (map trim (split_on 44 (fake @ 44 # v))) = ?bad @ ?good" by (simp add: split_on_forged)
  with assms nth_from_end [of n ?good ?bad]
  show "resolveClientIp peer forged (Some (TrustedHops n)) = resolveClientIp peer headers (Some (TrustedHops n))"
    by (simp add: resolveClientIp_def Let_def)
  have "n \<le> length (split_on 44 v)"
    using le_trans [OF assms(4) length_filter_le] by (simp only: length_map)
  with assms nth_from_end [of n "split_on 44 v" "split_on 44 fake"]
  show "xForwardedClient forged n = xForwardedClient headers n"
    by (simp add: xForwardedClient_def nth_last_def split_on_forged Let_def)
qed

lemma push_zeros: "(push_bit 16 ^^ k) 0 = (0 :: nat)"
  by (induction k) simp_all

lemmas ip_eval = push_zeros parseIp_def parseIPv4_def parseIPv6_def trim_def is_space_def is_digit_def number_of_def lower_def undot_def
  last_colon_def groups_of_def is_group_def is_hex_def join_groups_def parse_hex_def hex_value_def hex.simps hex_digit_def and_low

lemma parse_ten: "parseIp (js ''10.0.0.1'') = Some \<lparr> ip_version = V4, ip_value = 167772161 \<rparr>"
  by (simp add: ip_eval)

lemma parse_mapped_ten: "parseIp (js ''::FFFF:10.0.0.1'') = Some \<lparr> ip_version = V4, ip_value = 167772161 \<rparr>"
  by (simp add: ip_eval)

theorem buckets_group_subscribers_witness:
  "ipBucketForAddress (js ''::FFFF:10.0.0.1'') = ipBucketForAddress (js ''10.0.0.1'')"
  using buckets_group_subscribers [OF parse_mapped_ten parse_ten] by simp

theorem cidr_matches_leading_bits_witness:
  "\<exists>rg. parseRange (js ''10.0.0.1'' @ js ''/'' @ dec 8) = Some rg
    \<and> matchRange \<lparr> ip_version = V4, ip_value = 167772161 + 65536 \<rparr> rg \<and> \<not> matchRange \<lparr> ip_version = V4, ip_value = 1 \<rparr> rg"
proof -
  let ?ip = "\<lparr> ip_version = V4, ip_value = 167772161 \<rparr>"
  have "47 \<notin> set (js ''10.0.0.1'')" "8 \<le> bits_of (ip_version ?ip)"
    "8 = 8 + (if ip_version ?ip = V4 \<and> 58 \<in> set (js ''10.0.0.1'') then 96 else 0 :: nat)"
    by (simp_all add: bits_of_def)
  from cidr_matches_leading_bits [OF parse_ten this] obtain rg where rg: "parseRange (js ''10.0.0.1'' @ js ''/'' @ dec 8) = Some rg"
    "\<And>q. ip_ok q \<Longrightarrow> matchRange q rg \<longleftrightarrow> ip_version q = V4 \<and> ip_value q div 2 ^ 24 = 167772161 div 2 ^ 24"
    by (auto simp: bits_of_def simp del: js_Cons)
  from rg(2) [of "\<lparr> ip_version = V4, ip_value = 167772161 + 65536 \<rparr>"] rg(2) [of "\<lparr> ip_version = V4, ip_value = 1 \<rparr>"] rg(1) show ?thesis
    by (auto simp: ip_ok_def bits_of_def simp del: js_Cons)
qed

theorem forged_hops_ignored_witness:
  "\<exists>headers forged. headers xff = Some (js ''203.0.113.7, 10.0.0.2'') \<and> forged xff = Some (js ''1.1.1.1'' @ 44 # js ''203.0.113.7, 10.0.0.2'')
    \<and> resolveClientIp None forged (Some (TrustedHops 2)) = resolveClientIp None headers (Some (TrustedHops 2))"
proof -
  define h where "h = (\<lambda>n :: jstr. Some (js ''203.0.113.7, 10.0.0.2''))"
  define f where "f = (\<lambda>n :: jstr. Some (js ''1.1.1.1'' @ 44 # js ''203.0.113.7, 10.0.0.2''))"
  have a: "h xff = Some (js ''203.0.113.7, 10.0.0.2'')" "f xff = Some (js ''1.1.1.1'' @ 44 # js ''203.0.113.7, 10.0.0.2'')"
    by (simp_all add: h_def f_def)
  have "2 \<le> length (filter (\<lambda>e. e \<noteq> []) (map trim (split_on 44 (js ''203.0.113.7, 10.0.0.2''))))"
    by (simp add: trim_def is_space_def)
  from forged_hops_ignored [where headers = h and forged = f and n = 2 and peer = None
      and fake = "js ''1.1.1.1''" and v = "js ''203.0.113.7, 10.0.0.2''", OF a _ this] a show ?thesis by (intro exI [of _ h] exI [of _ f]) simp
qed

end
