(* ===== verification/RateLimit.thy ===== *)
theory RateLimit
  imports IpAddress
begin

text \<open>
  Rate limiting: \<open>packages/middleware/src/rate-limit.ts\<close>.

  \<^item> The interface \<open>RateLimitStore\<close> is a locale: what a store promises about the windows it counts. The bound on
    the requests let through is proved in it; \<open>MemoryStore\<close> is its interpretation.
  \<^item> A \<open>Map\<close> iterator keeps its place while entries come and go. Every window therefore carries its place in the
    order of insertion, which setting a present key does not change, and the iterator is the next place to visit.
  \<^item> Times are whole milliseconds, and the clock is an argument. A custom key is how its call ends.
\<close>

section \<open>The memory store\<close>

record rate_window =
  rw_place :: nat
  rw_count :: nat
  rw_resetAt :: int

datatype scan = NoScan | ScanAt nat | ScanDone

record rate_store =
  rs_windows :: "(jstr, rate_window) jmap"
  rs_places :: nat
  rs_scan :: scan
  rs_maxKeys :: int
  rs_sweepIntervalMs :: int
  rs_lastSweep :: int
  rs_evictionScans :: nat

record hit_result =
  hr_count :: nat
  hr_resetAt :: int
  hr_limited :: bool

datatype store_error = UnsafeInProduction | BadMaxKeys | BadSweepInterval

definition MAX_EVICTION_SCAN :: nat where
  "MAX_EVICTION_SCAN = 64"

definition new_rate_store :: "bool \<Rightarrow> bool \<Rightarrow> int option \<Rightarrow> int option \<Rightarrow> store_error + rate_store" where
  "new_rate_store allowInProduction production maxKeys sweepIntervalMs =
     (let mk = (case maxKeys of None \<Rightarrow> 100000 | Some n \<Rightarrow> n);
          sw = (case sweepIntervalMs of None \<Rightarrow> 30000 | Some n \<Rightarrow> n) in
      if \<not> allowInProduction \<and> production then Inl UnsafeInProduction
      else if mk < 1 then Inl BadMaxKeys
      else if sw < 0 then Inl BadSweepInterval
      else
        Inr \<lparr> rs_windows = [], rs_places = 0, rs_scan = NoScan, rs_maxKeys = mk, rs_sweepIntervalMs = sw, rs_lastSweep = 0,
              rs_evictionScans = 0 \<rparr>)"

definition sweepExpired :: "int \<Rightarrow> rate_store \<Rightarrow> rate_store" where
  "sweepExpired now s = s\<lparr> rs_windows := filter (\<lambda>(k, v). \<not> now \<ge> rw_resetAt v) (rs_windows s) \<rparr>"

definition next_entry :: "rate_store \<Rightarrow> (jstr \<times> rate_window) option" where
  "next_entry s =
     (case (case rs_scan s of ScanAt p \<Rightarrow> find (\<lambda>x. p \<le> rw_place (snd x)) (rs_windows s) | _ \<Rightarrow> None) of
        Some x \<Rightarrow> Some x
      | None \<Rightarrow> (case rs_windows s of [] \<Rightarrow> None | x # xs \<Rightarrow> Some x))"

fun reclaim_scan :: "int \<Rightarrow> nat \<Rightarrow> rate_store \<Rightarrow> bool \<times> rate_store" where
  "reclaim_scan now 0 s = (False, s)"
| "reclaim_scan now (Suc n) s =
     (case next_entry s of
        None \<Rightarrow> (False, s\<lparr> rs_scan := ScanDone \<rparr>)
      | Some (k, w) \<Rightarrow>
          (let s1 = s\<lparr> rs_scan := ScanAt (rw_place w + 1), rs_evictionScans := rs_evictionScans s + 1 \<rparr> in
           if now \<ge> rw_resetAt w then (True, s1\<lparr> rs_windows := AList.delete k (rs_windows s1) \<rparr>)
           else reclaim_scan now n s1))"

definition reclaimExpired :: "int \<Rightarrow> rate_store \<Rightarrow> bool \<times> rate_store" where
  "reclaimExpired now s = reclaim_scan now MAX_EVICTION_SCAN s"

text \<open>\<open>windows.set\<close>: a present key keeps its place.\<close>

definition set_window :: "jstr \<Rightarrow> nat \<Rightarrow> int \<Rightarrow> rate_store \<Rightarrow> rate_store" where
  "set_window k c r s =
     (case map_of (rs_windows s) k of
        Some w \<Rightarrow> s\<lparr> rs_windows := AList.update k (w\<lparr> rw_count := c, rw_resetAt := r \<rparr>) (rs_windows s) \<rparr>
      | None \<Rightarrow>
          s\<lparr> rs_windows := AList.update k \<lparr> rw_place = rs_places s, rw_count = c, rw_resetAt = r \<rparr> (rs_windows s),
             rs_places := rs_places s + 1 \<rparr>)"

definition sweep_due :: "int \<Rightarrow> rate_store \<Rightarrow> rate_store" where
  "sweep_due now s =
     (if now - rs_lastSweep s \<ge> rs_sweepIntervalMs s then (sweepExpired now s)\<lparr> rs_lastSweep := now \<rparr> else s)"

definition rate_hit :: "int \<Rightarrow> jstr \<Rightarrow> int \<Rightarrow> rate_store \<Rightarrow> hit_result \<times> rate_store" where
  "rate_hit now k windowMs s0 =
     (let s = sweep_due now s0;
          fresh = (\<lambda>s. (\<lparr> hr_count = 1, hr_resetAt = now + windowMs, hr_limited = False \<rparr>, set_window k 1 (now + windowMs) s)) in
      case map_of (rs_windows s) k of
        None \<Rightarrow>
          if int (length (rs_windows s)) \<ge> rs_maxKeys s
          then (case reclaimExpired now s of
                  (True, s') \<Rightarrow> fresh s'
                | (False, s') \<Rightarrow> (\<lparr> hr_count = 0, hr_resetAt = now + windowMs, hr_limited = True \<rparr>, s'))
          else fresh s
      | Some w \<Rightarrow>
          if now \<ge> rw_resetAt w then fresh s
          else
            (\<lparr> hr_count = rw_count w + 1, hr_resetAt = rw_resetAt w, hr_limited = False \<rparr>,
             set_window k (rw_count w + 1) (rw_resetAt w) s))"

section \<open>Buckets and charges\<close>

record bucket =
  bu_max :: nat
  bu_windowMs :: int
  bu_scope :: jstr

record quota_info =
  qi_limit :: nat
  qi_remaining :: nat
  qi_resetSeconds :: int

datatype charge_answer = KeyUnavailable | Charged quota_info bool

text \<open>The flag says whether the request is rejected; \<open>later\<close> is the second reading of the clock.\<close>

definition charge ::
    "(int \<Rightarrow> jstr \<Rightarrow> int \<Rightarrow> 's \<Rightarrow> hit_result \<times> 's) \<Rightarrow> bucket \<Rightarrow> int \<Rightarrow> int \<Rightarrow> jstr option \<Rightarrow> 's \<Rightarrow> charge_answer \<times> 's" where
  "charge hit b now later k s =
     (case k of
        None \<Rightarrow> (KeyUnavailable, s)
      | Some ky \<Rightarrow>
          if trim ky = [] then (KeyUnavailable, s)
          else
            (case hit now (bu_scope b @ ky) (bu_windowMs b) s of
               (r, s') \<Rightarrow>
                 (let resetSeconds = max 0 (- ((later - hr_resetAt r) div 1000));
                      info = \<lparr> qi_limit = bu_max b, qi_remaining = (if hr_limited r then 0 else bu_max b - hr_count r),
                               qi_resetSeconds = resetSeconds \<rparr> in
                  (Charged info (hr_limited r \<or> hr_count r > bu_max b), s'))))"

datatype key_call = KeyFails | KeyIs "jstr option"

definition keyFor :: "jstr option \<Rightarrow> key_call \<Rightarrow> jstr option" where
  "keyFor ipKey call = (case call of KeyFails \<Rightarrow> ipKey | KeyIs k \<Rightarrow> k)"

definition defaultKey :: "(jstr \<Rightarrow> jstr option) \<Rightarrow> jstr option \<Rightarrow> nat \<Rightarrow> jstr option \<Rightarrow> bool \<Rightarrow> jstr option" where
  "defaultKey headers peer trustedProxies hdr allowGlobalKey =
     (if hdr = None \<and> trustedProxies = 0 \<and> \<not> allowGlobalKey
      then (case peer of None \<Rightarrow> None | Some p \<Rightarrow> if p = [] then None else Some (ipBucket p))
      else
        (case (case hdr of
                 None \<Rightarrow> None
               | Some name \<Rightarrow> (case headers name of None \<Rightarrow> None | Some ip \<Rightarrow> ipBucketForAddress ip)) of
           Some k \<Rightarrow> Some k
         | None \<Rightarrow>
             (case (if trustedProxies > 0
                    then (case headers xff of None \<Rightarrow> None | Some v \<Rightarrow> nth_last trustedProxies (split_on 44 v))
                    else None) of
                Some ip \<Rightarrow> Some (ipBucket ip)
              | None \<Rightarrow> if allowGlobalKey then Some (js ''global'') else None)))"

section \<open>Tiers\<close>

definition prefix_char :: "nat \<Rightarrow> bool" where
  "prefix_char c \<longleftrightarrow> is_digit c \<or> 65 \<le> c \<and> c \<le> 90 \<or> 97 \<le> c \<and> c \<le> 122 \<or> c \<in> set (js ''-._~%!$&'' @ 39 # js ''()+,;=@'')"

definition STATIC_PREFIX :: "jstr \<Rightarrow> bool" where
  "STATIC_PREFIX s \<longleftrightarrow>
     (case split_on 47 s of
        [] \<Rightarrow> False
      | first # segments \<Rightarrow>
          first = [] \<and> segments \<noteq> [] \<and> list_all (\<lambda>g. g \<noteq> [] \<and> list_all prefix_char g) segments)"

definition TIER_NAME :: "jstr \<Rightarrow> bool" where
  "TIER_NAME s \<longleftrightarrow> s \<noteq> [] \<and> list_all (\<lambda>c. prefix_char c \<or> c = 47) s"

definition assertTierPrefix :: "jstr \<Rightarrow> bool" where
  "assertTierPrefix p \<longleftrightarrow>
     STATIC_PREFIX p
     \<and> list_all (\<lambda>g. \<not> (g = js ''.'' \<or> g = js ''..'') \<and> \<not> (prefix (js '':'') g \<or> prefix (js ''*'') g)) (tl (split_on 47 p))"

definition assertWindow :: "int \<Rightarrow> int \<Rightarrow> bool" where
  "assertWindow limit windowMs \<longleftrightarrow> \<not> limit < 1 \<and> \<not> windowMs \<le> 0"

record tier =
  ti_prefixes :: "jstr list"
  ti_name :: "jstr option"
  ti_max :: int
  ti_windowMs :: int

datatype tier_error =
    BadWindow | NoPrefix | BadPrefix jstr | DuplicatePrefix jstr | BadName jstr | DuplicateName jstr | NoBucket

fun tier_prefixes :: "jstr list \<Rightarrow> jstr list \<Rightarrow> tier_error + jstr list" where
  "tier_prefixes [] seen = Inr seen"
| "tier_prefixes (p # ps) seen =
     (if \<not> assertTierPrefix p then Inl (BadPrefix p)
      else if p \<in> set seen then Inl (DuplicatePrefix p)
      else tier_prefixes ps (p # seen))"

fun build_tiers ::
    "tier list \<Rightarrow> jstr list \<Rightarrow> jstr list \<Rightarrow> (jstr \<times> bucket) list \<Rightarrow> tier_error + (jstr \<times> bucket) list" where
  "build_tiers [] seen names claims = Inr claims"
| "build_tiers (t # ts) seen names claims =
     (if ti_prefixes t = [] then Inl NoPrefix
      else
        (case tier_prefixes (ti_prefixes t) seen of
           Inl e \<Rightarrow> Inl e
         | Inr seen' \<Rightarrow>
             (let name = (case ti_name t of None \<Rightarrow> hd (ti_prefixes t) | Some n \<Rightarrow> n) in
              if \<not> TIER_NAME name then Inl (BadName name)
              else if name \<in> set names then Inl (DuplicateName name)
              else if \<not> assertWindow (ti_max t) (ti_windowMs t) then Inl BadWindow
              else
                (let b = \<lparr> bu_max = nat (ti_max t), bu_windowMs = ti_windowMs t, bu_scope = js ''tier:'' @ name @ js '':'' \<rparr> in
                 build_tiers ts seen' (name # names) (claims @ map (\<lambda>p. (p, b)) (ti_prefixes t))))))"

text \<open>\<open>claims.sort\<close> is stable, as \<open>sort_key\<close> is.\<close>

definition sort_claims :: "(jstr \<times> bucket) list \<Rightarrow> (jstr \<times> bucket) list" where
  "sort_claims claims = sort_key (\<lambda>c. - int (length (fst c))) claims"

definition rateLimitTiers :: "(int \<times> int) option \<Rightarrow> tier list \<Rightarrow> tier_error + (jstr \<times> bucket) list \<times> bucket option" where
  "rateLimitTiers base tiers =
     (if (case base of None \<Rightarrow> False | Some (m, w) \<Rightarrow> \<not> assertWindow m w) then Inl BadWindow
      else
        (let fl = map_option (\<lambda>(m, w). \<lparr> bu_max = nat m, bu_windowMs = w, bu_scope = js ''floor:'' \<rparr>) base in
         case build_tiers tiers [] [] [] of
           Inl e \<Rightarrow> Inl e
         | Inr claims \<Rightarrow> if fl = None \<and> tiers = [] then Inl NoBucket else Inr (sort_claims claims, fl)))"

definition claims_path :: "jstr \<Rightarrow> jstr \<Rightarrow> bool" where
  "claims_path pathname p \<longleftrightarrow> prefix p pathname \<and> (length pathname = length p \<or> pathname ! length p = 47)"

definition bucketFor :: "(jstr \<times> bucket) list \<Rightarrow> bucket option \<Rightarrow> jstr \<Rightarrow> bucket option" where
  "bucketFor claims fl pathname =
     (case find (\<lambda>(p, b). claims_path pathname p) claims of Some (p, b) \<Rightarrow> Some b | None \<Rightarrow> fl)"

text \<open>\<open>resolve\<close> is \<open>new URL(path, "http://n").pathname\<close>.\<close>

definition DOT_SEGMENT :: "jstr \<Rightarrow> bool" where
  "DOT_SEGMENT path \<longleftrightarrow> index_of path (js ''/.'') 0 \<noteq> None \<or> index_of (lower path) (js ''/%2e'') 0 \<noteq> None"

definition pathnameOf :: "(jstr \<Rightarrow> jstr) \<Rightarrow> jstr \<Rightarrow> jstr" where
  "pathnameOf resolve url =
     (let start = (if prefix (js ''/'') url then Some 0
                   else index_of url (js ''/'') (case index_of url (js ''//'') 0 of None \<Rightarrow> 0 | Some a \<Rightarrow> a + 2)) in
      case start of
        None \<Rightarrow> js ''/''
      | Some st \<Rightarrow>
          (let stop = (case index_of url (js ''?'') st of None \<Rightarrow> length url | Some q \<Rightarrow> q);
               stop' = (case index_of url (js ''#'') st of None \<Rightarrow> stop | Some h \<Rightarrow> if h < stop then h else stop);
               path = slice url st stop' in
           if DOT_SEGMENT path then resolve path else path))"

text \<open>\<open>onRequest\<close>: nothing when the request is skipped or no bucket takes it.\<close>

definition onRequest ::
    "(int \<Rightarrow> jstr \<Rightarrow> int \<Rightarrow> 's \<Rightarrow> hit_result \<times> 's) \<Rightarrow> bool \<Rightarrow> bucket option \<Rightarrow> jstr option \<Rightarrow> key_call \<Rightarrow> int \<Rightarrow> int \<Rightarrow> 's
     \<Rightarrow> charge_answer option \<times> 's" where
  "onRequest hit skip b ipKey call now later s =
     (if skip then (None, s)
      else
        (case b of
           None \<Rightarrow> (None, s)
         | Some bk \<Rightarrow> (case charge hit bk now later (keyFor ipKey call) s of (a, s') \<Rightarrow> (Some a, s'))))"

definition keyOf :: "bool \<Rightarrow> bucket option \<Rightarrow> jstr option \<Rightarrow> key_call \<Rightarrow> jstr option" where
  "keyOf skip b ipKey call =
     (if skip then None
      else
        (case b of
           None \<Rightarrow> None
         | Some bk \<Rightarrow>
             (case keyFor ipKey call of
                None \<Rightarrow> None
              | Some k \<Rightarrow> if trim k = [] then None else Some (bu_scope bk @ k))))"

section \<open>Histories\<close>

record visit =
  vi_path :: jstr
  vi_now :: int
  vi_later :: int
  vi_ip :: "jstr option"
  vi_call :: key_call

text \<open>The requests one limiter sees; \<open>route\<close> is its \<open>bucketFor\<close>.\<close>

definition serve ::
    "(int \<Rightarrow> jstr \<Rightarrow> int \<Rightarrow> 's \<Rightarrow> hit_result \<times> 's) \<Rightarrow> (jstr \<Rightarrow> bucket option) \<Rightarrow> visit \<Rightarrow> 's \<Rightarrow> charge_answer option \<times> 's" where
  "serve hit route v s = onRequest hit False (route (vi_path v)) (vi_ip v) (vi_call v) (vi_now v) (vi_later v) s"

fun serve_all ::
    "(int \<Rightarrow> jstr \<Rightarrow> int \<Rightarrow> 's \<Rightarrow> hit_result \<times> 's) \<Rightarrow> (jstr \<Rightarrow> bucket option) \<Rightarrow> visit list \<Rightarrow> 's \<Rightarrow> 's" where
  "serve_all hit route [] s = s"
| "serve_all hit route (v # vs) s = serve_all hit route vs (snd (serve hit route v s))"

fun passed :: "charge_answer option \<Rightarrow> bool" where
  "passed None = True"
| "passed (Some KeyUnavailable) = False"
| "passed (Some (Charged info rejected)) = (\<not> rejected)"

text \<open>The store key of a visit, and the visits to one store key let through within a window's length from \<open>t0\<close> on.\<close>

definition counts_to :: "(jstr \<Rightarrow> bucket option) \<Rightarrow> bucket \<Rightarrow> jstr \<Rightarrow> visit \<Rightarrow> bool" where
  "counts_to route b ky v \<longleftrightarrow> route (vi_path v) = Some b \<and> keyFor (vi_ip v) (vi_call v) = Some ky"

fun let_through ::
    "(int \<Rightarrow> jstr \<Rightarrow> int \<Rightarrow> 's \<Rightarrow> hit_result \<times> 's) \<Rightarrow> (jstr \<Rightarrow> bucket option) \<Rightarrow> bucket \<Rightarrow> jstr \<Rightarrow> int \<Rightarrow> visit list \<Rightarrow> 's \<Rightarrow> nat"
  where
  "let_through hit route b ky t0 [] s = 0"
| "let_through hit route b ky t0 (v # vs) s =
     (case serve hit route v s of
        (a, s') \<Rightarrow>
          (if counts_to route b ky v \<and> t0 \<le> vi_now v \<and> vi_now v < t0 + bu_windowMs b \<and> passed a then 1 else 0)
          + let_through hit route b ky t0 vs s')"

definition apart :: "(jstr \<Rightarrow> bucket option) \<Rightarrow> bucket \<Rightarrow> bool" where
  "apart route b \<longleftrightarrow> (\<forall>p b' x y. route p = Some b' \<longrightarrow> b' \<noteq> b \<longrightarrow> bu_scope b' @ x \<noteq> bu_scope b @ y)"

text \<open>What a bucket may still let through, from a store whose open window of the key is known.\<close>

definition quota_left :: "bucket \<Rightarrow> int \<Rightarrow> (nat \<times> int) option \<Rightarrow> nat" where
  "quota_left b t0 open_window =
     (case open_window of
        None \<Rightarrow> bu_max b
      | Some (c, r) \<Rightarrow> (bu_max b - c) + (if r < t0 + bu_windowMs b then bu_max b else 0))"

section \<open>The interface\<close>

text \<open>\<open>live s now k\<close>: the count and the end of the window of \<open>k\<close> that is open at \<open>now\<close>.\<close>

locale rate_limit_store =
  fixes hit :: "int \<Rightarrow> jstr \<Rightarrow> int \<Rightarrow> 's \<Rightarrow> hit_result \<times> 's"
    and live :: "'s \<Rightarrow> int \<Rightarrow> jstr \<Rightarrow> (nat \<times> int) option"
    and ok :: "'s \<Rightarrow> bool"
  assumes hit_ok: "ok s \<Longrightarrow> ok (snd (hit now k w s))"
    and hit_live: "ok s \<Longrightarrow> live s now k = Some (c, r) \<Longrightarrow>
      fst (hit now k w s) = \<lparr> hr_count = c + 1, hr_resetAt = r, hr_limited = False \<rparr> \<and> live (snd (hit now k w s)) now k = Some (c + 1, r)"
    and hit_fresh: "ok s \<Longrightarrow> live s now k = None \<Longrightarrow> 0 < w \<Longrightarrow>
      hr_limited (fst (hit now k w s)) \<and> live (snd (hit now k w s)) now k = None
      \<or> fst (hit now k w s) = \<lparr> hr_count = 1, hr_resetAt = now + w, hr_limited = False \<rparr>
        \<and> live (snd (hit now k w s)) now k = Some (1, now + w)"
    and hit_other: "ok s \<Longrightarrow> k' \<noteq> k \<Longrightarrow> live (snd (hit now k w s)) now k' = live s now k'"
    and live_later: "ok s \<Longrightarrow> now \<le> t \<Longrightarrow> live s t k =
      (case live s now k of None \<Rightarrow> None | Some (c, r) \<Rightarrow> if t < r then Some (c, r) else None)"
begin

lemma charge_ok: "ok s \<Longrightarrow> ok (snd (charge hit b now later k s))"
  by (auto simp: charge_def Let_def split: option.split prod.split) (metis hit_ok snd_conv)

lemma serve_ok: "ok s \<Longrightarrow> ok (snd (serve hit route v s))"
  by (auto simp: serve_def onRequest_def split: option.split prod.split) (metis charge_ok snd_conv)

lemma serve_all_ok: "ok s \<Longrightarrow> ok (serve_all hit route vs s)"
  by (induction vs arbitrary: s) (simp_all add: serve_ok)

lemma charge_other:
  assumes "ok s" and "\<And>x. k = Some x \<Longrightarrow> bu_scope b @ x \<noteq> u"
  shows "live (snd (charge hit b now later k s)) now u = live s now u"
proof (cases "\<exists>x. k = Some x \<and> trim x \<noteq> []")
  case True
  then obtain x where x: "k = Some x" "trim x \<noteq> []" by blast
  obtain r s' where h: "hit now (bu_scope b @ x) (bu_windowMs b) s = (r, s')" by (cases "hit now (bu_scope b @ x) (bu_windowMs b) s")
  from hit_other [OF assms(1), of u "bu_scope b @ x" now "bu_windowMs b"] assms(2) x h show ?thesis
    by (simp add: charge_def Let_def)
qed (auto simp: charge_def split: option.split)

lemma serve_other:
  assumes "ok s" and "apart route b" and "\<not> counts_to route b ky v"
  shows "live (snd (serve hit route v s)) (vi_now v) (bu_scope b @ ky) = live s (vi_now v) (bu_scope b @ ky)"
proof (cases "route (vi_path v)")
  case (Some b')
  have "bu_scope b' @ x \<noteq> bu_scope b @ ky" if "keyFor (vi_ip v) (vi_call v) = Some x" for x
    using assms(2,3) that Some by (cases "b' = b") (auto simp: apart_def counts_to_def)
  from charge_other [where k = "keyFor (vi_ip v) (vi_call v)" and b = b' and now = "vi_now v" and later = "vi_later v", OF assms(1) this]
  show ?thesis by (simp add: serve_def onRequest_def Some case_prod_beta)
qed (simp add: serve_def onRequest_def)

lemma serve_quota:
  assumes "ok s" and "0 < bu_windowMs b" and "t0 \<le> vi_now v" and "counts_to route b ky v" and "serve hit route v s = (a, s')"
  shows "(if passed a then 1 else 0) + quota_left b t0 (live s' (vi_now v) (bu_scope b @ ky)) \<le> quota_left b t0 (live s (vi_now v) (bu_scope b @ ky))"
proof (cases "trim ky = []")
  case False
  let ?h = "hit (vi_now v) (bu_scope b @ ky) (bu_windowMs b) s"
  obtain r u where h: "?h = (r, u)" by (cases ?h)
  have s': "s' = u" "passed a \<longleftrightarrow> \<not> hr_limited r \<and> hr_count r \<le> bu_max b"
    using assms(4,5) False h by (auto simp: serve_def onRequest_def counts_to_def charge_def Let_def)
  show ?thesis
  proof (cases "live s (vi_now v) (bu_scope b @ ky)")
    case None
    from hit_fresh [OF assms(1) None assms(2)] h s' assms(3) show ?thesis by (auto simp: quota_left_def None)
  next
    case (Some w)
    obtain c e where w: "w = (c, e)" by (cases w)
    from hit_live [OF assms(1) Some [unfolded w], of "bu_windowMs b"] h s' show ?thesis
      by (auto simp: quota_left_def Some w)
  qed
qed (use assms in \<open>auto simp: serve_def onRequest_def counts_to_def charge_def\<close>)

lemma quota_later:
  assumes "ok s" and "now \<le> t" and "t < t0 + bu_windowMs b"
  shows "quota_left b t0 (live s t k) \<le> quota_left b t0 (live s now k)"
  using live_later [OF assms(1,2), of k] assms(3) by (auto simp: quota_left_def split: option.splits)

lemma past_nothing:
  "\<forall>v \<in> set vs. \<not> (t0 \<le> vi_now v \<and> vi_now v < t0 + bu_windowMs b) \<Longrightarrow> let_through hit route b ky t0 vs s = 0"
  by (induction vs arbitrary: s) (auto split: prod.split)

lemma let_through_quota:
  assumes "0 < bu_windowMs b" and "apart route b"
  shows "ok s \<Longrightarrow> t0 \<le> now \<Longrightarrow> sorted (map vi_now vs) \<Longrightarrow> \<forall>v \<in> set vs. now \<le> vi_now v \<Longrightarrow>
    let_through hit route b ky t0 vs s \<le> quota_left b t0 (live s now (bu_scope b @ ky))"
proof (induction vs arbitrary: s now)
  case (Cons v vs)
  let ?t = "vi_now v"
  obtain a s' where c: "serve hit route v s = (a, s')" by (cases "serve hit route v s")
  have le: "now \<le> ?t" "\<forall>x \<in> set vs. ?t \<le> vi_now x" "sorted (map vi_now vs)" using Cons.prems(3,4) by auto
  have ok': "ok s'" using serve_ok [OF Cons.prems(1), of route v] by (simp add: c)
  show ?case
  proof (cases "?t < t0 + bu_windowMs b")
    case False
    with le(2) have "\<forall>x \<in> set (v # vs). \<not> (t0 \<le> vi_now x \<and> vi_now x < t0 + bu_windowMs b)" by fastforce
    from past_nothing [OF this] show ?thesis by simp
  next
    case True
    have t0: "t0 \<le> ?t" using Cons.prems(2) le(1) by simp
    note ih = Cons.IH [OF ok' t0 le(3,2)]
    note later = quota_later [where k = "bu_scope b @ ky", OF Cons.prems(1) le(1) True]
    show ?thesis
    proof (cases "counts_to route b ky v")
      case True
      from serve_quota [OF Cons.prems(1) assms(1) t0 True c] ih later show ?thesis by (auto simp: c)
    next
      case False
      from serve_other [OF Cons.prems(1) assms(2) False] ih later False show ?thesis by (simp add: c)
    qed
  qed
qed simp

lemma let_through_append:
  "let_through hit route b ky t0 (xs @ ys) s
     = let_through hit route b ky t0 xs s + let_through hit route b ky t0 ys (serve_all hit route xs s)"
  by (induction xs arbitrary: s) (auto split: prod.split)

lemma quota_twice:
  assumes "ok s" and "0 < bu_windowMs b" and "apart route b" and "sorted (map vi_now vs)"
  shows "let_through hit route b ky t0 vs s \<le> 2 * bu_max b"
proof -
  define xs ys where "xs = takeWhile (\<lambda>v. vi_now v < t0) vs" and "ys = dropWhile (\<lambda>v. vi_now v < t0) vs"
  have vs: "vs = xs @ ys" by (simp add: xs_def ys_def)
  have "\<forall>v \<in> set xs. \<not> (t0 \<le> vi_now v \<and> vi_now v < t0 + bu_windowMs b)" by (auto simp: xs_def dest: set_takeWhileD)
  from past_nothing [OF this] have none: "let_through hit route b ky t0 xs s = 0" .
  have ys: "sorted (map vi_now ys)" using assms(4) by (simp add: vs sorted_append)
  have "\<forall>v \<in> set ys. t0 \<le> vi_now v"
  proof (cases ys)
    case (Cons y zs)
    have "t0 \<le> vi_now y" using Cons [unfolded ys_def dropWhile_eq_Cons_conv] by simp
    with ys show ?thesis by (auto simp: Cons)
  qed simp
  note let_through_quota [where ky = ky, OF assms(2,3) serve_all_ok [OF assms(1), of route xs] order_refl ys this]
  with none have "let_through hit route b ky t0 vs s \<le> quota_left b t0 (live (serve_all hit route xs s) t0 (bu_scope b @ ky))"
    by (simp add: vs let_through_append)
  also have "\<dots> \<le> 2 * bu_max b" by (auto simp: quota_left_def split: option.split)
  finally show ?thesis .
qed

text \<open>A window that is open counts on, whatever the other keys do.\<close>

lemma flood_keeps_window:
  assumes "apart route b"
  shows "ok s \<Longrightarrow> live s now (bu_scope b @ ky) = Some (c, r) \<Longrightarrow> sorted (map vi_now vs) \<Longrightarrow>
    \<forall>v \<in> set vs. now \<le> vi_now v \<and> vi_now v \<le> t' \<and> \<not> counts_to route b ky v \<Longrightarrow> now \<le> t' \<Longrightarrow> t' < r \<Longrightarrow>
    live (serve_all hit route vs s) t' (bu_scope b @ ky) = Some (c, r)"
proof (induction vs arbitrary: s now)
  case Nil
  with live_later [OF Nil(1,5), of "bu_scope b @ ky"] show ?case by simp
next
  case (Cons v vs)
  have k: "now \<le> vi_now v" "vi_now v \<le> t'" "\<not> counts_to route b ky v" using Cons.prems(4) by auto
  have "live s (vi_now v) (bu_scope b @ ky) = Some (c, r)"
    using live_later [OF Cons.prems(1) k(1), of "bu_scope b @ ky"] Cons.prems(2,6) k(2) by simp
  with serve_other [OF Cons.prems(1) assms k(3)]
  have l: "live (snd (serve hit route v s)) (vi_now v) (bu_scope b @ ky) = Some (c, r)" by simp
  have "sorted (map vi_now vs)" "\<forall>x \<in> set vs. vi_now v \<le> vi_now x \<and> vi_now x \<le> t' \<and> \<not> counts_to route b ky x"
    using Cons.prems(3,4) by auto
  from Cons.IH [OF serve_ok [OF Cons.prems(1)] l this k(2) Cons.prems(6)] show ?case by simp
qed

end


section \<open>The memory store keeps the contract\<close>

definition places_ok :: "(jstr, rate_window) jmap \<Rightarrow> nat \<Rightarrow> bool" where
  "places_ok ms n \<longleftrightarrow> jm_wf ms \<and> sorted_wrt (<) (map (\<lambda>x. rw_place (snd x)) ms) \<and> (\<forall>x \<in> set ms. rw_place (snd x) < n)"

definition rate_ok :: "rate_store \<Rightarrow> bool" where
  "rate_ok s \<longleftrightarrow> places_ok (rs_windows s) (rs_places s) \<and> int (length (rs_windows s)) \<le> rs_maxKeys s"

definition live_window :: "rate_store \<Rightarrow> int \<Rightarrow> jstr \<Rightarrow> (nat \<times> int) option" where
  "live_window s now k =
     (case map_of (rs_windows s) k of
        None \<Rightarrow> None
      | Some w \<Rightarrow> if now < rw_resetAt w then Some (rw_count w, rw_resetAt w) else None)"

lemma places_ok_wf: "places_ok ms n \<Longrightarrow> jm_wf ms"
  by (simp add: places_ok_def)

lemma places_ok_filter: "places_ok ms n \<Longrightarrow> places_ok (filter P ms) n"
  by (auto simp: places_ok_def distinct_map_filter sorted_wrt_map intro: sorted_wrt_filter)

lemma places_ok_delete: "places_ok ms n \<Longrightarrow> places_ok (AList.delete k ms) n"
  unfolding AList.delete_eq by (rule places_ok_filter)

lemma update_places:
  "map_of ms k = Some w \<Longrightarrow> rw_place w' = rw_place w \<Longrightarrow>
   map (\<lambda>x. rw_place (snd x)) (AList.update k w' ms) = map (\<lambda>x. rw_place (snd x)) ms"
  by (induction ms) (auto split: if_splits)

lemma places_ok_update:
  assumes "places_ok ms n" and "map_of ms k = Some w" and "rw_place w' = rw_place w"
  shows "places_ok (AList.update k w' ms) n"
proof -
  note ps = update_places [OF assms(2,3)]
  have "(\<lambda>x. rw_place (snd x)) ` set (AList.update k w' ms) = (\<lambda>x. rw_place (snd x)) ` set ms"
    using arg_cong [OF ps, of set] by simp
  with assms(1) ps show ?thesis unfolding places_ok_def by (simp del: set_map) (metis (mono_tags, lifting) image_iff)
qed

lemma places_ok_snoc:
  "places_ok ms n \<Longrightarrow> map_of ms k = None \<Longrightarrow> rw_place w = n \<Longrightarrow> places_ok (AList.update k w ms) (n + 1)"
  by (auto simp: places_ok_def AList_update_new map_of_eq_None_iff sorted_wrt_append less_Suc_eq)

lemma sweep_due_ok: "rate_ok s \<Longrightarrow> rate_ok (sweep_due now s)"
  by (auto simp: rate_ok_def sweep_due_def sweepExpired_def intro: places_ok_filter order_trans [OF of_nat_mono [OF length_filter_le]])

lemma sweep_due_same [simp]:
  "rs_maxKeys (sweep_due now s) = rs_maxKeys s" "rs_evictionScans (sweep_due now s) = rs_evictionScans s"
  by (simp_all add: sweep_due_def sweepExpired_def)

lemma sweep_due_live: "jm_wf (rs_windows s) \<Longrightarrow> live_window (sweep_due now s) now k = live_window s now k"
  by (auto simp: live_window_def sweep_due_def sweepExpired_def map_of_filter_wf split: option.split)

lemma next_entry_in: "next_entry s = Some x \<Longrightarrow> x \<in> set (rs_windows s)"
  by (auto simp: next_entry_def find_Some_iff split: option.splits scan.splits list.splits)

text \<open>A scan drops at most one window, an expired one, and looks at no more entries than it was given.\<close>

lemma reclaim_scan_spec:
  "rate_ok s \<Longrightarrow> reclaim_scan now n s = (b, s') \<Longrightarrow>
   rate_ok s' \<and> rs_maxKeys s' = rs_maxKeys s \<and> rs_evictionScans s' \<le> rs_evictionScans s + n
   \<and> (if b then \<exists>k w. map_of (rs_windows s) k = Some w \<and> rw_resetAt w \<le> now \<and> rs_windows s' = AList.delete k (rs_windows s)
      else rs_windows s' = rs_windows s)"
proof (induction n arbitrary: s)
  case (Suc n)
  show ?case
  proof (cases "next_entry s")
    case None
    with Suc.prems show ?thesis by (auto simp: rate_ok_def)
  next
    case (Some x)
    obtain k w where x: "x = (k, w)" by (cases x)
    let ?s = "s\<lparr> rs_scan := ScanAt (rw_place w + 1), rs_evictionScans := rs_evictionScans s + 1 \<rparr>"
    have wf: "jm_wf (rs_windows s)" using Suc.prems(1) by (auto simp: rate_ok_def places_ok_def)
    have ok: "rate_ok ?s" using Suc.prems(1) by (simp add: rate_ok_def)
    have get: "map_of (rs_windows s) k = Some w" using next_entry_in [OF Some] wf by (simp add: x)
    show ?thesis
    proof (cases "rw_resetAt w \<le> now")
      case True
      with Suc.prems(2) Some x have s': "b" "s' = ?s\<lparr> rs_windows := AList.delete k (rs_windows s) \<rparr>" by (auto simp: Let_def)
      have "rate_ok s'" using Suc.prems(1) by (auto simp: s' rate_ok_def intro: places_ok_delete order_trans [OF of_nat_mono [OF length_delete_le]])
      with True get s' show ?thesis by auto
    next
      case False
      with Suc.prems(2) Some x have "reclaim_scan now n ?s = (b, s')" by (auto simp: Let_def)
      from Suc.IH [OF ok this] show ?thesis by auto
    qed
  qed
qed simp

lemma reclaim_live:
  assumes "rate_ok s" and "reclaimExpired now s = (b, s')"
  shows "live_window s' now k = live_window s now k"
  using reclaim_scan_spec [OF assms(1) assms(2) [unfolded reclaimExpired_def]]
  by (cases b) (auto simp: live_window_def delete_conv')

lemma reclaim_ok: "rate_ok s \<Longrightarrow> reclaimExpired now s = (b, s') \<Longrightarrow> rate_ok s'"
  unfolding reclaimExpired_def by (drule (1) reclaim_scan_spec) simp

lemma set_window_live:
  "live_window (set_window k c r s) now k' = (if k' = k then if now < r then Some (c, r) else None else live_window s now k')"
  by (auto simp: live_window_def set_window_def update_conv' split: option.split)

lemma set_window_ok:
  assumes "rate_ok s" and "k \<in> dom (map_of (rs_windows s)) \<or> int (length (rs_windows s)) < rs_maxKeys s"
  shows "rate_ok (set_window k c r s)"
proof (cases "map_of (rs_windows s) k")
  case None
  then have new: "k \<notin> fst ` set (rs_windows s)" "int (length (rs_windows s)) < rs_maxKeys s"
    using assms(2) by (auto simp only: map_of_eq_None_iff domIff)
  from places_ok_snoc [OF _ None, of "rs_places s" "\<lparr> rw_place = rs_places s, rw_count = c, rw_resetAt = r \<rparr>"] assms(1) new(2) show ?thesis
    unfolding rate_ok_def set_window_def None by (simp add: AList_update_new [OF new(1)])
next
  case (Some w)
  with assms(1) show ?thesis by (auto simp: rate_ok_def set_window_def jm_length_update intro: places_ok_update)
qed

lemma set_window_same [simp]:
  "rs_maxKeys (set_window k c r s) = rs_maxKeys s" "rs_evictionScans (set_window k c r s) = rs_evictionScans s"
  by (simp_all add: set_window_def split: option.split)

lemma hit_cases:
  assumes "rate_ok s0"
  obtains (counted) w where "map_of (rs_windows (sweep_due now s0)) k = Some w" "now < rw_resetAt w"
      "rate_hit now k len s0 = (\<lparr> hr_count = rw_count w + 1, hr_resetAt = rw_resetAt w, hr_limited = False \<rparr>,
         set_window k (rw_count w + 1) (rw_resetAt w) (sweep_due now s0))"
  | (fresh) s where "rate_ok s" "live_window (sweep_due now s0) now k = None" "rs_maxKeys s = rs_maxKeys s0"
      "\<And>k'. live_window s now k' = live_window (sweep_due now s0) now k'"
      "rs_evictionScans s \<le> rs_evictionScans s0 + MAX_EVICTION_SCAN"
      "k \<in> dom (map_of (rs_windows s)) \<or> int (length (rs_windows s)) < rs_maxKeys s"
      "rate_hit now k len s0 = (\<lparr> hr_count = 1, hr_resetAt = now + len, hr_limited = False \<rparr>, set_window k 1 (now + len) s)"
  | (refused) s where "map_of (rs_windows (sweep_due now s0)) k = None"
      "rs_maxKeys s0 \<le> int (length (rs_windows (sweep_due now s0)))"
      "reclaimExpired now (sweep_due now s0) = (False, s)"
      "rate_hit now k len s0 = (\<lparr> hr_count = 0, hr_resetAt = now + len, hr_limited = True \<rparr>, s)"
proof -
  let ?s = "sweep_due now s0"
  have ok: "rate_ok ?s" by (rule sweep_due_ok [OF assms])
  show thesis
  proof (cases "map_of (rs_windows ?s) k")
    case None
    then have gone: "live_window ?s now k = None" by (simp add: live_window_def)
    show thesis
    proof (cases "rs_maxKeys s0 \<le> int (length (rs_windows ?s))")
      case True
      obtain b s where r: "reclaimExpired now ?s = (b, s)" by (cases "reclaimExpired now ?s")
      note spec = reclaim_scan_spec [OF ok r [unfolded reclaimExpired_def]]
      show thesis
      proof (cases b)
        case True
        with spec obtain k0 w0 where d: "map_of (rs_windows ?s) k0 = Some w0" "rs_windows s = AList.delete k0 (rs_windows ?s)" by auto
        have "int (length (rs_windows s)) < rs_maxKeys s"
          using jm_length_delete [OF _ d(1)] ok spec by (auto simp: d(2) rate_ok_def places_ok_def)
        with True None r spec \<open>rs_maxKeys s0 \<le> int (length (rs_windows ?s))\<close> show thesis
          by (intro fresh [OF _ gone _ reclaim_live [OF ok r]]) (auto simp: rate_hit_def Let_def)
      qed (use None r \<open>rs_maxKeys s0 \<le> int (length (rs_windows ?s))\<close> in \<open>auto simp: rate_hit_def Let_def intro!: refused\<close>)
    next
      case False
      with None ok show thesis by (intro fresh [OF ok gone]) (auto simp: rate_hit_def Let_def)
    qed
  next
    case (Some w)
    show thesis
    proof (cases "now < rw_resetAt w")
      case True
      with Some show thesis by (intro counted) (auto simp: rate_hit_def Let_def)
    next
      case False
      then have "live_window ?s now k = None" by (simp add: live_window_def Some)
      with Some False ok show thesis by (intro fresh [OF ok]) (auto simp: rate_hit_def Let_def)
    qed
  qed
qed

interpretation memory_rate: rate_limit_store rate_hit live_window rate_ok
proof
  fix s now k k' w c r t
  assume ok: "rate_ok s"
  have wf: "jm_wf (rs_windows s)" using ok by (simp add: rate_ok_def places_ok_def)
  note swept = sweep_due_live [OF wf, of now]
  note sok = sweep_due_ok [OF ok, of now]
  show "rate_ok (snd (rate_hit now k w s))"
    by (cases rule: hit_cases [OF ok, of now k w])
      (auto intro!: set_window_ok sok dest: reclaim_ok [OF sok])
  show "k' \<noteq> k \<Longrightarrow> live_window (snd (rate_hit now k w s)) now k' = live_window s now k'"
    by (cases rule: hit_cases [OF ok, of now k w]) (auto simp: set_window_live swept reclaim_live [OF sok])
  show "live_window s now k = Some (c, r) \<Longrightarrow>
      fst (rate_hit now k w s) = \<lparr> hr_count = c + 1, hr_resetAt = r, hr_limited = False \<rparr>
      \<and> live_window (snd (rate_hit now k w s)) now k = Some (c + 1, r)"
    unfolding swept [of k, symmetric]
    by (cases rule: hit_cases [OF ok, of now k w])
      (auto simp: set_window_live live_window_def [of "sweep_due now s"] split: if_splits)
  show "live_window s now k = None \<Longrightarrow> 0 < w \<Longrightarrow>
      hr_limited (fst (rate_hit now k w s)) \<and> live_window (snd (rate_hit now k w s)) now k = None
      \<or> fst (rate_hit now k w s) = \<lparr> hr_count = 1, hr_resetAt = now + w, hr_limited = False \<rparr>
        \<and> live_window (snd (rate_hit now k w s)) now k = Some (1, now + w)"
    unfolding swept [of k, symmetric]
    by (cases rule: hit_cases [OF ok, of now k w])
      (auto simp: set_window_live live_window_def [of "sweep_due now s"] dest: reclaim_live [OF sok, of _ _ _ k])
  show "now \<le> t \<Longrightarrow> live_window s t k =
      (case live_window s now k of None \<Rightarrow> None | Some (c, r) \<Rightarrow> if t < r then Some (c, r) else None)"
    by (auto simp: live_window_def split: option.split)
qed

section \<open>Tiers keep apart\<close>

lemma new_rate_store_ok: "new_rate_store a p m sw = Inr s \<Longrightarrow> rate_ok s \<and> rs_windows s = []"
  by (auto simp: new_rate_store_def Let_def rate_ok_def places_ok_def split: if_splits)

definition tier_scope :: "jstr \<Rightarrow> jstr" where
  "tier_scope name = js ''tier:'' @ name @ js '':''"

lemma tier_scope_inj: "58 \<notin> set m \<Longrightarrow> 58 \<notin> set n \<Longrightarrow> tier_scope m @ x = tier_scope n @ y \<longleftrightarrow> m = n \<and> x = y"
proof -
  assume a: "58 \<notin> set m" "58 \<notin> set n"
  show ?thesis
  proof
    assume e: "tier_scope m @ x = tier_scope n @ y"
    then have "m @ 58 # x = n @ 58 # y" by (simp add: tier_scope_def)
    moreover from arg_cong [OF this, of "split_on 58"] a have "m = n" by simp
    ultimately show "m = n \<and> x = y" by simp
  qed simp
qed

lemma tier_name_plain: "TIER_NAME n \<Longrightarrow> 58 \<notin> set n"
  by (auto simp: TIER_NAME_def list_all_iff prefix_char_def is_digit_def)

definition claims_ok :: "jstr list \<Rightarrow> (jstr \<times> bucket) list \<Rightarrow> bool" where
  "claims_ok names claims \<longleftrightarrow>
     (\<forall>(p, b) \<in> set claims. 0 < bu_windowMs b \<and> (\<exists>n \<in> set names. 58 \<notin> set n \<and> bu_scope b = tier_scope n))
     \<and> (\<forall>(p, b) \<in> set claims. \<forall>(q, c) \<in> set claims. bu_scope b = bu_scope c \<longrightarrow> b = c)"

lemma build_tiers_ok:
  "build_tiers ts seen names claims = Inr cs \<Longrightarrow> claims_ok names claims \<Longrightarrow> \<exists>names'. claims_ok names' cs"
proof (induction ts seen names claims rule: build_tiers.induct)
  case (2 t ts seen names claims)
  define name where "name = (case ti_name t of None \<Rightarrow> hd (ti_prefixes t) | Some n \<Rightarrow> n)"
  define b where "b = \<lparr> bu_max = nat (ti_max t), bu_windowMs = ti_windowMs t, bu_scope = tier_scope name \<rparr>"
  from "2.prems"(1) obtain seen' where c:
    "ti_prefixes t \<noteq> []" "tier_prefixes (ti_prefixes t) seen = Inr seen'" "TIER_NAME name" "name \<notin> set names"
    "assertWindow (ti_max t) (ti_windowMs t)"
    and rest: "build_tiers ts seen' (name # names) (claims @ map (\<lambda>p. (p, b)) (ti_prefixes t)) = Inr cs"
    by (auto simp: name_def b_def tier_scope_def Let_def split: if_splits sum.splits)
  have other: "bu_scope c \<noteq> bu_scope b" if "(p, c) \<in> set claims" for p c
  proof
    assume e: "bu_scope c = bu_scope b"
    from that "2.prems"(2) obtain n where "n \<in> set names" "58 \<notin> set n" "bu_scope c = tier_scope n"
      by (fastforce simp: claims_ok_def)
    with e tier_scope_inj [of n name "[]" "[]"] tier_name_plain [OF c(3)] c(4) show False by (simp add: b_def)
  qed
  have "claims_ok (name # names) (claims @ map (\<lambda>p. (p, b)) (ti_prefixes t))"
    unfolding claims_ok_def
  proof (intro conjI ballI)
    fix x assume "x \<in> set (claims @ map (\<lambda>p. (p, b)) (ti_prefixes t))"
    then show "case x of (p, c) \<Rightarrow> 0 < bu_windowMs c \<and> (\<exists>n \<in> set (name # names). 58 \<notin> set n \<and> bu_scope c = tier_scope n)"
      using "2.prems"(2) tier_name_plain [OF c(3)] c(5) by (fastforce simp: claims_ok_def b_def assertWindow_def)
  next
    fix x assume x: "x \<in> set (claims @ map (\<lambda>p. (p, b)) (ti_prefixes t))"
    have "snd x = snd y" if y: "y \<in> set (claims @ map (\<lambda>p. (p, b)) (ti_prefixes t))" and e: "bu_scope (snd x) = bu_scope (snd y)" for y
    proof -
      from x consider "x \<in> set claims" | "snd x = b" by auto
      moreover from y consider "y \<in> set claims" | "snd y = b" by auto
      moreover have "snd x = snd y" if "x \<in> set claims" "y \<in> set claims"
        using "2.prems"(2) that e by (cases x; cases y) (auto simp: claims_ok_def)
      ultimately show ?thesis using other [of "fst x" "snd x"] other [of "fst y" "snd y"] e by (metis prod.collapse)
    qed
    then show "case x of (p, c) \<Rightarrow> \<forall>(q, d) \<in> set (claims @ map (\<lambda>p. (p, b)) (ti_prefixes t)). bu_scope c = bu_scope d \<longrightarrow> c = d"
      by (cases x) fastforce
  qed
  from "2.IH" [OF c(1,2) name_def _ _ _ b_def [unfolded tier_scope_def] rest this] c show ?case by simp
qed auto

lemma rateLimitTiers_claims:
  assumes "rateLimitTiers base tiers = Inr (claims, fl)"
  obtains names where "claims_ok names claims"
    and "\<And>f. fl = Some f \<Longrightarrow> 0 < bu_windowMs f \<and> bu_scope f = js ''floor:''"
proof -
  from assms obtain cs where cs: "build_tiers tiers [] [] [] = Inr cs" "claims = sort_claims cs"
    and fl: "fl = map_option (\<lambda>(m, w). \<lparr> bu_max = nat m, bu_windowMs = w, bu_scope = js ''floor:'' \<rparr>) base"
    and base: "\<And>m w. base = Some (m, w) \<Longrightarrow> assertWindow m w"
    by (auto simp: rateLimitTiers_def Let_def split: if_splits sum.splits option.splits)
  from build_tiers_ok [OF cs(1)] obtain names where "claims_ok names cs" by (auto simp: claims_ok_def)
  then have ok: "claims_ok names claims" by (simp add: claims_ok_def cs(2) sort_claims_def)
  have f: "0 < bu_windowMs f \<and> bu_scope f = js ''floor:''" if "fl = Some f" for f
    using that fl base by (auto simp: assertWindow_def)
  show thesis by (rule that [OF ok f])
qed

lemma bucketFor_from:
  "bucketFor claims fl p = Some b \<Longrightarrow> (\<exists>q. (q, b) \<in> set claims) \<or> fl = Some b"
  by (auto simp: bucketFor_def find_Some_iff split: option.splits) (metis nth_mem)

lemma tiers_apart:
  assumes "rateLimitTiers base tiers = Inr (claims, fl)" and "bucketFor claims fl p = Some b"
  shows "apart (bucketFor claims fl) b" and "0 < bu_windowMs b"
proof -
  obtain names where ok: "claims_ok names claims" "\<And>f. fl = Some f \<Longrightarrow> 0 < bu_windowMs f \<and> bu_scope f = js ''floor:''"
    by (rule rateLimitTiers_claims [OF assms(1)]) (rule that)
  have tier: "0 < bu_windowMs c \<and> (\<exists>n. 58 \<notin> set n \<and> bu_scope c = tier_scope n)" if "(q, c) \<in> set claims" for q c
    using ok(1) that by (fastforce simp: claims_ok_def)
  show "0 < bu_windowMs b" using bucketFor_from [OF assms(2)] tier ok(2) by blast
  show "apart (bucketFor claims fl) b"
    unfolding apart_def
  proof (intro allI impI)
    fix p' b' x y assume b': "bucketFor claims fl p' = Some b'" "b' \<noteq> b"
    have mixed: "tier_scope n @ u \<noteq> js ''floor:'' @ v" for n u v by (simp add: tier_scope_def)
    from bucketFor_from [OF b'(1)] show "bu_scope b' @ x \<noteq> bu_scope b @ y"
    proof
      assume "\<exists>q. (q, b') \<in> set claims"
      then obtain q n where q: "(q, b') \<in> set claims" "58 \<notin> set n" "bu_scope b' = tier_scope n" using tier by blast
      from bucketFor_from [OF assms(2)] show ?thesis
      proof
        assume "\<exists>q. (q, b) \<in> set claims"
        then obtain r m where r: "(r, b) \<in> set claims" "58 \<notin> set m" "bu_scope b = tier_scope m" using tier by blast
        have "bu_scope b' \<noteq> bu_scope b" using ok(1) q(1) r(1) b'(2) by (fastforce simp: claims_ok_def)
        with tier_scope_inj [OF q(2) r(2)] q(3) r(3) show ?thesis by auto
      qed (use ok(2) q(3) mixed in auto)
    next
      assume f: "fl = Some b'"
      from bucketFor_from [OF assms(2)] f b'(2) tier obtain n where "bu_scope b = tier_scope n" by auto
      with ok(2) [OF f] mixed [of n y x] show ?thesis by auto
    qed
  qed
qed

section \<open>The scan comes around\<close>

text \<open>The entries in the order the iterator, restarted at the end, visits them.\<close>

definition visit_order :: "rate_store \<Rightarrow> (jstr \<times> rate_window) list" where
  "visit_order s =
     (let p = (case rs_scan s of ScanAt p \<Rightarrow> p | _ \<Rightarrow> 0) in
      filter (\<lambda>x. p \<le> rw_place (snd x)) (rs_windows s) @ filter (\<lambda>x. \<not> p \<le> rw_place (snd x)) (rs_windows s))"

lemma length_visit_order [simp]: "length (visit_order s) = length (rs_windows s)"
  by (simp add: visit_order_def Let_def sum_length_filter_compl)

lemma set_visit_order [simp]: "set (visit_order s) = set (rs_windows s)"
  by (auto simp: visit_order_def Let_def)

lemma find_filter: "find P xs = (case filter P xs of [] \<Rightarrow> None | x # _ \<Rightarrow> Some x)"
  by (induction xs) auto

lemma next_entry_order: "next_entry s = (case visit_order s of [] \<Rightarrow> None | x # _ \<Rightarrow> Some x)"
proof (cases "rs_scan s")
  case (ScanAt p)
  show ?thesis
  proof (cases "filter (\<lambda>x. p \<le> rw_place (snd x)) (rs_windows s)")
    case Nil
    then have "filter (\<lambda>x. \<not> p \<le> rw_place (snd x)) (rs_windows s) = rs_windows s" by (auto simp: filter_empty_conv intro: filter_True)
    with Nil show ?thesis by (simp add: next_entry_def visit_order_def ScanAt find_filter)
  qed (simp add: next_entry_def visit_order_def ScanAt find_filter)
qed (simp_all add: next_entry_def visit_order_def)

lemma split_places:
  assumes "sorted_wrt (<) (map (\<lambda>x. rw_place (snd x)) ms)"
  shows "filter (\<lambda>x. \<not> (p::nat) \<le> rw_place (snd x)) ms @ filter (\<lambda>x. p \<le> rw_place (snd x)) ms = ms"
  using assms
proof (induction ms)
  case (Cons x ms)
  show ?case
  proof (cases "p \<le> rw_place (snd x)")
    case True
    with Cons.prems have "\<forall>y \<in> set ms. p \<le> rw_place (snd y)" by fastforce
    then have "filter (\<lambda>x. \<not> p \<le> rw_place (snd x)) ms = []" "filter (\<lambda>x. p \<le> rw_place (snd x)) ms = ms"
      by (auto simp: filter_empty_conv)
    with True show ?thesis by simp
  qed (use Cons in auto)
qed simp

lemma filter_places:
  assumes "sorted_wrt (<) (map (\<lambda>x. rw_place (snd x)) (as @ x # bs))"
  shows "filter (\<lambda>y. Suc (rw_place (snd x)) \<le> rw_place (snd y)) (as @ x # bs) = bs"
    and "filter (\<lambda>y. \<not> Suc (rw_place (snd x)) \<le> rw_place (snd y)) (as @ x # bs) = as @ [x]"
proof -
  have lt: "\<forall>y \<in> set as. rw_place (snd y) < rw_place (snd x)" "\<forall>y \<in> set bs. rw_place (snd x) < rw_place (snd y)"
    using assms by (auto simp: sorted_wrt_append)
  have "filter (\<lambda>y. Suc (rw_place (snd x)) \<le> rw_place (snd y)) as = []" "filter (\<lambda>y. Suc (rw_place (snd x)) \<le> rw_place (snd y)) bs = bs"
    "filter (\<lambda>y. \<not> Suc (rw_place (snd x)) \<le> rw_place (snd y)) as = as" "filter (\<lambda>y. \<not> Suc (rw_place (snd x)) \<le> rw_place (snd y)) bs = []"
    using lt by (auto simp: filter_empty_conv filter_id_conv not_less_eq_eq Suc_le_eq intro: less_imp_le)
  then show "filter (\<lambda>y. Suc (rw_place (snd x)) \<le> rw_place (snd y)) (as @ x # bs) = bs"
    "filter (\<lambda>y. \<not> Suc (rw_place (snd x)) \<le> rw_place (snd y)) (as @ x # bs) = as @ [x]" by simp_all
qed

lemma visit_order_step:
  assumes "rate_ok s" and "next_entry s = Some x" and "rs_windows s' = rs_windows s" and "rs_scan s' = ScanAt (rw_place (snd x) + 1)"
  shows "visit_order s' = rotate1 (visit_order s)"
proof -
  define p where "p = (case rs_scan s of ScanAt p \<Rightarrow> p | _ \<Rightarrow> 0)"
  let ?hi = "filter (\<lambda>y. p \<le> rw_place (snd y)) (rs_windows s)" and ?lo = "filter (\<lambda>y. \<not> p \<le> rw_place (snd y)) (rs_windows s)"
  have sorted: "sorted_wrt (<) (map (\<lambda>x. rw_place (snd x)) (rs_windows s))" using assms(1) by (simp add: rate_ok_def places_ok_def)
  note whole = split_places [OF sorted, of p]
  have ord: "visit_order s = ?hi @ ?lo" by (simp add: visit_order_def p_def Let_def)
  with assms(2) obtain rest where hd: "?hi @ ?lo = x # rest" by (auto simp: next_entry_order split: list.splits)
  have new: "visit_order s' = filter (\<lambda>y. Suc (rw_place (snd x)) \<le> rw_place (snd y)) (rs_windows s)
      @ filter (\<lambda>y. \<not> Suc (rw_place (snd x)) \<le> rw_place (snd y)) (rs_windows s)"
    by (simp add: visit_order_def assms(3,4))
  show ?thesis
  proof (cases ?hi)
    case Nil
    with hd whole have ms: "rs_windows s = [] @ x # rest" by simp
    have "visit_order s = x # rest" using ord hd by simp
    with filter_places [OF sorted [unfolded ms]] show ?thesis unfolding new ms by simp
  next
    case (Cons y ys)
    with hd have "y = x" "rest = ys @ ?lo" by auto
    with Cons whole have ms: "rs_windows s = ?lo @ x # ys" by simp
    from filter_places [of ?lo x ys] sorted ms show ?thesis by (simp add: new ord hd \<open>rest = _\<close>)
  qed
qed

text \<open>A scan that reclaims nothing passed the first entries of the order, all of them open, and moves them to the back.\<close>

lemma reclaim_scan_fails:
  "rate_ok s \<Longrightarrow> reclaim_scan now n s = (False, s') \<Longrightarrow> j < length (visit_order s) \<Longrightarrow> rw_resetAt (snd (visit_order s ! j)) \<le> now \<Longrightarrow>
   n \<le> j \<and> visit_order s' ! (j - n) = visit_order s ! j \<and> length (visit_order s') = length (visit_order s)"
proof (induction n arbitrary: s j)
  case (Suc n)
  then obtain x rest where ord: "visit_order s = x # rest" by (cases "visit_order s") auto
  then have nx: "next_entry s = Some x" by (simp add: next_entry_order)
  let ?s = "s\<lparr> rs_scan := ScanAt (rw_place (snd x) + 1), rs_evictionScans := rs_evictionScans s + 1 \<rparr>"
  have x: "now < rw_resetAt (snd x)" "reclaim_scan now n ?s = (False, s')"
    using Suc.prems(2) nx by (auto simp: Let_def split: if_splits prod.splits)
  obtain i where j: "j = Suc i" using x(1) Suc.prems(4) ord by (cases j) auto
  have step: "visit_order ?s = rest @ [x]" using visit_order_step [OF Suc.prems(1) nx, of ?s] by (simp add: ord)
  have i: "i < length rest" using Suc.prems(3) by (simp add: j ord)
  then have same: "visit_order ?s ! i = visit_order s ! j" unfolding step ord j by (simp add: nth_append)
  have "rate_ok ?s" using Suc.prems(1) by (simp add: rate_ok_def)
  moreover have "length (rs_windows s) = Suc (length rest)" using arg_cong [OF ord, of length] by simp
  ultimately show ?case using Suc.IH [OF _ x(2), of i] i Suc.prems(4) unfolding step [symmetric] same j by (simp add: step ord)
qed simp

fun rate_hits :: "(int \<times> jstr \<times> int) list \<Rightarrow> rate_store \<Rightarrow> hit_result list \<times> rate_store" where
  "rate_hits [] s = ([], s)"
| "rate_hits ((now, k, len) # hs) s = (case rate_hit now k len s of (r, s1) \<Rightarrow> case rate_hits hs s1 of (rs, s2) \<Rightarrow> (r # rs, s2))"

lemma rate_hits_ok: "rate_ok s \<Longrightarrow> rate_ok (snd (rate_hits hs s))"
proof (induction hs arbitrary: s)
  case (Cons h hs)
  obtain now k len where h: "h = (now, k, len)" by (cases h)
  from Cons.IH [OF memory_rate.hit_ok [OF Cons.prems, of now k len]] show ?case by (simp add: h case_prod_beta)
qed simp

lemma refused_hit:
  assumes "rate_ok s" and "hr_limited (fst (rate_hit now k len s))" and "(k0, w0) \<in> set (rs_windows s)" and "rw_resetAt w0 \<le> now"
  shows "reclaimExpired now s = (False, snd (rate_hit now k len s)) \<and> rs_windows (snd (rate_hit now k len s)) = rs_windows s"
proof (cases rule: hit_cases [OF assms(1), of now k len])
  case (3 s')
  have "sweep_due now s = s"
  proof (rule ccontr)
    assume "sweep_due now s \<noteq> s"
    then have "rs_windows (sweep_due now s) = filter (\<lambda>(k, v). \<not> now \<ge> rw_resetAt v) (rs_windows s)"
      by (simp add: sweep_due_def sweepExpired_def split: if_splits)
    moreover have "length (filter (\<lambda>(k, v). \<not> now \<ge> rw_resetAt v) (rs_windows s)) < length (rs_windows s)"
      using length_filter_less [of "(k0, w0)" "rs_windows s"] assms(3,4) by auto
    ultimately show False using 3(2) assms(1) by (simp add: rate_ok_def)
  qed
  with 3 reclaim_scan_spec [OF assms(1), of now MAX_EVICTION_SCAN False s'] show ?thesis by (simp add: reclaimExpired_def)
qed (use assms(2) in auto)

text \<open>
  The memory store never holds more windows than \<open>maxKeys\<close>, each key once, and one hit inspects at most 64
  entries looking for room.
\<close>
theorem rate_store_bounded:
  assumes "new_rate_store allowInProduction production maxKeys sweepIntervalMs = Inr s0"
  shows "int (length (rs_windows (snd (rate_hits hs s0)))) \<le> rs_maxKeys s0
    \<and> distinct (map fst (rs_windows (snd (rate_hits hs s0))))
    \<and> rs_evictionScans (snd (rate_hits hs s0)) \<le> 64 * length hs"
proof -
  have run: "rate_ok s \<Longrightarrow> rs_maxKeys (snd (rate_hits hs s)) = rs_maxKeys s
      \<and> rs_evictionScans (snd (rate_hits hs s)) \<le> rs_evictionScans s + 64 * length hs" for s
  proof (induction hs arbitrary: s)
    case (Cons h hs)
    obtain now k len where h: "h = (now, k, len)" by (cases h)
    have "rs_maxKeys (snd (rate_hit now k len s)) = rs_maxKeys s
        \<and> rs_evictionScans (snd (rate_hit now k len s)) \<le> rs_evictionScans s + 64"
      by (cases rule: hit_cases [OF Cons.prems, of now k len])
        (auto simp: MAX_EVICTION_SCAN_def reclaimExpired_def dest: reclaim_scan_spec [OF sweep_due_ok [OF Cons.prems]])
    with Cons.IH [OF memory_rate.hit_ok [OF Cons.prems, of now k len]] show ?case by (auto simp: h case_prod_beta)
  qed simp
  have "rate_ok s0" "rs_evictionScans s0 = 0"
    using assms new_rate_store_ok [OF assms] by (auto simp: new_rate_store_def Let_def split: if_splits)
  with run [of s0] rate_hits_ok [of s0 hs] show ?thesis by (simp add: rate_ok_def places_ok_def)
qed

theorem rate_store_bounded_witness:
  "int (length (rs_windows (snd (rate_hits [(0, [1], 5), (0, [2], 5)]
      \<lparr> rs_windows = [], rs_places = 0, rs_scan = NoScan, rs_maxKeys = 1, rs_sweepIntervalMs = 30000, rs_lastSweep = 0, rs_evictionScans = 0 \<rparr>)))) \<le> 1"
  using rate_store_bounded [of True False "Some 1" None _ "[(0, [1], 5), (0, [2], 5)]"]
  by (simp add: new_rate_store_def del: rate_hits.simps)

text \<open>
  C39: A full store is not stuck on its first entries. Whatever the history, when an entry has expired, consecutive hits
  of keys the store does not hold cannot all be refused once there are as many as the store has blocks of 64 entries:
  the scan goes on where the last one stopped and comes around to the expired entry.
\<close>
theorem reclaim_progress:
  assumes "new_rate_store allowInProduction production maxKeys sweepIntervalMs = Inr s0"
    and "s = snd (rate_hits us s0)"
    and "map_of (rs_windows s) k0 = Some w0"
    and "\<forall>(t, k, len) \<in> set hs. rw_resetAt w0 \<le> t \<and> map_of (rs_windows s) k = None"
    and "length (rs_windows s) \<le> 64 * length hs"
  shows "\<exists>r \<in> set (fst (rate_hits hs s)). \<not> hr_limited r"
proof -
  have run: "\<exists>r \<in> set (fst (rate_hits hs s)). \<not> hr_limited r"
    if "rate_ok s" "j < length (visit_order s)" "visit_order s ! j = (k0, w0)" "j < 64 * length hs" "\<forall>h \<in> set hs. rw_resetAt w0 \<le> fst h" for s j
    using that
  proof (induction hs arbitrary: s j)
    case (Cons h hs)
    obtain now k len where h: "h = (now, k, len)" by (cases h)
    show ?case
    proof (cases "hr_limited (fst (rate_hit now k len s))")
      case True
      have in_s: "(k0, w0) \<in> set (rs_windows s)" using nth_mem [OF Cons.prems(2)] Cons.prems(3) by simp
      have old: "rw_resetAt w0 \<le> now" using Cons.prems(5) by (simp add: h)
      note refused = refused_hit [OF Cons.prems(1) True in_s old]
      from reclaim_scan_fails [OF Cons.prems(1) conjunct1 [OF refused, unfolded reclaimExpired_def] Cons.prems(2)] old
      have "64 \<le> j" "visit_order (snd (rate_hit now k len s)) ! (j - 64) = (k0, w0)"
        "j < length (visit_order (snd (rate_hit now k len s)))"
        using Cons.prems(2,3) by (auto simp: MAX_EVICTION_SCAN_def)
      with Cons.IH [OF memory_rate.hit_ok [OF Cons.prems(1), of now k len], of "j - 64"] Cons.prems(4,5)
      show ?thesis by (auto simp: h case_prod_beta)
    qed (auto simp: h case_prod_beta)
  qed simp
  have "(k0, w0) \<in> set (visit_order s)" using map_of_SomeD [OF assms(3)] by simp
  then obtain j where "j < length (visit_order s)" "visit_order s ! j = (k0, w0)" by (metis in_set_conv_nth)
  moreover have "rate_ok s" using rate_hits_ok new_rate_store_ok [OF assms(1)] assms(2) by simp
  ultimately show ?thesis using run [of s j] assms(4,5) by (fastforce simp: case_prod_beta)
qed

text \<open>
  C37: However the requests of a limiter's buckets and keys are interleaved, no span of one window's length lets more
  than twice the limit of a bucket through for one key: the keys of different buckets never meet in the store, and a
  custom key that fails counts to the address it falls back to.
\<close>
theorem tier_quota_holds:
  assumes "rateLimitTiers base tiers = Inr (claims, fl)" and "bucketFor claims fl path = Some b"
    and "new_rate_store allowInProduction production maxKeys sweepIntervalMs = Inr s" and "sorted (map vi_now vs)"
  shows "let_through rate_hit (bucketFor claims fl) b ky t0 vs s \<le> 2 * bu_max b"
  using memory_rate.quota_twice [OF conjunct1 [OF new_rate_store_ok [OF assms(3)]] tiers_apart(2,1) [OF assms(1,2)] assms(4)] .

text \<open>
  C38: A caller over the limit stays refused until its window ends, whatever flood of other keys comes in between: room
  is never made by dropping an open window.
\<close>
theorem live_quota_survives_flood:
  assumes "rateLimitTiers base tiers = Inr (claims, fl)" and "bucketFor claims fl path = Some b"
    and "new_rate_store allowInProduction production maxKeys sweepIntervalMs = Inr s0"
    and "s = serve_all rate_hit (bucketFor claims fl) us s0"
    and "live_window s now (bu_scope b @ ky) = Some (c, r)" and "bu_max b \<le> c"
    and "sorted (map vi_now vs)"
    and "\<forall>v \<in> set vs. now \<le> vi_now v \<and> vi_now v \<le> vi_now x \<and> \<not> counts_to (bucketFor claims fl) b ky v"
    and "counts_to (bucketFor claims fl) b ky x" and "now \<le> vi_now x" and "vi_now x < r"
  shows "\<not> passed (fst (serve rate_hit (bucketFor claims fl) x (serve_all rate_hit (bucketFor claims fl) vs s)))"
proof -
  note far = tiers_apart(1) [OF assms(1,2)]
  have ok: "rate_ok s" using memory_rate.serve_all_ok new_rate_store_ok [OF assms(3)] assms(4) by blast
  let ?s = "serve_all rate_hit (bucketFor claims fl) vs s"
  from memory_rate.flood_keeps_window [OF far ok assms(5,7,8,10,11)]
  have open_still: "live_window ?s (vi_now x) (bu_scope b @ ky) = Some (c, r)" .
  from memory_rate.hit_live [OF memory_rate.serve_all_ok [OF ok] open_still, of "bu_windowMs b"]
  show ?thesis using assms(6,9) by (simp add: serve_def onRequest_def counts_to_def charge_def Let_def case_prod_beta)
qed

section \<open>Which bucket\<close>

lemma claims_path_segments: "claims_path path p \<longleftrightarrow> prefix (split_on 47 p) (split_on 47 path)"
proof
  assume "claims_path path p"
  then obtain r where r: "path = p @ r" and e: "r = [] \<or> r ! 0 = 47" by (auto simp: claims_path_def prefix_def nth_append)
  show "prefix (split_on 47 p) (split_on 47 path)"
  proof (cases r)
    case (Cons c cs)
    with e show ?thesis by (simp add: r split_on_forged)
  qed (simp add: r)
next
  assume "prefix (split_on 47 p) (split_on 47 path)"
  then obtain zs where zs: "split_on 47 path = split_on 47 p @ zs" by (auto simp: prefix_def)
  have join: "join_with [47] (xs @ ys) = join_with [47] xs @ (if ys = [] then [] else 47 # join_with [47] ys)" if "xs \<noteq> []" for xs ys :: "jstr list"
    using that by (induction "[47::nat]" xs rule: join_with.induct) (auto simp: neq_Nil_conv)
  from arg_cong [OF zs, of "join_with [47]"] have "path = p @ (if zs = [] then [] else 47 # join_with [47] zs)"
    by (simp add: join join_split)
  then show "claims_path path p" by (auto simp: claims_path_def nth_append split: if_splits)
qed

lemma tier_prefixes_spec:
  "tier_prefixes ps seen = Inr seen' \<Longrightarrow> distinct ps \<and> set ps \<inter> set seen = {} \<and> set seen' = set ps \<union> set seen"
  by (induction ps seen rule: tier_prefixes.induct) (auto split: if_splits)

lemma build_tiers_distinct:
  "build_tiers ts seen names claims = Inr cs \<Longrightarrow> fst ` set claims \<subseteq> set seen \<Longrightarrow> jm_wf claims \<Longrightarrow> jm_wf cs"
proof (induction ts seen names claims rule: build_tiers.induct)
  case (2 t ts seen names claims)
  define name where "name = (case ti_name t of None \<Rightarrow> hd (ti_prefixes t) | Some n \<Rightarrow> n)"
  define b where "b = \<lparr> bu_max = nat (ti_max t), bu_windowMs = ti_windowMs t, bu_scope = js ''tier:'' @ name @ js '':'' \<rparr>"
  from "2.prems"(1) obtain seen' where c:
    "ti_prefixes t \<noteq> []" "tier_prefixes (ti_prefixes t) seen = Inr seen'" "TIER_NAME name" "name \<notin> set names"
    "assertWindow (ti_max t) (ti_windowMs t)"
    and rest: "build_tiers ts seen' (name # names) (claims @ map (\<lambda>p. (p, b)) (ti_prefixes t)) = Inr cs"
    by (auto simp: name_def b_def Let_def split: if_splits sum.splits)
  note ps = tier_prefixes_spec [OF c(2)]
  have "fst ` set (claims @ map (\<lambda>p. (p, b)) (ti_prefixes t)) \<subseteq> set seen'"
    "jm_wf (claims @ map (\<lambda>p. (p, b)) (ti_prefixes t))"
    using ps "2.prems"(2,3) by (auto simp: image_image comp_def)
  with "2.IH" [OF c(1,2) name_def _ _ _ b_def rest] c show ?case by simp
qed auto

lemma tier_claims_sorted:
  assumes "rateLimitTiers base tiers = Inr (claims, fl)"
  shows "jm_wf claims" and "sorted_wrt (\<lambda>c d. length (fst d) \<le> length (fst c)) claims"
proof -
  from assms obtain cs where cs: "build_tiers tiers [] [] [] = Inr cs" "claims = sort_claims cs"
    by (auto simp: rateLimitTiers_def Let_def split: if_splits sum.splits option.splits)
  have "jm_wf cs" using build_tiers_distinct [OF cs(1)] by simp
  then have "card (fst ` set cs) = length cs" using distinct_card by fastforce
  then show "jm_wf claims" by (intro card_distinct) (simp add: cs(2) sort_claims_def)
  have "sorted (map (\<lambda>c. - int (length (fst c))) claims)" unfolding cs(2) sort_claims_def by (rule sorted_sort_key)
  then show "sorted_wrt (\<lambda>c d. length (fst d) \<le> length (fst c)) claims" by (simp add: sorted_map)
qed

lemma find_first_longest:
  "sorted_wrt (\<lambda>c d. length (fst d) \<le> length (fst c)) cs \<Longrightarrow> find P cs = Some x \<Longrightarrow>
   x \<in> set cs \<and> P x \<and> (\<forall>y \<in> set cs. P y \<longrightarrow> length (fst y) \<le> length (fst x))"
  by (induction cs) (auto split: if_splits)

text \<open>
  C40: The bucket of a request is the tier whose prefix takes in most of the path's segments: every other prefix that
  holds the path is a prefix of it, segment by segment. Without one it is the floor. So the order the tiers are written
  in does not matter, and \<open>/api\<close> never takes a request for \<open>/apiary\<close>.
\<close>
theorem bucket_longest_prefix:
  assumes "rateLimitTiers base tiers = Inr (claims, fl)"
  shows "bucketFor claims fl path = Some b \<longleftrightarrow>
      (\<exists>p. (p, b) \<in> set claims \<and> prefix (split_on 47 p) (split_on 47 path)
        \<and> (\<forall>(q, c) \<in> set claims. prefix (split_on 47 q) (split_on 47 path) \<longrightarrow> prefix (split_on 47 q) (split_on 47 p)))
      \<or> (\<forall>(q, c) \<in> set claims. \<not> prefix (split_on 47 q) (split_on 47 path)) \<and> fl = Some b"
proof -
  note wf = tier_claims_sorted [OF assms]
  let ?P = "\<lambda>(p, b). claims_path path p"
  have below: "prefix (split_on 47 q) (split_on 47 p)"
    if "claims_path path p" "claims_path path q" "length q \<le> length p" for p q
  proof (rule ccontr)
    assume no: "\<not> prefix (split_on 47 q) (split_on 47 p)"
    with that(1,2) prefix_same_cases have "prefix (split_on 47 p) (split_on 47 q)" unfolding claims_path_segments by blast
    then have "prefix p q" by (simp add: claims_path_segments [symmetric] claims_path_def)
    with that(3) no show False by (auto simp: prefix_def)
  qed
  show ?thesis
  proof (cases "find ?P claims")
    case None
    then have "\<forall>(q, c) \<in> set claims. \<not> claims_path path q" by (auto simp: find_None_iff)
    with None show ?thesis by (fastforce simp: bucketFor_def claims_path_segments)
  next
    case (Some x)
    obtain p b' where x: "x = (p, b')" by (cases x)
    note best = find_first_longest [OF wf(2) Some]
    have p: "(p, b') \<in> set claims" "claims_path path p" using best by (auto simp: x)
    have most: "\<forall>(q, c) \<in> set claims. prefix (split_on 47 q) (split_on 47 path) \<longrightarrow> prefix (split_on 47 q) (split_on 47 p)"
      using best below [OF p(2)] by (auto simp: x claims_path_segments)
    have one: "b = b'" if "(q, b) \<in> set claims" "prefix (split_on 47 q) (split_on 47 path)"
      "\<forall>(r, c) \<in> set claims. prefix (split_on 47 r) (split_on 47 path) \<longrightarrow> prefix (split_on 47 r) (split_on 47 q)" for q
    proof -
      have "prefix (split_on 47 p) (split_on 47 q)" "prefix (split_on 47 q) (split_on 47 p)"
        using that most p by (auto simp: claims_path_segments)
      then have "split_on 47 p = split_on 47 q" by (rule prefix_order.antisym)
      then have "p = q" by (metis join_split)
      with that(1) p(1) wf(1) show ?thesis by (metis eq_key_imp_eq_value)
    qed
    have some: "\<not> (\<forall>(q, c) \<in> set claims. \<not> prefix (split_on 47 q) (split_on 47 path))"
      using p unfolding claims_path_segments by blast
    have "bucketFor claims fl path = Some b'" by (simp add: bucketFor_def Some x)
    then have "bucketFor claims fl path = Some b \<longleftrightarrow> b = b'" by auto
    with one most p some show ?thesis unfolding claims_path_segments by blast
  qed
qed

section \<open>At concrete inputs\<close>

abbreviation sample_tier :: tier where
  "sample_tier \<equiv> \<lparr> ti_prefixes = [js ''/a''], ti_name = None, ti_max = 1, ti_windowMs = 1000 \<rparr>"

abbreviation sample_bucket :: bucket where
  "sample_bucket \<equiv> \<lparr> bu_max = 1, bu_windowMs = 1000, bu_scope = js ''tier:/a:'' \<rparr>"

abbreviation sample_store :: "int \<Rightarrow> rate_store" where
  "sample_store n \<equiv> \<lparr> rs_windows = [], rs_places = 0, rs_scan = NoScan, rs_maxKeys = n, rs_sweepIntervalMs = 30000, rs_lastSweep = 0,
     rs_evictionScans = 0 \<rparr>"

abbreviation sample_visit :: "int \<Rightarrow> nat \<Rightarrow> visit" where
  "sample_visit t k \<equiv> \<lparr> vi_path = js ''/a/b'', vi_now = t, vi_later = t, vi_ip = None, vi_call = KeyIs (Some [k]) \<rparr>"

lemma sample_tiers: "rateLimitTiers None [sample_tier] = Inr ([(js ''/a'', sample_bucket)], None)"
  by (simp add: rateLimitTiers_def Let_def assertTierPrefix_def STATIC_PREFIX_def TIER_NAME_def prefix_char_def is_digit_def assertWindow_def sort_claims_def)

lemma sample_route: "bucketFor [(js ''/a'', sample_bucket)] None (js ''/a/b'') = Some sample_bucket"
  by (simp add: bucketFor_def claims_path_def)

lemma sample_new: "new_rate_store True False (Some n) None = Inr (sample_store n)" if "1 \<le> n"
  using that by (simp add: new_rate_store_def)

lemmas rate_eval = rate_hit_def sweep_due_def sweepExpired_def set_window_def reclaimExpired_def MAX_EVICTION_SCAN_def next_entry_def
  Let_def serve_def onRequest_def charge_def keyFor_def counts_to_def live_window_def trim_def is_space_def

theorem tier_quota_holds_witness:
  "let_through rate_hit (bucketFor [(js ''/a'', sample_bucket)] None) sample_bucket [65] 0
     [sample_visit 0 65, sample_visit 10 65, sample_visit 10 66] (sample_store 5) \<le> 2"
  using tier_quota_holds [OF sample_tiers sample_route sample_new, of 5 "[sample_visit 0 65, sample_visit 10 65, sample_visit 10 66]" "[65]" 0]
  by (simp del: js_Cons let_through.simps)

theorem live_quota_survives_flood_witness:
  "\<not> passed (fst (serve rate_hit (bucketFor [(js ''/a'', sample_bucket)] None) (sample_visit 20 65)
     (serve_all rate_hit (bucketFor [(js ''/a'', sample_bucket)] None) [sample_visit 10 66]
       (serve_all rate_hit (bucketFor [(js ''/a'', sample_bucket)] None) [sample_visit 0 65] (sample_store 1)))))"
proof -
  have lw: "live_window (serve_all rate_hit (bucketFor [(js ''/a'', sample_bucket)] None) [sample_visit 0 65] (sample_store 1)) 0
      (bu_scope sample_bucket @ [65]) = Some (1, 1000)"
    using sample_route by (simp add: rate_eval)
  show ?thesis
    by (rule live_quota_survives_flood [OF sample_tiers sample_route sample_new refl lw]) (simp_all add: counts_to_def keyFor_def bucketFor_def claims_path_def)
qed

theorem bucket_longest_prefix_witness:
  "bucketFor [(js ''/a'', sample_bucket)] None (js ''/a/b'') = Some sample_bucket"
  using bucket_longest_prefix [OF sample_tiers, of "js ''/a/b''" sample_bucket] by simp

theorem reclaim_progress_witness:
  "\<exists>r \<in> set (fst (rate_hits [(10, [2], 5)] (snd (rate_hits [(0, [1], 5)] (sample_store 1))))). \<not> hr_limited r"
proof -
  have s: "snd (rate_hits [(0, [1], 5)] (sample_store 1))
      = (sample_store 1)\<lparr> rs_windows := [([1], \<lparr> rw_place = 0, rw_count = 1, rw_resetAt = 5 \<rparr>)], rs_places := 1 \<rparr>"
    by (simp add: rate_eval)
  show ?thesis
    by (rule reclaim_progress [OF sample_new refl, where ?k0.0 = "[1]" and ?w0.0 = "\<lparr> rw_place = 0, rw_count = 1, rw_resetAt = 5 \<rparr>"])
      (simp_all only: s, simp_all)
qed

end
