(* ===== verification/Saga.thy ===== *)
theory Saga
  imports EffectScope
begin

text \<open>
  Durable sagas: \<open>packages/core/src/durable-saga.ts\<close>, with the records of \<open>internal/durable-types.ts\<close> and the
  transitions of \<open>internal/durable-saga-protocol.ts\<close>.

  \<^item> The interface \<open>SagaStore\<close> is the record \<open>saga_ops\<close> and the locale \<open>saga_store\<close>, interpreted on
    \<open>MemorySagaStore\<close>; \<open>saga_engine_store\<close> is an engine over such a store.
  \<^item> An engine call is a sequence of stretches between awaits. Each stretch loads the record, decides, and writes it
    back by compare-and-set; \<open>luck\<close> says how the write goes: another call may have written since the load
    (\<open>Overtaken\<close>), or the store may fail before or after it applied the write. A hook of the effect scope and the
    \<open>failed\<close> hook that follows its lost write are one stretch.
  \<^item> \<open>saga_change\<close> lists what one write may do to a record; every stretch is shown to make only such writes, which keep
    \<open>steps_inv\<close>. The theory \<open>SagaRun\<close> interleaves the stretches of many calls.
  \<^item> The checks of a saga definition and the observers are left out; times are unbounded integers.
\<close>

section \<open>Records\<close>

datatype step_state = StepExecuting | StepCommitted | StepFailed | StepAmbiguous | StepCompensating | StepCompensationFailed | StepCompensated

datatype saga_state = SagaRunning | SagaCompensating | SagaCompleted | SagaCompensated | SagaManualReview

record 'v saga_step_record =
  ss_name :: jstr
  ss_effectId :: jstr
  ss_compensationEffectId :: jstr
  ss_state :: step_state
  ss_compensationArgs :: 'v
  ss_result :: "'v option"
  ss_attempts :: nat
  ss_nextAttemptAt :: "int option"
  ss_errorCode :: "jstr option"

record 'v saga_record =
  sr_sagaId :: jstr
  sr_definition :: jstr
  sr_state :: saga_state
  sr_input :: 'v
  sr_steps :: "'v saga_step_record list"
  sr_createdAt :: int
  sr_updatedAt :: int
  sr_version :: nat
  sr_owner :: "jstr option"
  sr_leaseUntil :: "int option"

record ('v, 's) saga_ops =
  so_create :: "'v saga_record \<Rightarrow> 's \<Rightarrow> bool \<times> 's"
  so_get :: "jstr \<Rightarrow> 's \<Rightarrow> 'v saga_record option"
  so_compareAndSet :: "jstr \<Rightarrow> nat \<Rightarrow> 'v saga_record \<Rightarrow> 's \<Rightarrow> bool \<times> 's"

definition transitionSaga :: "'v saga_record option \<Rightarrow> jstr \<Rightarrow> nat \<Rightarrow> 'v saga_record \<Rightarrow> 'v saga_record option" where
  "transitionSaga current sid version r =
     (if sr_version r \<noteq> version + 1 \<or> sr_sagaId r \<noteq> sid
         \<or> (case current of None \<Rightarrow> False | Some c \<Rightarrow> sr_sagaId c \<noteq> sid \<or> sr_version c \<noteq> version)
      then None
      else Some r)"

definition withSagaStep :: "'v saga_record \<Rightarrow> nat \<Rightarrow> 'v saga_step_record \<Rightarrow> saga_state \<Rightarrow> int \<Rightarrow> 'v saga_record" where
  "withSagaStep r i step st now = r\<lparr> sr_state := st, sr_steps := (sr_steps r)[i := step], sr_updatedAt := now \<rparr>"

section \<open>The memory store\<close>

text \<open>\<open>byState\<close> is the index the reconciliation scan reads.\<close>

record 'v memory_sagas =
  ms_records :: "(jstr, 'v saga_record) jmap"
  ms_byState :: "(saga_state, jstr list) jmap"

definition bucketAdd :: "'st \<Rightarrow> jstr \<Rightarrow> ('st, jstr list) jmap \<Rightarrow> ('st, jstr list) jmap" where
  "bucketAdd st sid m =
     (let ids = (case map_of m st of None \<Rightarrow> [] | Some ids \<Rightarrow> ids) in
      AList.update st (if sid \<in> set ids then ids else ids @ [sid]) m)"

definition bucketMove :: "'st \<Rightarrow> 'st \<Rightarrow> jstr \<Rightarrow> ('st, jstr list) jmap \<Rightarrow> ('st, jstr list) jmap" where
  "bucketMove from_st to_st sid m =
     (if from_st = to_st then m
      else
        bucketAdd to_st sid
          (case map_of m from_st of None \<Rightarrow> m | Some ids \<Rightarrow> AList.update from_st (removeAll sid ids) m))"

definition memory_create :: "'v saga_record \<Rightarrow> 'v memory_sagas \<Rightarrow> bool \<times> 'v memory_sagas" where
  "memory_create r s =
     (if map_of (ms_records s) (sr_sagaId r) \<noteq> None then (False, s)
      else
        (True, s\<lparr> ms_records := AList.update (sr_sagaId r) r (ms_records s),
                 ms_byState := bucketAdd (sr_state r) (sr_sagaId r) (ms_byState s) \<rparr>))"

definition memory_get :: "jstr \<Rightarrow> 'v memory_sagas \<Rightarrow> 'v saga_record option" where
  "memory_get sid s = map_of (ms_records s) sid"

definition memory_compareAndSet :: "jstr \<Rightarrow> nat \<Rightarrow> 'v saga_record \<Rightarrow> 'v memory_sagas \<Rightarrow> bool \<times> 'v memory_sagas" where
  "memory_compareAndSet sid version r s =
     (let current = map_of (ms_records s) sid in
      case (transitionSaga current sid version r, current) of
        (Some next_r, Some c) \<Rightarrow>
          (True, s\<lparr> ms_records := AList.update sid next_r (ms_records s),
                   ms_byState := bucketMove (sr_state c) (sr_state r) sid (ms_byState s) \<rparr>)
      | _ \<Rightarrow> (False, s))"

definition memory_saga_ops :: "('v, 'v memory_sagas) saga_ops" where
  "memory_saga_ops = \<lparr> so_create = memory_create, so_get = memory_get, so_compareAndSet = memory_compareAndSet \<rparr>"

section \<open>The engine\<close>

record saga_definition =
  sd_name :: jstr
  sd_compensators :: "jstr list"
  sd_maxAttempts :: "nat option"
  sd_backoff :: "(nat \<Rightarrow> int option) option"

record ('v, 's) saga_engine =
  se_store :: "('v, 's) saga_ops"
  se_definition :: saga_definition
  se_sagaId :: jstr
  se_leaseMs :: int

datatype saga_error =
    NotFound | InvalidRecord | DefinitionMismatch | SignalAborted | Concurrency | StoreFault | BadToken
  | NoCompensator jstr | AmbiguousStep jstr jstr | CannotResume jstr step_state | Unresolvable jstr | BadErrorCode

definition assertToken :: "jstr \<Rightarrow> nat \<Rightarrow> bool" where
  "assertToken s maxLength \<longleftrightarrow> s \<noteq> [] \<and> length s \<le> maxLength \<and> list_all (\<lambda>c. 33 \<le> c \<and> c \<le> 126) s"

definition assertTimestamp :: "int \<Rightarrow> bool" where
  "assertTimestamp t \<longleftrightarrow> 0 \<le> t \<and> t < 2 ^ 53"

fun valid_steps :: "jstr list \<Rightarrow> jstr list \<Rightarrow> 'v saga_step_record list \<Rightarrow> bool" where
  "valid_steps names effectIds [] = True"
| "valid_steps names effectIds (st # sts) =
     (assertToken (ss_name st) 128 \<and> assertToken (ss_effectId st) 64 \<and> assertToken (ss_compensationEffectId st) 64
      \<and> ss_name st \<notin> set names \<and> ss_effectId st \<notin> set effectIds \<and> ss_compensationEffectId st \<notin> set effectIds
      \<and> (case ss_nextAttemptAt st of None \<Rightarrow> True | Some t \<Rightarrow> assertTimestamp t)
      \<and> (case ss_errorCode st of None \<Rightarrow> True | Some c \<Rightarrow> valid_error_code c)
      \<and> valid_steps (ss_name st # names) (ss_effectId st # ss_compensationEffectId st # effectIds) sts)"

definition valid_saga :: "jstr \<Rightarrow> 'v saga_record \<Rightarrow> bool" where
  "valid_saga sid r \<longleftrightarrow>
     sr_sagaId r = sid \<and> 1 \<le> sr_version r \<and> assertToken (sr_definition r) 128
     \<and> (case sr_owner r of
          None \<Rightarrow> True
        | Some o' \<Rightarrow> assertToken o' 64 \<and> (case sr_leaseUntil r of None \<Rightarrow> False | Some t \<Rightarrow> assertTimestamp t))
     \<and> assertTimestamp (sr_createdAt r) \<and> assertTimestamp (sr_updatedAt r) \<and> \<not> sr_createdAt r > sr_updatedAt r
     \<and> valid_steps [] [] (sr_steps r)"

definition load :: "('v, 's) saga_engine \<Rightarrow> 's \<Rightarrow> saga_error + 'v saga_record" where
  "load E s =
     (case so_get (se_store E) (se_sagaId E) s of
        None \<Rightarrow> Inl NotFound
      | Some r \<Rightarrow> if valid_saga (se_sagaId E) r then Inr r else Inl InvalidRecord)"

datatype luck = Clear | Overtaken | FaultBefore | FaultAfter

text \<open>Every write of the owner renews its lease.\<close>

definition stamp :: "('v, 's) saga_engine \<Rightarrow> int \<Rightarrow> 'v saga_record \<Rightarrow> 'v saga_record \<Rightarrow> 'v saga_record" where
  "stamp E now current upd =
     upd\<lparr> sr_leaseUntil := (if sr_owner upd = None then sr_leaseUntil upd else Some (now + se_leaseMs E)),
          sr_version := sr_version current + 1 \<rparr>"

definition save ::
    "('v, 's) saga_engine \<Rightarrow> int \<Rightarrow> luck \<Rightarrow> 'v saga_record \<Rightarrow> 'v saga_record \<Rightarrow> 's \<Rightarrow> (saga_error + 'v saga_record) \<times> 's" where
  "save E now l current upd s =
     (let next_r = stamp E now current upd in
      if transitionSaga (Some current) (sr_sagaId current) (sr_version current) next_r = None then (Inl Concurrency, s)
      else
        (case l of
           Overtaken \<Rightarrow> (Inl Concurrency, s)
         | FaultBefore \<Rightarrow> (Inl StoreFault, s)
         | FaultAfter \<Rightarrow> (Inl StoreFault, snd (so_compareAndSet (se_store E) (sr_sagaId current) (sr_version current) next_r s))
         | Clear \<Rightarrow>
             (case so_compareAndSet (se_store E) (sr_sagaId current) (sr_version current) next_r s of
                (True, s') \<Rightarrow> (Inr next_r, s')
              | (False, s') \<Rightarrow> (Inl Concurrency, s'))))"

definition claim ::
    "('v, 's) saga_engine \<Rightarrow> int \<Rightarrow> luck \<Rightarrow> jstr \<Rightarrow> 'v saga_record \<Rightarrow> 's \<Rightarrow> (saga_error + 'v saga_record) \<times> 's" where
  "claim E now l me r s =
     (if sr_owner r = Some me then (Inr r, s)
      else if sr_owner r \<noteq> None \<and> (case sr_leaseUntil r of None \<Rightarrow> False | Some t \<Rightarrow> t > now) then (Inl Concurrency, s)
      else save E now l r (r\<lparr> sr_owner := Some me, sr_updatedAt := now \<rparr>) s)"

definition release :: "('v, 's) saga_engine \<Rightarrow> int \<Rightarrow> luck \<Rightarrow> jstr \<Rightarrow> 's \<Rightarrow> 's" where
  "release E now l me s =
     (case load E s of
        Inl e \<Rightarrow> s
      | Inr r \<Rightarrow>
          if sr_owner r \<noteq> Some me then s
          else snd (save E now l r (r\<lparr> sr_owner := None, sr_leaseUntil := None, sr_updatedAt := now \<rparr>) s))"

definition loadOwned :: "('v, 's) saga_engine \<Rightarrow> jstr \<Rightarrow> 's \<Rightarrow> saga_error + 'v saga_record" where
  "loadOwned E me s =
     (case load E s of
        Inl e \<Rightarrow> Inl e
      | Inr r \<Rightarrow> if sr_owner r \<noteq> Some me then Inl Concurrency else Inr r)"

definition loadFor :: "('v, 's) saga_engine \<Rightarrow> bool \<Rightarrow> 's \<Rightarrow> saga_error + 'v saga_record" where
  "loadFor E aborted s =
     (if \<not> assertToken (se_sagaId E) 128 then Inl BadToken
      else if aborted then Inl SignalAborted
      else
        (case load E s of
           Inl e \<Rightarrow> Inl e
         | Inr r \<Rightarrow> if sr_definition r \<noteq> sd_name (se_definition E) then Inl DefinitionMismatch else Inr r))"

definition maxAttempts :: "('v, 's) saga_engine \<Rightarrow> nat" where
  "maxAttempts E = (case sd_maxAttempts (se_definition E) of None \<Rightarrow> 3 | Some n \<Rightarrow> n)"

definition backoffMs :: "('v, 's) saga_engine \<Rightarrow> nat \<Rightarrow> int option" where
  "backoffMs E attempt =
     (case sd_backoff (se_definition E) of
        None \<Rightarrow> Some (min 60000 (100 * 2 ^ (attempt - 1)))
      | Some f \<Rightarrow> f attempt)"

definition index_where :: "('a \<Rightarrow> bool) \<Rightarrow> 'a list \<Rightarrow> nat option" where
  "index_where P xs = (let n = length (takeWhile (\<lambda>x. \<not> P x) xs) in if n < length xs then Some n else None)"

subsection \<open>Steps\<close>

text \<open>How the code of a step ends: \<open>NotCommitted\<close> is the error that proves no effect happened.\<close>

datatype 'v step_end = Returned 'v | NotCommitted jstr | Threw

text \<open>The hook \<open>failed\<close> of a step; what it throws itself is dropped by the effect scope.\<close>

definition step_failed :: "('v, 's) saga_engine \<Rightarrow> int \<Rightarrow> luck \<Rightarrow> jstr \<Rightarrow> jstr \<Rightarrow> bool \<Rightarrow> jstr option \<Rightarrow> 's \<Rightarrow> 's" where
  "step_failed E now l me eff began notCommitted s =
     (case loadOwned E me s of
        Inl e \<Rightarrow> s
      | Inr r \<Rightarrow>
          (case index_where (\<lambda>st. ss_effectId st = eff) (sr_steps r) of
             None \<Rightarrow> s
           | Some i \<Rightarrow>
               (let known = (notCommitted \<noteq> None \<or> \<not> began);
                    code = (case notCommitted of
                              Some c \<Rightarrow> c
                            | None \<Rightarrow> if began then js ''execution_unknown'' else js ''aborted_before_execution'');
                    failed = (sr_steps r ! i)\<lparr> ss_state := (if known then StepFailed else StepAmbiguous), ss_errorCode := Some code \<rparr> in
                snd (save E now l r (withSagaStep r i failed (if known then SagaCompensating else SagaManualReview) now) s))))"

definition step_committed :: "('v, 's) saga_engine \<Rightarrow> int \<Rightarrow> luck \<Rightarrow> jstr \<Rightarrow> jstr \<Rightarrow> 'v \<Rightarrow> 's \<Rightarrow> (saga_error + 'v saga_record) \<times> 's" where
  "step_committed E now l me eff res s =
     (case loadOwned E me s of
        Inl e \<Rightarrow> (Inl e, s)
      | Inr r \<Rightarrow>
          (case index_where (\<lambda>st. ss_effectId st = eff) (sr_steps r) of
             None \<Rightarrow> (Inl Concurrency, s)
           | Some i \<Rightarrow>
               save E now l r
                 (withSagaStep r i ((sr_steps r ! i)\<lparr> ss_state := StepCommitted, ss_result := Some res \<rparr>) (sr_state r) now) s))"

datatype 'v step_answer = Rejected saga_error | Answered "'v option" | Stored

text \<open>\<open>context.step\<close> up to the stored intent: from there the effect scope starts the step's code.\<close>

definition new_step :: "jstr \<Rightarrow> jstr \<Rightarrow> jstr \<Rightarrow> 'v \<Rightarrow> 'v saga_step_record" where
  "new_step name eff cid args =
     \<lparr> ss_name = name, ss_effectId = eff, ss_compensationEffectId = cid, ss_state = StepExecuting, ss_compensationArgs = args,
       ss_result = None, ss_attempts = 0, ss_nextAttemptAt = None, ss_errorCode = None \<rparr>"

definition step_call ::
    "('v, 's) saga_engine \<Rightarrow> int \<Rightarrow> luck \<Rightarrow> luck \<Rightarrow> bool \<Rightarrow> jstr \<Rightarrow> jstr \<Rightarrow> jstr \<Rightarrow> jstr \<Rightarrow> 'v \<Rightarrow> 's \<Rightarrow> 'v step_answer \<times> 's" where
  "step_call E now l l' aborted me name eff cid args s =
     (if aborted then (Rejected SignalAborted, s)
      else if \<not> assertToken name 128 then (Rejected BadToken, s)
      else if name \<notin> set (sd_compensators (se_definition E)) then (Rejected (NoCompensator name), s)
      else
        (case loadOwned E me s of
           Inl e \<Rightarrow> (Rejected e, s)
         | Inr r \<Rightarrow>
             if sr_state r \<noteq> SagaRunning then (Rejected Concurrency, s)
             else
               (case find (\<lambda>st. ss_name st = name) (sr_steps r) of
                  Some st \<Rightarrow>
                    (if ss_state st = StepCommitted then (Answered (ss_result st), s)
                     else if ss_state st = StepExecuting \<or> ss_state st = StepAmbiguous
                     then (case save E now l r (r\<lparr> sr_state := SagaManualReview, sr_updatedAt := now \<rparr>) s of
                             (Inl e, s') \<Rightarrow> (Rejected e, s')
                           | (Inr _, s') \<Rightarrow> (Rejected (AmbiguousStep name (ss_effectId st)), s'))
                     else (Rejected (CannotResume name (ss_state st)), s))
                | None \<Rightarrow>
                    (case save E now l r (r\<lparr> sr_steps := sr_steps r @ [new_step name eff cid args], sr_updatedAt := now \<rparr>) s of
                       (Inr _, s') \<Rightarrow> (Stored, s')
                     | (Inl e, s') \<Rightarrow> (Rejected e, step_failed E now l' me eff False None s')))))"

definition step_settles ::
    "('v, 's) saga_engine \<Rightarrow> int \<Rightarrow> luck \<Rightarrow> luck \<Rightarrow> jstr \<Rightarrow> jstr \<Rightarrow> 'v step_end \<Rightarrow> 's \<Rightarrow> 's" where
  "step_settles E now l l' me eff res s =
     (case res of
        Returned v \<Rightarrow>
          (case step_committed E now l me eff v s of
             (Inr _, s') \<Rightarrow> s'
           | (Inl e, s') \<Rightarrow> step_failed E now l' me eff True None s')
      | NotCommitted c \<Rightarrow> step_failed E now l' me eff True (Some c) s
      | Threw \<Rightarrow> step_failed E now l' me eff True None s)"

subsection \<open>Compensation\<close>

definition unsettled :: "step_state \<Rightarrow> bool" where
  "unsettled st \<longleftrightarrow> st = StepAmbiguous \<or> st = StepExecuting \<or> st = StepCompensating"

text \<open>Where a call stands: in the user's \<open>run\<close>; to roll back since it failed; about to check for unsettled steps; about to look at step \<open>k - 1\<close>; with the
  compensator of step \<open>i\<close> running; or over.\<close>

datatype call_phase = Body | Caught | Review | Visit nat | Undo nat | Over

text \<open>\<open>compensateOwned\<close> up to the claim, \<open>None\<close> when there is nothing to do.\<close>

definition compensate_begin ::
    "('v, 's) saga_engine \<Rightarrow> int \<Rightarrow> luck \<Rightarrow> bool \<Rightarrow> jstr \<Rightarrow> 's \<Rightarrow> (saga_error + 'v saga_record option) \<times> 's" where
  "compensate_begin E now l aborted me s =
     (case loadFor E aborted s of
        Inl e \<Rightarrow> (Inl e, s)
      | Inr r \<Rightarrow>
          if sr_state r = SagaCompleted \<or> sr_state r = SagaCompensated then (Inr None, s)
          else (case claim E now l me r s of (Inl e, s') \<Rightarrow> (Inl e, s') | (Inr r', s') \<Rightarrow> (Inr (Some r'), s')))"

text \<open>The refusal while a step is unsettled, and the switch to \<open>compensating\<close>. The record returned is the loop's.\<close>

definition compensate_review ::
    "('v, 's) saga_engine \<Rightarrow> int \<Rightarrow> luck \<Rightarrow> 'v saga_record \<Rightarrow> 's \<Rightarrow> (saga_error + 'v saga_record) \<times> 's" where
  "compensate_review E now l r s =
     (case find (\<lambda>st. unsettled (ss_state st)) (sr_steps r) of
        Some st \<Rightarrow>
          (let err = AmbiguousStep (ss_name st) (if ss_state st = StepCompensating then ss_compensationEffectId st else ss_effectId st) in
           if sr_state r \<noteq> SagaManualReview
           then (case save E now l r (r\<lparr> sr_state := SagaManualReview, sr_updatedAt := now \<rparr>) s of
                   (Inl e, s') \<Rightarrow> (Inl e, s')
                 | (Inr _, s') \<Rightarrow> (Inl err, s'))
           else (Inl err, s))
      | None \<Rightarrow>
          if sr_state r \<noteq> SagaCompensating then save E now l r (r\<lparr> sr_state := SagaCompensating, sr_updatedAt := now \<rparr>) s
          else (Inr r, s))"

text \<open>The hook \<open>failed\<close> of a compensation. \<open>step\<close> is the step as its attempt began.\<close>

definition compensation_failed ::
    "('v, 's) saga_engine \<Rightarrow> int \<Rightarrow> luck \<Rightarrow> luck \<Rightarrow> nat \<Rightarrow> 'v saga_step_record \<Rightarrow> 'v saga_record \<Rightarrow> 's \<Rightarrow> 's" where
  "compensation_failed E now l l' i step r s =
     (let exhausted = (ss_attempts step \<ge> maxAttempts E);
          invalid = step\<lparr> ss_state := StepCompensationFailed, ss_errorCode := Some (js ''invalid_retry_policy'') \<rparr>;
          give_up = (\<lambda>s. snd (save E now l' r (withSagaStep r i invalid SagaManualReview now) s));
          failed = step\<lparr> ss_state := StepCompensationFailed, ss_errorCode := Some (js ''compensation_failed'') \<rparr>;
          put = (\<lambda>st u. case save E now l r (withSagaStep r i st u now) s of (Inr _, s') \<Rightarrow> s' | (Inl _, s') \<Rightarrow> give_up s') in
      if exhausted then put failed SagaManualReview
      else
        (case backoffMs E (ss_attempts step) of
           None \<Rightarrow> give_up s
         | Some delay \<Rightarrow>
             if delay < 0 then give_up s else put (failed\<lparr> ss_nextAttemptAt := Some (now + delay) \<rparr>) SagaCompensating))"

definition attempt_of :: "'v saga_step_record \<Rightarrow> 'v saga_step_record" where
  "attempt_of step =
     step\<lparr> ss_state := StepCompensating, ss_attempts := ss_attempts step + 1, ss_errorCode := None, ss_nextAttemptAt := None \<rparr>"

text \<open>One turn of the loop. It goes on with the next step, starts the compensator of this one, or ends the call.\<close>

definition compensate_visit ::
    "('v, 's) saga_engine \<Rightarrow> int \<Rightarrow> luck \<Rightarrow> luck \<Rightarrow> luck \<Rightarrow> bool \<Rightarrow> bool \<Rightarrow> nat \<Rightarrow> 'v saga_record \<Rightarrow> 's \<Rightarrow> (call_phase \<times> 'v saga_record) \<times> 's" where
  "compensate_visit E now l l' l'' aborted aborted_then k r s =
     (case k of
        0 \<Rightarrow> (case save E now l r (r\<lparr> sr_state := SagaCompensated, sr_updatedAt := now \<rparr>) s of (_, s') \<Rightarrow> ((Over, r), s'))
      | Suc i \<Rightarrow>
          (let step = sr_steps r ! i; quit = snd (save E now l r (r\<lparr> sr_state := SagaManualReview, sr_updatedAt := now \<rparr>) s) in
           if aborted then ((Over, r), s)
           else if ss_state step = StepCompensated \<or> ss_state step = StepFailed then ((Visit i, r), s)
           else if ss_state step \<noteq> StepCommitted \<and> ss_state step \<noteq> StepCompensationFailed then ((Visit i, r), s)
           else if (case ss_nextAttemptAt step of None \<Rightarrow> False | Some t \<Rightarrow> t > now) then ((Over, r), s)
           else if ss_name step \<notin> set (sd_compensators (se_definition E)) then ((Over, r), quit)
           else if ss_attempts step \<ge> maxAttempts E then ((Over, r), if sr_state r \<noteq> SagaManualReview then quit else s)
           else if aborted_then then ((Over, r), compensation_failed E now l' l'' i (attempt_of step) r s)
           else
             (case save E now l r (withSagaStep r i (attempt_of step) (sr_state r) now) s of
                (Inr r', s') \<Rightarrow> ((Undo i, r'), s')
              | (Inl e, s') \<Rightarrow> ((Over, r), compensation_failed E now l' l'' i (attempt_of step) r s'))))"

text \<open>The compensator of step \<open>i\<close> ended.\<close>

definition compensate_settles ::
    "('v, 's) saga_engine \<Rightarrow> int \<Rightarrow> luck \<Rightarrow> luck \<Rightarrow> luck \<Rightarrow> bool \<Rightarrow> nat \<Rightarrow> 'v saga_record \<Rightarrow> 's \<Rightarrow> (call_phase \<times> 'v saga_record) \<times> 's" where
  "compensate_settles E now l l' l'' succeeded i r s =
     (let step = sr_steps r ! i; undone = step\<lparr> ss_state := StepCompensated \<rparr> in
      if succeeded
      then (case save E now l r (withSagaStep r i undone (sr_state r) now) s of
              (Inr r', s') \<Rightarrow> ((Visit i, r'), s')
            | (Inl e, s') \<Rightarrow> ((Over, r), compensation_failed E now l' l'' i undone r s'))
      else ((Over, r), compensation_failed E now l' l'' i step r s))"

subsection \<open>Resolution by an operator\<close>

datatype 'v resolution =
    ExecutionCommitted jstr jstr 'v | ExecutionNotCommitted jstr jstr "jstr option" | CompensationDone jstr jstr | CompensationNotDone jstr jstr

fun resolves :: "'v resolution \<Rightarrow> jstr" where
  "resolves (ExecutionCommitted n e v) = n"
| "resolves (ExecutionNotCommitted n e c) = n"
| "resolves (CompensationDone n e) = n"
| "resolves (CompensationNotDone n e) = n"

fun resolved_step :: "('v, 's) saga_engine \<Rightarrow> 'v resolution \<Rightarrow> 'v saga_step_record \<Rightarrow> saga_error + 'v saga_step_record \<times> saga_state" where
  "resolved_step E (ExecutionCommitted n eff v) cur =
     (if ss_effectId cur \<noteq> eff \<or> ss_state cur \<noteq> StepExecuting \<and> ss_state cur \<noteq> StepAmbiguous then Inl (Unresolvable n)
      else Inr (cur\<lparr> ss_state := StepCommitted, ss_result := Some v, ss_errorCode := None \<rparr>, SagaRunning))"
| "resolved_step E (ExecutionNotCommitted n eff code) cur =
     (if ss_effectId cur \<noteq> eff \<or> ss_state cur \<noteq> StepExecuting \<and> ss_state cur \<noteq> StepAmbiguous then Inl (Unresolvable n)
      else
        (let c = (case code of None \<Rightarrow> js ''not_committed'' | Some c \<Rightarrow> c) in
         if \<not> valid_error_code c then Inl BadErrorCode
         else Inr (cur\<lparr> ss_state := StepFailed, ss_result := None, ss_errorCode := Some c \<rparr>, SagaCompensating)))"
| "resolved_step E (CompensationDone n eff) cur =
     (if ss_compensationEffectId cur \<noteq> eff \<or> ss_state cur \<noteq> StepCompensating then Inl (Unresolvable n)
      else Inr (cur\<lparr> ss_state := StepCompensated, ss_errorCode := None, ss_nextAttemptAt := None \<rparr>, SagaCompensating))"
| "resolved_step E (CompensationNotDone n eff) cur =
     (if ss_compensationEffectId cur \<noteq> eff \<or> ss_state cur \<noteq> StepCompensating then Inl (Unresolvable n)
      else Inr (cur\<lparr> ss_state := StepCompensationFailed, ss_errorCode := None, ss_nextAttemptAt := None \<rparr>,
                if ss_attempts cur \<ge> maxAttempts E then SagaManualReview else SagaCompensating))"

definition resolveAmbiguity ::
    "('v, 's) saga_engine \<Rightarrow> int \<Rightarrow> luck \<Rightarrow> 'v resolution \<Rightarrow> 's \<Rightarrow> (saga_error + 'v saga_record) \<times> 's" where
  "resolveAmbiguity E now l res s =
     (case loadFor E False s of
        Inl e \<Rightarrow> (Inl e, s)
      | Inr r \<Rightarrow>
          (case index_where (\<lambda>st. ss_name st = resolves res) (sr_steps r) of
             None \<Rightarrow> (Inl (Unresolvable (resolves res)), s)
           | Some i \<Rightarrow>
               (case resolved_step E res (sr_steps r ! i) of
                  Inl e \<Rightarrow> (Inl e, s)
                | Inr (step, st) \<Rightarrow> save E now l r (withSagaStep r i step st now) s)))"

subsection \<open>Executing and resuming\<close>

definition execute_saga :: "('v, 's) saga_engine \<Rightarrow> int \<Rightarrow> bool \<Rightarrow> 'v \<Rightarrow> 's \<Rightarrow> (saga_error + unit) \<times> 's" where
  "execute_saga E now aborted input s =
     (if \<not> assertToken (se_sagaId E) 128 then (Inl BadToken, s)
      else if aborted then (Inl SignalAborted, s)
      else
        (case so_create (se_store E)
                \<lparr> sr_sagaId = se_sagaId E, sr_definition = sd_name (se_definition E), sr_state = SagaRunning, sr_input = input,
                  sr_steps = [], sr_createdAt = now, sr_updatedAt = now, sr_version = 1, sr_owner = None, sr_leaseUntil = None \<rparr> s of
           (True, s') \<Rightarrow> (Inr (), s')
         | (False, s') \<Rightarrow> (Inl Concurrency, s')))"

text \<open>\<open>resumeOwned\<close> up to the user's \<open>run\<close>, which the flag says is reached.\<close>

definition resume_begin :: "('v, 's) saga_engine \<Rightarrow> int \<Rightarrow> luck \<Rightarrow> bool \<Rightarrow> jstr \<Rightarrow> 's \<Rightarrow> bool \<times> 's" where
  "resume_begin E now l aborted me s =
     (case loadFor E aborted s of
        Inl e \<Rightarrow> (False, s)
      | Inr r \<Rightarrow>
          if sr_state r \<noteq> SagaRunning then (False, s)
          else (case claim E now l me r s of (Inl e, s') \<Rightarrow> (False, s') | (Inr _, s') \<Rightarrow> (True, s')))"

text \<open>\<open>run\<close> threw: whether the call goes on to compensate.\<close>

definition rolls_back :: "('v, 's) saga_engine \<Rightarrow> jstr \<Rightarrow> bool \<Rightarrow> 's \<Rightarrow> bool" where
  "rolls_back E me concurrency s \<longleftrightarrow>
     \<not> concurrency \<and> (case load E s of Inl e \<Rightarrow> False | Inr r \<Rightarrow> \<not> (sr_state r = SagaManualReview \<or> sr_owner r \<noteq> Some me))"

text \<open>\<open>run\<close> returned: \<open>None\<close> when the call ends here, else the error the \<open>catch\<close> sees.\<close>

definition run_returned :: "('v, 's) saga_engine \<Rightarrow> int \<Rightarrow> luck \<Rightarrow> jstr \<Rightarrow> 's \<Rightarrow> saga_error option \<times> 's" where
  "run_returned E now l me s =
     (case loadOwned E me s of
        Inl e \<Rightarrow> (Some e, s)
      | Inr r \<Rightarrow>
          if sr_state r = SagaRunning
          then (case save E now l r (r\<lparr> sr_state := SagaCompleted, sr_updatedAt := now \<rparr>) s of
                  (Inl e, s') \<Rightarrow> (Some e, s')
                | (Inr _, s') \<Rightarrow> (None, s'))
          else (None, s))"

section \<open>What a write may change\<close>

definition open_exec :: "step_state \<Rightarrow> bool" where
  "open_exec st \<longleftrightarrow> st = StepExecuting \<or> st = StepAmbiguous"

definition rolled :: "step_state \<Rightarrow> bool" where
  "rolled st \<longleftrightarrow> st = StepCompensating \<or> st = StepCompensationFailed \<or> st = StepCompensated"

definition behind :: "step_state \<Rightarrow> bool" where
  "behind st \<longleftrightarrow> st = StepCompensated \<or> st = StepFailed"

definition same_step :: "'v saga_step_record \<Rightarrow> 'v saga_step_record \<Rightarrow> bool" where
  "same_step x y \<longleftrightarrow> ss_name x = ss_name y \<and> ss_effectId x = ss_effectId y"

definition steps_inv :: "nat \<Rightarrow> 'v saga_record \<Rightarrow> bool" where
  "steps_inv mx r \<longleftrightarrow>
     distinct (map ss_name (sr_steps r)) \<and> distinct (map ss_effectId (sr_steps r))
     \<and> (\<forall>i < length (sr_steps r). rolled (ss_state (sr_steps r ! i)) \<longrightarrow>
          (\<forall>j < length (sr_steps r). \<not> open_exec (ss_state (sr_steps r ! j)) \<and> (i < j \<longrightarrow> behind (ss_state (sr_steps r ! j))))
          \<and> sr_state r \<noteq> SagaRunning \<and> sr_state r \<noteq> SagaCompleted)
     \<and> (\<forall>i < length (sr_steps r).
          ss_attempts (sr_steps r ! i) \<le> mx
          \<and> (sr_state r = SagaCompensated \<longrightarrow> behind (ss_state (sr_steps r ! i)))
          \<and> (ss_state (sr_steps r ! i) = StepCommitted \<or> rolled (ss_state (sr_steps r ! i)) \<longrightarrow> ss_result (sr_steps r ! i) \<noteq> None))"

definition final :: "'v saga_record \<Rightarrow> bool" where
  "final r \<longleftrightarrow> sr_state r = SagaCompleted \<or> sr_state r = SagaCompensated"

text \<open>\<open>F\<close>: the effects whose execution this write may settle; \<open>N\<close>: those it may add.\<close>

inductive saga_change :: "nat \<Rightarrow> jstr set \<Rightarrow> jstr set \<Rightarrow> 'v saga_record \<Rightarrow> 'v saga_record \<Rightarrow> bool" for mx F N r r' where
  owner: "sr_steps r' = sr_steps r \<Longrightarrow> sr_state r' = sr_state r \<Longrightarrow> saga_change mx F N r r'"
| park: "sr_steps r' = sr_steps r \<Longrightarrow> \<not> final r \<Longrightarrow> sr_state r' = SagaManualReview \<Longrightarrow> saga_change mx F N r r'"
| complete: "sr_steps r' = sr_steps r \<Longrightarrow> sr_state r = SagaRunning \<Longrightarrow> sr_state r' = SagaCompleted \<Longrightarrow> saga_change mx F N r r'"
| roll: "sr_steps r' = sr_steps r \<Longrightarrow> \<not> final r \<Longrightarrow> sr_state r' = SagaCompensating \<Longrightarrow> saga_change mx F N r r'"
| add: "sr_steps r' = sr_steps r @ [x] \<Longrightarrow> sr_state r = SagaRunning \<Longrightarrow> sr_state r' = SagaRunning \<Longrightarrow> ss_state x = StepExecuting \<Longrightarrow>
    ss_attempts x = 0 \<Longrightarrow> ss_effectId x \<in> N \<Longrightarrow> ss_name x \<notin> ss_name ` set (sr_steps r) \<Longrightarrow> saga_change mx F N r r'"
| settle: "sr_steps r' = (sr_steps r)[i := x] \<Longrightarrow> i < length (sr_steps r) \<Longrightarrow>
    open_exec (ss_state (sr_steps r ! i))
    \<or> ss_state (sr_steps r ! i) = StepCommitted \<and> (\<forall>j < length (sr_steps r). \<not> rolled (ss_state (sr_steps r ! j))) \<Longrightarrow>
    ss_effectId (sr_steps r ! i) \<in> F \<Longrightarrow> same_step x (sr_steps r ! i) \<Longrightarrow> ss_attempts x = ss_attempts (sr_steps r ! i) \<Longrightarrow>
    ss_state x = StepFailed \<or> ss_state x = StepAmbiguous \<or> ss_state x = StepCommitted \<and> ss_result x \<noteq> None \<Longrightarrow>
    sr_state r' \<in> {sr_state r, SagaRunning, SagaCompensating, SagaManualReview} \<Longrightarrow> saga_change mx F N r r'"
| undo: "sr_steps r' = (sr_steps r)[i := x] \<Longrightarrow> i < length (sr_steps r) \<Longrightarrow> sr_state r = SagaCompensating \<Longrightarrow>
    \<forall>j < length (sr_steps r). \<not> open_exec (ss_state (sr_steps r ! j)) \<and> (i < j \<longrightarrow> behind (ss_state (sr_steps r ! j))) \<Longrightarrow>
    ss_state (sr_steps r ! i) = StepCommitted \<or> ss_state (sr_steps r ! i) = StepCompensationFailed \<Longrightarrow>
    same_step x (sr_steps r ! i) \<Longrightarrow> ss_result x = ss_result (sr_steps r ! i) \<Longrightarrow>
    ss_attempts (sr_steps r ! i) \<le> ss_attempts x \<Longrightarrow> ss_attempts x \<le> mx \<Longrightarrow> rolled (ss_state x) \<Longrightarrow>
    sr_state r' \<in> {SagaCompensating, SagaManualReview} \<Longrightarrow> saga_change mx F N r r'"
| undone: "sr_steps r' = (sr_steps r)[i := x] \<Longrightarrow> i < length (sr_steps r) \<Longrightarrow> ss_state (sr_steps r ! i) = StepCompensating \<Longrightarrow>
    same_step x (sr_steps r ! i) \<Longrightarrow> ss_result x = ss_result (sr_steps r ! i) \<Longrightarrow> ss_attempts x = ss_attempts (sr_steps r ! i) \<Longrightarrow>
    rolled (ss_state x) \<Longrightarrow> sr_state r' \<in> {SagaCompensating, SagaManualReview} \<Longrightarrow> saga_change mx F N r r'"
| finish: "sr_steps r' = sr_steps r \<Longrightarrow> \<forall>j < length (sr_steps r). behind (ss_state (sr_steps r ! j)) \<Longrightarrow> \<not> final r \<Longrightarrow> sr_state r' = SagaCompensated \<Longrightarrow>
    saga_change mx F N r r'"

definition saga_write :: "nat \<Rightarrow> jstr set \<Rightarrow> jstr set \<Rightarrow> 'v saga_record \<Rightarrow> 'v saga_record \<Rightarrow> bool" where
  "saga_write mx F N r r' \<longleftrightarrow> sr_version r' = Suc (sr_version r) \<and> sr_sagaId r' = sr_sagaId r \<and> saga_change mx F N r r'"

lemma state_kinds [simp]:
  "open_exec StepExecuting" "open_exec StepAmbiguous" "\<not> open_exec StepCommitted" "\<not> open_exec StepFailed" "\<not> open_exec StepCompensating"
  "\<not> open_exec StepCompensationFailed" "\<not> open_exec StepCompensated"
  "rolled StepCompensating" "rolled StepCompensationFailed" "rolled StepCompensated" "\<not> rolled StepExecuting" "\<not> rolled StepAmbiguous"
  "\<not> rolled StepCommitted" "\<not> rolled StepFailed"
  "behind StepCompensated" "behind StepFailed" "\<not> behind StepExecuting" "\<not> behind StepAmbiguous" "\<not> behind StepCommitted"
  "\<not> behind StepCompensating" "\<not> behind StepCompensationFailed"
  by (simp_all add: open_exec_def rolled_def behind_def)

lemma rolled_not_open: "rolled st \<Longrightarrow> \<not> open_exec st"
  by (auto simp: rolled_def)

lemma behind_not_open: "behind st \<Longrightarrow> \<not> open_exec st"
  by (auto simp: behind_def)

lemma same_step_map:
  assumes "i < length xs" and "same_step x (xs ! i)"
  shows "map ss_name (xs[i := x]) = map ss_name xs" and "map ss_effectId (xs[i := x]) = map ss_effectId xs"
proof -
  have "(map f xs)[i := f x] = map f xs" if "f x = f (xs ! i)" for f
    using assms(1) that by (metis list_update_id nth_map)
  then show "map ss_name (xs[i := x]) = map ss_name xs" "map ss_effectId (xs[i := x]) = map ss_effectId xs"
    using assms(2) by (metis map_update same_step_def)+
qed

lemma none_rolled_below:
  "steps_inv mx r \<Longrightarrow> i < length (sr_steps r) \<Longrightarrow> \<not> behind (ss_state (sr_steps r ! i)) \<Longrightarrow> k < i \<Longrightarrow> \<not> rolled (ss_state (sr_steps r ! k))"
proof
  assume a: "steps_inv mx r" "i < length (sr_steps r)" "\<not> behind (ss_state (sr_steps r ! i))" "k < i" "rolled (ss_state (sr_steps r ! k))"
  then have "k < length (sr_steps r)" by simp
  with a show False unfolding steps_inv_def by blast
qed

lemma change_inv:
  assumes "saga_change mx F N r r'" and "steps_inv mx r" and "N \<inter> ss_effectId ` set (sr_steps r) = {}"
  shows "steps_inv mx r'"
  using assms(1)
proof cases
  case (add x)
  then show ?thesis using assms(2,3) by (auto simp: steps_inv_def nth_append less_Suc_eq)
next
  case (settle i x)
  note names = same_step_map [OF settle(2,5)]
  have none: "\<forall>j < length (sr_steps r). \<not> rolled (ss_state (sr_steps r ! j))" and i: "\<not> behind (ss_state (sr_steps r ! i))"
    using assms(2) settle(2,3) by (auto simp: steps_inv_def behind_not_open)
  have x: "\<not> rolled (ss_state x)" "ss_state x = StepCommitted \<longrightarrow> ss_result x \<noteq> None" using settle(7) by auto
  have st: "sr_state r' \<noteq> SagaCompensated" using assms(2) settle(2,8) i by (auto simp: steps_inv_def)
  have "\<forall>k < length (sr_steps r). ss_attempts ((sr_steps r)[i := x] ! k) \<le> mx \<and> \<not> rolled (ss_state ((sr_steps r)[i := x] ! k))
      \<and> (ss_state ((sr_steps r)[i := x] ! k) = StepCommitted \<longrightarrow> ss_result ((sr_steps r)[i := x] ! k) \<noteq> None)"
    using assms(2) none x settle(2,6) by (auto simp: steps_inv_def nth_list_update)
  with assms(2) st show ?thesis unfolding steps_inv_def settle(1) names length_list_update by blast
next
  case (undo i x)
  note names = same_step_map [OF undo(2,6)]
  have "\<not> behind (ss_state (sr_steps r ! i))" "ss_result (sr_steps r ! i) \<noteq> None"
    using undo(2,5) assms(2) by (auto simp: steps_inv_def)
  with none_rolled_below [OF assms(2) undo(2)] show ?thesis using assms(2) undo unfolding steps_inv_def undo(1) names
    by (auto simp: nth_list_update behind_not_open dest: rolled_not_open)
next
  case (undone i x)
  note names = same_step_map [OF undone(2,4)]
  from none_rolled_below [OF assms(2) undone(2)] undone(3) show ?thesis using assms(2) undone unfolding steps_inv_def undone(1) names
    by (auto simp: nth_list_update behind_not_open dest: rolled_not_open)
qed (use assms(2) in \<open>auto simp: steps_inv_def final_def\<close>)

text \<open>Several writes, the records staying well formed.\<close>

definition saga_writes :: "nat \<Rightarrow> jstr set \<Rightarrow> jstr set \<Rightarrow> 'v saga_record \<Rightarrow> 'v saga_record \<Rightarrow> bool" where
  "saga_writes mx F N = (\<lambda>r r'. saga_write mx F N r r' \<and> steps_inv mx r')\<^sup>*\<^sup>*"

lemma writes_refl [simp]: "saga_writes mx F N r r"
  by (simp add: saga_writes_def)

lemma writes_one: "saga_write mx F N r r' \<Longrightarrow> steps_inv mx r' \<Longrightarrow> saga_writes mx F N r r'"
  by (auto simp: saga_writes_def)

lemma writes_trans: "saga_writes mx F N r r' \<Longrightarrow> saga_writes mx F N r' r'' \<Longrightarrow> saga_writes mx F N r r''"
  unfolding saga_writes_def by (rule rtranclp_trans)

lemma saga_change_mono: "saga_change mx F N r r' \<Longrightarrow> F \<subseteq> F' \<Longrightarrow> N \<subseteq> N' \<Longrightarrow> saga_change mx F' N' r r'"
  by (induction rule: saga_change.induct) (blast intro: saga_change.intros)+

lemma writes_mono: "saga_writes mx F N r r' \<Longrightarrow> F \<subseteq> F' \<Longrightarrow> N \<subseteq> N' \<Longrightarrow> saga_writes mx F' N' r r'"
  unfolding saga_writes_def by (erule rtranclp_mono [THEN predicate2D, rotated]) (auto simp: saga_write_def intro: saga_change_mono)

lemma writes_induct [consumes 1, case_names refl step]:
  assumes "saga_writes mx F N r r'" and "P r"
    and "\<And>u v. P u \<Longrightarrow> saga_write mx F N u v \<Longrightarrow> steps_inv mx v \<Longrightarrow> P v"
  shows "P r'"
  using assms(1) unfolding saga_writes_def by (induction rule: rtranclp_induct) (use assms(2,3) in auto)

lemma change_keeps:
  assumes "saga_change mx F N r r'" and "x \<in> set (sr_steps r)"
  shows "\<exists>y \<in> set (sr_steps r'). same_step y x \<and> ss_attempts x \<le> ss_attempts y
    \<and> (ss_state x = StepExecuting \<longrightarrow> ss_effectId x \<notin> F \<longrightarrow> ss_state y = StepExecuting)"
proof -
  have upd: "\<exists>y \<in> set ((sr_steps r)[i := z]). same_step y x \<and> ss_attempts x \<le> ss_attempts y
      \<and> (ss_state x = StepExecuting \<longrightarrow> ss_effectId x \<notin> F \<longrightarrow> ss_state y = StepExecuting)"
    if "i < length (sr_steps r)" "same_step z (sr_steps r ! i)" "ss_attempts (sr_steps r ! i) \<le> ss_attempts z"
      "ss_state (sr_steps r ! i) = StepExecuting \<Longrightarrow> ss_effectId (sr_steps r ! i) \<in> F" for i z
  proof -
    obtain k where k: "k < length (sr_steps r)" "x = sr_steps r ! k" using assms(2) by (auto simp: in_set_conv_nth)
    have m: "(if k = i then z else x) \<in> set ((sr_steps r)[i := z])"
    proof (cases "k = i")
      case False
      with k show ?thesis by (metis length_list_update nth_list_update_neq nth_mem)
    qed (use that(1) in \<open>simp add: set_update_memI\<close>)
    show ?thesis by (rule bexI [OF _ m]) (use that k(2) in \<open>auto simp: same_step_def\<close>)
  qed
  show ?thesis
    using assms(1)
  proof cases
    case (settle i z)
    from upd [of i z] settle show ?thesis unfolding settle(1) by auto
  next
    case (undo i z)
    from upd [of i z] undo show ?thesis unfolding undo(1) by auto
  next
    case (undone i z)
    from upd [of i z] undone show ?thesis unfolding undone(1) by auto
  qed (use assms(2) in \<open>auto simp: same_step_def\<close>)
qed

lemma writes_keep:
  assumes "saga_writes mx F N r r'" and "x \<in> set (sr_steps r)"
  shows "\<exists>y \<in> set (sr_steps r'). same_step y x \<and> ss_attempts x \<le> ss_attempts y
    \<and> (ss_state x = StepExecuting \<longrightarrow> ss_effectId x \<notin> F \<longrightarrow> ss_state y = StepExecuting)"
  using assms(1)
proof (induction rule: writes_induct)
  case (step u v)
  from step(1) obtain y where y: "y \<in> set (sr_steps u)" "same_step y x" "ss_attempts x \<le> ss_attempts y"
    "ss_state x = StepExecuting \<longrightarrow> ss_effectId x \<notin> F \<longrightarrow> ss_state y = StepExecuting" by blast
  from change_keeps [OF _ y(1)] step(2) obtain z where "z \<in> set (sr_steps v)" "same_step z y" "ss_attempts y \<le> ss_attempts z"
    "ss_state y = StepExecuting \<longrightarrow> ss_effectId y \<notin> F \<longrightarrow> ss_state z = StepExecuting" by (metis saga_write_def)
  with y show ?case by (intro bexI [of _ z]) (auto simp: same_step_def)
qed (use assms(2) in \<open>auto simp: same_step_def\<close>)

lemma writes_version:
  "saga_writes mx F N r r' \<Longrightarrow> sr_sagaId r' = sr_sagaId r \<and> (r' = r \<or> sr_version r < sr_version r')"
  by (induction rule: writes_induct) (auto simp: saga_write_def)

lemma writes_inv: "saga_writes mx F N r r' \<Longrightarrow> steps_inv mx r \<Longrightarrow> steps_inv mx r'"
  by (induction rule: writes_induct) auto

section \<open>The interface of the store\<close>

locale saga_store =
  fixes S :: "('v, 's) saga_ops"
    and ok :: "'s \<Rightarrow> bool"
  assumes create_law: "ok s \<Longrightarrow> so_create S r s = (b, s') \<Longrightarrow>
      ok s' \<and> b = (so_get S (sr_sagaId r) s = None) \<and> so_get S i s' = (if b \<and> i = sr_sagaId r then Some r else so_get S i s)"
    and cas_law: "ok s \<Longrightarrow> so_compareAndSet S sid v r s = (b, s') \<Longrightarrow>
      ok s' \<and> b = (\<exists>c. so_get S sid s = Some c \<and> transitionSaga (Some c) sid v r \<noteq> None)
      \<and> so_get S i s' = (if b \<and> i = sid then Some r else so_get S i s)"

lemma stamp_simps [simp]:
  "sr_steps (stamp E now cur upd) = sr_steps upd" "sr_state (stamp E now cur upd) = sr_state upd"
  "sr_sagaId (stamp E now cur upd) = sr_sagaId upd" "sr_version (stamp E now cur upd) = Suc (sr_version cur)"
  "sr_owner (stamp E now cur upd) = sr_owner upd"
  by (simp_all add: stamp_def)

lemma withSagaStep_simps [simp]:
  "sr_steps (withSagaStep r i x st now) = (sr_steps r)[i := x]" "sr_state (withSagaStep r i x st now) = st"
  "sr_sagaId (withSagaStep r i x st now) = sr_sagaId r" "sr_version (withSagaStep r i x st now) = sr_version r"
  "sr_owner (withSagaStep r i x st now) = sr_owner r"
  by (simp_all add: withSagaStep_def)

lemma change_cong:
  "saga_change mx F N r r' \<Longrightarrow> sr_steps r'' = sr_steps r' \<Longrightarrow> sr_state r'' = sr_state r' \<Longrightarrow> saga_change mx F N r r''"
  by (induction rule: saga_change.induct) (auto intro: saga_change.intros)

lemma index_where_Some: "index_where P xs = Some i \<Longrightarrow> i < length xs \<and> P (xs ! i) \<and> (\<forall>j < i. \<not> P (xs ! j))"
  by (auto simp: index_where_def Let_def split: if_splits dest: nth_length_takeWhile)
    (metis nth_mem set_takeWhileD takeWhile_nth)

lemma loadOwned_Inr: "loadOwned E me s = Inr r \<Longrightarrow> load E s = Inr r \<and> sr_owner r = Some me"
  by (auto simp: loadOwned_def split: sum.splits if_splits)

lemma load_Inr: "load E s = Inr r \<Longrightarrow> so_get (se_store E) (se_sagaId E) s = Some r \<and> sr_sagaId r = se_sagaId E"
  by (auto simp: load_def valid_saga_def split: option.splits if_splits)

lemma loadFor_Inr: "loadFor E ab s = Inr r \<Longrightarrow> load E s = Inr r"
  by (auto simp: loadFor_def split: sum.splits if_splits)

text \<open>A step that is being executed, or was committed while nothing was rolled back.\<close>

definition settles :: "jstr \<Rightarrow> 'v saga_record \<Rightarrow> bool" where
  "settles eff r \<longleftrightarrow>
     (\<forall>x \<in> set (sr_steps r). ss_effectId x = eff \<longrightarrow>
        open_exec (ss_state x) \<or> ss_state x = StepCommitted \<and> (\<forall>j < length (sr_steps r). \<not> rolled (ss_state (sr_steps r ! j))))"

text \<open>The copy of the record a compensating call keeps, against the stored one.\<close>

definition copy_of :: "'v saga_record \<Rightarrow> 'v saga_record \<Rightarrow> bool" where
  "copy_of r lr \<longleftrightarrow> sr_sagaId lr = sr_sagaId r \<and> sr_version lr \<le> sr_version r \<and> (sr_version lr = sr_version r \<longrightarrow> lr = r)"

definition visit_ok :: "nat \<Rightarrow> 'v saga_record \<Rightarrow> bool" where
  "visit_ok k lr \<longleftrightarrow>
     sr_state lr = SagaCompensating \<and> k \<le> length (sr_steps lr)
     \<and> (\<forall>j < length (sr_steps lr). \<not> unsettled (ss_state (sr_steps lr ! j)) \<and> (k \<le> j \<longrightarrow> behind (ss_state (sr_steps lr ! j))))"

definition undo_ok :: "nat \<Rightarrow> nat \<Rightarrow> 'v saga_record \<Rightarrow> bool" where
  "undo_ok mx i lr \<longleftrightarrow>
     sr_state lr = SagaCompensating \<and> i < length (sr_steps lr) \<and> ss_state (sr_steps lr ! i) = StepCompensating
     \<and> (\<forall>j < length (sr_steps lr). j \<noteq> i \<longrightarrow> \<not> unsettled (ss_state (sr_steps lr ! j)) \<and> (i < j \<longrightarrow> behind (ss_state (sr_steps lr ! j))))
     \<and> 1 \<le> ss_attempts (sr_steps lr ! i) \<and> ss_attempts (sr_steps lr ! i) \<le> mx \<and> ss_result (sr_steps lr ! i) \<noteq> None"

fun resolved_effects :: "'v resolution \<Rightarrow> jstr set" where
  "resolved_effects (ExecutionCommitted n eff v) = {eff}"
| "resolved_effects (ExecutionNotCommitted n eff c) = {eff}"
| "resolved_effects _ = {}"

lemma copy_refl [simp]: "copy_of r r"
  by (simp add: copy_of_def)

lemma copy_later: "copy_of r lr \<Longrightarrow> saga_writes mx F N r r' \<Longrightarrow> copy_of r' lr"
  by (drule writes_version) (auto simp: copy_of_def)

lemma unsettled_not_open: "\<not> unsettled st \<Longrightarrow> \<not> open_exec st"
  by (auto simp: unsettled_def open_exec_def)

lemma unsettled_cases: "unsettled st \<or> st = StepCommitted \<or> st = StepCompensationFailed \<or> behind st"
  by (cases st) (simp_all add: unsettled_def)

locale saga_engine_store = saga_store "se_store E" ok for E :: "('v, 's) saga_engine" and ok :: "'s \<Rightarrow> bool"
begin

abbreviation stored :: "'s \<Rightarrow> 'v saga_record option" where
  "stored s \<equiv> so_get (se_store E) (se_sagaId E) s"

lemma save_spec:
  assumes "ok s" and "stored s = Some r" and "sr_sagaId r = se_sagaId E" and "steps_inv mx r"
    and "sr_sagaId cur = se_sagaId E" and "sr_version cur = sr_version r \<Longrightarrow> cur = r" and "sr_sagaId upd = se_sagaId E"
    and "cur = r \<Longrightarrow> saga_change mx F N r upd" and "N \<inter> ss_effectId ` set (sr_steps r) = {}"
    and "save E now l cur upd s = (res, s')"
  shows "ok s' \<and> (\<exists>r'. stored s' = Some r' \<and> saga_writes mx F N r r'
    \<and> (r' = r \<or> cur = r \<and> r' = stamp E now cur upd) \<and> (\<forall>v. res = Inr v \<longrightarrow> cur = r \<and> r' = v \<and> v = stamp E now cur upd))"
proof -
  let ?v = "stamp E now cur upd"
  obtain b u where cas: "so_compareAndSet (se_store E) (se_sagaId E) (sr_version cur) ?v s = (b, u)"
    by (cases "so_compareAndSet (se_store E) (se_sagaId E) (sr_version cur) ?v s")
  have tr: "transitionSaga (Some c) (se_sagaId E) (sr_version cur) ?v \<noteq> None \<longleftrightarrow> sr_sagaId c = se_sagaId E \<and> sr_version c = sr_version cur" for c
    using assms(7) by (simp add: transitionSaga_def)
  note law = cas_law [OF assms(1) cas]
  have b: "b \<longleftrightarrow> sr_version r = sr_version cur" using law assms(2,3) tr by simp
  have wrote: "saga_writes mx F N r ?v" if b
  proof (rule writes_one)
    have cur: "cur = r" using that b assms(6) by simp
    from change_cong [OF assms(8) [OF cur]] have ch: "saga_change mx F N r ?v" by simp
    then show "saga_write mx F N r ?v" using assms(3,7) cur by (simp add: saga_write_def)
    show "steps_inv mx ?v" by (rule change_inv [OF ch assms(4,9)])
  qed
  have not_transition: "transitionSaga (Some cur) (se_sagaId E) (sr_version cur) ?v = Some ?v"
    using tr [of cur] assms(5) by (auto simp: transitionSaga_def split: if_splits)
  have sv: "save E now l cur upd s =
     (case l of Overtaken \<Rightarrow> (Inl Concurrency, s) | FaultBefore \<Rightarrow> (Inl StoreFault, s) | FaultAfter \<Rightarrow> (Inl StoreFault, u)
      | Clear \<Rightarrow> if b then (Inr ?v, u) else (Inl Concurrency, u))"
    by (cases l; cases b) (simp_all add: save_def Let_def assms(5) cas not_transition)
  have out: "s' = s \<and> (\<exists>e. res = Inl e) \<or> s' = u \<and> (\<forall>v. res = Inr v \<longrightarrow> b \<and> v = ?v)"
    using assms(10) unfolding sv by (cases l; cases b) auto
  show ?thesis
  proof (cases "b \<and> s' = u")
    case True
    then have "ok s'" "stored s' = Some ?v" using law [of "se_sagaId E"] by simp_all
    moreover have "cur = r" "saga_writes mx F N r ?v" using True wrote b assms(6) by simp_all
    ultimately show ?thesis using out True by blast
  next
    case False
    with out law [of "se_sagaId E"] assms(1,2) have "ok s'" "stored s' = Some r" "\<exists>e. res = Inl e" by (cases res, auto)+
    then show ?thesis using writes_refl by blast
  qed
qed

abbreviation good :: "'s \<Rightarrow> 'v saga_record \<Rightarrow> bool" where
  "good s r \<equiv> ok s \<and> stored s = Some r \<and> sr_sagaId r = se_sagaId E \<and> steps_inv (maxAttempts E) r"

abbreviation after :: "jstr set \<Rightarrow> jstr set \<Rightarrow> 's \<Rightarrow> 'v saga_record \<Rightarrow> 'v saga_record \<Rightarrow> bool" where
  "after F N s' r r' \<equiv> ok s' \<and> stored s' = Some r' \<and> saga_writes (maxAttempts E) F N r r'"

lemma after_good: "good s r \<Longrightarrow> after F N s' r r' \<Longrightarrow> good s' r'"
  using writes_version writes_inv by metis

lemma after_same: "good s r \<Longrightarrow> after F N s r r"
  by simp

lemma after_trans: "after F N s' r r' \<Longrightarrow> after F N s'' r' r'' \<Longrightarrow> after F N s'' r r''"
  using writes_trans by metis

lemma after_mono: "after F N s' r r' \<Longrightarrow> F \<subseteq> F' \<Longrightarrow> N \<subseteq> N' \<Longrightarrow> after F' N' s' r r'"
  using writes_mono by metis

lemma save_good:
  assumes "good s r" and "sr_sagaId cur = se_sagaId E" and "sr_version cur = sr_version r \<Longrightarrow> cur = r" and "sr_sagaId upd = se_sagaId E"
    and "cur = r \<Longrightarrow> saga_change (maxAttempts E) F N r upd" and "N \<inter> ss_effectId ` set (sr_steps r) = {}"
    and "save E now l cur upd s = (res, s')"
  obtains r' where "after F N s' r r'" and "r' = r \<or> cur = r \<and> r' = stamp E now cur upd"
    and "\<And>v. res = Inr v \<Longrightarrow> cur = r \<and> r' = v \<and> v = stamp E now cur upd"
proof -
  from save_spec [of s r _ cur upd, OF _ _ _ _ assms(2-7)] assms(1) obtain r' where r': "ok s'" "stored s' = Some r'"
    "saga_writes (maxAttempts E) F N r r'" "r' = r \<or> cur = r \<and> r' = stamp E now cur upd"
    "\<forall>v. res = Inr v \<longrightarrow> cur = r \<and> r' = v \<and> v = stamp E now cur upd" by blast
  show thesis by (rule that [of r']) (use r' in blast)+
qed

lemma save_loaded:
  assumes "good s r" and "sr_sagaId upd = se_sagaId E" and "saga_change (maxAttempts E) F N r upd"
    and "N \<inter> ss_effectId ` set (sr_steps r) = {}" and "save E now l r upd s = (res, s')"
  obtains r' where "after F N s' r r'" and "r' = r \<or> r' = stamp E now r upd"
    and "\<And>v. res = Inr v \<Longrightarrow> r' = v \<and> v = stamp E now r upd"
proof -
  have sid: "sr_sagaId r = se_sagaId E" using assms(1) by simp
  show thesis by (rule save_good [OF assms(1) sid refl assms(2,3,4,5)]) (rule that; simp)
qed

lemma load_good: "good s r \<Longrightarrow> load E s = Inr r' \<Longrightarrow> r' = r"
  by (drule load_Inr) simp

lemma claim_spec:
  assumes "good s r" and "claim E now l me r s = (res, s')"
  shows "\<exists>r'. after {} {} s' r r' \<and> (\<forall>v. res = Inr v \<longrightarrow> v = r' \<and> sr_steps v = sr_steps r \<and> sr_state v = sr_state r)"
proof (cases "sr_owner r = Some me \<or> res = Inl Concurrency \<and> s' = s")
  case True
  with assms have "s' = s" "\<forall>v. res = Inr v \<longrightarrow> v = r" by (auto simp: claim_def split: if_splits)
  with assms(1) show ?thesis by (intro exI [of _ r]) simp
next
  case False
  then have sv: "save E now l r (r\<lparr> sr_owner := Some me, sr_updatedAt := now \<rparr>) s = (res, s')"
    using assms(2) by (auto simp: claim_def split: if_splits)
  have ch: "saga_change (maxAttempts E) {} {} r (r\<lparr> sr_owner := Some me, sr_updatedAt := now \<rparr>)" by (rule saga_change.owner) simp_all
  have sid: "sr_sagaId (r\<lparr> sr_owner := Some me, sr_updatedAt := now \<rparr>) = se_sagaId E" using assms(1) by simp
  show ?thesis
  proof (rule save_loaded [OF assms(1) sid ch Int_empty_left sv])
    fix r' assume r': "after {} {} s' r r'"
      and v: "\<And>v. res = Inr v \<Longrightarrow> r' = v \<and> v = stamp E now r (r\<lparr> sr_owner := Some me, sr_updatedAt := now \<rparr>)"
    have "\<forall>v. res = Inr v \<longrightarrow> v = r' \<and> sr_steps v = sr_steps r \<and> sr_state v = sr_state r"
    proof (intro allI impI)
      fix u assume "res = Inr u"
      from v [OF this] show "u = r' \<and> sr_steps u = sr_steps r \<and> sr_state u = sr_state r" by simp
    qed
    with r' show ?thesis by blast
  qed
qed

lemma release_spec:
  assumes "good s r"
  shows "\<exists>r'. after {} {} (release E now l me s) r r'"
proof (cases "load E s")
  case (Inr r0)
  then have r0: "r0 = r" using load_good [OF assms] by blast
  show ?thesis
  proof (cases "sr_owner r = Some me")
    case True
    let ?u = "r\<lparr> sr_owner := None, sr_leaseUntil := None, sr_updatedAt := now \<rparr>"
    obtain res s' where sv: "save E now l r ?u s = (res, s')" by (cases "save E now l r ?u s")
    have ch: "saga_change (maxAttempts E) {} {} r ?u" by (rule saga_change.owner) simp_all
    have sid: "sr_sagaId ?u = se_sagaId E" using assms by simp
    obtain r' where "after {} {} s' r r'" by (rule save_loaded [OF assms sid ch Int_empty_left sv])
    with True show ?thesis by (intro exI [of _ r']) (simp add: release_def Inr r0 sv)
  qed (use assms in \<open>auto simp: release_def Inr r0\<close>)
qed (use assms in \<open>auto simp: release_def\<close>)

lemma found_step:
  assumes "index_where (\<lambda>x. ss_effectId x = eff) (sr_steps r) = Some i"
  shows "i < length (sr_steps r)" and "ss_effectId (sr_steps r ! i) = eff" and "sr_steps r ! i \<in> set (sr_steps r)"
  using index_where_Some [OF assms] by auto

lemma settle_save:
  assumes "good s r" and "settles eff r" and "index_where (\<lambda>x. ss_effectId x = eff) (sr_steps r) = Some i"
    and "ss_state x = StepFailed \<or> ss_state x = StepAmbiguous \<or> ss_state x = StepCommitted \<and> ss_result x \<noteq> None"
    and "same_step x (sr_steps r ! i)" and "ss_attempts x = ss_attempts (sr_steps r ! i)"
    and "st \<in> {sr_state r, SagaRunning, SagaCompensating, SagaManualReview}"
    and "save E now l r (withSagaStep r i x st now) s = (res, s')"
  shows "\<exists>r'. after {eff} {} s' r r' \<and> (ss_state x = StepCommitted \<longrightarrow> settles eff r')"
proof -
  note i = found_step [OF assms(3)]
  have ch: "saga_change (maxAttempts E) {eff} {} r (withSagaStep r i x st now)"
    by (rule saga_change.settle [where i = i and x = x]) (use assms(2,4-7) i in \<open>auto simp: settles_def\<close>)
  have sid: "sr_sagaId (withSagaStep r i x st now) = se_sagaId E" using assms(1) by simp
  obtain r' where r': "after {eff} {} s' r r'" "r' = r \<or> r' = stamp E now r (withSagaStep r i x st now)"
    by (rule save_loaded [OF assms(1) sid ch Int_empty_left assms(8)])
  have "settles eff (stamp E now r (withSagaStep r i x st now))" if c: "ss_state x = StepCommitted"
    unfolding settles_def
  proof (intro ballI impI)
    fix y assume y: "y \<in> set (sr_steps (stamp E now r (withSagaStep r i x st now)))" "ss_effectId y = eff"
    have none: "\<forall>j < length (sr_steps r). \<not> rolled (ss_state (sr_steps r ! j))"
      using assms(1,2) i by (fastforce simp: settles_def steps_inv_def)
    have "distinct (map ss_effectId (sr_steps r))" using assms(1) by (simp add: steps_inv_def)
    moreover obtain k where k: "k < length (sr_steps r)" "y = (if k = i then x else sr_steps r ! k)"
      using y(1) by (auto simp: in_set_conv_nth nth_list_update)
    ultimately have "k = i" using y(2) i assms(5) by (auto simp: distinct_conv_nth same_step_def split: if_splits)
    then have "y = x" using k by simp
    with c none i(1) show "open_exec (ss_state y) \<or> ss_state y = StepCommitted
        \<and> (\<forall>j < length (sr_steps (stamp E now r (withSagaStep r i x st now))).
             \<not> rolled (ss_state (sr_steps (stamp E now r (withSagaStep r i x st now)) ! j)))"
      by (auto simp: nth_list_update)
  qed
  with r' assms(2) show ?thesis by blast
qed

lemma step_failed_spec:
  assumes "good s r" and "settles eff r"
  shows "\<exists>r'. after {eff} {} (step_failed E now l me eff began nc s) r r'"
proof (cases "loadOwned E me s")
  case (Inr r0)
  have r0: "r0 = r" using load_good [OF assms(1)] loadOwned_Inr [OF Inr] by blast
  show ?thesis
  proof (cases "index_where (\<lambda>x. ss_effectId x = eff) (sr_steps r)")
    case (Some i)
    define known where "known = (nc \<noteq> None \<or> \<not> began)"
    define code where "code = (case nc of Some c \<Rightarrow> c | None \<Rightarrow> if began then js ''execution_unknown'' else js ''aborted_before_execution'')"
    define x where "x = (sr_steps r ! i)\<lparr> ss_state := (if known then StepFailed else StepAmbiguous), ss_errorCode := Some code \<rparr>"
    obtain res s' where sv: "save E now l r (withSagaStep r i x (if known then SagaCompensating else SagaManualReview) now) s = (res, s')"
      by (cases "save E now l r (withSagaStep r i x (if known then SagaCompensating else SagaManualReview) now) s")
    have "step_failed E now l me eff began nc s = s'"
      unfolding step_failed_def Inr r0 sum.case Some option.case Let_def using sv unfolding x_def known_def code_def by simp
    moreover have "\<exists>r'. after {eff} {} s' r r' \<and> (ss_state x = StepCommitted \<longrightarrow> settles eff r')"
      by (rule settle_save [OF assms Some _ _ _ _ sv]) (simp_all add: x_def same_step_def)
    ultimately show ?thesis by blast
  qed (use assms in \<open>auto simp: step_failed_def Inr r0\<close>)
qed (use assms in \<open>auto simp: step_failed_def\<close>)

lemma step_committed_spec:
  assumes "good s r" and "settles eff r" and "step_committed E now l me eff v s = (res, s')"
  shows "\<exists>r'. after {eff} {} s' r r' \<and> settles eff r'"
proof (cases "loadOwned E me s")
  case (Inr r0)
  have r0: "r0 = r" using load_good [OF assms(1)] loadOwned_Inr [OF Inr] by blast
  show ?thesis
  proof (cases "index_where (\<lambda>x. ss_effectId x = eff) (sr_steps r)")
    case (Some i)
    let ?x = "(sr_steps r ! i)\<lparr> ss_state := StepCommitted, ss_result := Some v \<rparr>"
    have sv: "save E now l r (withSagaStep r i ?x (sr_state r) now) s = (res, s')"
      using assms(3) unfolding step_committed_def Inr r0 sum.case Some option.case .
    have "\<exists>r'. after {eff} {} s' r r' \<and> (ss_state ?x = StepCommitted \<longrightarrow> settles eff r')"
      by (rule settle_save [OF assms(1,2) Some _ _ _ _ sv]) (simp_all add: same_step_def)
    then show ?thesis by simp
  qed (use assms in \<open>auto simp: step_committed_def Inr r0\<close>)
qed (use assms in \<open>auto simp: step_committed_def\<close>)

lemma step_settles_spec:
  assumes "good s r" and "settles eff r"
  shows "\<exists>r'. after {eff} {} (step_settles E now l l' me eff res s) r r'"
proof (cases res)
  case (Returned v)
  obtain u s' where c: "step_committed E now l me eff v s = (u, s')" by (cases "step_committed E now l me eff v s")
  from step_committed_spec [OF assms c] obtain r' where r': "after {eff} {} s' r r'" "settles eff r'" by blast
  show ?thesis
  proof (cases u)
    case (Inl e)
    from step_failed_spec [OF after_good [OF assms(1) r'(1)] r'(2)] obtain r'' where
      "after {eff} {} (step_failed E now l' me eff True None s') r' r''" by blast
    from after_trans [OF r'(1) this] show ?thesis by (auto simp: step_settles_def Returned c Inl)
  next
    case (Inr w)
    with r'(1) show ?thesis by (auto simp: step_settles_def Returned c)
  qed
qed (use step_failed_spec [OF assms] in \<open>simp_all add: step_settles_def\<close>)

lemma resume_begin_spec:
  assumes "good s r" and "resume_begin E now l ab me s = (b, s')"
  shows "\<exists>r'. after {} {} s' r r'"
proof (cases "loadFor E ab s")
  case (Inr r0)
  have r0: "r0 = r" using load_good [OF assms(1)] loadFor_Inr [OF Inr] by blast
  obtain res u where c: "claim E now l me r s = (res, u)" by (cases "claim E now l me r s")
  have "s' = s \<or> s' = u" using assms(2) by (auto simp: resume_begin_def Inr r0 c split: if_splits sum.splits)
  with claim_spec [OF assms(1) c] assms(1) show ?thesis by (metis writes_refl)
qed (use assms in \<open>auto simp: resume_begin_def\<close>)

lemma run_returned_spec:
  assumes "good s r" and "run_returned E now l me s = (res, s')"
  shows "\<exists>r'. after {} {} s' r r'"
proof (cases "loadOwned E me s")
  case (Inr r0)
  have r0: "r0 = r" using load_good [OF assms(1)] loadOwned_Inr [OF Inr] by blast
  show ?thesis
  proof (cases "sr_state r = SagaRunning")
    case True
    let ?u = "r\<lparr> sr_state := SagaCompleted, sr_updatedAt := now \<rparr>"
    obtain v u where sv: "save E now l r ?u s = (v, u)" by (cases "save E now l r ?u s")
    have ch: "saga_change (maxAttempts E) {} {} r ?u" by (rule saga_change.complete) (simp_all add: True)
    have sid: "sr_sagaId ?u = se_sagaId E" using assms(1) by simp
    have "s' = u" using assms(2) by (auto simp: run_returned_def Inr r0 True sv split: sum.splits)
    then show ?thesis using save_loaded [OF assms(1) sid ch Int_empty_left sv] by metis
  qed (use assms in \<open>auto simp: run_returned_def Inr r0\<close>)
qed (use assms in \<open>auto simp: run_returned_def\<close>)

lemma step_call_spec:
  assumes "good s r" and "eff \<notin> ss_effectId ` set (sr_steps r)" and "step_call E now l l' ab me name eff cid args s = (ans, s')"
  shows "\<exists>r'. after {eff} {eff} s' r r'
    \<and> (ans = Stored \<longrightarrow> name \<notin> ss_name ` set (sr_steps r)
         \<and> (\<exists>x \<in> set (sr_steps r'). ss_effectId x = eff \<and> ss_name x = name \<and> ss_state x = StepExecuting))"
proof (cases "\<exists>e. ans = Rejected e \<and> s' = s \<or> (\<exists>v. ans = Answered v \<and> s' = s)")
  case True
  with assms(1) show ?thesis by (intro exI [of _ r]) auto
next
  case False
  then obtain r0 where r0': "loadOwned E me s = Inr r0" "sr_state r0 = SagaRunning"
    using assms(3) by (auto simp: step_call_def split: if_splits sum.splits)
  have r0: "r0 = r" using load_good [OF assms(1)] loadOwned_Inr [OF r0'(1)] by blast
  note st = r0'(2) [unfolded r0]
  note body = assms(3) [unfolded step_call_def r0'(1) [unfolded r0] sum.case st]
  show ?thesis
  proof (cases "find (\<lambda>x. ss_name x = name) (sr_steps r)")
    case (Some x)
    let ?u = "r\<lparr> sr_state := SagaManualReview, sr_updatedAt := now \<rparr>"
    obtain v u where sv: "save E now l r ?u s = (v, u)" by (cases "save E now l r ?u s")
    have ch: "saga_change (maxAttempts E) {eff} {} r ?u" by (rule saga_change.park) (simp_all add: st final_def)
    have sid: "sr_sagaId ?u = se_sagaId E" using assms(1) by simp
    have "s' = u \<and> ans \<noteq> Stored" using body False by (auto simp: Some sv split: if_splits sum.splits)
    moreover obtain r' where r': "after {eff} {} u r r'" by (rule save_loaded [OF assms(1) sid ch Int_empty_left sv])
    moreover have "after {eff} {eff} u r r'" by (rule after_mono [OF r']) simp_all
    ultimately show ?thesis by blast
  next
    case None
    then have new: "name \<notin> ss_name ` set (sr_steps r)" by (auto simp: find_None_iff)
    let ?x = "new_step name eff cid args"
    let ?u = "r\<lparr> sr_steps := sr_steps r @ [?x], sr_updatedAt := now \<rparr>"
    obtain v u where sv: "save E now l r ?u s = (v, u)" by (cases "save E now l r ?u s")
    have ch: "saga_change (maxAttempts E) {eff} {eff} r ?u"
      by (rule saga_change.add [where x = ?x]) (use new in \<open>simp_all add: st new_step_def\<close>)
    have sid: "sr_sagaId ?u = se_sagaId E" using assms(1) by simp
    have fresh: "{eff} \<inter> ss_effectId ` set (sr_steps r) = {}" using assms(2) by auto
    obtain r1 where r1: "after {eff} {eff} u r r1" "r1 = r \<or> r1 = stamp E now r ?u" and ok: "\<And>w. v = Inr w \<Longrightarrow> r1 = w \<and> w = stamp E now r ?u"
      by (rule save_loaded [OF assms(1) sid ch fresh sv]) (rule that)
    have "open_exec (ss_state ?x)" by (simp add: new_step_def)
    then have "settles eff r1" using r1(2) assms(2) by (auto simp: settles_def)
    from step_failed_spec [OF after_good [OF assms(1) r1(1)] this] obtain r2 where
      r2: "after {eff} {} (step_failed E now l' me eff False None u) r1 r2" by blast
    show ?thesis
    proof (cases v)
      case (Inl e)
      have "s' = step_failed E now l' me eff False None u \<and> ans \<noteq> Stored"
        using body False by (auto simp: None sv Inl split: if_splits)
      moreover have "after {eff} {eff} (step_failed E now l' me eff False None u) r r2"
        by (rule after_trans [OF r1(1) after_mono [OF r2]]) simp_all
      ultimately show ?thesis by blast
    next
      case (Inr w)
      have "s' = u" using body False by (auto simp: None sv Inr split: if_splits)
      moreover have "?x \<in> set (sr_steps r1)" using ok [OF Inr] by simp
      then have "\<exists>x \<in> set (sr_steps r1). ss_effectId x = eff \<and> ss_name x = name \<and> ss_state x = StepExecuting"
        by (rule bexI [rotated]) (simp add: new_step_def)
      ultimately show ?thesis using r1(1) new by blast
    qed
  qed
qed

lemma compensate_begin_spec:
  assumes "good s r" and "compensate_begin E now l ab me s = (res, s')"
  shows "\<exists>r'. after {} {} s' r r' \<and> (\<forall>v. res = Inr (Some v) \<longrightarrow> v = r' \<and> \<not> final r')"
proof (cases "loadFor E ab s")
  case (Inr r0)
  have r0: "r0 = r" using load_good [OF assms(1)] loadFor_Inr [OF Inr] by blast
  obtain v u where c: "claim E now l me r s = (v, u)" by (cases "claim E now l me r s")
  show ?thesis
  proof (cases "final r")
    case True
    with assms show ?thesis by (intro exI [of _ r]) (auto simp: compensate_begin_def Inr r0 final_def)
  next
    case False
    from claim_spec [OF assms(1) c] obtain r' where r': "after {} {} u r r'"
      "\<forall>w. v = Inr w \<longrightarrow> w = r' \<and> sr_steps w = sr_steps r \<and> sr_state w = sr_state r" by blast
    have "s' = u" "\<forall>w. res = Inr (Some w) \<longrightarrow> v = Inr w"
      using assms(2) False by (auto simp: compensate_begin_def Inr r0 c final_def split: sum.splits)
    moreover have "w = r' \<and> \<not> final r'" if "v = Inr w" for w using r'(2) that False by (auto simp: final_def)
    ultimately show ?thesis using r'(1) by blast
  qed
qed (use assms in \<open>auto simp: compensate_begin_def\<close>)

lemma save_copy:
  assumes "good s r" and "copy_of r lr" and "sr_sagaId upd = sr_sagaId lr" and "lr = r \<Longrightarrow> saga_change (maxAttempts E) {} {} r upd"
    and "save E now l lr upd s = (res, s')"
  obtains r' where "after {} {} s' r r'" and "r' = r \<or> lr = r \<and> r' = stamp E now lr upd"
    and "\<And>v. res = Inr v \<Longrightarrow> lr = r \<and> r' = v \<and> v = stamp E now lr upd"
proof -
  have sid: "sr_sagaId lr = se_sagaId E" "sr_version lr = sr_version r \<Longrightarrow> lr = r" "sr_sagaId upd = se_sagaId E"
    using assms(1-3) by (auto simp: copy_of_def)
  show thesis by (rule save_good [OF assms(1) sid assms(4) Int_empty_left assms(5)]) (assumption | rule that; assumption)+
qed

lemma review_spec:
  assumes "good s r" and "copy_of r lr" and "\<not> final lr" and "compensate_review E now l lr s = (res, s')"
  shows "\<exists>r'. after {} {} s' r r' \<and> (\<forall>v. res = Inr v \<longrightarrow> copy_of r' v \<and> visit_ok (length (sr_steps v)) v)"
proof (cases "find (\<lambda>x. unsettled (ss_state x)) (sr_steps lr)")
  case (Some x)
  let ?u = "lr\<lparr> sr_state := SagaManualReview, sr_updatedAt := now \<rparr>"
  obtain v u where sv: "save E now l lr ?u s = (v, u)" by (cases "save E now l lr ?u s")
  have ch: "saga_change (maxAttempts E) {} {} r ?u" if "lr = r"
    by (rule saga_change.park) (use assms(3) that in simp_all)
  obtain r' where r': "after {} {} u r r'" by (rule save_copy [OF assms(1,2) _ ch sv]) simp_all
  have "(s' = s \<or> s' = u) \<and> (\<forall>v. res \<noteq> Inr v)"
    using assms(4) by (auto simp: compensate_review_def Let_def Some sv split: if_splits sum.splits)
  with r' assms(1) show ?thesis by (metis writes_refl)
next
  case None
  then have none: "\<forall>j < length (sr_steps lr). \<not> unsettled (ss_state (sr_steps lr ! j))" by (auto simp: find_None_iff)
  show ?thesis
  proof (cases "sr_state lr = SagaCompensating")
    case True
    then have "res = Inr lr" "s' = s" using assms(4) by (simp_all add: compensate_review_def None)
    moreover have "visit_ok (length (sr_steps lr)) lr" using True none by (simp add: visit_ok_def)
    ultimately show ?thesis using assms(1,2) by (intro exI [of _ r]) simp
  next
    case False
    let ?u = "lr\<lparr> sr_state := SagaCompensating, sr_updatedAt := now \<rparr>"
    have sv: "save E now l lr ?u s = (res, s')" using assms(4) False by (simp add: compensate_review_def None)
    have ch: "saga_change (maxAttempts E) {} {} r ?u" if "lr = r"
      by (rule saga_change.roll) (use assms(3) that in simp_all)
    obtain r' where r': "after {} {} s' r r'" "\<And>v. res = Inr v \<Longrightarrow> lr = r \<and> r' = v \<and> v = stamp E now lr ?u"
      by (rule save_copy [OF assms(1,2) _ ch sv]) (simp_all, rule that)
    have "copy_of r' v \<and> visit_ok (length (sr_steps v)) v" if "res = Inr v" for v
      using r'(2) [OF that] none by (auto simp: visit_ok_def)
    with r'(1) show ?thesis by blast
  qed
qed

lemma compensation_failed_spec:
  assumes "good s r" and "copy_of r lr"
    and P: "\<And>y st. lr = r \<Longrightarrow> same_step y x \<Longrightarrow> ss_result y = ss_result x \<Longrightarrow> ss_attempts y = ss_attempts x \<Longrightarrow>
      ss_state y = StepCompensationFailed \<Longrightarrow> st \<in> {SagaCompensating, SagaManualReview} \<Longrightarrow>
      saga_change (maxAttempts E) {} {} r (withSagaStep r i y st now)"
  shows "\<exists>r'. after {} {} (compensation_failed E now l l' i x lr s) r r'"
proof -
  have give_up: "\<exists>r''. after {} {} (snd (save E now l' lr (withSagaStep lr i y SagaManualReview now) u)) r r''"
    if "after {} {} u r r'" "r' = r \<or> lr \<noteq> r'" "same_step y x" "ss_result y = ss_result x" "ss_attempts y = ss_attempts x"
      "ss_state y = StepCompensationFailed" for u r' y
  proof -
    obtain res u' where sv: "save E now l' lr (withSagaStep lr i y SagaManualReview now) u = (res, u')"
      by (cases "save E now l' lr (withSagaStep lr i y SagaManualReview now) u")
    have g: "good u r'" by (rule after_good [OF assms(1) that(1)])
    have c: "copy_of r' lr" using copy_later [OF assms(2)] that(1) by blast
    have ch: "saga_change (maxAttempts E) {} {} r' (withSagaStep lr i y SagaManualReview now)" if "lr = r'"
      using P [of y SagaManualReview] that \<open>r' = r \<or> lr \<noteq> r'\<close> \<open>same_step y x\<close> \<open>ss_result y = ss_result x\<close>
        \<open>ss_attempts y = ss_attempts x\<close> \<open>ss_state y = StepCompensationFailed\<close> by auto
    obtain r'' where "after {} {} u' r' r''" by (rule save_copy [OF g c _ ch sv]) simp_all
    from after_trans [OF that(1) this] sv show ?thesis by auto
  qed
  have put: "\<exists>r''. after {} {} (case save E now l lr (withSagaStep lr i y st now) s of (Inr _, u) \<Rightarrow> u
      | (Inl _, u) \<Rightarrow> snd (save E now l' lr (withSagaStep lr i z SagaManualReview now) u)) r r''"
    if "same_step y x" "ss_result y = ss_result x" "ss_attempts y = ss_attempts x" "ss_state y = StepCompensationFailed"
      "st \<in> {SagaCompensating, SagaManualReview}"
      "same_step z x" "ss_result z = ss_result x" "ss_attempts z = ss_attempts x" "ss_state z = StepCompensationFailed" for y z st
  proof -
    obtain res u where sv: "save E now l lr (withSagaStep lr i y st now) s = (res, u)"
      by (cases "save E now l lr (withSagaStep lr i y st now) s")
    have ch: "saga_change (maxAttempts E) {} {} r (withSagaStep lr i y st now)" if "lr = r"
      using P [OF that \<open>same_step y x\<close> \<open>ss_result y = ss_result x\<close> \<open>ss_attempts y = ss_attempts x\<close>
        \<open>ss_state y = StepCompensationFailed\<close> \<open>st \<in> _\<close>] that by simp
    obtain r' where r': "after {} {} u r r'" "r' = r \<or> lr = r \<and> r' = stamp E now lr (withSagaStep lr i y st now)"
      by (rule save_copy [OF assms(1,2) _ ch sv]) simp_all
    have "r' = r \<or> lr \<noteq> r'"
    proof (rule disjCI)
      assume "\<not> lr \<noteq> r'"
      with r'(2) have "r' = r \<or> sr_version lr = Suc (sr_version lr)" by (metis stamp_simps(4))
      then show "r' = r" by simp
    qed
    from give_up [OF r'(1) this that(6-9)] r'(1) show ?thesis by (cases res) (auto simp: sv)
  qed
  have stay: "after {} {} s r r" using assms(1) by simp
  show ?thesis
  proof (cases "ss_attempts x \<ge> maxAttempts E")
    case True
    show ?thesis unfolding compensation_failed_def Let_def if_P [OF True] by (rule put) (simp_all add: same_step_def)
  next
    case False
    show ?thesis
    proof (cases "\<exists>d. backoffMs E (ss_attempts x) = Some d \<and> \<not> d < 0")
      case True
      then obtain d where d: "backoffMs E (ss_attempts x) = Some d" "\<not> d < 0" by blast
      show ?thesis
        unfolding compensation_failed_def Let_def if_not_P [OF False] d(1) option.case if_not_P [OF d(2)]
        by (rule put) (simp_all add: same_step_def)
    next
      case no: False
      have "compensation_failed E now l l' i x lr s = snd (save E now l' lr (withSagaStep lr i
          (x\<lparr> ss_state := StepCompensationFailed, ss_errorCode := Some (js ''invalid_retry_policy'') \<rparr>) SagaManualReview now) s)"
        using no False by (auto simp: compensation_failed_def Let_def split: option.split)
      then show ?thesis using give_up [OF stay, of "x\<lparr> ss_state := StepCompensationFailed, ss_errorCode := Some (js ''invalid_retry_policy'') \<rparr>"]
        by (simp add: same_step_def)
    qed
  qed
qed

lemma visit_undo:
  assumes "visit_ok (Suc i) lr" and "ss_state (sr_steps lr ! i) = StepCommitted \<or> ss_state (sr_steps lr ! i) = StepCompensationFailed"
    and "same_step y (attempt_of (sr_steps lr ! i))" and "ss_result y = ss_result (attempt_of (sr_steps lr ! i))"
    and "ss_attempts y = ss_attempts (attempt_of (sr_steps lr ! i))" and "rolled (ss_state y)" and "ss_attempts (sr_steps lr ! i) < maxAttempts E"
    and "st \<in> {SagaCompensating, SagaManualReview}"
  shows "saga_change (maxAttempts E) {} {} lr (withSagaStep lr i y st now)"
proof -
  have v: "sr_state lr = SagaCompensating" "i < length (sr_steps lr)"
    "\<forall>j < length (sr_steps lr). \<not> open_exec (ss_state (sr_steps lr ! j)) \<and> (i < j \<longrightarrow> behind (ss_state (sr_steps lr ! j)))"
    using assms(1) by (auto simp: visit_ok_def unsettled_not_open)
  show ?thesis
    by (rule saga_change.undo [where i = i and x = y]) (use v assms in \<open>auto simp: attempt_of_def same_step_def\<close>)
qed

lemma visit_spec:
  assumes "good s r" and "copy_of r lr" and "visit_ok k lr" and "compensate_visit E now l l' l'' ab ab' k lr s = ((ph, lr'), s')"
  shows "\<exists>r'. after {} {} s' r r' \<and>
    (ph = Over \<or> (\<exists>j. ph = Visit j \<and> copy_of r' lr' \<and> visit_ok j lr') \<or> (\<exists>i. ph = Undo i \<and> lr' = r' \<and> undo_ok (maxAttempts E) i lr'
       \<and> (\<forall>x \<in> set (sr_steps r). ss_name x = ss_name (sr_steps lr' ! i) \<longrightarrow> ss_attempts x < ss_attempts (sr_steps lr' ! i))))"
proof (cases k)
  case 0
  let ?u = "lr\<lparr> sr_state := SagaCompensated, sr_updatedAt := now \<rparr>"
  obtain v u where sv: "save E now l lr ?u s = (v, u)" by (cases "save E now l lr ?u s")
  have ch: "saga_change (maxAttempts E) {} {} r ?u" if "lr = r"
    by (rule saga_change.finish) (use assms(3) that 0 in \<open>auto simp: visit_ok_def final_def\<close>)
  obtain r' where "after {} {} u r r'" by (rule save_copy [OF assms(1,2) _ ch sv]) simp_all
  with assms(4) show ?thesis by (auto simp: compensate_visit_def 0 sv)
next
  case (Suc i)
  let ?st = "sr_steps lr ! i"
  let ?q = "lr\<lparr> sr_state := SagaManualReview, sr_updatedAt := now \<rparr>"
  have vis: "sr_state lr = SagaCompensating" "i < length (sr_steps lr)" "\<not> unsettled (ss_state ?st)"
    using assms(3) by (auto simp: visit_ok_def Suc)
  obtain v u where sv: "save E now l lr ?q s = (v, u)" by (cases "save E now l lr ?q s")
  have ch: "saga_change (maxAttempts E) {} {} r ?q" if "lr = r"
    by (rule saga_change.park) (use vis that in \<open>auto simp: final_def\<close>)
  obtain q where q: "after {} {} u r q" by (rule save_copy [OF assms(1,2) _ ch sv]) simp_all
  consider (stays) "ph = Over" "s' = s \<or> s' = u"
    | (next_step) "ph = Visit i" "lr' = lr" "s' = s" "behind (ss_state ?st)"
    | (failed) "ph = Over" "s' = compensation_failed E now l' l'' i (attempt_of ?st) lr s"
        "ss_state ?st = StepCommitted \<or> ss_state ?st = StepCompensationFailed" "ss_attempts ?st < maxAttempts E"
    | (starts) res u' where "save E now l lr (withSagaStep lr i (attempt_of ?st) (sr_state lr) now) s = (res, u')"
        "ss_state ?st = StepCommitted \<or> ss_state ?st = StepCompensationFailed" "ss_attempts ?st < maxAttempts E"
        "res = Inr lr' \<and> ph = Undo i \<and> s' = u' \<or> (\<forall>w. res \<noteq> Inr w) \<and> ph = Over \<and> s' = compensation_failed E now l' l'' i (attempt_of ?st) lr u'"
    using assms(4) unsettled_cases [of "ss_state ?st"] vis(3)
    by (simp add: compensate_visit_def Suc Let_def sv behind_def split: if_splits option.splits prod.splits sum.splits) metis+
  then show ?thesis
  proof cases
    case stays
    with q assms(1) show ?thesis by (metis writes_refl)
  next
    case next_step
    have "visit_ok i lr" using assms(3) next_step(4) by (auto simp: visit_ok_def Suc) (metis Suc_leI le_neq_implies_less)
    with next_step assms(1,2) show ?thesis by (intro exI [of _ r]) auto
  next
    case failed
    have "\<exists>r'. after {} {} (compensation_failed E now l' l'' i (attempt_of ?st) lr s) r r'"
      by (rule compensation_failed_spec [OF assms(1,2)]) (use visit_undo [OF assms(3) [unfolded Suc] failed(3) _ _ _ _ failed(4)] in auto)
    with failed show ?thesis by auto
  next
    case starts
    have ch: "saga_change (maxAttempts E) {} {} r (withSagaStep lr i (attempt_of ?st) (sr_state lr) now)" if "lr = r"
      using visit_undo [OF assms(3) [unfolded Suc] starts(2) _ _ _ _ starts(3), of "attempt_of ?st"] that vis(1)
      by (simp add: same_step_def attempt_of_def)
    have sid: "sr_sagaId (withSagaStep lr i (attempt_of ?st) (sr_state lr) now) = sr_sagaId lr" by simp
    obtain r1 where r1: "after {} {} u' r r1"
      and won: "\<And>v. res = Inr v \<Longrightarrow> lr = r \<and> r1 = v \<and> v = stamp E now lr (withSagaStep lr i (attempt_of ?st) (sr_state lr) now)"
      by (rule save_copy [OF assms(1,2) sid ch starts(1)]) (assumption | rule that; assumption)+
    from starts(4) show ?thesis
    proof
      assume won': "res = Inr lr' \<and> ph = Undo i \<and> s' = u'"
      then have lr: "lr = r" "r1 = lr'" "lr' = stamp E now lr (withSagaStep lr i (attempt_of ?st) (sr_state lr) now)" using won by blast+
      have st: "sr_steps lr' ! i = attempt_of ?st" "sr_steps lr' = (sr_steps lr)[i := attempt_of ?st]" "sr_state lr' = SagaCompensating"
        using lr(3) vis by simp_all
      have at: "ss_state (attempt_of ?st) = StepCompensating" "ss_attempts (attempt_of ?st) = Suc (ss_attempts ?st)"
        "ss_result (attempt_of ?st) = ss_result ?st" "ss_name (attempt_of ?st) = ss_name ?st"
        by (simp_all add: attempt_of_def)
      have "ss_result ?st \<noteq> None" using assms(1) lr(1) starts(2) vis(2) by (auto simp: steps_inv_def)
      then have "undo_ok (maxAttempts E) i lr'" using assms(3) vis(2) starts(3) st at
        by (auto simp: undo_ok_def visit_ok_def Suc)
      moreover have "ss_attempts x < ss_attempts (sr_steps lr' ! i)" if "x \<in> set (sr_steps r)" "ss_name x = ss_name (sr_steps lr' ! i)" for x
      proof -
        have d: "distinct (map ss_name (sr_steps r))" using assms(1) by (simp add: steps_inv_def)
        have "?st \<in> set (sr_steps r)" using vis(2) lr(1) by simp
        with d that have "x = ?st" unfolding st(1) at(4) by (metis distinct_map inj_onD)
        then show ?thesis by (simp add: st(1) at(2))
      qed
      ultimately show ?thesis using r1 won' lr(2) by blast
    next
      assume lost: "(\<forall>w. res \<noteq> Inr w) \<and> ph = Over \<and> s' = compensation_failed E now l' l'' i (attempt_of ?st) lr u'"
      have g: "good u' r1" by (rule after_good [OF assms(1) r1])
      have c: "copy_of r1 lr" using copy_later [OF assms(2)] r1 by blast
      have "\<exists>r'. after {} {} (compensation_failed E now l' l'' i (attempt_of ?st) lr u') r1 r'"
        by (rule compensation_failed_spec [OF g c]) (use visit_undo [OF assms(3) [unfolded Suc] starts(2) _ _ _ _ starts(3)] in auto)
      with lost after_trans [OF r1] show ?thesis by blast
    qed
  qed
qed

lemma compensator_ends_spec:
  assumes "good s r" and "copy_of r lr" and "undo_ok (maxAttempts E) i lr"
    and "compensate_settles E now l l' l'' succeeded i lr s = ((ph, lr'), s')"
  shows "\<exists>r'. after {} {} s' r r' \<and> (ph = Over \<or> (\<exists>j. ph = Visit j \<and> copy_of r' lr' \<and> visit_ok j lr'))"
proof -
  let ?st = "sr_steps lr ! i"
  let ?x = "?st\<lparr> ss_state := StepCompensated \<rparr>"
  have un: "sr_state lr = SagaCompensating" "i < length (sr_steps lr)" "ss_state ?st = StepCompensating"
    using assms(3) by (simp_all add: undo_ok_def)
  have ends: "saga_change (maxAttempts E) {} {} lr (withSagaStep lr i y st now)"
    if "same_step y ?st" "ss_result y = ss_result ?st" "ss_attempts y = ss_attempts ?st" "rolled (ss_state y)"
      "st \<in> {SagaCompensating, SagaManualReview}" for y st
    by (rule saga_change.undone [where i = i and x = y]) (use un that in simp_all)
  have failing: "\<exists>r'. after {} {} (compensation_failed E now l' l'' i x lr u) r r'"
    if "after {} {} u r r1" "same_step x ?st" "ss_result x = ss_result ?st" "ss_attempts x = ss_attempts ?st" for u r1 x
  proof -
    have g: "good u r1" by (rule after_good [OF assms(1) that(1)])
    have c: "copy_of r1 lr" using copy_later [OF assms(2)] that(1) by blast
    have "\<exists>r'. after {} {} (compensation_failed E now l' l'' i x lr u) r1 r'"
      by (rule compensation_failed_spec [OF g c]) (use ends that in \<open>auto simp: same_step_def\<close>)
    with after_trans [OF that(1)] show ?thesis by blast
  qed
  have same: "same_step ?x ?st" "ss_result ?x = ss_result ?st" "ss_attempts ?x = ss_attempts ?st" "same_step ?st ?st"
    by (simp_all add: same_step_def)
  show ?thesis
  proof (cases succeeded)
    case True
    obtain res u where sv: "save E now l lr (withSagaStep lr i ?x (sr_state lr) now) s = (res, u)"
      by (cases "save E now l lr (withSagaStep lr i ?x (sr_state lr) now) s")
    have ch: "saga_change (maxAttempts E) {} {} r (withSagaStep lr i ?x (sr_state lr) now)" if "lr = r"
      using ends [OF same(1-3)] that un(1) by simp
    have sid: "sr_sagaId (withSagaStep lr i ?x (sr_state lr) now) = sr_sagaId lr" by simp
    obtain r1 where r1: "after {} {} u r r1"
      and won: "\<And>v. res = Inr v \<Longrightarrow> lr = r \<and> r1 = v \<and> v = stamp E now lr (withSagaStep lr i ?x (sr_state lr) now)"
      by (rule save_copy [OF assms(1,2) sid ch sv]) (assumption | rule that; assumption)+
    show ?thesis
    proof (cases res)
      case (Inl e)
      with assms(4) True sv have "ph = Over" "s' = compensation_failed E now l' l'' i ?x lr u"
        by (auto simp: compensate_settles_def Let_def)
      with failing [OF r1 same(1-3)] show ?thesis by blast
    next
      case (Inr v)
      with assms(4) True sv have ph: "ph = Visit i" "lr' = v" "s' = u" by (auto simp: compensate_settles_def Let_def)
      have v: "r1 = v" "v = stamp E now lr (withSagaStep lr i ?x (sr_state lr) now)" using won [OF Inr] by blast+
      have "\<not> unsettled (ss_state ?x)" "behind (ss_state ?x)" by (simp_all add: unsettled_def)
      then have "visit_ok i lr'" using assms(3) un unfolding ph(2) v(2)
        by (auto simp: undo_ok_def visit_ok_def nth_list_update)
      with r1 ph v(1) show ?thesis by auto
    qed
  next
    case False
    with assms(4) have "ph = Over" "s' = compensation_failed E now l' l'' i ?st lr s" by (auto simp: compensate_settles_def Let_def)
    with failing [OF after_same [OF assms(1)] same(4) refl refl] show ?thesis by blast
  qed
qed

lemma resolve_spec:
  assumes "good s r"
  shows "\<exists>r'. after (resolved_effects res) {} (snd (resolveAmbiguity E now l res s)) r r'"
proof (cases "loadFor E False s")
  case (Inr r0)
  have r0: "r0 = r" using load_good [OF assms] loadFor_Inr [OF Inr] by blast
  have stay: "\<exists>r'. after (resolved_effects res) {} s r r'" using assms by auto
  show ?thesis
  proof (cases "index_where (\<lambda>x. ss_name x = resolves res) (sr_steps r)")
    case (Some i)
    have i: "i < length (sr_steps r)" using index_where_Some [OF Some] by simp
    show ?thesis
    proof (cases "resolved_step E res (sr_steps r ! i)")
      case (Inr p)
      obtain x st where p: "p = (x, st)" by (cases p)
      have ch: "saga_change (maxAttempts E) (resolved_effects res) {} r (withSagaStep r i x st now)"
      proof (cases res)
        case (ExecutionCommitted n eff v)
        show ?thesis by (rule saga_change.settle [where i = i and x = x])
          (use Inr i ExecutionCommitted p in \<open>auto simp: same_step_def open_exec_def split: if_splits\<close>)
      next
        case (ExecutionNotCommitted n eff c)
        show ?thesis by (rule saga_change.settle [where i = i and x = x])
          (use Inr i ExecutionNotCommitted p in \<open>auto simp: same_step_def open_exec_def Let_def split: if_splits\<close>)
      next
        case (CompensationDone n eff)
        show ?thesis by (rule saga_change.undone [where i = i and x = x])
          (use Inr i CompensationDone p in \<open>auto simp: same_step_def split: if_splits\<close>)
      next
        case (CompensationNotDone n eff)
        show ?thesis by (rule saga_change.undone [where i = i and x = x])
          (use Inr i CompensationNotDone p in \<open>auto simp: same_step_def split: if_splits\<close>)
      qed
      obtain v u where sv: "save E now l r (withSagaStep r i x st now) s = (v, u)" by (cases "save E now l r (withSagaStep r i x st now) s")
      have sid: "sr_sagaId (withSagaStep r i x st now) = se_sagaId E" using assms by simp
      obtain r' where "after (resolved_effects res) {} u r r'" by (rule save_loaded [OF assms sid ch Int_empty_left sv])
      then show ?thesis by (auto simp: resolveAmbiguity_def \<open>loadFor E False s = Inr r0\<close> r0 Some Inr p sv)
    qed (use stay in \<open>auto simp: resolveAmbiguity_def Inr r0 Some\<close>)
  qed (use stay in \<open>auto simp: resolveAmbiguity_def Inr r0\<close>)
qed (use assms in \<open>auto simp: resolveAmbiguity_def\<close>)

end

section \<open>The memory store keeps the interface\<close>

definition bucket_of :: "('st, jstr list) jmap \<Rightarrow> 'st \<Rightarrow> jstr list" where
  "bucket_of m st = (case map_of m st of None \<Rightarrow> [] | Some ids \<Rightarrow> ids)"

lemma bucket_of_set: "bucket_of (AList.update st ids m) st' = (if st' = st then ids else bucket_of m st')"
  by (simp add: bucket_of_def jm_get_set)

lemma bucket_of_add: "bucket_of (bucketAdd st sid m) st' =
    (if st' = st \<and> sid \<notin> set (bucket_of m st) then bucket_of m st @ [sid] else bucket_of m st')"
  by (simp add: bucketAdd_def Let_def bucket_of_set flip: bucket_of_def)

lemma bucket_of_move: "bucket_of (bucketMove a b sid m) st =
    (if a = b then bucket_of m st
     else if st = a then removeAll sid (bucket_of m a)
     else if st = b \<and> sid \<notin> set (bucket_of m b) then bucket_of m b @ [sid]
     else bucket_of m st)"
proof -
  have "bucket_of (case map_of m a of None \<Rightarrow> m | Some ids \<Rightarrow> AList.update a (removeAll sid ids) m) st'
      = (if st' = a then removeAll sid (bucket_of m a) else bucket_of m st')" for st'
    by (cases "map_of m a") (simp_all add: bucket_of_def jm_get_set)
  then show ?thesis by (simp add: bucketMove_def bucket_of_add)
qed

text \<open>Records under their own key; the index lists exactly the identifiers in each state, once.\<close>

definition mem_ok :: "'v memory_sagas \<Rightarrow> bool" where
  "mem_ok s \<longleftrightarrow>
     (\<forall>i r. map_of (ms_records s) i = Some r \<longrightarrow> sr_sagaId r = i)
     \<and> (\<forall>st. distinct (bucket_of (ms_byState s) st)
          \<and> (\<forall>i. i \<in> set (bucket_of (ms_byState s) st) \<longleftrightarrow> (\<exists>r. map_of (ms_records s) i = Some r \<and> sr_state r = st)))"

lemma memory_create_ok:
  assumes "mem_ok s" and "memory_create r s = (b, s')"
  shows "mem_ok s' \<and> b = (memory_get (sr_sagaId r) s = None)
    \<and> memory_get i s' = (if b \<and> i = sr_sagaId r then Some r else memory_get i s)"
proof (cases "map_of (ms_records s) (sr_sagaId r)")
  case None
  then have s': "b" "s' = s\<lparr> ms_records := AList.update (sr_sagaId r) r (ms_records s),
      ms_byState := bucketAdd (sr_state r) (sr_sagaId r) (ms_byState s) \<rparr>"
    using assms(2) by (auto simp: memory_create_def)
  have new: "sr_sagaId r \<notin> set (bucket_of (ms_byState s) st)" for st using assms(1) None by (simp add: mem_ok_def)
  have "mem_ok s'" using assms(1) None new by (auto simp: mem_ok_def s' bucket_of_add jm_get_set)
  with None s' show ?thesis by (simp add: memory_get_def jm_get_set)
qed (use assms in \<open>auto simp: memory_create_def memory_get_def\<close>)

lemma memory_cas_ok:
  assumes "mem_ok s" and "memory_compareAndSet sid v r s = (b, s')"
  shows "mem_ok s' \<and> b = (\<exists>c. memory_get sid s = Some c \<and> transitionSaga (Some c) sid v r \<noteq> None)
    \<and> memory_get i s' = (if b \<and> i = sid then Some r else memory_get i s)"
proof (cases "\<exists>c. map_of (ms_records s) sid = Some c \<and> transitionSaga (Some c) sid v r \<noteq> None")
  case True
  then obtain c where c: "map_of (ms_records s) sid = Some c" "transitionSaga (Some c) sid v r = Some r" "sr_sagaId r = sid"
    by (auto simp: transitionSaga_def split: if_splits)
  then have s': "b" "s' = s\<lparr> ms_records := AList.update sid r (ms_records s),
      ms_byState := bucketMove (sr_state c) (sr_state r) sid (ms_byState s) \<rparr>"
    using assms(2) by (auto simp: memory_compareAndSet_def Let_def)
  have "mem_ok s'" using assms(1) c unfolding mem_ok_def s'
    by (auto simp: bucket_of_move jm_get_set distinct_removeAll)
  with c s' show ?thesis by (simp add: memory_get_def jm_get_set)
next
  case False
  then have "b = False" "s' = s" using assms(2) by (auto simp: memory_compareAndSet_def Let_def split: option.splits)
  with assms(1) False show ?thesis by (auto simp: memory_get_def)
qed

lemma memory_saga_ops_simps [simp]:
  "so_create memory_saga_ops = memory_create" "so_get memory_saga_ops = memory_get" "so_compareAndSet memory_saga_ops = memory_compareAndSet"
  by (simp_all add: memory_saga_ops_def)

interpretation memory_sagas: saga_store memory_saga_ops mem_ok
  by (unfold_locales; unfold memory_saga_ops_simps; (rule memory_create_ok | rule memory_cas_ok); assumption)

definition memory_engine :: "saga_definition \<Rightarrow> jstr \<Rightarrow> int \<Rightarrow> ('v, 'v memory_sagas) saga_engine" where
  "memory_engine d sid leaseMs = \<lparr> se_store = memory_saga_ops, se_definition = d, se_sagaId = sid, se_leaseMs = leaseMs \<rparr>"

lemma memory_engine_simps [simp]:
  "se_store (memory_engine d sid leaseMs) = memory_saga_ops" "se_definition (memory_engine d sid leaseMs) = d"
  "se_sagaId (memory_engine d sid leaseMs) = sid" "se_leaseMs (memory_engine d sid leaseMs) = leaseMs"
  by (simp_all add: memory_engine_def)

interpretation memory_sagas_engine: saga_engine_store "memory_engine d sid leaseMs" mem_ok for d sid leaseMs
  by (rule saga_engine_store.intro, unfold memory_engine_simps, rule memory_sagas.saga_store_axioms)

end
