(* ===== verification/SagaRun.thy ===== *)
theory SagaRun
  imports Saga
begin

text \<open>
  The calls of a saga engine (\<open>durable-saga.ts\<close>), interleaved.

  \<^item> A call of \<open>resume\<close> or \<open>compensate\<close> is a \<open>saga_call\<close>: where it stands, the record it keeps, the steps it has in
    flight. An event is the next stretch of one call, the end of the user's code it waits for, its death, or a resolution
    by the operator. The log lists the executions and the attempts to compensate that were started.
  \<^item> \<open>run_world\<close>: every history makes only the writes of \<open>saga_change\<close>, and the calls agree with the stored record.
\<close>

section \<open>Calls and histories\<close>

record 'v saga_call =
  ca_body :: bool
  ca_phase :: call_phase
  ca_record :: "'v saga_record option"
  ca_steps :: "(jstr, jstr \<times> bool) jmap"

datatype 'v saga_log = ExecutionStarted jstr | CompensationStarted "'v saga_record" nat

record ('v, 's) saga_world =
  wo_store :: 's
  wo_calls :: "(jstr, 'v saga_call) jmap"
  wo_log :: "'v saga_log list"

datatype 'v saga_event =
    ResumeCalled jstr luck bool
  | CompensateCalled jstr luck bool
  | StepCalled jstr luck luck bool jstr jstr jstr 'v
  | StepBegins jstr jstr
  | StepAborts jstr jstr luck
  | StepSettles jstr jstr "'v step_end" luck luck
  | RunReturns jstr luck
  | RunThrows jstr bool
  | RollsBack jstr luck bool
  | Reviews jstr luck
  | Visits jstr luck luck luck bool bool
  | CompensatorEnds jstr luck luck luck bool
  | Releases jstr luck
  | Dies jstr
  | Resolved luck "'v resolution"

definition set_call :: "jstr \<Rightarrow> 'v saga_call \<Rightarrow> ('v, 's) saga_world \<Rightarrow> ('v, 's) saga_world" where
  "set_call me c w = w\<lparr> wo_calls := AList.update me c (wo_calls w) \<rparr>"

definition begun :: "saga_error + 'v saga_record option \<Rightarrow> call_phase \<times> 'v saga_record option" where
  "begun res = (case res of Inr (Some r) \<Rightarrow> (Review, Some r) | _ \<Rightarrow> (Over, None))"

text \<open>What a call does next; an event that does not fit its state changes nothing.\<close>

fun call_step :: "('v, 's) saga_engine \<Rightarrow> int \<Rightarrow> 'v saga_event \<Rightarrow> jstr \<Rightarrow> 'v saga_call \<Rightarrow> 's \<Rightarrow> 'v saga_call \<times> 's \<times> 'v saga_log list" where
  "call_step E now (StepCalled _ l l' aborted name eff cid args) me c s =
     (if \<not> ca_body c then (c, s, [])
      else
        (case step_call E now l l' aborted me name eff cid args s of
           (Stored, s') \<Rightarrow> (c\<lparr> ca_steps := AList.update eff (name, False) (ca_steps c) \<rparr>, s', [])
         | (_, s') \<Rightarrow> (c, s', [])))"
| "call_step E now (StepBegins _ eff) me c s =
     (case map_of (ca_steps c) eff of
        Some (name, False) \<Rightarrow> (c\<lparr> ca_steps := AList.update eff (name, True) (ca_steps c) \<rparr>, s, [ExecutionStarted name])
      | _ \<Rightarrow> (c, s, []))"
| "call_step E now (StepAborts _ eff l) me c s =
     (case map_of (ca_steps c) eff of
        Some (name, False) \<Rightarrow> (c\<lparr> ca_steps := AList.delete eff (ca_steps c) \<rparr>, step_failed E now l me eff False None s, [])
      | _ \<Rightarrow> (c, s, []))"
| "call_step E now (StepSettles _ eff res l l') me c s =
     (case map_of (ca_steps c) eff of
        Some (name, True) \<Rightarrow> (c\<lparr> ca_steps := AList.delete eff (ca_steps c) \<rparr>, step_settles E now l l' me eff res s, [])
      | _ \<Rightarrow> (c, s, []))"
| "call_step E now (RunReturns _ l) me c s =
     (if ca_phase c \<noteq> Body then (c, s, [])
      else
        (case run_returned E now l me s of
           (None, s') \<Rightarrow> (c\<lparr> ca_phase := Over \<rparr>, s', [])
         | (Some e, s') \<Rightarrow> (c\<lparr> ca_phase := (if rolls_back E me (e = Concurrency) s' then Caught else Over) \<rparr>, s', [])))"
| "call_step E now (RunThrows _ concurrency) me c s =
     (if ca_phase c \<noteq> Body then (c, s, [])
      else (c\<lparr> ca_phase := (if rolls_back E me concurrency s then Caught else Over) \<rparr>, s, []))"
| "call_step E now (RollsBack _ l aborted) me c s =
     (if ca_phase c \<noteq> Caught then (c, s, [])
      else
        (case compensate_begin E now l aborted me s of
           (res, s') \<Rightarrow> (c\<lparr> ca_phase := fst (begun res), ca_record := snd (begun res) \<rparr>, s', [])))"
| "call_step E now (Reviews _ l) me c s =
     (case (ca_phase c, ca_record c) of
        (Review, Some r) \<Rightarrow>
          (case compensate_review E now l r s of
             (Inr r', s') \<Rightarrow> (c\<lparr> ca_phase := (Visit (length (sr_steps r'))), ca_record := Some r' \<rparr>, s', [])
           | (Inl e, s') \<Rightarrow> (c\<lparr> ca_phase := Over \<rparr>, s', []))
      | _ \<Rightarrow> (c, s, []))"
| "call_step E now (Visits _ l l' l'' aborted aborted_then) me c s =
     (case (ca_phase c, ca_record c) of
        ((Visit k), Some r) \<Rightarrow>
          (case compensate_visit E now l l' l'' aborted aborted_then k r s of
             ((ph, r'), s') \<Rightarrow>
               (c\<lparr> ca_phase := ph, ca_record := Some r' \<rparr>, s',
                (case ph of Undo i \<Rightarrow> [CompensationStarted r' i] | _ \<Rightarrow> [])))
      | _ \<Rightarrow> (c, s, []))"
| "call_step E now (CompensatorEnds _ l l' l'' succeeded) me c s =
     (case (ca_phase c, ca_record c) of
        ((Undo i), Some r) \<Rightarrow>
          (case compensate_settles E now l l' l'' succeeded i r s of
             ((ph, r'), s') \<Rightarrow> (c\<lparr> ca_phase := ph, ca_record := Some r' \<rparr>, s', []))
      | _ \<Rightarrow> (c, s, []))"
| "call_step E now (Releases _ l) me c s =
     (if ca_phase c \<noteq> Over then (c, s, []) else (c, release E now l me s, []))"
| "call_step E now _ me c s = (c, s, [])"

fun actor :: "'v saga_event \<Rightarrow> jstr" where
  "actor (ResumeCalled me l ab) = me"
| "actor (CompensateCalled me l ab) = me"
| "actor (StepCalled me l l' ab name eff cid args) = me"
| "actor (StepBegins me eff) = me"
| "actor (StepAborts me eff l) = me"
| "actor (StepSettles me eff res l l') = me"
| "actor (RunReturns me l) = me"
| "actor (RunThrows me con) = me"
| "actor (RollsBack me l ab) = me"
| "actor (Reviews me l) = me"
| "actor (Visits me l l' l'' ab ab') = me"
| "actor (CompensatorEnds me l l' l'' ok) = me"
| "actor (Releases me l) = me"
| "actor (Dies me) = me"
| "actor (Resolved l res) = []"

definition saga_step :: "('v, 's) saga_engine \<Rightarrow> int \<times> 'v saga_event \<Rightarrow> ('v, 's) saga_world \<Rightarrow> ('v, 's) saga_world" where
  "saga_step E x w =
     (case x of (now, ev) \<Rightarrow>
        (case ev of
           Resolved l res \<Rightarrow> w\<lparr> wo_store := snd (resolveAmbiguity E now l res (wo_store w)) \<rparr>
         | Dies me \<Rightarrow> w\<lparr> wo_calls := AList.delete me (wo_calls w) \<rparr>
         | ResumeCalled me l aborted \<Rightarrow>
             (if map_of (wo_calls w) me \<noteq> None then w
              else
                (case resume_begin E now l aborted me (wo_store w) of
                   (running, s') \<Rightarrow>
                     set_call me \<lparr> ca_body = True, ca_phase = (if running then Body else Over), ca_record = None, ca_steps = [] \<rparr>
                       (w\<lparr> wo_store := s' \<rparr>)))
         | CompensateCalled me l aborted \<Rightarrow>
             (if map_of (wo_calls w) me \<noteq> None then w
              else
                (case compensate_begin E now l aborted me (wo_store w) of
                   (res, s') \<Rightarrow>
                     set_call me \<lparr> ca_body = False, ca_phase = fst (begun res), ca_record = snd (begun res), ca_steps = [] \<rparr>
                       (w\<lparr> wo_store := s' \<rparr>)))
         | _ \<Rightarrow>
             (case map_of (wo_calls w) (actor ev) of
                None \<Rightarrow> w
              | Some c \<Rightarrow>
                  (case call_step E now ev (actor ev) c (wo_store w) of
                     (c', s', lg) \<Rightarrow> set_call (actor ev) c' (w\<lparr> wo_store := s', wo_log := wo_log w @ lg \<rparr>)))))"

fun saga_run :: "('v, 's) saga_engine \<Rightarrow> (int \<times> 'v saga_event) list \<Rightarrow> ('v, 's) saga_world \<Rightarrow> ('v, 's) saga_world" where
  "saga_run E [] w = w"
| "saga_run E (x # xs) w = saga_run E xs (saga_step E x w)"

lemma step_acts:
  assumes "\<nexists>l res. ev = Resolved l res" and "\<nexists>me. ev = Dies me" and "\<nexists>me l ab. ev = ResumeCalled me l ab" and "\<nexists>me l ab. ev = CompensateCalled me l ab"
  shows "saga_step E (now, ev) w = (case map_of (wo_calls w) (actor ev) of None \<Rightarrow> w
    | Some c \<Rightarrow> (case call_step E now ev (actor ev) c (wo_store w) of
         (c', s', lg) \<Rightarrow> set_call (actor ev) c' (w\<lparr> wo_store := s', wo_log := wo_log w @ lg \<rparr>)))"
  using assms by (cases ev; hypsubst_thin; simp add: saga_step_def)

text \<open>The identifiers a history draws from \<open>crypto.randomUUID\<close>, which never repeats.\<close>

fun drawn :: "'v saga_event \<Rightarrow> jstr list" where
  "drawn (StepCalled me l l' ab name eff cid args) = [eff, cid]"
| "drawn (ResumeCalled me l ab) = [me]"
| "drawn (CompensateCalled me l ab) = [me]"
| "drawn _ = []"

definition fresh_ids :: "(int \<times> 'v saga_event) list \<Rightarrow> bool" where
  "fresh_ids xs \<longleftrightarrow> distinct (concat (map (\<lambda>x. drawn (snd x)) xs))"

text \<open>The operator resolves an execution only when the call that ran it is gone.\<close>

fun careful :: "'v saga_event \<Rightarrow> ('v, 's) saga_world \<Rightarrow> bool" where
  "careful (Resolved l (ExecutionCommitted n eff v)) w \<longleftrightarrow> list_all (\<lambda>c. map_of (ca_steps (snd c)) eff = None) (wo_calls w)"
| "careful (Resolved l (ExecutionNotCommitted n eff code)) w \<longleftrightarrow> list_all (\<lambda>c. map_of (ca_steps (snd c)) eff = None) (wo_calls w)"
| "careful _ w = True"

fun careful_run :: "('v, 's) saga_engine \<Rightarrow> (int \<times> 'v saga_event) list \<Rightarrow> ('v, 's) saga_world \<Rightarrow> bool" where
  "careful_run E [] w = True"
| "careful_run E (x # xs) w = (careful (snd x) w \<and> careful_run E xs (saga_step E x w))"

text \<open>The calls in flight against the stored record and the log.\<close>

definition phase_ok :: "nat \<Rightarrow> 'v saga_record \<Rightarrow> 'v saga_call \<Rightarrow> bool" where
  "phase_ok mx r c \<longleftrightarrow>
     (case ca_phase c of
        Review \<Rightarrow> (\<exists>lr. ca_record c = Some lr \<and> copy_of r lr \<and> \<not> final lr)
      | Visit k \<Rightarrow> (\<exists>lr. ca_record c = Some lr \<and> copy_of r lr \<and> visit_ok k lr)
      | Undo i \<Rightarrow> (\<exists>lr. ca_record c = Some lr \<and> copy_of r lr \<and> undo_ok mx i lr)
      | _ \<Rightarrow> True)"

definition call_ok :: "nat \<Rightarrow> 'v saga_record \<Rightarrow> 'v saga_call \<Rightarrow> bool" where
  "call_ok mx r c \<longleftrightarrow>
     (\<forall>eff n b. map_of (ca_steps c) eff = Some (n, b) \<longrightarrow>
        (\<exists>x \<in> set (sr_steps r). ss_effectId x = eff \<and> ss_name x = n \<and> ss_state x = StepExecuting))
     \<and> phase_ok mx r c"

fun executions :: "'v saga_log list \<Rightarrow> jstr list" where
  "executions [] = []"
| "executions (ExecutionStarted n # lg) = n # executions lg"
| "executions (CompensationStarted r i # lg) = executions lg"

fun compensations :: "'v saga_log list \<Rightarrow> ('v saga_record \<times> nat) list" where
  "compensations [] = []"
| "compensations (ExecutionStarted n # lg) = compensations lg"
| "compensations (CompensationStarted r i # lg) = (r, i) # compensations lg"

text \<open>Name and number of an attempt.\<close>

definition attempt :: "'v saga_record \<times> nat \<Rightarrow> jstr \<times> nat" where
  "attempt x = (ss_name (sr_steps (fst x) ! snd x), ss_attempts (sr_steps (fst x) ! snd x))"

text \<open>No effect belongs to two calls, and what has not begun is not in the log.\<close>

definition calls_ok :: "nat \<Rightarrow> 'v saga_record \<Rightarrow> (jstr, 'v saga_call) jmap \<Rightarrow> 'v saga_log list \<Rightarrow> bool" where
  "calls_ok mx r cs lg \<longleftrightarrow>
     (\<forall>me c. map_of cs me = Some c \<longrightarrow> call_ok mx r c \<and> (\<forall>eff n. map_of (ca_steps c) eff = Some (n, False) \<longrightarrow> n \<notin> set (executions lg)))
     \<and> (\<forall>me c me' c' eff. map_of cs me = Some c \<longrightarrow> map_of cs me' = Some c' \<longrightarrow> map_of (ca_steps c) eff \<noteq> None \<longrightarrow>
          map_of (ca_steps c') eff \<noteq> None \<longrightarrow> me = me')"

definition log_ok :: "nat \<Rightarrow> 'v saga_record \<Rightarrow> 'v saga_log list \<Rightarrow> bool" where
  "log_ok mx r lg \<longleftrightarrow>
     distinct (executions lg) \<and> set (executions lg) \<subseteq> ss_name ` set (sr_steps r)
     \<and> distinct (map attempt (compensations lg))
     \<and> (\<forall>x \<in> set (compensations lg). undo_ok mx (snd x) (fst x)
          \<and> (\<exists>y \<in> set (sr_steps r). ss_name y = fst (attempt x) \<and> snd (attempt x) \<le> ss_attempts y))"

lemma executions_append [simp]: "executions (lg @ lg') = executions lg @ executions lg'"
  by (induction lg rule: executions.induct) simp_all

lemma compensations_append [simp]: "compensations (lg @ lg') = compensations lg @ compensations lg'"
  by (induction lg rule: compensations.induct) simp_all

lemma in_compensations: "(r, i) \<in> set (compensations lg) \<longleftrightarrow> CompensationStarted r i \<in> set lg"
  by (induction lg rule: compensations.induct) auto

lemma phase_steps [simp]: "phase_ok mx r (c\<lparr> ca_steps := sts \<rparr>) = phase_ok mx r c"
  by (cases "ca_phase c") (simp_all add: phase_ok_def)

lemma phase_later: "phase_ok mx r c \<Longrightarrow> saga_writes mx F N r r' \<Longrightarrow> phase_ok mx r' c"
  using copy_later by (fastforce simp: phase_ok_def split: call_phase.splits)

lemma call_later:
  assumes "call_ok mx r c" and "saga_writes mx F N r r'" and "\<And>eff. eff \<in> F \<Longrightarrow> map_of (ca_steps c) eff = None"
  shows "call_ok mx r' c"
  unfolding call_ok_def
proof (intro conjI allI impI)
  fix eff n b assume m: "map_of (ca_steps c) eff = Some (n, b)"
  with assms(1) obtain x where x: "x \<in> set (sr_steps r)" "ss_effectId x = eff" "ss_name x = n" "ss_state x = StepExecuting"
    by (auto simp: call_ok_def)
  have "eff \<notin> F" using assms(3) m by auto
  with writes_keep [OF assms(2) x(1)] x show "\<exists>y \<in> set (sr_steps r'). ss_effectId y = eff \<and> ss_name y = n \<and> ss_state y = StepExecuting"
    by (auto simp: same_step_def)
qed (use assms phase_later in \<open>auto simp: call_ok_def\<close>)

lemma log_later:
  assumes "log_ok mx r lg" and "saga_writes mx F N r r'"
  shows "log_ok mx r' lg"
proof -
  have keep: "\<exists>y \<in> set (sr_steps r'). ss_name y = ss_name x \<and> ss_attempts x \<le> ss_attempts y" if "x \<in> set (sr_steps r)" for x
    using writes_keep [OF assms(2) that] by (auto simp: same_step_def)
  have sub: "ss_name ` set (sr_steps r) \<subseteq> ss_name ` set (sr_steps r')"
  proof
    fix n assume "n \<in> ss_name ` set (sr_steps r)"
    then obtain x where x: "x \<in> set (sr_steps r)" "n = ss_name x" by auto
    with keep [OF x(1)] obtain y where "y \<in> set (sr_steps r')" "ss_name y = n" by auto
    then show "n \<in> ss_name ` set (sr_steps r')" by auto
  qed
  have "\<exists>y \<in> set (sr_steps r'). ss_name y = n \<and> k \<le> ss_attempts y"
    if "\<exists>y \<in> set (sr_steps r). ss_name y = n \<and> k \<le> ss_attempts y" for n k
    using that keep by (metis order_trans)
  with sub assms(1) show ?thesis unfolding log_ok_def by blast
qed

lemma calls_later:
  assumes "calls_ok mx r cs lg" and "saga_writes mx F N r r'"
    and "\<And>me c eff. map_of cs me = Some c \<Longrightarrow> eff \<in> F \<Longrightarrow> map_of (ca_steps c) eff = None"
  shows "calls_ok mx r' cs lg"
proof -
  have "call_ok mx r' c" if "map_of cs me = Some c" for me c
  proof (rule call_later [OF _ assms(2)])
    show "call_ok mx r c" using assms(1) that by (auto simp: calls_ok_def)
  qed (rule assms(3) [OF that])
  with assms(1) show ?thesis unfolding calls_ok_def by blast
qed

lemma calls_update:
  assumes "calls_ok mx r cs lg" and "map_of cs me = Some c" and "call_ok mx r c'"
    and "\<And>eff n b. map_of (ca_steps c') eff = Some (n, b) \<Longrightarrow> map_of (ca_steps c) eff = Some (n, b)"
  shows "calls_ok mx r (AList.update me c' cs) lg"
proof -
  have some: "map_of (ca_steps c) eff \<noteq> None" if "map_of (ca_steps c') eff \<noteq> None" for eff using that assms(4) by auto
  let ?cs = "AList.update me c' cs"
  have 1: "call_ok mx r d \<and> (\<forall>eff n. map_of (ca_steps d) eff = Some (n, False) \<longrightarrow> n \<notin> set (executions lg))"
    if "map_of ?cs a = Some d" for a d
  proof (cases "a = me")
    case True
    with that have d: "d = c'" by (simp add: jm_get_set)
    have "n \<notin> set (executions lg)" if "map_of (ca_steps c') eff = Some (n, False)" for eff n
      using assms(1,2) assms(4) [OF that] unfolding calls_ok_def by blast
    with d assms(3) show ?thesis by blast
  next
    case False
    with that assms(1) show ?thesis by (simp add: jm_get_set calls_ok_def)
  qed
  have 2: "\<exists>u. map_of cs a = Some u \<and> map_of (ca_steps u) eff \<noteq> None"
    if "map_of ?cs a = Some d" "map_of (ca_steps d) eff \<noteq> None" for a d eff
    using that some assms(2) by (auto simp: jm_get_set split: if_splits)
  have 3: "a = b" if "map_of ?cs a = Some d" "map_of ?cs b = Some e" "map_of (ca_steps d) eff \<noteq> None" "map_of (ca_steps e) eff \<noteq> None" for a b d e eff
  proof -
    from 2 [OF that(1,3)] 2 [OF that(2,4)] assms(1) show ?thesis unfolding calls_ok_def by blast
  qed
  from 1 3 show ?thesis unfolding calls_ok_def by blast
qed

lemma calls_new:
  assumes "calls_ok mx r cs lg" and "map_of cs me = None" and "call_ok mx r c'" and "ca_steps c' = []"
  shows "calls_ok mx r (AList.update me c' cs) lg"
  unfolding calls_ok_def
proof (intro conjI allI impI)
  fix a d assume d: "map_of (AList.update me c' cs) a = Some d"
  show "call_ok mx r d" using d assms by (auto simp: jm_get_set calls_ok_def split: if_splits)
  fix eff n assume "map_of (ca_steps d) eff = Some (n, False)"
  with d assms(1,4) show "n \<notin> set (executions lg)" by (auto simp: jm_get_set calls_ok_def split: if_splits)
next
  fix a d b e eff
  assume d: "map_of (AList.update me c' cs) a = Some d" "map_of (AList.update me c' cs) b = Some e"
    and eff: "map_of (ca_steps d) eff \<noteq> None" "map_of (ca_steps e) eff \<noteq> None"
  have "d \<noteq> c'" "e \<noteq> c'" using eff assms(4) by auto
  with d have "map_of cs a = Some d" "map_of cs b = Some e" by (auto simp: jm_get_set split: if_splits)
  with eff assms(1) show "a = b" unfolding calls_ok_def by blast
qed

lemma calls_gone:
  assumes "calls_ok mx r cs lg"
  shows "calls_ok mx r (AList.delete me cs) lg"
proof -
  have "map_of cs a = Some d" if "map_of (AList.delete me cs) a = Some d" for a d
    using that by (auto simp: jm_get_delete split: if_splits)
  with assms show ?thesis unfolding calls_ok_def by blast
qed

text \<open>The three ways the invocations grow: a stored intent, its execution, an attempt to compensate.\<close>

lemma calls_add:
  assumes "calls_ok mx r cs lg" and c: "map_of cs me = Some c" and "x \<in> set (sr_steps r)" "ss_effectId x = eff" "ss_name x = n" "ss_state x = StepExecuting"
    and "\<And>a d. map_of cs a = Some d \<Longrightarrow> map_of (ca_steps d) eff = None" and "n \<notin> set (executions lg)"
  shows "calls_ok mx r (AList.update me (c\<lparr> ca_steps := AList.update eff (n, False) (ca_steps c) \<rparr>) cs) lg"
    (is "calls_ok mx r (AList.update me ?c cs) lg")
proof -
  have ok: "call_ok mx r c" "\<And>e m. map_of (ca_steps c) e = Some (m, False) \<Longrightarrow> m \<notin> set (executions lg)"
    using assms(1) c by (auto simp: calls_ok_def)
  have "call_ok mx r ?c" using ok(1) assms(3-6) by (auto simp: call_ok_def jm_get_set split: if_splits)
  have fresh: "m \<notin> set (executions lg)" if "map_of (ca_steps ?c) e = Some (m, False)" for e m
    using that ok(2) assms(8) by (auto simp: jm_get_set split: if_splits)
  have 1: "call_ok mx r d \<and> (\<forall>e m. map_of (ca_steps d) e = Some (m, False) \<longrightarrow> m \<notin> set (executions lg))"
    if d: "map_of (AList.update me ?c cs) a = Some d" for a d
  proof (cases "a = me")
    case True
    then have "d = ?c" using d by (simp add: jm_get_set)
    with \<open>call_ok mx r ?c\<close> fresh show ?thesis by blast
  qed (use d assms(1) in \<open>simp add: jm_get_set calls_ok_def\<close>)
  have 2: "a = b" if d: "map_of (AList.update me ?c cs) a = Some d" "map_of (AList.update me ?c cs) b = Some d'"
    and e: "map_of (ca_steps d) e \<noteq> None" "map_of (ca_steps d') e \<noteq> None" for a b d d' e
  proof (cases "e = eff")
    case True
    with d e assms(7) show ?thesis by (auto simp: jm_get_set split: if_splits)
  next
    case False
    have old: "\<exists>u. map_of cs a = Some u \<and> map_of (ca_steps u) e \<noteq> None"
      if "map_of (AList.update me ?c cs) a = Some d" "map_of (ca_steps d) e \<noteq> None" for a d
      using that c False by (auto simp: jm_get_set split: if_splits)
    from old [OF d(1) e(1)] old [OF d(2) e(2)] assms(1) show ?thesis unfolding calls_ok_def by blast
  qed
  from 1 2 show ?thesis unfolding calls_ok_def by blast
qed

lemma distinct_map_eq: "distinct (map f xs) \<Longrightarrow> x \<in> set xs \<Longrightarrow> y \<in> set xs \<Longrightarrow> f x = f y \<Longrightarrow> x = y"
  by (meson distinct_map inj_onD)

lemma calls_begin:
  assumes ok: "calls_ok mx r cs lg" and c: "map_of cs me = Some c" and e: "map_of (ca_steps c) eff = Some (n, False)"
    and dist: "distinct (map ss_name (sr_steps r))"
  shows "calls_ok mx r (AList.update me (c\<lparr> ca_steps := AList.update eff (n, True) (ca_steps c) \<rparr>) cs) (lg @ [ExecutionStarted n])"
    (is "calls_ok mx r (AList.update me ?c cs) ?lg")
proof -
  have inv: "\<exists>x \<in> set (sr_steps r). ss_effectId x = e' \<and> ss_name x = m \<and> ss_state x = StepExecuting"
    if "map_of cs a = Some d" "map_of (ca_steps d) e' = Some (m, b)" for a d e' m b
    using ok that unfolding calls_ok_def call_ok_def by blast
  have uniq: "e' = eff \<and> a = me" if d: "map_of cs a = Some d" "map_of (ca_steps d) e' = Some (n, b)" for a d e' b
  proof -
    from inv [OF d] inv [OF c e] distinct_map_eq [OF dist] have "e' = eff" by metis
    moreover have "a = me" using ok d c e calculation unfolding calls_ok_def by (metis option.distinct(1))
    ultimately show ?thesis by simp
  qed
  have 1: "call_ok mx r d \<and> (\<forall>e' m. map_of (ca_steps d) e' = Some (m, False) \<longrightarrow> m \<notin> set (executions ?lg))"
    if d: "map_of (AList.update me ?c cs) a = Some d" for a d
  proof (cases "a = me")
    case True
    have ok_c: "call_ok mx r c" "\<And>e' m. map_of (ca_steps c) e' = Some (m, False) \<Longrightarrow> m \<notin> set (executions lg)"
      using ok c by (auto simp: calls_ok_def)
    have "call_ok mx r ?c" using ok_c(1) e by (auto simp: call_ok_def jm_get_set split: if_splits)
    moreover have "m \<notin> set (executions ?lg)" if m: "map_of (ca_steps ?c) e' = Some (m, False)" for e' m
    proof -
      have "e' \<noteq> eff" "map_of (ca_steps c) e' = Some (m, False)" using m by (auto simp: jm_get_set split: if_splits)
      with ok_c(2) uniq [OF c] show ?thesis by auto
    qed
    moreover have "d = ?c" using d True by (simp add: jm_get_set)
    ultimately show ?thesis by blast
  next
    case False
    then have "map_of cs a = Some d" using d by (simp add: jm_get_set)
    with ok uniq [of a d] False show ?thesis by (auto simp: calls_ok_def)
  qed
  have 2: "a = b" if d: "map_of (AList.update me ?c cs) a = Some d" "map_of (AList.update me ?c cs) b = Some d'"
    and e': "map_of (ca_steps d) e' \<noteq> None" "map_of (ca_steps d') e' \<noteq> None" for a b d d' e'
  proof -
    have old: "\<exists>u. map_of cs a = Some u \<and> map_of (ca_steps u) e' \<noteq> None"
      if "map_of (AList.update me ?c cs) a = Some d" "map_of (ca_steps d) e' \<noteq> None" for a d
      using that c e by (auto simp: jm_get_set split: if_splits)
    from old [OF d(1) e'(1)] old [OF d(2) e'(2)] ok show ?thesis unfolding calls_ok_def by blast
  qed
  from 1 2 show ?thesis unfolding calls_ok_def by blast
qed

lemma log_begin:
  assumes "log_ok mx r lg" and "calls_ok mx r cs lg" and "map_of cs me = Some c" and "map_of (ca_steps c) eff = Some (n, False)"
  shows "log_ok mx r (lg @ [ExecutionStarted n])"
proof -
  have "n \<in> ss_name ` set (sr_steps r)" "n \<notin> set (executions lg)"
    using assms(2-4) unfolding calls_ok_def call_ok_def by force+
  with assms(1) show ?thesis by (auto simp: log_ok_def)
qed

lemma log_undo:
  assumes "log_ok mx r lg" and "saga_writes mx F N r lr" and "undo_ok mx i lr"
    and "\<forall>x \<in> set (sr_steps r). ss_name x = ss_name (sr_steps lr ! i) \<longrightarrow> ss_attempts x < ss_attempts (sr_steps lr ! i)"
  shows "log_ok mx lr (lg @ [CompensationStarted lr i])"
proof -
  have "attempt x \<noteq> attempt (lr, i)" if x: "x \<in> set (compensations lg)" for x
  proof
    assume eq: "attempt x = attempt (lr, i)"
    obtain y where "y \<in> set (sr_steps r)" "ss_name y = fst (attempt x)" "snd (attempt x) \<le> ss_attempts y"
      using assms(1) x unfolding log_ok_def by blast
    with eq assms(4) show False by (auto simp: attempt_def)
  qed
  then have "attempt (lr, i) \<notin> attempt ` set (compensations lg)" by force
  moreover have "\<exists>y \<in> set (sr_steps lr). ss_name y = fst (attempt (lr, i)) \<and> snd (attempt (lr, i)) \<le> ss_attempts y"
    using assms(3) by (intro bexI [of _ "sr_steps lr ! i"]) (auto simp: attempt_def undo_ok_def)
  ultimately show ?thesis using log_later [OF assms(1,2)] assms(3) by (simp add: log_ok_def)
qed

text \<open>New effects come from the events, and a compensated saga is over.\<close>

lemma writes_effects: "saga_writes mx F N r r' \<Longrightarrow> ss_effectId ` set (sr_steps r') \<subseteq> ss_effectId ` set (sr_steps r) \<union> N"
proof (induction rule: writes_induct)
  case (step u v)
  have "ss_effectId ` set (sr_steps v) \<subseteq> ss_effectId ` set (sr_steps u) \<union> N"
  proof -
    have upd: "ss_effectId ` set ((sr_steps u)[i := x]) \<subseteq> ss_effectId ` set (sr_steps u)"
      if "i < length (sr_steps u)" "same_step x (sr_steps u ! i)" for i x
      using same_step_map(2) [OF that] by (metis list.set_map order_refl)
    from step(2) have "saga_change mx F N u v" by (simp add: saga_write_def)
    then show ?thesis by cases (use upd in \<open>simp_all\<close>, (blast+)?)
  qed
  with step(1) show ?case by blast
qed simp

lemma writes_over: "saga_writes mx F N r r' \<Longrightarrow> steps_inv mx r \<Longrightarrow> sr_state r = SagaCompensated \<Longrightarrow>
    sr_steps r' = sr_steps r \<and> sr_state r' = SagaCompensated"
proof (induction rule: writes_induct)
  case (step u v)
  have st: "sr_state u = SagaCompensated" "sr_steps u = sr_steps r" using step by auto
  have all: "\<forall>i < length (sr_steps u). behind (ss_state (sr_steps u ! i))" using step(4,5) st(2) by (simp add: steps_inv_def)
  from step(2) have "saga_change mx F N u v" by (simp add: saga_write_def)
  then have "sr_steps v = sr_steps u \<and> sr_state v = SagaCompensated"
    by cases (use st(1) all in \<open>auto simp: final_def behind_not_open\<close>)
  with st show ?case by simp
qed simp

lemma phase_over [simp]: "ca_phase c = Body \<or> ca_phase c = Caught \<or> ca_phase c = Over \<Longrightarrow> phase_ok mx r c"
  by (auto simp: phase_ok_def)

definition effects_of :: "'v saga_record \<Rightarrow> jstr set" where
  "effects_of r = ss_effectId ` set (sr_steps r)"

lemma writes_any: "saga_writes mx {} {} r r' \<Longrightarrow> saga_writes mx UNIV N r r'"
  using writes_mono by fastforce

lemma call_ok_steps: "call_ok mx r c \<Longrightarrow> ca_steps c' = ca_steps c \<Longrightarrow> phase_ok mx r c' \<Longrightarrow> call_ok mx r c'"
  by (simp add: call_ok_def)

context saga_engine_store
begin

abbreviation mx :: nat where "mx \<equiv> maxAttempts E"

abbreviation world_ok :: "'s \<Rightarrow> 'v saga_record \<Rightarrow> (jstr, 'v saga_call) jmap \<Rightarrow> 'v saga_log list \<Rightarrow> bool" where
  "world_ok s r cs lg \<equiv> good s r \<and> calls_ok mx r cs lg \<and> log_ok mx r lg"

lemma world_quiet:
  assumes "world_ok s r cs lg" and "after {} {} s' r r'"
  shows "world_ok s' r' cs lg"
proof -
  have "calls_ok mx r' cs lg" by (rule calls_later [of mx r]) (use assms in auto)
  moreover have "log_ok mx r' lg" by (rule log_later) (use assms in auto)
  ultimately show ?thesis using after_good [of s r] assms by blast
qed

lemma world_phase:
  assumes "world_ok s r cs lg" and "map_of cs me = Some c" and "after {} {} s' r r'" and "ca_steps c' = ca_steps c" and "phase_ok mx r' c'"
  shows "world_ok s' r' (AList.update me c' cs) lg"
proof -
  have w: "world_ok s' r' cs lg" by (rule world_quiet [OF assms(1,3)])
  have "call_ok mx r' c" using w assms(2) by (auto simp: calls_ok_def)
  from call_ok_steps [OF this assms(4,5)] have "calls_ok mx r' (AList.update me c' cs) lg"
    using calls_update [of mx r' cs lg me c c'] w assms(2,4) by auto
  with w show ?thesis by blast
qed

lemma world_settled:
  assumes w: "world_ok s r cs lg" and c: "map_of cs me = Some c" and e: "map_of (ca_steps c) eff = Some v"
    and run: "settles eff r \<Longrightarrow> \<exists>r'. after {eff} {} s' r r'"
  shows "\<exists>r'. after {eff} {} s' r r' \<and> world_ok s' r' (AList.update me (c\<lparr> ca_steps := AList.delete eff (ca_steps c) \<rparr>) cs) lg"
    (is "\<exists>r'. _ \<and> world_ok s' r' (AList.update me ?c cs) lg")
proof -
  have ok: "call_ok mx r c" using w c by (auto simp: calls_ok_def)
  obtain n b where v: "v = (n, b)" by (cases v)
  with ok e obtain x where x: "x \<in> set (sr_steps r)" "ss_effectId x = eff" "ss_state x = StepExecuting" unfolding call_ok_def by blast
  have dist: "distinct (map ss_effectId (sr_steps r))" using w by (simp add: steps_inv_def)
  have "y = x" if "y \<in> set (sr_steps r)" "ss_effectId y = eff" for y
    using distinct_map_eq [OF dist that(1) x(1)] that(2) x(2) by simp
  then have "settles eff r" using x(3) unfolding settles_def by fastforce
  then obtain r' where r': "after {eff} {} s' r r'" using run by blast
  have "call_ok mx r ?c" using ok by (auto simp: call_ok_def jm_get_delete)
  then have c1: "calls_ok mx r (AList.update me ?c cs) lg"
    by (rule calls_update [of mx r cs lg me c ?c, rotated 2]) (use w c in \<open>auto simp: jm_get_delete split: if_splits\<close>)
  have "map_of (ca_steps d) eff = None" if "map_of (AList.update me ?c cs) a = Some d" for a d
  proof (cases "a = me")
    case False
    then have "map_of cs a = Some d" using that by (simp add: jm_get_set)
    with w c e False show ?thesis unfolding calls_ok_def by (metis option.distinct(1))
  qed (use that in \<open>auto simp: jm_get_set jm_get_delete\<close>)
  then have "calls_ok mx r' (AList.update me ?c cs) lg" by (intro calls_later [OF c1]) (use r' in auto)
  moreover have "log_ok mx r' lg" by (rule log_later) (use w r' in auto)
  ultimately show ?thesis using r' after_good [of s r] w by blast
qed

lemma step_called_world:
  assumes w: "world_ok s r cs lg" and c: "map_of cs me = Some c" and eff: "eff \<notin> effects_of r"
    and st: "call_step E now (StepCalled me l l' ab name eff cid args) me c s = (c', s', nl)"
  shows "\<exists>r'. saga_writes mx UNIV {eff, cid} r r' \<and> world_ok s' r' (AList.update me c' cs) (lg @ nl)"
proof (cases "ca_body c")
  case True
  obtain ans u where a: "step_call E now l l' ab me name eff cid args s = (ans, u)"
    by (cases "step_call E now l l' ab me name eff cid args s")
  have g: "good s r" using w by blast
  from step_call_spec [OF g eff [unfolded effects_of_def] a] obtain r' where r': "after {eff} {eff} u r r'"
    and stored: "ans = Stored \<Longrightarrow> name \<notin> ss_name ` set (sr_steps r)
      \<and> (\<exists>x \<in> set (sr_steps r'). ss_effectId x = eff \<and> ss_name x = name \<and> ss_state x = StepExecuting)" by blast
  have none: "map_of (ca_steps d) eff = None" if "map_of cs a = Some d" for a d
  proof (cases "map_of (ca_steps d) eff")
    case (Some v)
    have "call_ok mx r d" using w that by (auto simp: calls_ok_def)
    with Some eff show ?thesis unfolding call_ok_def effects_of_def by (cases v) force
  qed
  have later: "calls_ok mx r' cs lg" by (rule calls_later [of mx r]) (use w r' none in auto)
  have lg: "log_ok mx r' lg" by (rule log_later) (use w r' in auto)
  have any: "saga_writes mx UNIV {eff, cid} r r'" using r' writes_mono by fastforce
  have g': "good u r'" by (rule after_good [OF g r'])
  show ?thesis
  proof (cases "ans = Stored")
    case True
    with stored obtain x where x: "name \<notin> ss_name ` set (sr_steps r)" "x \<in> set (sr_steps r')" "ss_effectId x = eff" "ss_name x = name"
      "ss_state x = StepExecuting" by blast
    have "name \<notin> set (executions lg)" using x(1) w by (auto simp: log_ok_def)
    from calls_add [OF later c x(2-5) none this] any lg g' st show ?thesis using \<open>ca_body c\<close> True by (auto simp: a)
  next
    case False
    then have "c' = c" "s' = u" "nl = []" using st \<open>ca_body c\<close> by (auto simp: a split: step_answer.splits)
    moreover have "calls_ok mx r' (AList.update me c cs) lg"
      by (rule calls_update [OF later c]) (use later c in \<open>auto simp: calls_ok_def\<close>)
    ultimately show ?thesis using any lg g' by auto
  qed
next
  case False
  then have "c' = c" "s' = s" "nl = []" using st by auto
  moreover have "calls_ok mx r (AList.update me c cs) lg"
    by (rule calls_update [OF _ c]) (use w c in \<open>auto simp: calls_ok_def\<close>)
  ultimately show ?thesis using w by (intro exI [of _ r]) auto
qed

lemma world_still:
  assumes "world_ok s r cs lg" and "map_of cs me = Some c"
  shows "\<exists>r'. saga_writes mx UNIV N r r' \<and> world_ok s r' (AList.update me c cs) (lg @ [])"
proof -
  have "calls_ok mx r (AList.update me c cs) lg"
    by (rule calls_update [OF _ assms(2)]) (use assms in \<open>auto simp: calls_ok_def\<close>)
  with assms show ?thesis by (intro exI [of _ r]) simp
qed

lemma world_next:
  assumes "world_ok s r cs lg" and "map_of cs me = Some c" and "after {} {} s' r r'" and "ca_steps c' = ca_steps c" and "phase_ok mx r' c'"
  shows "\<exists>r'. saga_writes mx UNIV N r r' \<and> world_ok s' r' (AList.update me c' cs) (lg @ [])"
  using world_phase [OF assms] writes_any assms(3) by auto

lemma step_ends_world:
  assumes "world_ok s r cs lg" and "map_of cs me = Some c" and "map_of (ca_steps c) eff = Some v" and "settles eff r \<Longrightarrow> \<exists>r'. after {eff} {} s' r r'"
  shows "\<exists>r'. saga_writes mx UNIV N r r' \<and> world_ok s' r' (AList.update me (c\<lparr> ca_steps := AList.delete eff (ca_steps c) \<rparr>) cs) (lg @ [])"
proof -
  from world_settled [OF assms] obtain r' where r': "after {eff} {} s' r r'"
    "world_ok s' r' (AList.update me (c\<lparr> ca_steps := AList.delete eff (ca_steps c) \<rparr>) cs) lg" by blast
  have "saga_writes mx UNIV N r r'" by (rule writes_mono [of mx "{eff}" "{}"]) (use r' in auto)
  with r'(2) show ?thesis by auto
qed

lemma step_begins_world:
  assumes w: "world_ok s r cs lg" and c: "map_of cs me = Some c" and e: "map_of (ca_steps c) eff = Some (n, False)"
  shows "\<exists>r'. saga_writes mx UNIV N r r' \<and>
    world_ok s r' (AList.update me (c\<lparr> ca_steps := AList.update eff (n, True) (ca_steps c) \<rparr>) cs) (lg @ [ExecutionStarted n])"
proof -
  have "distinct (map ss_name (sr_steps r))" using w by (simp add: steps_inv_def)
  with w have "calls_ok mx r (AList.update me (c\<lparr> ca_steps := AList.update eff (n, True) (ca_steps c) \<rparr>) cs) (lg @ [ExecutionStarted n])"
    by (intro calls_begin [OF _ c e]) auto
  moreover have "log_ok mx r (lg @ [ExecutionStarted n])" by (rule log_begin [OF _ _ c e]) (use w in auto)
  ultimately show ?thesis using w by (intro exI [of _ r]) simp
qed

lemma visit_world:
  assumes w: "world_ok s r cs lg" and c: "map_of cs me = Some c" and ph: "ca_phase c = Visit k" "ca_record c = Some lr"
    and v: "compensate_visit E now l l' l'' ab ab' k lr s = ((p, lr'), s')"
  shows "\<exists>r'. saga_writes mx UNIV N r r' \<and> world_ok s' r' (AList.update me (c\<lparr> ca_phase := p, ca_record := Some lr' \<rparr>) cs)
    (lg @ (case p of Undo i \<Rightarrow> [CompensationStarted lr' i] | _ \<Rightarrow> []))"
    (is "\<exists>r'. _ \<and> world_ok s' r' (AList.update me ?c cs) _")
proof -
  have "call_ok mx r c" using w c by (auto simp: calls_ok_def)
  then have lr: "copy_of r lr" "visit_ok k lr" using ph by (auto simp: call_ok_def phase_ok_def)
  have g: "good s r" using w by blast
  from visit_spec [OF g lr v] obtain r' where r': "after {} {} s' r r'"
    and p: "p = Over \<or> (\<exists>j. p = Visit j \<and> copy_of r' lr' \<and> visit_ok j lr') \<or> (\<exists>i. p = Undo i \<and> lr' = r' \<and> undo_ok mx i lr'
       \<and> (\<forall>x \<in> set (sr_steps r). ss_name x = ss_name (sr_steps lr' ! i) \<longrightarrow> ss_attempts x < ss_attempts (sr_steps lr' ! i)))" by blast
  have "phase_ok mx r' ?c" using p by (auto simp: phase_ok_def)
  note w' = world_phase [OF w c r' _ this, simplified]
  from p show ?thesis
  proof (elim disjE exE conjE)
    fix i assume i: "p = Undo i" "lr' = r'" "undo_ok mx i lr'"
      "\<forall>x \<in> set (sr_steps r). ss_name x = ss_name (sr_steps lr' ! i) \<longrightarrow> ss_attempts x < ss_attempts (sr_steps lr' ! i)"
    have "log_ok mx r' (lg @ [CompensationStarted r' i])"
      by (rule log_undo [of mx r lg "{}" "{}"]) (use w r' i in auto)
    moreover have "calls_ok mx r' (AList.update me ?c cs) (lg @ [CompensationStarted r' i])" using w' by (simp add: calls_ok_def)
    ultimately show ?thesis using w' r' writes_any i(1,2) by auto
  qed (use w' r' writes_any in auto)
qed

lemma call_step_world:
  assumes w: "world_ok s r cs lg" and c: "map_of cs (actor ev) = Some c" and fr: "set (drawn ev) \<inter> effects_of r = {}"
    and st: "call_step E now ev (actor ev) c s = (c', s', nl)"
  shows "\<exists>r'. saga_writes mx UNIV (set (drawn ev)) r r' \<and> world_ok s' r' (AList.update (actor ev) c' cs) (lg @ nl)"
proof -
  note still = world_still [OF w c]
  have g: "good s r" using w by blast
  have ph: "phase_ok mx r c" using w c by (auto simp: calls_ok_def call_ok_def)
  note nxt = world_next [OF w c]
  show ?thesis
  proof (cases ev)
    case (StepCalled me l l' ab name eff cid args)
    have "call_step E now (StepCalled me l l' ab name eff cid args) me c s = (c', s', nl)" using st StepCalled by simp
    from step_called_world [OF w _ _ this] c fr show ?thesis unfolding StepCalled by simp
  next
    case (StepBegins me eff)
    show ?thesis
    proof (cases "\<exists>n. map_of (ca_steps c) eff = Some (n, False)")
      case True
      then obtain n where n: "map_of (ca_steps c) eff = Some (n, False)" by blast
      from step_begins_world [OF w c n] st show ?thesis by (auto simp: StepBegins n)
    next
      case False
      then have "c' = c" "s' = s" "nl = []" using st by (auto simp: StepBegins split: option.splits prod.splits bool.splits)
      then show ?thesis using still by simp
    qed
  next
    case (StepAborts me eff l)
    show ?thesis
    proof (cases "\<exists>n. map_of (ca_steps c) eff = Some (n, False)")
      case True
      then obtain n where n: "map_of (ca_steps c) eff = Some (n, False)" by blast
      from step_ends_world [OF w c n step_failed_spec [OF g]] st show ?thesis by (auto simp: StepAborts n)
    next
      case False
      then have "c' = c" "s' = s" "nl = []" using st by (auto simp: StepAborts split: option.splits prod.splits bool.splits)
      then show ?thesis using still by simp
    qed
  next
    case (StepSettles me eff res l l')
    show ?thesis
    proof (cases "\<exists>n. map_of (ca_steps c) eff = Some (n, True)")
      case True
      then obtain n where n: "map_of (ca_steps c) eff = Some (n, True)" by blast
      from step_ends_world [OF w c n step_settles_spec [OF g]] st show ?thesis by (auto simp: StepSettles n)
    next
      case False
      then have "c' = c" "s' = s" "nl = []" using st by (auto simp: StepSettles split: option.splits prod.splits bool.splits)
      then show ?thesis using still by simp
    qed
  next
    case (RunReturns me l)
    show ?thesis
    proof (cases "ca_phase c = Body")
      case True
      obtain res u where rr: "run_returned E now l me s = (res, u)" by (cases "run_returned E now l me s")
      from run_returned_spec [OF g rr] obtain r' where r': "after {} {} u r r'" by blast
      have "s' = u" "nl = []" "ca_steps c' = ca_steps c" "ca_phase c' = Over \<or> ca_phase c' = Caught"
        using st True by (auto simp: RunReturns rr split: option.splits)
      then show ?thesis using nxt [OF r', of c'] phase_over [of c' mx r'] by auto
    qed (use still st in \<open>simp add: RunReturns\<close>)
  next
    case (RunThrows me con)
    show ?thesis
    proof (cases "ca_phase c = Body")
      case True
      have "s' = s" "nl = []" "ca_steps c' = ca_steps c" "ca_phase c' = Over \<or> ca_phase c' = Caught"
        using st True by (auto simp: RunThrows)
      then show ?thesis using nxt [OF after_same [OF g], of c'] phase_over [of c' mx r] by auto
    qed (use still st in \<open>simp add: RunThrows\<close>)
  next
    case (RollsBack me l ab)
    show ?thesis
    proof (cases "ca_phase c = Caught")
      case True
      obtain res u where rr: "compensate_begin E now l ab me s = (res, u)" by (cases "compensate_begin E now l ab me s")
      from compensate_begin_spec [OF g rr] obtain r' where r': "after {} {} u r r'" "\<forall>v. res = Inr (Some v) \<longrightarrow> v = r' \<and> \<not> final r'" by blast
      have c': "s' = u" "nl = []" "c' = c\<lparr> ca_phase := fst (begun res), ca_record := snd (begun res) \<rparr>"
        using st True by (auto simp: RollsBack rr)
      have "phase_ok mx r' c'" unfolding c' using r'(2) by (auto simp: phase_ok_def begun_def split: sum.splits option.splits)
      then show ?thesis using nxt [OF r'(1), of c'] c' by simp
    qed (use still st in \<open>simp add: RollsBack\<close>)
  next
    case (Reviews me l)
    show ?thesis
    proof (cases "ca_phase c = Review")
      case True
      with ph obtain lr where lr: "ca_record c = Some lr" "copy_of r lr" "\<not> final lr" by (auto simp: phase_ok_def)
      obtain res u where rr: "compensate_review E now l lr s = (res, u)" by (cases "compensate_review E now l lr s")
      from review_spec [OF g lr(2,3) rr] obtain r' where r': "after {} {} u r r'"
        "\<forall>v. res = Inr v \<longrightarrow> copy_of r' v \<and> visit_ok (length (sr_steps v)) v" by blast
      have "s' = u" "nl = []" "ca_steps c' = ca_steps c" "phase_ok mx r' c'"
        using st True lr(1) r'(2) by (auto simp: Reviews rr phase_ok_def split: sum.splits)
      then show ?thesis using nxt [OF r'(1), of c'] by simp
    qed (use still st in \<open>auto simp: Reviews split: call_phase.splits\<close>)
  next
    case (Visits me l l' l'' ab ab')
    show ?thesis
    proof (cases "\<exists>k. ca_phase c = Visit k")
      case True
      then obtain k where k: "ca_phase c = Visit k" by blast
      with ph obtain lr where lr: "ca_record c = Some lr" by (auto simp: phase_ok_def)
      obtain p lr' u where v: "compensate_visit E now l l' l'' ab ab' k lr s = ((p, lr'), u)"
        by (metis surj_pair)
      from visit_world [OF w c k lr v] st show ?thesis by (auto simp: Visits k lr v)
    qed (use still st in \<open>auto simp: Visits split: call_phase.splits\<close>)
  next
    case (CompensatorEnds me l l' l'' succeeded)
    show ?thesis
    proof (cases "\<exists>i. ca_phase c = Undo i")
      case True
      then obtain i where i: "ca_phase c = Undo i" by blast
      with ph obtain lr where lr: "ca_record c = Some lr" "copy_of r lr" "undo_ok mx i lr" by (auto simp: phase_ok_def)
      obtain p lr' u where v: "compensate_settles E now l l' l'' succeeded i lr s = ((p, lr'), u)"
        by (metis surj_pair)
      from compensator_ends_spec [OF g lr(2,3) v] obtain r' where r': "after {} {} u r r'"
        "p = Over \<or> (\<exists>j. p = Visit j \<and> copy_of r' lr' \<and> visit_ok j lr')" by blast
      have c': "s' = u" "nl = []" "c' = c\<lparr> ca_phase := p, ca_record := Some lr' \<rparr>" using st i lr(1) by (auto simp: CompensatorEnds v)
      have "phase_ok mx r' c'" unfolding c' using r'(2) by (auto simp: phase_ok_def)
      then show ?thesis using nxt [OF r'(1), of c'] c' by simp
    qed (use still st in \<open>auto simp: CompensatorEnds split: call_phase.splits\<close>)
  next
    case (Releases me l)
    show ?thesis
    proof (cases "ca_phase c = Over")
      case True
      from release_spec [OF g] obtain r' where r': "after {} {} (release E now l me s) r r'" by blast
      have "s' = release E now l me s" "nl = []" "c' = c" using st True by (auto simp: Releases)
      then show ?thesis using nxt [OF r', of c] True by simp
    qed (use still st in \<open>simp add: Releases\<close>)
  qed (use still st in simp_all)
qed

lemma resolved_world:
  assumes w: "world_ok s r cs lg" and res: "\<And>a d eff. map_of cs a = Some d \<Longrightarrow> eff \<in> resolved_effects res \<Longrightarrow> map_of (ca_steps d) eff = None"
  shows "\<exists>r'. saga_writes mx UNIV N r r' \<and> world_ok (snd (resolveAmbiguity E now l res s)) r' cs lg"
proof -
  have g: "good s r" using w by blast
  from resolve_spec [OF g] obtain r' where r': "after (resolved_effects res) {} (snd (resolveAmbiguity E now l res s)) r r'" by blast
  have "calls_ok mx r' cs lg" by (rule calls_later [of mx r]) (use w r' res in auto)
  moreover have "log_ok mx r' lg" by (rule log_later) (use w r' in auto)
  moreover have "saga_writes mx UNIV N r r'" by (rule writes_mono [of mx "resolved_effects res" "{}"]) (use r' in auto)
  ultimately show ?thesis using after_good [OF g r'] by blast
qed

lemma careful_resolved:
  assumes "careful (Resolved l res) w" and "map_of (wo_calls w) a = Some d" and "eff \<in> resolved_effects res"
  shows "map_of (ca_steps d) eff = None"
proof -
  have "(a, d) \<in> set (wo_calls w)" using assms(2) by (rule map_of_SomeD)
  with assms(1,3) show ?thesis by (cases res) (auto simp: list_all_iff)
qed

lemma new_call_world:
  assumes w: "world_ok s r cs lg" and "map_of cs me = None" and r': "after {} {} s' r r'" and c: "ca_steps c = []" "phase_ok mx r' c"
  shows "\<exists>r'. saga_writes mx UNIV N r r' \<and> world_ok s' r' (AList.update me c cs) lg"
proof -
  have w': "world_ok s' r' cs lg" by (rule world_quiet [OF w r'])
  have "call_ok mx r' c" using c by (simp add: call_ok_def)
  then have "calls_ok mx r' (AList.update me c cs) lg" using calls_new [OF _ assms(2) _ c(1)] w' by blast
  with w' r' writes_any show ?thesis by blast
qed

lemma step_world:
  assumes w: "world_ok (wo_store w) r (wo_calls w) (wo_log w)" and care: "careful ev w" and fr: "set (drawn ev) \<inter> effects_of r = {}"
  shows "\<exists>r'. saga_writes mx UNIV (set (drawn ev)) r r' \<and>
    world_ok (wo_store (saga_step E (now, ev) w)) r' (wo_calls (saga_step E (now, ev) w)) (wo_log (saga_step E (now, ev) w))"
    (is "?goal (saga_step E (now, ev) w)")
proof -
  have g: "good (wo_store w) r" using w by blast
  have same: "?goal w" using w by (intro exI [of _ r]) simp
  show ?thesis
  proof (cases "(\<exists>l res. ev = Resolved l res) \<or> (\<exists>me. ev = Dies me) \<or> (\<exists>me l ab. ev = ResumeCalled me l ab) \<or> (\<exists>me l ab. ev = CompensateCalled me l ab)")
    case False
    show ?thesis
    proof (cases "map_of (wo_calls w) (actor ev)")
      case None
      with False same show ?thesis by (simp add: step_acts)
    next
      case (Some c)
      obtain c' s' nl where st: "call_step E now ev (actor ev) c (wo_store w) = (c', s', nl)" by (metis surj_pair)
      have "saga_step E (now, ev) w = set_call (actor ev) c' (w\<lparr> wo_store := s', wo_log := wo_log w @ nl \<rparr>)"
        using False Some st by (simp add: step_acts)
      with call_step_world [OF w Some fr st] show ?thesis by (simp add: set_call_def)
    qed
  next
    case True
    then show ?thesis
    proof (elim disjE exE)
      fix l res assume ev: "ev = Resolved l res"
      from resolved_world [OF w careful_resolved [OF care [unfolded ev]]] show ?thesis by (simp add: saga_step_def ev)
    next
      fix me assume ev: "ev = Dies me"
      have "world_ok (wo_store w) r (AList.delete me (wo_calls w)) (wo_log w)" using w calls_gone by blast
      then show ?thesis by (intro exI [of _ r]) (simp add: saga_step_def ev)
    next
      fix me l ab assume ev: "ev = ResumeCalled me l ab"
      show ?thesis
      proof (cases "map_of (wo_calls w) me")
        case None
        obtain b u where b: "resume_begin E now l ab me (wo_store w) = (b, u)" by (metis surj_pair)
        from resume_begin_spec [OF g b] obtain r' where r': "after {} {} u r r'" by blast
        from new_call_world [OF w None r', of "\<lparr> ca_body = True, ca_phase = (if b then Body else Over), ca_record = None, ca_steps = [] \<rparr>"]
        show ?thesis by (simp add: saga_step_def ev None b set_call_def)
      next
        case (Some c)
        with same show ?thesis by (simp add: saga_step_def ev)
      qed
    next
      fix me l ab assume ev: "ev = CompensateCalled me l ab"
      show ?thesis
      proof (cases "map_of (wo_calls w) me")
        case None
        obtain res u where b: "compensate_begin E now l ab me (wo_store w) = (res, u)" by (metis surj_pair)
        from compensate_begin_spec [OF g b] obtain r' where r': "after {} {} u r r'"
          "\<forall>v. res = Inr (Some v) \<longrightarrow> v = r' \<and> \<not> final r'" by blast
        let ?c = "\<lparr> ca_body = False, ca_phase = fst (begun res), ca_record = snd (begun res), ca_steps = [] \<rparr> :: 'v saga_call"
        have "phase_ok mx r' ?c" using r'(2) by (auto simp: phase_ok_def begun_def split: sum.splits option.splits)
        from new_call_world [OF w None r'(1) _ this] show ?thesis by (simp add: saga_step_def ev None b set_call_def)
      next
        case (Some c)
        with same show ?thesis by (simp add: saga_step_def ev)
      qed
    qed
  qed
qed

lemma run_world:
  assumes "world_ok (wo_store w) r (wo_calls w) (wo_log w)" and "careful_run E xs w"
    and "distinct (concat (map (\<lambda>x. drawn (snd x)) xs))" and "set (concat (map (\<lambda>x. drawn (snd x)) xs)) \<inter> effects_of r = {}"
  shows "\<exists>r'. saga_writes mx UNIV (set (concat (map (\<lambda>x. drawn (snd x)) xs))) r r' \<and>
    world_ok (wo_store (saga_run E xs w)) r' (wo_calls (saga_run E xs w)) (wo_log (saga_run E xs w))"
  using assms
proof (induction xs arbitrary: w r)
  case Nil
  then show ?case by (intro exI [of _ r]) simp
next
  case (Cons x xs)
  obtain now ev where x: "x = (now, ev)" by (cases x)
  have "careful ev w" "set (drawn ev) \<inter> effects_of r = {}" using Cons.prems(2,4) by (auto simp: x)
  from step_world [OF Cons.prems(1) this, of now] obtain r1 where r1: "saga_writes mx UNIV (set (drawn ev)) r r1"
    "world_ok (wo_store (saga_step E x w)) r1 (wo_calls (saga_step E x w)) (wo_log (saga_step E x w))" unfolding x by blast
  have eff: "effects_of r1 \<subseteq> effects_of r \<union> set (drawn ev)" unfolding effects_of_def by (rule writes_effects [OF r1(1)])
  have d: "distinct (concat (map (\<lambda>x. drawn (snd x)) xs))" using Cons.prems(3) by simp
  have "set (drawn ev) \<inter> set (concat (map (\<lambda>x. drawn (snd x)) xs)) = {}" using Cons.prems(3) unfolding x by simp
  with eff Cons.prems(4) have "set (concat (map (\<lambda>x. drawn (snd x)) xs)) \<inter> effects_of r1 = {}" unfolding x by auto
  from Cons.IH [OF r1(2) _ d this] Cons.prems(2) obtain r' where r': "saga_writes mx UNIV (set (concat (map (\<lambda>x. drawn (snd x)) xs))) r1 r'"
    "world_ok (wo_store (saga_run E (x # xs) w)) r' (wo_calls (saga_run E (x # xs) w)) (wo_log (saga_run E (x # xs) w))" by auto
  have "saga_writes mx UNIV (set (concat (map (\<lambda>x. drawn (snd x)) (x # xs)))) r r'"
    by (rule writes_trans [OF writes_mono [OF r1(1)] writes_mono [OF r'(1)]]) (auto simp: x)
  with r'(2) show ?case by blast
qed

lemma execute_world:
  assumes "ok s" and "execute_saga E now ab input s = (Inr (), s')"
  shows "\<exists>r. world_ok s' r [] [] \<and> effects_of r = {}"
proof -
  let ?r = "\<lparr> sr_sagaId = se_sagaId E, sr_definition = sd_name (se_definition E), sr_state = SagaRunning, sr_input = input,
    sr_steps = [], sr_createdAt = now, sr_updatedAt = now, sr_version = 1, sr_owner = None, sr_leaseUntil = None \<rparr> :: 'v saga_record"
  have "so_create (se_store E) ?r s = (True, s')"
    using assms(2) by (auto simp: execute_saga_def split: if_splits prod.splits bool.splits)
  from create_law [OF assms(1) this, of "se_sagaId E"] show ?thesis
    by (intro exI [of _ ?r]) (simp add: steps_inv_def calls_ok_def log_ok_def effects_of_def)
qed

lemma executed_run:
  assumes "ok s" and "execute_saga E now ab input s = (Inr (), s')" and "w = \<lparr> wo_store = s', wo_calls = [], wo_log = [] \<rparr>"
    and "fresh_ids xs" and "careful_run E xs w"
  shows "\<exists>r. world_ok (wo_store (saga_run E xs w)) r (wo_calls (saga_run E xs w)) (wo_log (saga_run E xs w))
    \<and> effects_of r \<subseteq> set (concat (map (\<lambda>x. drawn (snd x)) xs))"
proof -
  from execute_world [OF assms(1,2)] obtain r where r: "world_ok s' r [] []" "effects_of r = {}" by blast
  then have "world_ok (wo_store w) r (wo_calls w) (wo_log w)" by (simp add: assms(3))
  from run_world [OF this assms(5)] assms(4) r(2) obtain r' where r': "saga_writes mx UNIV (set (concat (map (\<lambda>x. drawn (snd x)) xs))) r r'"
    "world_ok (wo_store (saga_run E xs w)) r' (wo_calls (saga_run E xs w)) (wo_log (saga_run E xs w))"
    unfolding fresh_ids_def by auto
  from writes_effects [OF r'(1)] r(2) have "effects_of r' \<subseteq> set (concat (map (\<lambda>x. drawn (snd x)) xs))" by (simp add: effects_of_def)
  with r'(2) show ?thesis by blast
qed

lemma compensated_stays:
  assumes "ok s" and "execute_saga E now ab input s = (Inr (), s')" and "w = \<lparr> wo_store = s', wo_calls = [], wo_log = [] \<rparr>"
    and "fresh_ids (xs @ ys)" and "careful_run E (xs @ ys) w"
    and "stored (wo_store (saga_run E xs w)) = Some r" and "sr_state r = SagaCompensated"
  shows "list_all (\<lambda>x. behind (ss_state x)) (sr_steps r) \<and> (\<exists>r'. stored (wo_store (saga_run E (xs @ ys) w)) = Some r'
    \<and> sr_steps r' = sr_steps r \<and> sr_state r' = SagaCompensated)"
proof -
  have app: "saga_run E (xs @ ys) w = saga_run E ys (saga_run E xs w)" for w by (induction xs arbitrary: w) simp_all
  have care: "careful_run E (xs @ ys) w \<longleftrightarrow> careful_run E xs w \<and> careful_run E ys (saga_run E xs w)" for w
    by (induction xs arbitrary: w) simp_all
  have fr: "fresh_ids xs" "distinct (concat (map (\<lambda>x. drawn (snd x)) ys))"
    "set (concat (map (\<lambda>x. drawn (snd x)) xs)) \<inter> set (concat (map (\<lambda>x. drawn (snd x)) ys)) = {}"
    using assms(4) by (simp_all add: fresh_ids_def)
  from executed_run [OF assms(1-3) fr(1)] care assms(5) obtain r1 where r1: "world_ok (wo_store (saga_run E xs w)) r1
      (wo_calls (saga_run E xs w)) (wo_log (saga_run E xs w))" "effects_of r1 \<subseteq> set (concat (map (\<lambda>x. drawn (snd x)) xs))" by blast
  have r: "r1 = r" using r1(1) assms(6) by simp
  have "set (concat (map (\<lambda>x. drawn (snd x)) ys)) \<inter> effects_of r1 = {}" using r1(2) fr(3) by blast
  from run_world [OF r1(1) _ fr(2) this] care assms(5) obtain r' where r': "saga_writes mx UNIV (set (concat (map (\<lambda>x. drawn (snd x)) ys))) r r'"
    "world_ok (wo_store (saga_run E (xs @ ys) w)) r' (wo_calls (saga_run E (xs @ ys) w)) (wo_log (saga_run E (xs @ ys) w))"
    unfolding r app by blast
  have inv: "steps_inv mx r" using r1(1) r by simp
  from writes_over [OF r'(1) inv assms(7)] r'(2) have "\<exists>r'. stored (wo_store (saga_run E (xs @ ys) w)) = Some r'
    \<and> sr_steps r' = sr_steps r \<and> sr_state r' = SagaCompensated" by blast
  moreover have "list_all (\<lambda>x. behind (ss_state x)) (sr_steps r)" using inv assms(7) by (simp add: steps_inv_def list_all_length)
  ultimately show ?thesis by blast
qed

end

end
