(* ===== verification/SagaLease.thy ===== *)
theory SagaLease
  imports SagaRun
begin

text \<open>
  The lease of a saga, a history, and what holds of sagas in the memory store (\<open>durable-saga.ts\<close>).

  \<^item> The first section shows that a call which does not own the saga changes nothing while the lease is live: the
    stretches that read the owner stop there, and a stale copy is refused by the version.
  \<^item> The history is the witness of the properties: a death in the middle of a step, a takeover, a resolution, two
    attempts to compensate.
  \<^item> The properties are the facts of the locale \<open>saga_engine_store\<close> read off its interpretation on the memory store.
\<close>

section \<open>The lease\<close>

text \<open>The copy a call keeps carries its own name.\<close>

lemma save_owner: "save E now l cur upd s = (Inr v, s') \<Longrightarrow> sr_owner v = sr_owner upd"
  by (auto simp: save_def Let_def split: if_splits luck.splits prod.splits bool.splits)

lemma claim_owner: "claim E now l me r s = (Inr v, s') \<Longrightarrow> sr_owner v = Some me"
  by (auto simp: claim_def split: if_splits dest: save_owner)

lemma begin_owner: "compensate_begin E now l ab me s = (Inr (Some v), s') \<Longrightarrow> sr_owner v = Some me"
  by (auto simp: compensate_begin_def split: sum.splits if_splits prod.splits dest: claim_owner)

lemma review_owner: "compensate_review E now l lr s = (Inr v, s') \<Longrightarrow> sr_owner v = sr_owner lr"
  by (auto simp: compensate_review_def Let_def split: option.splits sum.splits if_splits prod.splits dest!: save_owner)

lemma visit_owner: "compensate_visit E now l l' l'' ab ab' k lr s = ((p, lr'), s') \<Longrightarrow> sr_owner lr' = sr_owner lr"
  by (cases k) (auto simp: compensate_visit_def Let_def split: sum.splits if_splits prod.splits dest!: save_owner)

lemma ends_owner: "compensate_settles E now l l' l'' succeeded i lr s = ((p, lr'), s') \<Longrightarrow> sr_owner lr' = sr_owner lr"
  by (auto simp: compensate_settles_def Let_def split: sum.splits if_splits prod.splits dest!: save_owner)

definition named :: "jstr \<Rightarrow> 'v saga_call \<Rightarrow> bool" where
  "named me c \<longleftrightarrow> (\<forall>lr. ca_record c = Some lr \<longrightarrow> sr_owner lr = Some me)"

lemma named_begun: "compensate_begin E now l ab me s = (res, s') \<Longrightarrow> snd (begun res) = Some lr \<Longrightarrow> sr_owner lr = Some me"
  by (auto simp: begun_def split: sum.splits option.splits dest: begin_owner)

lemma call_step_named:
  assumes "named me c" and "call_step E now ev me c s = (c', s', nl)"
  shows "named me c'"
proof (cases ev)
  case (RollsBack a l ab)
  with assms named_begun show ?thesis by (fastforce simp: named_def split: if_splits prod.splits)
next
  case (Reviews a l)
  with assms review_owner show ?thesis
    by (fastforce simp: named_def split: call_phase.splits option.splits sum.splits prod.splits)
next
  case (Visits a l l' l'' ab ab')
  with assms visit_owner show ?thesis by (fastforce simp: named_def split: call_phase.splits option.splits prod.splits)
next
  case (CompensatorEnds a l l' l'' ok)
  with assms ends_owner show ?thesis by (fastforce simp: named_def split: call_phase.splits option.splits prod.splits)
qed (use assms in \<open>auto simp: named_def split: if_splits prod.splits step_answer.splits option.splits bool.splits\<close>)

definition all_named :: "(jstr, 'v saga_call) jmap \<Rightarrow> bool" where
  "all_named cs \<longleftrightarrow> (\<forall>me c. map_of cs me = Some c \<longrightarrow> named me c)"

lemma all_named_set: "all_named cs \<Longrightarrow> named me c \<Longrightarrow> all_named (AList.update me c cs)"
  by (auto simp: all_named_def jm_get_set)

lemma step_named:
  assumes "all_named (wo_calls w)"
  shows "all_named (wo_calls (saga_step E (now, ev) w))"
proof (cases "\<exists>l res. ev = Resolved l res")
  case False
  have other: ?thesis if "saga_step E (now, ev) w = (case map_of (wo_calls w) (actor ev) of None \<Rightarrow> w
      | Some c \<Rightarrow> (case call_step E now ev (actor ev) c (wo_store w) of
           (c', s', lg) \<Rightarrow> set_call (actor ev) c' (w\<lparr> wo_store := s', wo_log := wo_log w @ lg \<rparr>)))"
  proof (cases "map_of (wo_calls w) (actor ev)")
    case (Some c)
    obtain c' s' nl where st: "call_step E now ev (actor ev) c (wo_store w) = (c', s', nl)" by (metis surj_pair)
    have "named (actor ev) c'" using call_step_named [OF _ st] assms Some by (auto simp: all_named_def)
    then show ?thesis using all_named_set [OF assms] that by (simp add: Some st set_call_def)
  qed (use assms that in simp)
  show ?thesis
  proof (cases "(\<exists>me l ab. ev = ResumeCalled me l ab) \<or> (\<exists>me l ab. ev = CompensateCalled me l ab) \<or> (\<exists>me. ev = Dies me)")
    case True
    then show ?thesis
    proof (elim disjE exE)
      fix me l ab assume "ev = ResumeCalled me l ab"
      with assms show ?thesis by (auto simp: saga_step_def set_call_def named_def split: prod.splits intro!: all_named_set)
    next
      fix me l ab assume "ev = CompensateCalled me l ab"
      with assms show ?thesis
        by (auto simp: saga_step_def set_call_def named_def split: prod.splits intro!: all_named_set dest: named_begun)
    next
      fix me assume "ev = Dies me"
      with assms show ?thesis by (auto simp: saga_step_def all_named_def jm_get_delete split: if_splits)
    qed
  qed (use False in \<open>intro other step_acts; blast\<close>)
qed (use assms in \<open>auto simp: saga_step_def\<close>)

lemma run_named: "all_named (wo_calls w) \<Longrightarrow> all_named (wo_calls (saga_run E xs w))"
proof (induction xs arbitrary: w)
  case (Cons x xs)
  then show ?case using step_named [of w E "fst x" "snd x"] by simp
qed simp

context saga_engine_store
begin

text \<open>A stale copy is never written back.\<close>

lemma save_stale:
  assumes "good s r" and "copy_of r lr" and "lr \<noteq> r" and "sr_sagaId upd = sr_sagaId lr" and "save E now l lr upd s = (res, s')"
  shows "good s' r \<and> (\<exists>e. res = Inl e)"
proof -
  obtain r' where r': "after {} {} s' r r'" "r' = r \<or> lr = r \<and> r' = stamp E now lr upd" "\<And>v. res = Inr v \<Longrightarrow> lr = r"
    by (rule save_copy [OF assms(1,2,4) _ assms(5)]) (use assms(3) in blast)+
  have "r' = r" using r'(2) assms(3) by blast
  moreover have "\<exists>e. res = Inl e" using r'(3) assms(3) by (cases res) auto
  ultimately show ?thesis using r'(1) assms(1) by blast
qed

lemma review_stale:
  assumes "good s r" and "copy_of r lr" and "lr \<noteq> r" and "compensate_review E now l lr s = (res, s')"
  shows "good s' r"
proof -
  obtain v u where a: "save E now l lr (lr\<lparr> sr_state := SagaManualReview, sr_updatedAt := now \<rparr>) s = (v, u)" by (metis surj_pair)
  obtain v' u' where b: "save E now l lr (lr\<lparr> sr_state := SagaCompensating, sr_updatedAt := now \<rparr>) s = (v', u')" by (metis surj_pair)
  have "good u r" "good u' r" using save_stale [OF assms(1-3) _ a] save_stale [OF assms(1-3) _ b] by simp_all
  moreover have "s' = s \<or> s' = u \<or> s' = u'"
    using assms(4) by (auto simp: compensate_review_def Let_def a b split: option.splits if_splits sum.splits)
  ultimately show ?thesis using assms(1) by blast
qed

lemma failed_stale:
  assumes "good s r" and "copy_of r lr" and "lr \<noteq> r"
  shows "good (compensation_failed E now l l' i x lr s) r"
proof -
  have one: "good (snd (save E now k lr (withSagaStep lr i y st now) u)) r" if "good u r" for k y st u
    using save_stale [OF that assms(2,3), of "withSagaStep lr i y st now"] by (metis prod.collapse withSagaStep_simps(3))
  have "good (case save E now l lr (withSagaStep lr i y st now) s of (Inr _, u) \<Rightarrow> u
      | (Inl _, u) \<Rightarrow> snd (save E now l' lr (withSagaStep lr i z SagaManualReview now) u)) r" for y st z
  proof -
    obtain v u where a: "save E now l lr (withSagaStep lr i y st now) s = (v, u)" by (metis surj_pair)
    have "good u r" using one [OF assms(1), of l y st] by (simp add: a)
    with one [OF this, of l' z SagaManualReview] show ?thesis by (cases v) (simp_all add: a)
  qed
  then show ?thesis using one [OF assms(1)] by (simp add: compensation_failed_def Let_def split: option.split)
qed

lemma visit_stale:
  assumes "good s r" and "copy_of r lr" and "lr \<noteq> r" and "compensate_visit E now l l' l'' ab ab' k lr s = (p, s')"
  shows "good s' r"
proof (cases k)
  case 0
  obtain v u where a: "save E now l lr (lr\<lparr> sr_state := SagaCompensated, sr_updatedAt := now \<rparr>) s = (v, u)" by (metis surj_pair)
  have "good u r" using save_stale [OF assms(1-3) _ a] by simp
  with assms(4) show ?thesis by (auto simp: compensate_visit_def 0 a)
next
  case (Suc i)
  let ?x = "attempt_of (sr_steps lr ! i)"
  obtain v u where a: "save E now l lr (lr\<lparr> sr_state := SagaManualReview, sr_updatedAt := now \<rparr>) s = (v, u)" by (metis surj_pair)
  obtain v' u' where b: "save E now l lr (withSagaStep lr i ?x (sr_state lr) now) s = (v', u')" by (metis surj_pair)
  have a': "good u r" using save_stale [OF assms(1-3) _ a] by simp
  obtain e where b': "good u' r" "v' = Inl e" using save_stale [OF assms(1-3) _ b] by auto
  have "good (compensation_failed E now l' l'' i ?x lr s) r" "good (compensation_failed E now l' l'' i ?x lr u') r"
    by (rule failed_stale [OF assms(1-3)], rule failed_stale [OF b'(1) assms(2,3)])
  moreover have "s' = s \<or> s' = u \<or> s' = compensation_failed E now l' l'' i ?x lr s \<or> s' = compensation_failed E now l' l'' i ?x lr u'"
    using assms(4) by (auto simp: compensate_visit_def Let_def Suc a b b'(2) split: if_splits)
  ultimately show ?thesis using a' assms(1) by blast
qed

lemma ends_stale:
  assumes "good s r" and "copy_of r lr" and "lr \<noteq> r" and "compensate_settles E now l l' l'' succeeded i lr s = (p, s')"
  shows "good s' r"
proof -
  let ?x = "(sr_steps lr ! i)\<lparr> ss_state := StepCompensated \<rparr>"
  obtain v u where a: "save E now l lr (withSagaStep lr i ?x (sr_state lr) now) s = (v, u)" by (metis surj_pair)
  obtain e where a': "good u r" "v = Inl e" using save_stale [OF assms(1-3) _ a] by auto
  have "s' = compensation_failed E now l' l'' i ?x lr u \<or> s' = compensation_failed E now l' l'' i (sr_steps lr ! i) lr s"
    using assms(4) by (auto simp: compensate_settles_def Let_def a a'(2) split: if_splits)
  with failed_stale [OF a'(1) assms(2,3)] failed_stale [OF assms(1-3)] show ?thesis by blast
qed

text \<open>The other stretches read the owner first.\<close>

lemma not_owned:
  assumes "good s r" and "sr_owner r \<noteq> Some me"
  shows "\<exists>e. loadOwned E me s = Inl e"
proof (cases "loadOwned E me s")
  case (Inr q)
  from loadOwned_Inr [OF Inr] have "load E s = Inr q" "sr_owner q = Some me" by auto
  with load_good [OF assms(1)] assms(2) show ?thesis by blast
qed simp

lemma not_claimed:
  assumes "good s r" and "sr_owner r = Some a" and "a \<noteq> me" and "sr_leaseUntil r = Some t" and "now < t"
  shows "snd (compensate_begin E now l ab me s) = s" and "snd (resume_begin E now l ab me s) = s"
proof -
  have "claim E now l me r s = (Inl Concurrency, s)" using assms(2-5) by (simp add: claim_def)
  moreover have "\<exists>e. loadFor E ab s = Inl e \<or> loadFor E ab s = Inr r"
  proof (cases "loadFor E ab s")
    case (Inr q)
    from load_good [OF assms(1) loadFor_Inr [OF Inr]] Inr show ?thesis by simp
  qed simp
  ultimately show "snd (compensate_begin E now l ab me s) = s" "snd (resume_begin E now l ab me s) = s"
    by (auto simp: compensate_begin_def resume_begin_def)
qed

lemma not_released: "good s r \<Longrightarrow> sr_owner r \<noteq> Some me \<Longrightarrow> release E now l me s = s"
  using load_good [of s r] by (cases "load E s") (auto simp: release_def)

lemma call_step_other:
  assumes w: "world_ok s r cs lg" and c: "map_of cs (actor ev) = Some c" and named: "named (actor ev) c"
    and lease: "sr_owner r = Some a" "a \<noteq> actor ev" "sr_leaseUntil r = Some t" "now < t"
    and st: "call_step E now ev (actor ev) c s = (c', s', nl)"
  shows "stored s' = Some r"
proof -
  have g: "good s r" using w by blast
  have ph: "phase_ok mx r c" using w c by (auto simp: calls_ok_def call_ok_def)
  have no: "sr_owner r \<noteq> Some (actor ev)" using lease by simp
  from not_owned [OF g no] obtain e where e: "loadOwned E (actor ev) s = Inl e" by blast
  have copy: "lr \<noteq> r" if "ca_record c = Some lr" for lr using named no that by (auto simp: named_def)
  have same: "stored s = Some r" using g by simp
  show ?thesis
  proof (cases ev)
    case (StepCalled me l l' ab name eff cid args)
    have "snd (step_call E now l l' ab me name eff cid args s) = s" using e by (simp add: StepCalled step_call_def)
    with st same show ?thesis by (auto simp: StepCalled split: if_splits prod.splits step_answer.splits)
  next
    case (StepSettles me eff res l l')
    have "step_settles E now l l' me eff res s = s"
      using e by (cases res) (simp_all add: StepSettles step_settles_def step_committed_def step_failed_def)
    with st same show ?thesis by (auto simp: StepSettles split: option.splits prod.splits bool.splits)
  next
    case (StepAborts me eff l)
    have "step_failed E now l me eff False None s = s" using e by (simp add: StepAborts step_failed_def)
    with st same show ?thesis by (auto simp: StepAborts split: option.splits prod.splits bool.splits)
  next
    case (RunReturns me l)
    have "snd (run_returned E now l me s) = s" using e by (simp add: RunReturns run_returned_def)
    with st same show ?thesis by (auto simp: RunReturns split: if_splits prod.splits option.splits)
  next
    case (RollsBack me l ab)
    obtain res u where b: "compensate_begin E now l ab (actor ev) s = (res, u)" by (metis surj_pair)
    have "u = s" using not_claimed(1) [OF g lease, of l ab] by (simp add: b)
    with st same b show ?thesis by (auto simp: RollsBack split: if_splits)
  next
    case (Reviews me l)
    show ?thesis
    proof (cases "ca_phase c = Review")
      case True
      with ph obtain lr where lr: "ca_record c = Some lr" "copy_of r lr" by (auto simp: phase_ok_def)
      obtain v u where v: "compensate_review E now l lr s = (v, u)" by (metis surj_pair)
      have "s' = u" using st by (auto simp: Reviews True lr v split: sum.splits)
      with review_stale [OF g lr(2) copy [OF lr(1)] v] show ?thesis by simp
    qed (use same st in \<open>auto simp: Reviews split: call_phase.splits\<close>)
  next
    case (Visits me l l' l'' ab ab')
    show ?thesis
    proof (cases "\<exists>k. ca_phase c = Visit k")
      case True
      then obtain k where k: "ca_phase c = Visit k" by blast
      with ph obtain lr where lr: "ca_record c = Some lr" "copy_of r lr" by (auto simp: phase_ok_def)
      obtain p q u where v: "compensate_visit E now l l' l'' ab ab' k lr s = ((p, q), u)" by (metis surj_pair)
      have "s' = u" using st by (auto simp: Visits k lr v)
      with visit_stale [OF g lr(2) copy [OF lr(1)] v] show ?thesis by simp
    qed (use same st in \<open>auto simp: Visits split: call_phase.splits\<close>)
  next
    case (CompensatorEnds me l l' l'' succeeded)
    show ?thesis
    proof (cases "\<exists>i. ca_phase c = Undo i")
      case True
      then obtain i where i: "ca_phase c = Undo i" by blast
      with ph obtain lr where lr: "ca_record c = Some lr" "copy_of r lr" by (auto simp: phase_ok_def)
      obtain p q u where v: "compensate_settles E now l l' l'' succeeded i lr s = ((p, q), u)" by (metis surj_pair)
      have "s' = u" using st by (auto simp: CompensatorEnds i lr v)
      with ends_stale [OF g lr(2) copy [OF lr(1)] v] show ?thesis by simp
    qed (use same st in \<open>auto simp: CompensatorEnds split: call_phase.splits\<close>)
  next
    case (Releases me l)
    with not_released [OF g no] st same show ?thesis by (auto split: if_splits)
  qed (use same st in \<open>auto split: if_splits option.splits prod.splits bool.splits\<close>)
qed

lemma step_other:
  assumes w: "world_ok (wo_store w) r (wo_calls w) (wo_log w)" and named: "all_named (wo_calls w)"
    and lease: "sr_owner r = Some a" "a \<noteq> actor ev" "sr_leaseUntil r = Some t" "now < t" and op: "\<nexists>l res. ev = Resolved l res"
  shows "stored (wo_store (saga_step E (now, ev) w)) = Some r"
proof -
  have g: "good (wo_store w) r" using w by blast
  show ?thesis
  proof (cases "(\<exists>me l ab. ev = ResumeCalled me l ab) \<or> (\<exists>me l ab. ev = CompensateCalled me l ab) \<or> (\<exists>me. ev = Dies me)")
    case True
    then show ?thesis
    proof (elim disjE exE)
      fix me l ab assume ev: "ev = ResumeCalled me l ab"
      obtain res u where b: "resume_begin E now l ab me (wo_store w) = (res, u)" by (metis surj_pair)
      have "u = wo_store w" using not_claimed(2) [OF g lease, of l ab] by (simp add: b ev)
      with b g show ?thesis by (simp add: saga_step_def set_call_def ev)
    next
      fix me l ab assume ev: "ev = CompensateCalled me l ab"
      obtain res u where b: "compensate_begin E now l ab me (wo_store w) = (res, u)" by (metis surj_pair)
      have "u = wo_store w" using not_claimed(1) [OF g lease, of l ab] by (simp add: b ev)
      with b g show ?thesis by (simp add: saga_step_def set_call_def ev)
    qed (use g in \<open>simp add: saga_step_def\<close>)
  next
    case False
    show ?thesis
    proof (cases "map_of (wo_calls w) (actor ev)")
      case None
      then show ?thesis using False op g by (simp add: step_acts)
    next
      case (Some c)
      obtain c' s' nl where st: "call_step E now ev (actor ev) c (wo_store w) = (c', s', nl)" by (metis surj_pair)
      have "named (actor ev) c" using named Some by (simp add: all_named_def)
      from call_step_other [OF w Some this lease st] show ?thesis using False op Some st by (simp add: step_acts set_call_def)
    qed
  qed
qed

end

section \<open>A history\<close>

text \<open>
  The first call commits \<open>charge\<close> and dies in \<open>ship\<close>; the second takes the saga over when the lease has lapsed and
  parks it; the operator finds that nothing was shipped; a call tries to undo \<open>charge\<close> and fails; the next one succeeds.
\<close>

definition order_definition :: saga_definition where
  "order_definition = \<lparr> sd_name = js ''order'', sd_compensators = [js ''charge'', js ''ship''], sd_maxAttempts = None, sd_backoff = None \<rparr>"

definition order_saga :: "('v, 'v memory_sagas) saga_engine" where
  "order_saga = memory_engine order_definition (js ''s1'') 1000"

definition order_start :: "(nat, nat memory_sagas) saga_world" where
  "order_start = \<lparr> wo_store = snd (execute_saga order_saga 5 False 42 \<lparr> ms_records = [], ms_byState = [] \<rparr>), wo_calls = [], wo_log = [] \<rparr>"

definition order_events :: "(int \<times> nat saga_event) list" where
  "order_events =
     [(10, ResumeCalled (js ''a'') Clear False),
      (11, StepCalled (js ''a'') Clear Clear False (js ''charge'') (js ''e1'') (js ''c1'') 0),
      (12, StepBegins (js ''a'') (js ''e1'')),
      (13, StepSettles (js ''a'') (js ''e1'') (Returned 7) Clear Clear),
      (14, StepCalled (js ''a'') Clear Clear False (js ''ship'') (js ''e2'') (js ''c2'') 1),
      (15, StepBegins (js ''a'') (js ''e2'')),
      (16, Dies (js ''a'')),
      (2000, ResumeCalled (js ''b'') Clear False),
      (2001, StepCalled (js ''b'') Clear Clear False (js ''charge'') (js ''e3'') (js ''c3'') 0),
      (2002, StepCalled (js ''b'') Clear Clear False (js ''ship'') (js ''e4'') (js ''c4'') 1),
      (2003, RunThrows (js ''b'') False),
      (2004, Releases (js ''b'') Clear),
      (2005, Resolved Clear (ExecutionNotCommitted (js ''ship'') (js ''e2'') None)),
      (2006, CompensateCalled (js ''c'') Clear False),
      (2007, Reviews (js ''c'') Clear),
      (2008, Visits (js ''c'') Clear Clear Clear False False),
      (2009, Visits (js ''c'') Clear Clear Clear False False),
      (2010, CompensatorEnds (js ''c'') Clear Clear Clear False),
      (2011, Releases (js ''c'') Clear)]"

definition order_retry :: "(int \<times> nat saga_event) list" where
  "order_retry =
     [(3000, CompensateCalled (js ''d'') Clear False),
      (3001, Reviews (js ''d'') Clear),
      (3002, Visits (js ''d'') Clear Clear Clear False False),
      (3003, Visits (js ''d'') Clear Clear Clear False False),
      (3004, CompensatorEnds (js ''d'') Clear Clear Clear True),
      (3005, Visits (js ''d'') Clear Clear Clear False False),
      (3006, Releases (js ''d'') Clear)]"

lemma order_opened: "execute_saga order_saga 5 False 42 \<lparr> ms_records = [], ms_byState = [] \<rparr> = (Inr (), wo_store order_start)"
  by code_simp

lemma order_started: "order_start = \<lparr> wo_store = wo_store order_start, wo_calls = [], wo_log = [] \<rparr>"
  by (simp add: order_start_def)

lemma no_sagas_ok: "mem_ok \<lparr> ms_records = [], ms_byState = [] \<rparr>"
  by (simp add: mem_ok_def bucket_of_def)

lemma order_fresh: "fresh_ids (order_events @ order_retry)"
  by code_simp

lemma order_careful: "careful_run order_saga (order_events @ order_retry) order_start"
  by code_simp

lemma order_log:
  "executions (wo_log (saga_run order_saga (order_events @ order_retry) order_start)) = [js ''charge'', js ''ship'']"
  by code_simp

definition order_compensations :: "(nat saga_record \<times> nat) list" where
  "order_compensations = compensations (wo_log (saga_run order_saga (order_events @ order_retry) order_start))"

lemma order_attempts: "map (\<lambda>x. (attempt x, snd x)) (compensations (wo_log (saga_run order_saga (order_events @ order_retry) order_start)))
    = [((js ''charge'', 1), 0), ((js ''charge'', 2), 0)]"
  by code_simp

lemma order_compensation: "length order_compensations = 2 \<and> attempt (order_compensations ! 1) = (js ''charge'', 2) \<and> snd (order_compensations ! 1) = 0"
proof -
  have m: "map (\<lambda>x. (attempt x, snd x)) order_compensations = [((js ''charge'', 1), 0), ((js ''charge'', 2), 0)]"
    unfolding order_compensations_def by (rule order_attempts)
  have l: "length order_compensations = 2" using arg_cong [OF m, of length] by (simp only: length_map list.size)
  have "1 < length order_compensations" unfolding l by simp
  then have "(attempt (order_compensations ! 1), snd (order_compensations ! 1)) = map (\<lambda>x. (attempt x, snd x)) order_compensations ! 1"
    by (simp only: nth_map)
  also have "\<dots> = ((js ''charge'', 2), 0)" unfolding m by (simp only: nth_Cons_0 nth_Cons_Suc One_nat_def)
  finally show ?thesis using l by blast
qed

definition order_over :: "nat saga_record" where
  "order_over = the (memory_get (js ''s1'') (wo_store (saga_run order_saga (order_events @ take 6 order_retry) order_start)))"

lemma order_state:
  "map_option sr_state (memory_get (js ''s1'') (wo_store (saga_run order_saga (order_events @ take 6 order_retry) order_start))) = Some SagaCompensated"
  by code_simp

lemma order_over: "memory_get (js ''s1'') (wo_store (saga_run order_saga (order_events @ take 6 order_retry) order_start)) = Some order_over"
  "sr_state order_over = SagaCompensated"
  using order_state unfolding order_over_def by (auto simp only: option.map_sel map_option_eq_Some option.sel)

text \<open>
  A clock behind the one that created the saga: the claim is written with an \<open>updatedAt\<close> before \<open>createdAt\<close>, which no
  later \<open>load\<close> accepts, the release of the claim included.
\<close>

lemma late_clock_strands_saga:
  "case load order_saga (wo_store (saga_run order_saga [(3, ResumeCalled (js ''a'') Clear False), (10, Releases (js ''a'') Clear)] order_start)) of
     Inl e \<Rightarrow> e = InvalidRecord
   | Inr r \<Rightarrow> False"
  by code_simp

section \<open>Sagas in the memory store\<close>

text \<open>
  C32: However many calls of \<open>resume\<close> and \<open>compensate\<close> run on a saga, whatever they lose and wherever they die, the code
  of each step is started at most once, as long as the operator does not resolve an execution that is still running.
\<close>
theorem saga_step_runs_once:
  assumes "mem_ok s" and "execute_saga (memory_engine d sid leaseMs) now aborted input s = (Inr (), s')"
    and "w = \<lparr> wo_store = s', wo_calls = [], wo_log = [] \<rparr>"
    and "fresh_ids xs" and "careful_run (memory_engine d sid leaseMs) xs w"
  shows "distinct (executions (wo_log (saga_run (memory_engine d sid leaseMs) xs w)))"
  using memory_sagas_engine.executed_run [OF assms] by (auto simp: log_ok_def)

theorem saga_step_runs_once_witness:
  "distinct (executions (wo_log (saga_run order_saga (order_events @ order_retry) order_start)))
   \<and> executions (wo_log (saga_run order_saga (order_events @ order_retry) order_start)) = [js ''charge'', js ''ship'']"
  using saga_step_runs_once [where d = order_definition and sid = "js ''s1''" and leaseMs = 1000, folded order_saga_def, OF no_sagas_ok order_opened order_started order_fresh order_careful] order_log
  by blast

text \<open>
  C33: A compensator is started only for a step whose result is known, when no other step is unsettled and every later
  step is compensated or never took effect; never more than the allowed number of times; and no attempt is made twice.
\<close>
theorem saga_compensates_in_reverse:
  assumes "mem_ok s" and "execute_saga (memory_engine d sid leaseMs) now aborted input s = (Inr (), s')"
    and "w = \<lparr> wo_store = s', wo_calls = [], wo_log = [] \<rparr>"
    and "fresh_ids xs" and "careful_run (memory_engine d sid leaseMs) xs w"
    and "CompensationStarted r i \<in> set (wo_log (saga_run (memory_engine d sid leaseMs) xs w))"
  shows "i < length (sr_steps r) \<and> sr_state r = SagaCompensating
    \<and> ss_state (sr_steps r ! i) = StepCompensating \<and> ss_result (sr_steps r ! i) \<noteq> None
    \<and> ss_attempts (sr_steps r ! i) \<le> (case sd_maxAttempts d of None \<Rightarrow> 3 | Some m \<Rightarrow> m)
    \<and> (\<forall>j < length (sr_steps r). j \<noteq> i \<longrightarrow> \<not> unsettled (ss_state (sr_steps r ! j)))
    \<and> (\<forall>j < length (sr_steps r). i < j \<longrightarrow> behind (ss_state (sr_steps r ! j)))
    \<and> distinct (map attempt (compensations (wo_log (saga_run (memory_engine d sid leaseMs) xs w))))"
proof -
  from memory_sagas_engine.executed_run [OF assms(1-5)]
  obtain q where q: "log_ok (case sd_maxAttempts d of None \<Rightarrow> 3 | Some m \<Rightarrow> m) q (wo_log (saga_run (memory_engine d sid leaseMs) xs w))"
    by (auto simp: maxAttempts_def)
  then have "undo_ok (case sd_maxAttempts d of None \<Rightarrow> 3 | Some m \<Rightarrow> m) i r"
    using assms(6) unfolding log_ok_def in_compensations [symmetric] by force
  with q show ?thesis by (auto simp: undo_ok_def log_ok_def)
qed

theorem saga_compensates_in_reverse_witness:
  "attempt (order_compensations ! 1) = (js ''charge'', 2)
   \<and> list_all (\<lambda>x. behind (ss_state x)) (drop 1 (sr_steps (fst (order_compensations ! 1))))"
proof -
  let ?steps = "sr_steps (fst (order_compensations ! 1))"
  have "CompensationStarted (fst (order_compensations ! 1)) 0 \<in> set (wo_log (saga_run order_saga (order_events @ order_retry) order_start))"
    using order_compensation nth_mem [of 1 order_compensations] unfolding in_compensations [symmetric] order_compensations_def
    by (metis one_less_numeral_iff prod.collapse semiring_norm(76))
  from saga_compensates_in_reverse [where d = order_definition and sid = "js ''s1''" and leaseMs = 1000, folded order_saga_def, OF no_sagas_ok order_opened order_started order_fresh order_careful this]
  have later: "\<forall>j < length ?steps. 0 < j \<longrightarrow> behind (ss_state (?steps ! j))" by blast
  have "list_all (\<lambda>x. behind (ss_state x)) (drop 1 ?steps)"
    unfolding list_all_length by (intro allI impI) (use later in simp)
  with order_compensation show ?thesis by blast
qed

text \<open>
  Once a saga is stored as compensated, every one of its steps was compensated or never took effect, and no later
  event changes its steps or its state.
\<close>
theorem saga_compensated_is_final:
  assumes "mem_ok s" and "execute_saga (memory_engine d sid leaseMs) now aborted input s = (Inr (), s')"
    and "w = \<lparr> wo_store = s', wo_calls = [], wo_log = [] \<rparr>"
    and "fresh_ids (xs @ ys)" and "careful_run (memory_engine d sid leaseMs) (xs @ ys) w"
    and "memory_get sid (wo_store (saga_run (memory_engine d sid leaseMs) xs w)) = Some r" and "sr_state r = SagaCompensated"
  shows "list_all (\<lambda>x. behind (ss_state x)) (sr_steps r)
    \<and> (\<exists>r'. memory_get sid (wo_store (saga_run (memory_engine d sid leaseMs) (xs @ ys) w)) = Some r'
         \<and> sr_steps r' = sr_steps r \<and> sr_state r' = SagaCompensated)"
  using memory_sagas_engine.compensated_stays [OF assms(1-5)] assms(6,7) by simp

theorem saga_compensated_is_final_witness:
  "list_all (\<lambda>x. behind (ss_state x)) (sr_steps order_over)
   \<and> (\<exists>r'. memory_get (js ''s1'') (wo_store (saga_run order_saga (order_events @ order_retry) order_start)) = Some r'
        \<and> sr_steps r' = sr_steps order_over \<and> sr_state r' = SagaCompensated)"
proof -
  have split: "(order_events @ take 6 order_retry) @ drop 6 order_retry = order_events @ order_retry" by simp
  show ?thesis
    using saga_compensated_is_final [where d = order_definition and sid = "js ''s1''" and leaseMs = 1000, folded order_saga_def, OF no_sagas_ok order_opened order_started, where xs = "order_events @ take 6 order_retry" and ys = "drop 6 order_retry",
        unfolded split, OF order_fresh order_careful order_over] .
qed

text \<open>
  While the stored lease is live, no call but its owner's changes the saga: neither one that wants to take it over
  nor one that owned it before and still has steps or compensators running.
\<close>
theorem saga_lease_excludes:
  assumes "mem_ok s" and "execute_saga (memory_engine d sid leaseMs) now aborted input s = (Inr (), s')"
    and "w = \<lparr> wo_store = s', wo_calls = [], wo_log = [] \<rparr>"
    and "fresh_ids xs" and "careful_run (memory_engine d sid leaseMs) xs w"
    and "memory_get sid (wo_store (saga_run (memory_engine d sid leaseMs) xs w)) = Some r"
    and "sr_owner r = Some a" and "actor ev \<noteq> a" and "sr_leaseUntil r = Some t" and "now' < t" and "\<nexists>l res. ev = Resolved l res"
  shows "memory_get sid (wo_store (saga_step (memory_engine d sid leaseMs) (now', ev) (saga_run (memory_engine d sid leaseMs) xs w))) = Some r"
proof -
  from memory_sagas_engine.executed_run [OF assms(1-5)] obtain q where q: "memory_sagas_engine.world_ok d sid leaseMs
      (wo_store (saga_run (memory_engine d sid leaseMs) xs w)) q (wo_calls (saga_run (memory_engine d sid leaseMs) xs w))
      (wo_log (saga_run (memory_engine d sid leaseMs) xs w))" by blast
  have "q = r" using q assms(6) by simp
  moreover have "all_named (wo_calls (saga_run (memory_engine d sid leaseMs) xs w))"
    by (rule run_named) (simp add: assms(3) all_named_def)
  ultimately show ?thesis
    using memory_sagas_engine.step_other [OF q, where ev = ev and a = a and t = t and now = now'] assms(7-11) by simp
qed

end
