(* ===== verification/Spec2Isabelle.thy ===== *)
theory Spec2Isabelle
  imports RouteFill IdempotencyLane JobQueue CacheFlow Cron ByteRange Admission RateLimit SagaLease
begin

text \<open>
  A model of the core of nifra, a TypeScript framework for web servers: the parts that decide something, each
  translated from its source under \<open>src/packages\<close>, and the theorems that make it correct.

  \<^bold>\<open>The program.\<close> A server matches each request against its routes (\<open>core/src/router\<close>), around the handler runs
  middleware (admission, rate limits, address rules: \<open>middleware/src\<close>), and a route may be idempotent, in which case a
  lane (\<open>core/src/server/idempotency-lane.ts\<close>) reserves the request's key in a store, watches through the effect scope
  whether the handler began an effect, and keeps the response for repetitions. Beside the request path stand a job queue
  (\<open>jobs/src\<close>), a cache (\<open>cache/src\<close>), a scheduler (\<open>cron/src\<close>) and durable sagas (\<open>core/src/durable-saga.ts\<close>), each over
  a store behind an interface. The same router grammar serves the browser, the mock server and the adapters.

  \<^bold>\<open>Conventions\<close> (\<open>Prelude\<close>). A string is its list of UTF-16 code units; a \<open>Map\<close> is an association list in insertion
  order with distinct keys; a class instance or a closure's variables are a record, returned updated; what a function
  throws is a value of a sum or an option. The clock, random identifiers, the handlers, validators and what the runtime
  computes (Unicode normalisation, time zones, the length of a clone) are arguments, so each theorem holds for all of them.
  One atomic step is the code between two awaits; concurrency is an arbitrary list of such steps. Numbers are unbounded
  \<open>int\<close> or \<open>nat\<close> where the code keeps safe integers, with the refusals of \<open>NaN\<close> and \<open>Infinity\<close> as their own values where
  the code has such a refusal; nothing relies on numbers above \<open>2 ^ 53\<close>.
\<close>

text \<open>
  \<^bold>\<open>Theories and sources\<close>

  \<^item> \<open>PathCodec\<close>: \<open>core/src/router/path-codec.ts\<close>. \<open>ParamConstraint\<close>, \<open>MixedSegment\<close>, \<open>RoutePattern\<close>, \<open>Specificity\<close>,
    \<open>RoutePath\<close>: \<open>core/src/router/pattern.ts\<close>, in the order of the file: constraints of parameters, segments that mix
    literals and parameters, compilation, comparison, the matcher of one pattern and \<open>fillRoutePath\<close>. \<open>RouteFill\<close> holds the
    round trip between the last two.
  \<^item> \<open>RouterTrie\<close>, \<open>Router\<close>: \<open>core/src/router/router.ts\<close>. The trie is a datatype of nodes, \<open>matchNode\<close> its depth-first walk;
    the router is the record of root, terminals, static map and the two caches, with \<open>add_route\<close> and \<open>find_route\<close>.
  \<^item> \<open>Idempotency\<close>, \<open>IdempotencyCodec\<close>: \<open>core/src/idempotency.ts\<close>, the memory store and the stored form of a response.
    \<open>EffectScope\<close>: \<open>core/src/effect-scope.ts\<close> and \<open>effect-lifecycle.ts\<close>. \<open>IdempotencyLane\<close>: the lane, as the stretches
    \<open>open_gate\<close>, \<open>begin_gate\<close> and \<open>settle_gate\<close>.
  \<^item> \<open>JobStore\<close>: \<open>jobs/src/memory-store.ts\<close>. \<open>JobQueue\<close>: \<open>jobs/src/queue.ts\<close> and \<open>backoff.ts\<close>.
  \<^item> \<open>CacheStore\<close>: \<open>cache/src/memory-cache.ts\<close>. \<open>CacheFlow\<close>: \<open>cache/src/cache.ts\<close>.
  \<^item> \<open>Cron\<close>: \<open>cron/src/parse.ts\<close> and \<open>scheduler.ts\<close>. \<open>ByteRange\<close>: \<open>core/src/range.ts\<close>.
  \<^item> \<open>Admission\<close>: \<open>middleware/src/admission.ts\<close>. \<open>IpAddress\<close>: \<open>middleware/src/_ip.ts\<close>, \<open>ip-restriction.ts\<close> and
    \<open>core/src/server/client-ip.ts\<close>. \<open>RateLimit\<close>: \<open>middleware/src/rate-limit.ts\<close>.
  \<^item> \<open>Saga\<close>, \<open>SagaRun\<close>, \<open>SagaLease\<close>: \<open>core/src/durable-saga.ts\<close> with \<open>core/src/internal/durable-saga-protocol.ts\<close>,
    \<open>durable-types.ts\<close> and \<open>durable-shared.ts\<close>: the stretches of the engine, their interleavings, and the lease.

  Definitions keep the names of the source where Isabelle allows it.

  \<^bold>\<open>Interfaces.\<close> Each interface of the program is a locale whose \<open>assumes\<close> are the laws its providers promise and its
  clients use, interpreted on the model of the provider: \<open>idempotency_store\<close> (\<open>memory\<close>, used by the lane), \<open>job_store\<close>
  (\<open>memory_jobs\<close>, used by the queue), \<open>cache_store\<close> (\<open>memory_cache\<close>, used by the cache), \<open>rate_limit_store\<close> (\<open>memory_rate\<close>, used
  by the limiter), \<open>saga_store\<close> (\<open>memory_sagas\<close>) and its extension \<open>saga_engine_store\<close> (\<open>memory_sagas_engine\<close>, an engine over
  such a store). \<open>comparison\<close> is the contract of a comparison function, which sorting relies on; it is interpreted on the
  comparisons of segments, patterns, routes and trie entries. The properties are stated on the memory stores.
\<close>

text \<open>
  \<^bold>\<open>What the theorems show\<close>

  \<^item> Router: on every router that calls of \<open>add\<close> and \<open>find\<close> can reach, \<open>find\<close> answers as a specification without trie and
    caches, so the order of registration does not matter; \<open>add\<close> fails in known cases only and then changes no route;
    the cache of dynamic matches is bounded and holds what the trie answers. The scanner of mixed segments equals a
    specification by splitting; the one-pattern matcher agrees with the router; filling and matching are inverse.
  \<^item> Idempotency: the memory store refines a map of live entries; a reservation excludes every other; a handler that
    began an effect is not run again under its key while the entry is kept; a stored response comes back intact; the
    evidence and the reported outcome of an effect agree with what its hooks did.
  \<^item> Jobs: each job is where the ledger of the calls puts it; a stale lease is powerless and a live one exclusive; the
    queue runs no job twice at once and no more than its slots, and no more often than its attempts, runs rejected by a
    throwing backoff apart; \<open>drain\<close> ends.
  \<^item> Cache: a hit is the value of the last write of an ideal cache; the bounds and the tag index hold; the fence refuses
    exactly the overtaken writes; an overtaken load writes nothing, and loads of one key are shared.
  \<^item> Sagas: no step runs twice; compensation goes in reverse, within the attempts and each attempt once; a compensated
    saga stays so; while a lease is live only its owner writes.
  \<^item> Middleware: the slots of admission are counted exactly and each request is answered once; the fast paths for
    addresses and for single byte ranges agree with the general ones; forged hops change nothing; a key stays within
    its quota and a flood of other keys does not free a caller from it.
  \<^item> Cron: \<open>nextRun\<close> is the first matching minute; no job overlaps itself.

  Each component has an invariant that holds initially and is kept by every operation (\<open>router_inv\<close>, \<open>idem_inv\<close>,
  \<open>jobs_inv\<close>, \<open>queue_ok\<close>, \<open>cache_inv\<close>, \<open>flow_inv\<close>, \<open>admission_inv\<close>, \<open>rate_ok\<close>, \<open>steps_inv\<close>, \<open>world_ok\<close>); the theorems read
  their claims off it. The witnesses evaluate the definitions at concrete inputs.

  \<^bold>\<open>Loops and bounds.\<close> Loops over strings and tables are \<open>function\<close>s with a measure. Fuel occurs in one place:
  \<open>drain\<close> takes the number of rounds it may make, and \<open>drain_leaves_nothing_due\<close> shows that one more than the attempts
  left in the store is enough, naming the round it ends at. \<open>nextRun\<close> searches as many minutes as the code does
  (\<open>CAP\<close>), and its theorem says so; every other constant (cache sizes, header lengths, scan lengths) is the one of the code.
\<close>

text \<open>
  \<^bold>\<open>What the work showed\<close>

  \<^item> \<open>pattern.ts\<close>: two open counts compare by a range that is \<open>NaN\<close>, so the wider may be tried first
    (\<open>open_count_shadowed\<close>); the matcher and the trie differ on an empty wildcard (\<open>empty_wildcard_diverges\<close>).
  \<^item> \<open>router.ts\<close>: one path of any length is cached alone (\<open>dynamic_cache_bounded\<close>); a lone surrogate in a pattern makes
    \<open>add\<close> throw an error other than the one its documentation names.
  \<^item> \<open>queue.ts\<close>: a backoff that throws leaves the attempt uncounted, and the job runs again without bound
    (\<open>throwing_backoff_runs_on\<close>).
  \<^item> \<open>parse.ts\<close> of cron: \<open>nextRun\<close> may go back where clocks do (\<open>nextRun_goes_back\<close>); an expression that names a
    property every object inherits fails with another error than the documented one.
  \<^item> \<open>durable-saga.ts\<close>: a call with a clock behind the creator's leaves a record no call can load
    (\<open>late_clock_strands_saga\<close>).

  \<^bold>\<open>What is not modelled.\<close> The request pipeline itself, bodies, streams, sockets and the adapters to runtimes are glue over
  APIs of the platform; schemas, clients and renderers rest on packages outside the repository; the command line and
  the agent packages drive processes and services. Inside the modelled files: timers that only call a modelled step
  (poll, sweep, heartbeat), observers and instrumentation that cannot change a result, the texts of most errors, the
  printing of a mixed segment as a regular expression, response headers of the limiter, and the reconciliation scans of
  the saga store. Stores behind the interfaces answer within the step that calls them.
\<close>

end
